(* ===== verification/Sis_Prelude.thy ===== *)
theory Sis_Prelude
  imports Main "HOL-Library.Char_ord" "HOL-Library.List_Lexorder" "HOL-Library.Word"
begin

text \<open>
  Shared vocabulary of the development.

  \<^item> \<open>omap\<close>: the ordered maps of the code (\<^verbatim>\<open>BTreeMap\<close>; \<^verbatim>\<open>DashMap\<close> where only
    point operations are used) as association lists kept sorted by key. Lookup is
    \<open>map_of\<close>; \<open>oput\<close> and \<open>odel\<close> are insert and remove. The lookup laws hold of
    every list; sortedness (\<open>owf\<close>) is what iteration order needs.
  \<^item> \<open>oset\<close>: \<^verbatim>\<open>BTreeSet\<close> as a strictly sorted list.
  \<^item> the string operations of the Rust standard library that the code uses. A Rust
    \<^verbatim>\<open>str\<close> is its UTF-8 bytes, here a \<open>string\<close> (a list of 8-bit \<open>char\<close>).
\<close>

named_theorems omap_simps \<open>lookup laws of the ordered maps\<close>
named_theorems owf_intros \<open>preservation of sortedness by the ordered maps\<close>


section \<open>Ordered maps\<close>

type_synonym ('k, 'v) omap = "('k \<times> 'v) list"

fun oput :: "'k::linorder \<Rightarrow> 'v \<Rightarrow> ('k, 'v) omap \<Rightarrow> ('k, 'v) omap" where
  "oput k v [] = [(k, v)]"
| "oput k v (e # m) =
     (if k = fst e then (k, v) # m
      else if k < fst e then (k, v) # e # m
      else e # oput k v m)"

definition odel :: "'k \<Rightarrow> ('k, 'v) omap \<Rightarrow> ('k, 'v) omap" where
  "odel k m = filter (\<lambda>e. fst e \<noteq> k) m"

text \<open>\<open>entry(k).or_default()\<close> followed by a change of the entry in place.\<close>

definition oentry :: "'k::linorder \<Rightarrow> 'v \<Rightarrow> ('v \<Rightarrow> 'v) \<Rightarrow> ('k, 'v) omap \<Rightarrow> ('k, 'v) omap" where
  "oentry k d f m = oput k (f (case map_of m k of None \<Rightarrow> d | Some v \<Rightarrow> v)) m"

text \<open>\<open>get_mut(k)\<close>: change the entry if there is one.\<close>

definition oadjust :: "'k::linorder \<Rightarrow> ('v \<Rightarrow> 'v) \<Rightarrow> ('k, 'v) omap \<Rightarrow> ('k, 'v) omap" where
  "oadjust k f m = (case map_of m k of None \<Rightarrow> m | Some v \<Rightarrow> oput k (f v) m)"

abbreviation okeys :: "('k, 'v) omap \<Rightarrow> 'k list" where
  "okeys m \<equiv> map fst m"

abbreviation ovals :: "('k, 'v) omap \<Rightarrow> 'v list" where
  "ovals m \<equiv> map snd m"

definition owf :: "('k::linorder, 'v) omap \<Rightarrow> bool" where
  "owf m \<longleftrightarrow> sorted_wrt (<) (okeys m)"

text \<open>\<open>collect()\<close> into an ordered map: later pairs overwrite earlier ones.\<close>

definition ocollect :: "('k::linorder \<times> 'v) list \<Rightarrow> ('k, 'v) omap" where
  "ocollect xs = foldl (\<lambda>m e. oput (fst e) (snd e) m) [] xs"

lemma map_of_oput [simp, omap_simps]: "map_of (oput k v m) = (map_of m)(k \<mapsto> v)"
  by (induction m) (auto simp: fun_eq_iff)

lemma map_of_odel [simp, omap_simps]: "map_of (odel k m) = (map_of m)(k := None)"
  by (induction m) (auto simp: odel_def fun_eq_iff)

lemma map_of_oentry [simp, omap_simps]:
  "map_of (oentry k d f m) = (map_of m)(k \<mapsto> f (case map_of m k of None \<Rightarrow> d | Some v \<Rightarrow> v))"
  by (simp add: oentry_def)

lemma map_of_oadjust [omap_simps]:
  "map_of (oadjust k f m) = (map_of m)(k := map_option f (map_of m k))"
  by (auto simp: oadjust_def fun_eq_iff split: option.split)

lemma set_okeys_oput [simp]: "fst ` set (oput k v m) = insert k (fst ` set m)"
  by (induction m) auto

lemma set_okeys_odel [simp]: "fst ` set (odel k m) = fst ` set m - {k}"
  by (auto simp: odel_def)

lemma owf_Nil [simp, owf_intros]: "owf []"
  by (simp add: owf_def)

lemma owf_Cons: "owf (e # m) \<longleftrightarrow> (\<forall>k \<in> fst ` set m. fst e < k) \<and> owf m"
  by (auto simp: owf_def)

lemma owf_oput [owf_intros]: "owf m \<Longrightarrow> owf (oput k v m)"
  by (induction m) (auto simp: owf_Cons)

lemma owf_filter: "owf m \<Longrightarrow> owf (filter P m)"
  by (induction m) (auto simp: owf_Cons)

lemma owf_odel [owf_intros]: "owf m \<Longrightarrow> owf (odel k m)"
  by (simp add: odel_def owf_filter)

lemma owf_oentry [owf_intros]: "owf m \<Longrightarrow> owf (oentry k d f m)"
  by (simp add: oentry_def owf_oput)

lemma owf_oadjust [owf_intros]: "owf m \<Longrightarrow> owf (oadjust k f m)"
  by (simp add: oadjust_def owf_oput split: option.split)

lemma owf_distinct: "owf m \<Longrightarrow> distinct (okeys m)"
  by (simp add: owf_def strict_sorted_iff)

lemma owf_mem_iff: "owf m \<Longrightarrow> (k, v) \<in> set m \<longleftrightarrow> map_of m k = Some v"
  by (simp add: owf_distinct)

lemma dom_map_of_keys: "map_of m k \<noteq> None \<longleftrightarrow> k \<in> fst ` set m"
  by (simp add: map_of_eq_None_iff)

lemma map_of_filter_keys:
  "map_of (filter (\<lambda>e. P (fst e)) m) k = (if P k then map_of m k else None)"
  by (induction m) auto

lemma owf_foldl_oput:
  "owf m \<Longrightarrow> owf (foldl (\<lambda>m e. oput (fst e) (snd e) m) m xs)"
  by (induction xs arbitrary: m) (auto intro: owf_intros)

lemma owf_ocollect [owf_intros]: "owf (ocollect xs)"
  unfolding ocollect_def by (rule owf_foldl_oput) simp

lemma map_of_foldl_oput:
  "map_of (foldl (\<lambda>m e. oput (fst e) (snd e) m) m xs) = map_of m ++ map_of (rev xs)"
  by (induction xs arbitrary: m) (auto simp: fun_eq_iff map_add_def split: option.split)

lemma map_of_ocollect: "map_of (ocollect xs) = map_of (rev xs)"
  by (simp add: ocollect_def map_of_foldl_oput)

lemma map_of_ocollect_distinct:
  "distinct (map fst xs) \<Longrightarrow> map_of (ocollect xs) = map_of xs"
  by (simp add: map_of_ocollect map_of_inject_set rev_map [symmetric])

text \<open>Two sorted maps with the same lookups are the same list.\<close>

lemma owf_ext:
  assumes "owf m" and "owf m'" and "map_of m = map_of m'"
  shows "m = m'"
proof -
  have eq: "set m = set m'"
    using assms by (simp add: map_of_inject_set owf_distinct)
  have "inj_on fst (set m \<union> set m')"
    using eq owf_distinct [OF assms(1)] by (simp add: distinct_map)
  with eq assms(1,2) show ?thesis
    by (intro map_sorted_distinct_set_unique [of fst])
       (auto simp: owf_distinct owf_def strict_sorted_imp_sorted)
qed


section \<open>Ordered sets\<close>

definition oset :: "'a::linorder list \<Rightarrow> 'a list" where
  "oset xs = sort (remdups xs)"

lemma set_oset [simp]: "set (oset xs) = set xs"
  by (simp add: oset_def)

lemma sorted_oset [simp]: "sorted (oset xs)"
  by (simp add: oset_def)

lemma distinct_oset [simp]: "distinct (oset xs)"
  by (simp add: oset_def)


section \<open>Strings of the Rust standard library\<close>

abbreviation is_ascii_digit :: "char \<Rightarrow> bool" where
  "is_ascii_digit c \<equiv> 48 \<le> (of_char c :: nat) \<and> (of_char c :: nat) \<le> 57"

definition is_ascii_hexdigit :: "char \<Rightarrow> bool" where
  "is_ascii_hexdigit c \<longleftrightarrow> is_ascii_digit c
     \<or> (65 \<le> (of_char c :: nat) \<and> (of_char c :: nat) \<le> 70)
     \<or> (97 \<le> (of_char c :: nat) \<and> (of_char c :: nat) \<le> 102)"

definition char_lower :: "char \<Rightarrow> char" where
  "char_lower c = (if 65 \<le> (of_char c :: nat) \<and> (of_char c :: nat) \<le> 90
                   then char_of ((of_char c :: nat) + 32) else c)"

definition char_upper :: "char \<Rightarrow> char" where
  "char_upper c = (if 97 \<le> (of_char c :: nat) \<and> (of_char c :: nat) \<le> 122
                   then char_of ((of_char c :: nat) - 32) else c)"

definition to_ascii_lowercase :: "string \<Rightarrow> string" where
  "to_ascii_lowercase s = map char_lower s"

definition to_ascii_uppercase :: "string \<Rightarrow> string" where
  "to_ascii_uppercase s = map char_upper s"

definition eq_ignore_ascii_case :: "string \<Rightarrow> string \<Rightarrow> bool" where
  "eq_ignore_ascii_case a b \<longleftrightarrow> to_ascii_lowercase a = to_ascii_lowercase b"

text \<open>
  \<open>chars()\<close> walks Unicode scalar values. In valid UTF-8 every scalar value has exactly
  one byte that is not a continuation byte (\<open>10xxxxxx\<close>), its first.
\<close>

definition is_continuation :: "char \<Rightarrow> bool" where
  "is_continuation c \<longleftrightarrow> 128 \<le> (of_char c :: nat) \<and> (of_char c :: nat) < 192"

definition chars_count :: "string \<Rightarrow> nat" where
  "chars_count s = length (filter (\<lambda>c. \<not> is_continuation c) s)"

fun chars_take :: "nat \<Rightarrow> string \<Rightarrow> string" where
  "chars_take n [] = []"
| "chars_take n (c # s) =
     (if is_continuation c then c # chars_take n s
      else case n of 0 \<Rightarrow> [] | Suc m \<Rightarrow> c # chars_take m s)"

text \<open>
  The encodings of the Unicode \<open>White_Space\<close> characters, which \<open>trim\<close> strips from both
  ends.
\<close>

definition whitespace :: "string list" where
  "whitespace = map (map (char_of :: nat \<Rightarrow> char))
     ([[9], [10], [11], [12], [13], [32], [194, 133], [194, 160], [225, 154, 128],
       [226, 128, 168], [226, 128, 169], [226, 128, 175], [226, 129, 159], [227, 128, 128]]
      @ map (\<lambda>b. [226, 128, b]) [128, 129, 130, 131, 132, 133, 134, 135, 136, 137, 138])"

text \<open>The number of leading bytes that encode white space (0 when there are none).\<close>

definition leading_space :: "string list \<Rightarrow> string \<Rightarrow> nat" where
  "leading_space ws s = (case find (\<lambda>w. take (length w) s = w) ws of None \<Rightarrow> 0 | Some w \<Rightarrow> length w)"

function strip_leading :: "string list \<Rightarrow> string \<Rightarrow> string" where
  "strip_leading ws s =
     (if leading_space ws s = 0 \<or> s = [] then s else strip_leading ws (drop (leading_space ws s) s))"
  by pat_completeness auto
termination
  by (relation "measure (\<lambda>(ws, s). length s)") auto

declare strip_leading.simps [simp del]

definition trim :: "string \<Rightarrow> string" where
  "trim s = rev (strip_leading (map rev whitespace) (rev (strip_leading whitespace s)))"

definition strip_prefix :: "string \<Rightarrow> string \<Rightarrow> string option" where
  "strip_prefix p s = (if take (length p) s = p then Some (drop (length p) s) else None)"

text \<open>
  \<open>str::parse\<close> for an unsigned integer: an optional \<open>+\<close>, at least one digit, no other
  character, and a value within the width.
\<close>

fun digits_val :: "nat \<Rightarrow> string \<Rightarrow> nat option" where
  "digits_val acc [] = Some acc"
| "digits_val acc (c # cs) =
     (if is_ascii_digit c then digits_val (10 * acc + (of_char c - 48)) cs else None)"

definition strip_plus :: "string \<Rightarrow> string" where
  "strip_plus s = (case s of [] \<Rightarrow> [] | c # cs \<Rightarrow> if c = CHR ''+'' then cs else s)"

definition parse_uint :: "string \<Rightarrow> 'w::len word option" where
  "parse_uint s =
     (if strip_plus s = [] then None
      else case digits_val 0 (strip_plus s) of
             None \<Rightarrow> None
           | Some n \<Rightarrow> if n < 2 ^ LENGTH('w) then Some (of_nat n) else None)"

text \<open>Decimal rendering, \<open>to_string\<close> of an unsigned integer.\<close>

fun show_nat :: "nat \<Rightarrow> string" where
  "show_nat n = (if n < 10 then [char_of (48 + n)]
                 else show_nat (n div 10) @ [char_of (48 + n mod 10)])"

declare show_nat.simps [simp del]

definition show_uint :: "'w::len word \<Rightarrow> string" where
  "show_uint w = show_nat (unat w)"

lemma digits_val_append:
  "digits_val acc (xs @ ys) =
     (case digits_val acc xs of None \<Rightarrow> None | Some n \<Rightarrow> digits_val n ys)"
  by (induction xs arbitrary: acc) auto

lemma digits_val_show_nat: "digits_val 0 (show_nat n) = Some n"
proof (induction n rule: show_nat.induct)
  case (1 n)
  show ?case
  proof (cases "n < 10")
    case True
    then show ?thesis by (subst show_nat.simps) (simp add: of_char_of)
  next
    case False
    then have "n mod 10 < 10" and "10 * (n div 10) + n mod 10 = n"
      by simp_all
    with False 1 show ?thesis
      by (subst show_nat.simps) (simp add: digits_val_append of_char_of)
  qed
qed

lemma show_nat_hd: "\<exists>c cs. show_nat n = c # cs \<and> is_ascii_digit c"
proof (induction n rule: show_nat.induct)
  case (1 n)
  then show ?case
    by (cases "n < 10"; subst show_nat.simps) (auto simp: of_char_of)
qed

lemma show_nat_digits: "\<forall>c \<in> set (show_nat n). is_ascii_digit c"
proof (induction n rule: show_nat.induct)
  case (1 n)
  have "n mod 10 < 10" by simp
  with 1 show ?case
    by (cases "n < 10"; subst show_nat.simps) (auto simp: of_char_of)
qed

lemma parse_show_nat:
  assumes "n < 2 ^ LENGTH('w)"
  shows "parse_uint (show_nat n) = Some (of_nat n :: 'w::len word)"
proof -
  obtain c cs where c: "show_nat n = c # cs" "is_ascii_digit c"
    using show_nat_hd by blast
  then have "c \<noteq> CHR ''+''" by auto
  with c have "strip_plus (show_nat n) = show_nat n" and "show_nat n \<noteq> []"
    by (simp_all add: strip_plus_def)
  with assms show ?thesis
    by (simp add: parse_uint_def digits_val_show_nat)
qed

lemma parse_show_uint: "parse_uint (show_uint w) = Some w"
  by (simp add: show_uint_def parse_show_nat unsigned_less)

lemma chars_take_length: "chars_count (chars_take n s) \<le> n"
proof (induction n s rule: chars_take.induct)
  case (2 n c s)
  then show ?case by (auto simp: chars_count_def split: nat.splits)
qed (simp add: chars_count_def)

lemma chars_take_id: "chars_count s \<le> n \<Longrightarrow> chars_take n s = s"
proof (induction n s rule: chars_take.induct)
  case (2 n c s)
  then show ?case by (auto simp: chars_count_def split: nat.splits if_splits)
qed simp

end
