(* ===== verification/Sis_Types.thy ===== *)
theory Sis_Types
  imports Sis_Prelude
begin

text \<open>
  The wire types of \<^verbatim>\<open>sismatic-api-types\<close> that the store ports, the outbox, the relay and
  the read store exchange: identifiers, decoded values, reads, intents, write records.
  Field names carry a prefix for their struct (\<open>wr_\<close> for \<open>WriteRecord\<close> and so on).
\<close>

type_synonym device_id = string
type_synonym group_id = string
type_synonym field_name = string
type_synonym write_id = string
type_synonym batch_id = string

text \<open>
  \<open>Timestamp(pub String)\<close>, RFC 3339 text compared as a plain string: bytewise
  lexicographic order, the order of \<open>string\<close> here.
\<close>

type_synonym timestamp = string


section \<open>Values and reads\<close>

datatype recording_state = Stopped | Started | PausedState | Unknown

record alarm =
  al_name :: string
  al_level :: string

datatype read_value =
    Text string
  | Version string
  | Port "16 word"
  | Number "32 word"
  | Flag bool
  | Mac string
  | Ack string
  | State recording_state
  | Alarms "alarm list"

record read =
  rd_device :: device_id
  rd_field :: field_name
  rd_value :: read_value
  rd_at :: timestamp

record time_span =
  ts_start :: timestamp
  ts_end :: timestamp

definition within :: "time_span \<Rightarrow> timestamp \<Rightarrow> bool" where
  "within span at \<longleftrightarrow> ts_start span \<le> at \<and> at \<le> ts_end span"

record group_expectation =
  ge_field :: field_name
  ge_value :: read_value
  ge_since :: timestamp


section \<open>The write side\<close>

datatype barrier = DispatchReady | FailBatch

datatype intent =
    StartRecording
  | StopRecording
  | PauseRecording
  | SetMetadata field_name string
  | SetSetting field_name string

datatype desired_recording_state = Idle | Recording | Paused

datatype rejection =
  MetadataFrozen | AlreadyRecording | AlreadyPaused | NotRecording | FieldDisabled

datatype write_status =
    Pending
  | InFlight
  | Succeeded read_value
  | Failed string
  | Canceled string

record write_record =
  wr_id :: write_id
  wr_device :: device_id
  wr_intent :: intent
  wr_batch :: "batch_id option"
  wr_epoch :: nat
  wr_status :: write_status
  wr_attempts :: nat
  wr_enqueued_at :: timestamp
  wr_updated_at :: timestamp
  wr_not_before :: timestamp

record accepted =
  ac_id :: write_id
  ac_device :: device_id
  ac_epoch :: nat

record acceptance =
  acc_batch :: "batch_id option"
  acc_writes :: "accepted list"

text \<open>A status is settled when nothing will move it again.\<close>

fun settled :: "write_status \<Rightarrow> bool" where
  "settled Pending = False"
| "settled InFlight = False"
| "settled (Succeeded v) = True"
| "settled (Failed r) = True"
| "settled (Canceled r) = True"


section \<open>The error envelope\<close>

datatype error_code =
    UnknownDevice
  | BadInstruction
  | BadRequest
  | DeviceFault
  | NotFound
  | Conflict
  | Internal

record api_error =
  ae_error :: string
  ae_code :: "error_code option"
  ae_rejection :: "rejection option"

definition api_message :: "string \<Rightarrow> api_error" where
  "api_message msg = \<lparr>ae_error = msg, ae_code = None, ae_rejection = None\<rparr>"

definition api_coded :: "error_code \<Rightarrow> string \<Rightarrow> api_error" where
  "api_coded code msg = \<lparr>ae_error = msg, ae_code = Some code, ae_rejection = None\<rparr>"

definition api_rejected :: "rejection \<Rightarrow> string \<Rightarrow> api_error" where
  "api_rejected rej msg =
     \<lparr>ae_error = msg, ae_code = Some Conflict, ae_rejection = Some rej\<rparr>"

text \<open>\<open>impl Display for Rejection\<close>.\<close>

fun show_rejection :: "rejection \<Rightarrow> string" where
  "show_rejection MetadataFrozen =
     ''metadata_frozen: a recording is in progress, so this device's metadata is sealed until it stops''"
| "show_rejection AlreadyRecording = ''already_recording: this device is already recording''"
| "show_rejection AlreadyPaused = ''already_paused: this device's recording is already paused''"
| "show_rejection NotRecording = ''not_recording: this device has no recording in progress''"
| "show_rejection FieldDisabled =
     ''field_disabled: this field is switched off in the devices file for the device this write addresses''"

end
