(* ===== verification/Sis_Store.thy ===== *)
theory Sis_Store
  imports Sis_Types
begin

text \<open>
  \<^verbatim>\<open>sismatic-store-memory/src/lib.rs\<close>: the in-memory read store. \<open>latest\<close> holds one
  read per device and field, \<open>history\<close> a series per device and field, and the ledger one
  slot per history entry in write order, with the byte totals the budget is held against.
  The figures \<open>size_of\<close> gives are fixed by the compiler: they are the fs of the
  parameter record \<open>layout\<close>. Byte counts are natural numbers; every subtraction of the code
  saturates, as subtraction of natural numbers does. Each method is one function; the code
  lets the maps and the ledger disagree only inside a method.
\<close>

named_theorems store_defs \<open>definitions of the read store\<close>


section \<open>State\<close>

record slot =
  sl_device :: device_id
  sl_field :: field_name
  sl_at :: timestamp
  sl_bytes :: nat

record books =
  bk_budget :: "nat option"
  bk_queue :: "slot list"
  bk_history_bytes :: nat
  bk_latest_bytes :: nat
  bk_evicted :: nat

record store =
  st_latest :: "(device_id, (field_name, read) omap) omap"
  st_history :: "(device_id, (field_name, read list) omap) omap"
  st_books :: books

record swept =
  sw_entries :: nat
  sw_bytes :: nat

record usage =
  us_bytes :: nat
  us_entries :: nat
  us_budget :: "nat option"
  us_evicted :: nat

definition over_budget :: "usage \<Rightarrow> bool" where
  "over_budget u = (case us_budget u of None \<Rightarrow> False | Some cap \<Rightarrow> cap < us_bytes u)"

definition with_budget :: "nat option \<Rightarrow> store" where
  "with_budget budget = \<lparr>st_latest = [], st_history = [],
     st_books = \<lparr>bk_budget = budget, bk_queue = [], bk_history_bytes = 0, bk_latest_bytes = 0,
                 bk_evicted = 0\<rparr>\<rparr>"


section \<open>The estimate\<close>

record layout =
  size_of_read :: nat
  size_of_alarm :: nat
  size_of_slot :: nat

definition ENTRY_OVERHEAD :: nat where
  "ENTRY_OVERHEAD = 64"

fun value_bytes :: "layout \<Rightarrow> read_value \<Rightarrow> nat" where
  "value_bytes l (Text s) = length s"
| "value_bytes l (Version s) = length s"
| "value_bytes l (Ack s) = length s"
| "value_bytes l (Mac s) = length s"
| "value_bytes l (Alarms as) =
     sum_list (map (\<lambda>a. size_of_alarm l + length (al_name a) + length (al_level a)) as)"
| "value_bytes l (Port p) = 0"
| "value_bytes l (Number n) = 0"
| "value_bytes l (Flag b) = 0"
| "value_bytes l (State s) = 0"

definition read_bytes :: "layout \<Rightarrow> read \<Rightarrow> nat" where
  "read_bytes l r = size_of_read l + length (rd_device r) + length (rd_field r) + length (rd_at r)
     + value_bytes l (rd_value r)"

definition latest_bytes :: "layout \<Rightarrow> read \<Rightarrow> nat" where
  "latest_bytes l r = read_bytes l r + length (rd_field r) + ENTRY_OVERHEAD"

definition history_bytes :: "layout \<Rightarrow> read \<Rightarrow> nat" where
  "history_bytes l r = read_bytes l r
     + (size_of_slot l + length (rd_device r) + length (rd_field r) + length (rd_at r)) + ENTRY_OVERHEAD"


section \<open>The books\<close>

definition used :: "books \<Rightarrow> nat" where
  "used b = bk_latest_bytes b + bk_history_bytes b"

definition record_slot :: "slot \<Rightarrow> books \<Rightarrow> books" where
  "record_slot s b = b\<lparr>bk_history_bytes := bk_history_bytes b + sl_bytes s, bk_queue := bk_queue b @ [s]\<rparr>"

definition restate_latest :: "nat \<Rightarrow> nat \<Rightarrow> books \<Rightarrow> books" where
  "restate_latest added removed b = b\<lparr>bk_latest_bytes := bk_latest_bytes b + added - removed\<rparr>"

function take_over_budget :: "nat \<Rightarrow> books \<Rightarrow> books \<times> slot list" where
  "take_over_budget budget b =
     (if budget < used b then
        (case bk_queue b of
           [] \<Rightarrow> (b, [])
         | s # q \<Rightarrow>
             (let (b', taken) = take_over_budget budget
                (b\<lparr>bk_queue := q, bk_history_bytes := bk_history_bytes b - sl_bytes s,
                   bk_evicted := bk_evicted b + 1\<rparr>)
              in (b', s # taken)))
      else (b, []))"
  by pat_completeness auto
termination
  by (relation "measure (\<lambda>(budget, b). length (bk_queue b))") auto

declare take_over_budget.simps [simp del]

definition enforce :: "books \<Rightarrow> books \<times> slot list" where
  "enforce b = (case bk_budget b of Some budget \<Rightarrow> take_over_budget budget b | None \<Rightarrow> (b, []))"

text \<open>One pass over the queue: the bytes left, the slots kept and the slots taken, both in order.\<close>

fun sift :: "(slot \<Rightarrow> bool) \<Rightarrow> slot list \<Rightarrow> nat \<Rightarrow> nat \<times> slot list \<times> slot list" where
  "sift P [] bytes = (bytes, [], [])"
| "sift P (s # q) bytes =
     (if P s then (let (bytes', kept, taken) = sift P q (bytes - sl_bytes s) in (bytes', kept, s # taken))
      else (let (bytes', kept, taken) = sift P q bytes in (bytes', s # kept, taken)))"

definition take_expired :: "timestamp \<Rightarrow> books \<Rightarrow> books \<times> slot list" where
  "take_expired cutoff b =
     (case sift (\<lambda>s. sl_at s < cutoff) (bk_queue b) (bk_history_bytes b) of (bytes, kept, taken) \<Rightarrow>
        (b\<lparr>bk_history_bytes := bytes, bk_queue := kept\<rparr>, taken))"

definition take_device :: "device_id \<Rightarrow> books \<Rightarrow> books \<times> slot list" where
  "take_device d b =
     (case sift (\<lambda>s. sl_device s = d) (bk_queue b) (bk_history_bytes b) of (bytes, kept, taken) \<Rightarrow>
        (b\<lparr>bk_history_bytes := bytes, bk_queue := kept\<rparr>, taken))"

definition admit_slot :: "nat \<Rightarrow> nat \<Rightarrow> slot \<Rightarrow> books \<Rightarrow> books \<times> slot list" where
  "admit_slot added displaced s b = enforce (record_slot s (restate_latest added displaced b))"

definition recap :: "nat option \<Rightarrow> books \<Rightarrow> books \<times> slot list" where
  "recap budget b = enforce (b\<lparr>bk_budget := budget\<rparr>)"

definition expire :: "timestamp \<Rightarrow> books \<Rightarrow> books \<times> slot list" where
  "expire cutoff b = take_expired cutoff b"

definition forget :: "device_id \<Rightarrow> nat \<Rightarrow> books \<Rightarrow> books \<times> slot list" where
  "forget d latest b = take_device d (restate_latest 0 latest b)"


section \<open>The store\<close>

type_synonym history = "(device_id, (field_name, read list) omap) omap"

text \<open>
  \<open>drop_front\<close>, one slot: pop the front of the series it names, then drop an empty series and
  an empty device entry. A missing series is skipped.
\<close>

definition drop_slot :: "slot \<Rightarrow> history \<Rightarrow> history" where
  "drop_slot s h =
     (case map_of h (sl_device s) of
        None \<Rightarrow> h
      | Some fs \<Rightarrow>
          (let fs' =
                 (case map_of fs (sl_field s) of
                    None \<Rightarrow> fs
                  | Some series \<Rightarrow>
                      if tl series = [] then odel (sl_field s) fs
                      else oput (sl_field s) (tl series) fs)
           in if fs' = [] then odel (sl_device s) h else oput (sl_device s) fs' h))"

definition drop_front :: "slot list \<Rightarrow> history \<Rightarrow> history" where
  "drop_front slots h = fold drop_slot slots h"

definition latest :: "store \<Rightarrow> device_id \<Rightarrow> field_name \<Rightarrow> read option" where
  "latest st d f = Option.bind (map_of (st_latest st) d) (\<lambda>fs. map_of fs f)"

definition latest_all :: "store \<Rightarrow> device_id \<Rightarrow> read list" where
  "latest_all st d = (case map_of (st_latest st) d of None \<Rightarrow> [] | Some fs \<Rightarrow> ovals fs)"

definition series :: "history \<Rightarrow> device_id \<Rightarrow> field_name \<Rightarrow> read list" where
  "series h d f =
     (case Option.bind (map_of h d) (\<lambda>fs. map_of fs f) of None \<Rightarrow> [] | Some s \<Rightarrow> s)"

definition between :: "store \<Rightarrow> device_id \<Rightarrow> field_name \<Rightarrow> time_span \<Rightarrow> read list" where
  "between st d f span = filter (\<lambda>r. within span (rd_at r)) (series (st_history st) d f)"

definition slot_of :: "layout \<Rightarrow> read \<Rightarrow> slot" where
  "slot_of l r = \<lparr>sl_device = rd_device r, sl_field = rd_field r, sl_at = rd_at r, sl_bytes = history_bytes l r\<rparr>"

definition upsert_latest :: "layout \<Rightarrow> read \<Rightarrow> store \<Rightarrow> store" where
  "upsert_latest l r st =
     (let displaced = (case latest st (rd_device r) (rd_field r) of None \<Rightarrow> 0 | Some old \<Rightarrow> latest_bytes l old);
          new_latest = oentry (rd_device r) [] (oput (rd_field r) r) (st_latest st);
          new_history = oentry (rd_device r) [] (oentry (rd_field r) [] (\<lambda>s. s @ [r])) (st_history st);
          (b, evicted) = admit_slot (latest_bytes l r) displaced (slot_of l r) (st_books st)
      in \<lparr>st_latest = new_latest, st_history = drop_front evicted new_history, st_books = b\<rparr>)"

definition prune :: "timestamp \<Rightarrow> store \<Rightarrow> store \<times> swept" where
  "prune cutoff st =
     (case expire cutoff (st_books st) of (b, expired) \<Rightarrow>
        (st\<lparr>st_history := drop_front expired (st_history st), st_books := b\<rparr>,
         \<lparr>sw_entries = length expired, sw_bytes = sum_list (map sl_bytes expired)\<rparr>))"

definition usage_of :: "store \<Rightarrow> usage" where
  "usage_of st = \<lparr>us_bytes = used (st_books st), us_entries = length (bk_queue (st_books st)),
     us_budget = bk_budget (st_books st), us_evicted = bk_evicted (st_books st)\<rparr>"

definition set_budget :: "nat option \<Rightarrow> store \<Rightarrow> store \<times> nat" where
  "set_budget budget st =
     (case recap budget (st_books st) of (b, evicted) \<Rightarrow>
        (st\<lparr>st_history := drop_front evicted (st_history st), st_books := b\<rparr>, length evicted))"

definition forget_device :: "layout \<Rightarrow> device_id \<Rightarrow> store \<Rightarrow> store \<times> nat" where
  "forget_device l d st =
     (let dropped = (case map_of (st_latest st) d of None \<Rightarrow> 0
                     | Some fs \<Rightarrow> sum_list (map (latest_bytes l) (ovals fs)));
          (b, slots) = forget d dropped (st_books st)
      in (\<lparr>st_latest = odel d (st_latest st), st_history = odel d (st_history st), st_books = b\<rparr>,
          length slots))"


section \<open>The series and the ledger in step\<close>

definition on :: "device_id \<Rightarrow> field_name \<Rightarrow> slot \<Rightarrow> bool" where
  "on d f s \<longleftrightarrow> sl_device s = d \<and> sl_field s = f"

definition in_step :: "layout \<Rightarrow> history \<Rightarrow> slot list \<Rightarrow> bool" where
  "in_step l h q \<longleftrightarrow> (\<forall>d f. map (slot_of l) (series h d f) = filter (on d f) q)"

text \<open>No empty series and no empty device entry is left behind.\<close>

definition tidy :: "history \<Rightarrow> bool" where
  "tidy h \<longleftrightarrow> (\<forall>d fs. map_of h d = Some fs \<longrightarrow>
     fs \<noteq> [] \<and> (\<forall>f s. map_of fs f = Some s \<longrightarrow> s \<noteq> []))"

lemma oput_not_Nil [simp]: "oput k v m \<noteq> []"
  by (cases m) auto

lemma odel_Nil: "odel k m = [] \<Longrightarrow> f \<noteq> k \<Longrightarrow> map_of m f = None"
  by (metis fun_upd_other map_of.simps(1) map_of_odel)

lemma series_drop_slot:
  "series (drop_slot s h) d f = (if on d f s then tl (series h d f) else series h d f)"
  by (auto simp: series_def drop_slot_def on_def Let_def dest: odel_Nil split: option.split)

lemma tidy_drop_slot: "tidy h \<Longrightarrow> tidy (drop_slot s h)"
  by (auto simp: tidy_def drop_slot_def Let_def split: option.splits if_splits)

lemma tidy_drop_front: "tidy h \<Longrightarrow> tidy (drop_front ss h)"
  unfolding drop_front_def by (induction ss arbitrary: h) (auto intro: tidy_drop_slot)

text \<open>
  Popping fronts removes exactly the slots that were taken, when the taken slots of each
  series are its oldest.
\<close>

lemma drop_front_series:
  "(\<And>d f. map (slot_of l) (series h d f) = filter (on d f) taken @ filter (on d f) kept) \<Longrightarrow>
     in_step l (drop_front taken h) kept"
proof (induction taken arbitrary: h)
  case Nil
  then show ?case by (simp add: in_step_def drop_front_def)
next
  case (Cons s taken)
  have "map (slot_of l) (series (drop_slot s h) d f) = filter (on d f) taken @ filter (on d f) kept" for d f
    using Cons.prems [of d f] by (cases "on d f s") (auto simp: series_drop_slot map_tl)
  then have "in_step l (drop_front taken (drop_slot s h)) kept" by (rule Cons.IH)
  then show ?case by (simp add: drop_front_def)
qed

text \<open>The passes over the queue.\<close>

lemma sift_eq:
  "sum_list (map sl_bytes q) \<le> bytes \<Longrightarrow>
     sift P q bytes = (bytes - sum_list (map sl_bytes (filter P q)), filter (\<lambda>s. \<not> P s) q, filter P q)"
  by (induction q arbitrary: bytes) (auto simp: Let_def)

text \<open>Eviction takes a shortest prefix of the queue.\<close>

lemma take_over_budget_nothing: "take_over_budget budget b = (b', []) \<Longrightarrow> b' = b"
  by (subst (asm) take_over_budget.simps) (auto split: if_splits list.splits prod.splits)

lemma take_over_budget_spec:
  assumes "bk_history_bytes b = sum_list (map sl_bytes (bk_queue b))"
    and "take_over_budget budget b = (b', taken)"
  shows "bk_queue b = taken @ bk_queue b'"
    and "bk_history_bytes b' = sum_list (map sl_bytes (bk_queue b'))"
    and "bk_latest_bytes b' = bk_latest_bytes b" and "bk_budget b' = bk_budget b"
    and "bk_evicted b' = bk_evicted b + length taken"
    and "used b' \<le> budget \<or> bk_queue b' = []"
    and "taken \<noteq> [] \<Longrightarrow> budget < used b' + sl_bytes (last taken)"
proof -
  have "bk_queue b = taken @ bk_queue b' \<and> bk_history_bytes b' = sum_list (map sl_bytes (bk_queue b'))
    \<and> bk_latest_bytes b' = bk_latest_bytes b \<and> bk_budget b' = bk_budget b
    \<and> bk_evicted b' = bk_evicted b + length taken \<and> (used b' \<le> budget \<or> bk_queue b' = [])
    \<and> (taken \<noteq> [] \<longrightarrow> budget < used b' + sl_bytes (last taken))"
    using assms
  proof (induction budget b arbitrary: b' taken rule: take_over_budget.induct)
    case (1 budget b)
    show ?case
    proof (cases "budget < used b")
      case False
      with 1(2,3) show ?thesis by (simp add: take_over_budget.simps [of budget b])
    next
      case over: True
      show ?thesis
      proof (cases "bk_queue b")
        case Nil
        with over 1(2,3) show ?thesis by (simp add: take_over_budget.simps [of budget b])
      next
        case (Cons s q)
        let ?b = "b\<lparr>bk_queue := q, bk_history_bytes := bk_history_bytes b - sl_bytes s, bk_evicted := bk_evicted b + 1\<rparr>"
        obtain rest where rest: "take_over_budget budget ?b = (b', rest)" "taken = s # rest"
          using over Cons 1(3) by (auto simp: take_over_budget.simps [of budget b] Let_def split: prod.splits)
        have bytes: "bk_history_bytes ?b = sum_list (map sl_bytes (bk_queue ?b))"
          using 1(2) Cons by simp
        note IH = 1(1) [OF over Cons bytes rest(1)]
        have "budget < used b' + sl_bytes s" if "rest = []"
        proof -
          have "b' = ?b"
            using rest(1) that by (blast dest: take_over_budget_nothing)
          with over 1(2) Cons show ?thesis by (simp add: used_def)
        qed
        with IH rest(2) Cons show ?thesis by (cases "rest = []") auto
      qed
    qed
  qed
  then show "bk_queue b = taken @ bk_queue b'"
    "bk_history_bytes b' = sum_list (map sl_bytes (bk_queue b'))"
    "bk_latest_bytes b' = bk_latest_bytes b" "bk_budget b' = bk_budget b"
    "bk_evicted b' = bk_evicted b + length taken" "used b' \<le> budget \<or> bk_queue b' = []"
    "taken \<noteq> [] \<Longrightarrow> budget < used b' + sl_bytes (last taken)" by blast+
qed

lemma enforce_spec:
  assumes "bk_history_bytes b = sum_list (map sl_bytes (bk_queue b))" and "enforce b = (b', taken)"
  shows "bk_queue b = taken @ bk_queue b'"
    and "bk_history_bytes b' = sum_list (map sl_bytes (bk_queue b'))"
    and "bk_latest_bytes b' = bk_latest_bytes b" and "bk_budget b' = bk_budget b"
    and "bk_budget b = Some cap \<Longrightarrow> used b' \<le> cap \<or> bk_queue b' = []"
    and "bk_budget b = Some cap \<Longrightarrow> taken \<noteq> [] \<Longrightarrow> cap < used b' + sl_bytes (last taken)"
    and "bk_budget b = None \<Longrightarrow> taken = [] \<and> b' = b"
  using assms take_over_budget_spec [of b _ b' taken]
  by (auto simp: enforce_def split: option.splits)


section \<open>The invariant of the store\<close>

definition latest_total :: "layout \<Rightarrow> store \<Rightarrow> nat" where
  "latest_total l st = sum_list (map (\<lambda>e. sum_list (map (latest_bytes l) (ovals (snd e)))) (st_latest st))"

definition stamped :: "history \<Rightarrow> bool" where
  "stamped h \<longleftrightarrow> (\<forall>d f. sorted (map rd_at (series h d f)))"

text \<open>
  The ledger's totals are the true ones, the ledger holds the slots of every series in the
  order of the series, nothing empty is kept, the stamps of a series do not go down, and the
  last entry of a series is the latest read.
\<close>

definition store_ok :: "layout \<Rightarrow> store \<Rightarrow> bool" where
  "store_ok l st \<longleftrightarrow>
     bk_history_bytes (st_books st) = sum_list (map sl_bytes (bk_queue (st_books st)))
     \<and> bk_latest_bytes (st_books st) = latest_total l st
     \<and> in_step l (st_history st) (bk_queue (st_books st))
     \<and> tidy (st_history st) \<and> stamped (st_history st)
     \<and> owf (st_latest st) \<and> (\<forall>d fs. map_of (st_latest st) d = Some fs \<longrightarrow> owf fs)
     \<and> (\<forall>d f. series (st_history st) d f \<noteq> [] \<longrightarrow> latest st d f = Some (last (series (st_history st) d f)))"

lemma store_okD:
  assumes "store_ok l st"
  shows "bk_history_bytes (st_books st) = sum_list (map sl_bytes (bk_queue (st_books st)))"
    and "bk_latest_bytes (st_books st) = latest_total l st"
    and "in_step l (st_history st) (bk_queue (st_books st))"
    and "tidy (st_history st)" and "stamped (st_history st)"
    and "owf (st_latest st)" and "map_of (st_latest st) d = Some fs \<Longrightarrow> owf fs"
    and "series (st_history st) d f \<noteq> [] \<Longrightarrow> latest st d f = Some (last (series (st_history st) d f))"
  using assms by (auto simp: store_ok_def)

lemma with_budget_ok: "store_ok l (with_budget b)"
  by (simp add: store_ok_def with_budget_def latest_total_def in_step_def tidy_def stamped_def series_def)

text \<open>Dropping from the front of a series leaves a suffix of it.\<close>

lemma drop_front_suffix: "\<exists>n. series (drop_front ss h) d f = drop n (series h d f)"
proof (induction ss arbitrary: h)
  case Nil
  show ?case by (simp add: drop_front_def exI [of _ 0])
next
  case (Cons s ss)
  obtain n where "series (drop_front ss (drop_slot s h)) d f = drop n (series (drop_slot s h) d f)"
    using Cons.IH by blast
  then show ?case
    by (auto simp: drop_front_def series_drop_slot drop_Suc [symmetric])
qed

lemma sorted_drop_front: "stamped h \<Longrightarrow> stamped (drop_front ss h)"
  unfolding stamped_def
proof (intro allI)
  fix d f
  assume "\<forall>d f. sorted (map rd_at (series h d f))"
  moreover obtain n where "series (drop_front ss h) d f = drop n (series h d f)"
    using drop_front_suffix by blast
  ultimately show "sorted (map rd_at (series (drop_front ss h) d f))"
    by (simp add: drop_map [symmetric])
qed

lemma last_drop_front:
  assumes "series (drop_front ss h) d f \<noteq> []"
  shows "series h d f \<noteq> [] \<and> last (series (drop_front ss h) d f) = last (series h d f)"
proof -
  obtain n where "series (drop_front ss h) d f = drop n (series h d f)" using drop_front_suffix by blast
  with assms show ?thesis by (auto simp: last_drop)
qed

section \<open>Every operation keeps it\<close>

lemma sum_oput:
  fixes g :: "'b \<Rightarrow> nat"
  assumes "owf m"
  shows "sum_list (map (\<lambda>e. g (snd e)) (oput k v m)) + (case map_of m k of None \<Rightarrow> 0 | Some old \<Rightarrow> g old)
    = sum_list (map (\<lambda>e. g (snd e)) m) + g v"
  using assms
proof (induction m)
  case (Cons e m)
  have "map_of m k = None" if "k < fst e"
    using Cons.prems that by (fastforce simp: owf_Cons map_of_eq_None_iff)
  moreover have "map_of m k = None" if "k = fst e"
    using Cons.prems that by (fastforce simp: owf_Cons map_of_eq_None_iff)
  ultimately show ?case using Cons by (auto simp: owf_Cons split: option.split)
qed simp

lemma sum_odel:
  fixes g :: "'b \<Rightarrow> nat"
  assumes "owf m"
  shows "sum_list (map (\<lambda>e. g (snd e)) (odel k m)) + (case map_of m k of None \<Rightarrow> 0 | Some old \<Rightarrow> g old)
    = sum_list (map (\<lambda>e. g (snd e)) m)"
  using assms
proof (induction m)
  case (Cons e m)
  have "odel k m = m \<and> map_of m k = None" if "k = fst e"
    using Cons.prems that by (auto simp: owf_Cons map_of_eq_None_iff odel_def intro!: filter_True)
  with Cons show ?case by (auto simp: owf_Cons odel_def split: option.splits)
qed (simp add: odel_def)

lemma series_append [simp]:
  "series (oentry d [] (oentry f [] (\<lambda>s. s @ [r])) h) d' f'
     = (if d' = d \<and> f' = f then series h d f @ [r] else series h d' f')"
  by (auto simp: series_def split: option.split)

lemma series_odel [simp]: "series (odel d h) d' f = (if d' = d then [] else series h d' f)"
  by (simp add: series_def)

lemma series_device:
  assumes "in_step l h q" and "r \<in> set (series h d f)"
  shows "rd_device r = d \<and> rd_field r = f"
proof -
  have "slot_of l r \<in> set (map (slot_of l) (series h d f))" using assms(2) by simp
  then have "slot_of l r \<in> set (filter (on d f) q)" using assms(1) by (simp only: in_step_def)
  then show ?thesis by (simp add: on_def slot_of_def)
qed

text \<open>What the eviction of a settled ledger does to the history.\<close>

lemma in_step_evict:
  assumes "in_step l h q" and "q = taken @ kept"
  shows "in_step l (drop_front taken h) kept"
  using assms by (intro drop_front_series) (simp add: in_step_def)

lemma sorted_split_key:
  fixes key :: "'a \<Rightarrow> 'b::linorder"
  assumes "sorted (map key xs)"
  shows "filter (\<lambda>x. key x < c) xs @ filter (\<lambda>x. \<not> key x < c) xs = xs"
  using assms
proof (induction xs)
  case (Cons x xs)
  show ?case
  proof (cases "key x < c")
    case True
    with Cons show ?thesis by simp
  next
    case False
    then have "\<forall>y \<in> set xs. \<not> key y < c" using Cons.prems by auto
    then have "filter (\<lambda>x. key x < c) xs = []" "filter (\<lambda>x. \<not> key x < c) xs = xs" by (auto simp: filter_empty_conv)
    with False show ?thesis by simp
  qed
qed simp

text \<open>A write that does not go back in time within its series.\<close>

definition timely :: "read \<Rightarrow> store \<Rightarrow> bool" where
  "timely r st \<longleftrightarrow> (\<forall>old \<in> set (series (st_history st) (rd_device r) (rd_field r)). rd_at old \<le> rd_at r)"

lemma latest_upsert:
  "latest (upsert_latest l r st) d f = (if d = rd_device r \<and> f = rd_field r then Some r else latest st d f)"
  by (auto simp: latest_def upsert_latest_def Let_def split: prod.split option.split)

lemma upsert_ok:
  assumes ok: "store_ok l st" and "timely r st"
  shows "store_ok l (upsert_latest l r st)"
proof -
  let ?d = "rd_device r" and ?f = "rd_field r" and ?b = "st_books st"
  let ?L = "oentry ?d [] (oput ?f r) (st_latest st)" and ?h = "oentry ?d [] (oentry ?f [] (\<lambda>s. s @ [r])) (st_history st)"
  let ?old = "case latest st ?d ?f of None \<Rightarrow> 0 | Some old \<Rightarrow> latest_bytes l old"
  let ?b1 = "record_slot (slot_of l r) (restate_latest (latest_bytes l r) ?old ?b)"
  obtain b' taken where e: "enforce ?b1 = (b', taken)" by fastforce
  have st': "upsert_latest l r st = \<lparr>st_latest = ?L, st_history = drop_front taken ?h, st_books = b'\<rparr>"
    using e by (simp add: upsert_latest_def admit_slot_def)
  have bytes: "bk_history_bytes ?b1 = sum_list (map sl_bytes (bk_queue ?b1))"
    using store_okD(1) [OF ok] by (simp add: record_slot_def restate_latest_def)
  note enf = enforce_spec [OF bytes e]
  have "in_step l ?h (bk_queue ?b1)"
    using store_okD(3) [OF ok] by (auto simp: in_step_def record_slot_def restate_latest_def slot_of_def on_def)
  then have step: "in_step l (drop_front taken ?h) (bk_queue b')"
    using enf(1) by (rule in_step_evict)
  have "tidy ?h"
    using store_okD(4) [OF ok] by (auto simp: tidy_def oentry_def split: option.splits if_splits)
  moreover have "stamped ?h"
    using store_okD(5) [OF ok] assms(2) by (auto simp: stamped_def timely_def sorted_append)
  ultimately have hist: "tidy (drop_front taken ?h)" "stamped (drop_front taken ?h)"
    by (auto intro: tidy_drop_front sorted_drop_front)
  have "owf (case map_of (st_latest st) ?d of None \<Rightarrow> [] | Some fs \<Rightarrow> fs)"
    using store_okD(7) [OF ok] by (auto split: option.split)
  note fs = sum_oput [OF this, of "latest_bytes l" ?f r, simplified]
  have total: "bk_latest_bytes b' = latest_total l (upsert_latest l r st)"
    using fs sum_oput [OF store_okD(6) [OF ok], of "\<lambda>fs. sum_list (map (latest_bytes l) (ovals fs))" ?d
        "oput ?f r (case map_of (st_latest st) ?d of None \<Rightarrow> [] | Some fs \<Rightarrow> fs)"]
      enf(3) store_okD(2) [OF ok]
    by (auto simp: st' latest_total_def record_slot_def restate_latest_def oentry_def latest_def comp_def split: option.splits)
  show ?thesis
    unfolding store_ok_def
  proof (intro conjI allI impI)
    fix d f
    assume ne: "series (st_history (upsert_latest l r st)) d f \<noteq> []"
    then have "series ?h d f \<noteq> []" "last (series (st_history (upsert_latest l r st)) d f) = last (series ?h d f)"
      using last_drop_front [of taken ?h d f] by (simp_all add: st')
    then show "latest (upsert_latest l r st) d f = Some (last (series (st_history (upsert_latest l r st)) d f))"
      using store_okD(8) [OF ok, of d f] by (auto simp: latest_upsert split: if_splits)
  qed (use enf(2) step hist total store_okD(6,7) [OF ok] in
        \<open>auto simp: st' owf_Cons intro!: owf_intros split: if_splits option.splits\<close>)
qed

lemma prune_books:
  assumes "bk_history_bytes b = sum_list (map sl_bytes (bk_queue b))"
  shows "expire c b = (b\<lparr>bk_history_bytes := sum_list (map sl_bytes (filter (\<lambda>s. \<not> sl_at s < c) (bk_queue b))),
      bk_queue := filter (\<lambda>s. \<not> sl_at s < c) (bk_queue b)\<rparr>, filter (\<lambda>s. sl_at s < c) (bk_queue b))"
proof -
  have "sum_list (map sl_bytes (filter P q)) + sum_list (map sl_bytes (filter (\<lambda>s. \<not> P s) q))
      = sum_list (map sl_bytes q)" for P q
    by (induction q) auto
  from this [of "\<lambda>s. sl_at s < c" "bk_queue b"] assms show ?thesis
    by (simp add: expire_def take_expired_def sift_eq)
qed

lemma slots_sorted:
  assumes "in_step l h q" and "stamped h"
  shows "sorted (map sl_at (filter (on d f) q))"
proof -
  have "map sl_at (filter (on d f) q) = map rd_at (series h d f)"
    using assms(1) by (simp add: in_step_def slot_of_def flip: map_map) (metis (no_types, lifting) map_map comp_def map_eq_conv slot.select_convs(3) slot_of_def)
  with assms(2) show ?thesis by (simp add: stamped_def)
qed

lemma filter_commute: "filter P (filter Q xs) = filter Q (filter P xs)"
  by (induction xs) auto

lemma prune_history:
  assumes "in_step l h q" and "stamped h"
  shows "in_step l (drop_front (filter (\<lambda>s. sl_at s < c) q) h) (filter (\<lambda>s. \<not> sl_at s < c) q)"
    and "series (drop_front (filter (\<lambda>s. sl_at s < c) q) h) d f = filter (\<lambda>r. \<not> rd_at r < c) (series h d f)"
proof -
  have "map (slot_of l) (series h d f) = filter (on d f) (filter (\<lambda>s. sl_at s < c) q)
      @ filter (on d f) (filter (\<lambda>s. \<not> sl_at s < c) q)" for d f
    using sorted_split_key [OF slots_sorted [OF assms, of d f], of c] assms(1)
    by (simp add: in_step_def filter_commute [of "on d f"] del: filter_filter)
  then show step: "in_step l (drop_front (filter (\<lambda>s. sl_at s < c) q) h) (filter (\<lambda>s. \<not> sl_at s < c) q)"
    by (rule drop_front_series)
  obtain n where n: "series (drop_front (filter (\<lambda>s. sl_at s < c) q) h) d f = drop n (series h d f)"
    using drop_front_suffix by blast
  have "map (slot_of l) (series (drop_front (filter (\<lambda>s. sl_at s < c) q) h) d f)
      = filter (\<lambda>s. \<not> sl_at s < c) (map (slot_of l) (series h d f))"
    using step assms(1) by (simp add: in_step_def filter_commute [of "on d f"] del: filter_filter)
  also have "\<dots> = map (slot_of l) (filter (\<lambda>r. \<not> rd_at r < c) (series h d f))"
    by (simp add: filter_map comp_def slot_of_def)
  finally have "length (series (drop_front (filter (\<lambda>s. sl_at s < c) q) h) d f)
      = length (filter (\<lambda>r. \<not> rd_at r < c) (series h d f))"
    by (metis length_map)
  moreover have "filter (\<lambda>r. rd_at r < c) (series h d f) @ filter (\<lambda>r. \<not> rd_at r < c) (series h d f) = series h d f"
    using assms(2) by (intro sorted_split_key) (simp add: stamped_def)
  moreover have "ys = drop n zs" if "length (drop n zs) = length ys" "xs @ ys = zs" for xs ys zs :: "read list"
    using that by (metis (no_types, lifting) append_eq_append_conv append_take_drop_id)
  ultimately show "series (drop_front (filter (\<lambda>s. sl_at s < c) q) h) d f = filter (\<lambda>r. \<not> rd_at r < c) (series h d f)"
    using n by metis
qed

lemma prune_ok:
  assumes ok: "store_ok l st"
  shows "store_ok l (fst (prune c st))"
proof -
  note eq = prune_books [OF store_okD(1) [OF ok], of c]
  note hist = prune_history [OF store_okD(3,5) [OF ok], of c]
  have "latest_total l (fst (prune c st)) = latest_total l st"
    by (simp add: prune_def eq latest_total_def)
  moreover have "series (st_history (fst (prune c st))) d f \<noteq> [] \<Longrightarrow>
      latest (fst (prune c st)) d f = Some (last (series (st_history (fst (prune c st))) d f))" for d f
    using last_drop_front store_okD(8) [OF ok, of d f] by (simp add: prune_def eq latest_def)
  ultimately show ?thesis
    unfolding store_ok_def using hist(1) store_okD [OF ok]
    by (auto simp: prune_def eq intro: tidy_drop_front sorted_drop_front)
qed

lemma set_budget_ok:
  assumes ok: "store_ok l st"
  shows "store_ok l (fst (set_budget budget st))"
proof -
  let ?b = "(st_books st)\<lparr>bk_budget := budget\<rparr>"
  obtain b' taken where e: "enforce ?b = (b', taken)" by fastforce
  have st': "fst (set_budget budget st) = st\<lparr>st_history := drop_front taken (st_history st), st_books := b'\<rparr>"
    using e by (simp add: set_budget_def recap_def)
  have "bk_history_bytes ?b = sum_list (map sl_bytes (bk_queue ?b))" using store_okD(1) [OF ok] by simp
  note enf = enforce_spec [OF this e]
  have "in_step l (drop_front taken (st_history st)) (bk_queue b')"
    using store_okD(3) [OF ok] enf(1) by (intro in_step_evict) auto
  moreover have "series (st_history (fst (set_budget budget st))) d f \<noteq> [] \<Longrightarrow>
      latest (fst (set_budget budget st)) d f = Some (last (series (st_history (fst (set_budget budget st))) d f))" for d f
    using last_drop_front store_okD(8) [OF ok, of d f] by (simp add: st' latest_def)
  ultimately show ?thesis
    unfolding store_ok_def using enf(2,3) store_okD [OF ok]
    by (auto simp: st' latest_total_def intro: tidy_drop_front sorted_drop_front)
qed

lemma forget_books:
  assumes "bk_history_bytes b = sum_list (map sl_bytes (bk_queue b))"
  shows "forget d n b = (b\<lparr>bk_latest_bytes := bk_latest_bytes b - n,
      bk_history_bytes := sum_list (map sl_bytes (filter (\<lambda>s. sl_device s \<noteq> d) (bk_queue b))),
      bk_queue := filter (\<lambda>s. sl_device s \<noteq> d) (bk_queue b)\<rparr>, filter (\<lambda>s. sl_device s = d) (bk_queue b))"
proof -
  have "sum_list (map sl_bytes (filter P q)) + sum_list (map sl_bytes (filter (\<lambda>s. \<not> P s) q))
      = sum_list (map sl_bytes q)" for P q
    by (induction q) auto
  from this [of "\<lambda>s. sl_device s = d" "bk_queue b"] assms show ?thesis
    by (simp add: forget_def restate_latest_def take_device_def sift_eq)
qed

lemma forget_device_ok:
  assumes ok: "store_ok l st"
  shows "store_ok l (fst (forget_device l d st))"
proof -
  let ?n = "case map_of (st_latest st) d of None \<Rightarrow> 0 | Some fs \<Rightarrow> sum_list (map (latest_bytes l) (ovals fs))"
  note eq = forget_books [OF store_okD(1) [OF ok], of d ?n]
  have st': "fst (forget_device l d st) = \<lparr>st_latest = odel d (st_latest st), st_history = odel d (st_history st),
      st_books = fst (forget d ?n (st_books st))\<rparr>"
    by (simp add: forget_device_def Let_def split: prod.split)
  have "latest_total l (fst (forget_device l d st)) + ?n = latest_total l st"
    using sum_odel [OF store_okD(6) [OF ok], of "\<lambda>fs. sum_list (map (latest_bytes l) (ovals fs))" d]
    by (simp add: st' latest_total_def)
  moreover have "in_step l (odel d (st_history st)) (filter (\<lambda>s. sl_device s \<noteq> d) (bk_queue (st_books st)))"
    using store_okD(3) [OF ok] by (auto simp: in_step_def on_def filter_empty_conv intro: filter_cong)
  moreover have "tidy (odel d (st_history st))" "stamped (odel d (st_history st))"
    using store_okD(4,5) [OF ok] by (auto simp: tidy_def stamped_def)
  moreover have "series (odel d (st_history st)) d' f \<noteq> [] \<Longrightarrow>
      latest (fst (forget_device l d st)) d' f = Some (last (series (odel d (st_history st)) d' f))" for d' f
    using store_okD(8) [OF ok, of d' f] by (auto simp: st' latest_def split: if_splits)
  ultimately show ?thesis
    unfolding store_ok_def using store_okD [OF ok]
    by (auto simp: st' eq intro: owf_intros split: if_splits)
qed

section \<open>Correctness\<close>

text \<open>
  Every store that writes, sweeps, re-caps and removals can reach. A write is timely when it does
  not carry an earlier stamp than its series already holds: one poll loop writes each series.
\<close>

inductive store_reachable :: "layout \<Rightarrow> store \<Rightarrow> bool" for l where
  sr_start: "store_reachable l (with_budget b)"
| sr_upsert: "store_reachable l st \<Longrightarrow> timely r st \<Longrightarrow> store_reachable l (upsert_latest l r st)"
| sr_prune: "store_reachable l st \<Longrightarrow> store_reachable l (fst (prune c st))"
| sr_budget: "store_reachable l st \<Longrightarrow> store_reachable l (fst (set_budget b st))"
| sr_forget: "store_reachable l st \<Longrightarrow> store_reachable l (fst (forget_device l d st))"

lemma store_reachable_ok: "store_reachable l st \<Longrightarrow> store_ok l st"
  by (induction rule: store_reachable.induct)
     (auto intro: with_budget_ok upsert_ok prune_ok set_budget_ok forget_device_ok)

definition tiny_layout :: layout where
  "tiny_layout = \<lparr>size_of_read = 1, size_of_alarm = 1, size_of_slot = 1\<rparr>"

definition flag_read :: "string \<Rightarrow> string \<Rightarrow> read" where
  "flag_read d at = \<lparr>rd_device = d, rd_field = ''f'', rd_value = Flag True, rd_at = at\<rparr>"

definition two_reads :: "nat option \<Rightarrow> store" where
  "two_reads b = upsert_latest tiny_layout (flag_read ''x'' ''2'') (upsert_latest tiny_layout (flag_read ''x'' ''1'') (with_budget b))"

lemmas store_example_defs = two_reads_def flag_read_def tiny_layout_def upsert_latest_def with_budget_def
  admit_slot_def enforce_def record_slot_def restate_latest_def slot_of_def used_def latest_def oentry_def odel_def
  history_bytes_def latest_bytes_def read_bytes_def ENTRY_OVERHEAD_def drop_front_def drop_slot_def series_def
  timely_def usage_of_def over_budget_def prune_def expire_def take_expired_def take_over_budget.simps
  less_char_def Let_def

lemma store_reachable_two_reads: "store_reachable tiny_layout (two_reads None)"
  unfolding two_reads_def
  by (intro sr_upsert sr_start) (simp_all add: store_example_defs)

text \<open>
  C17. The ledger is exact: in every reachable store each series' entries stand in the ledger in the
  same order, the reported bytes are the true sum of what is held, and the newest entry of a
  series is the latest read of its device and field.
\<close>

theorem ledger_exact:
  assumes "store_reachable l st"
  shows "map (slot_of l) (series (st_history st) d f) = filter (on d f) (bk_queue (st_books st))
    \<and> us_bytes (usage_of st) = latest_total l st + sum_list (map sl_bytes (bk_queue (st_books st)))
    \<and> (series (st_history st) d f \<noteq> [] \<longrightarrow> latest st d f = Some (last (series (st_history st) d f)))
    \<and> sorted (map rd_at (between st d f span))"
proof -
  have ok: "store_ok l st" using assms by (rule store_reachable_ok)
  have "sorted (map rd_at (series (st_history st) d f))"
    using store_okD(5) [OF ok] by (simp add: stamped_def)
  with store_okD(1-3) [OF ok] store_okD(8) [OF ok, of d f] show ?thesis
    by (simp add: in_step_def usage_of_def used_def between_def sorted_filter)
qed

theorem ledger_exact_witness:
  "map (slot_of tiny_layout) (series (st_history (two_reads None)) ''x'' ''f'')
     = filter (on ''x'' ''f'') (bk_queue (st_books (two_reads None)))
   \<and> length (bk_queue (st_books (two_reads None))) = 2"
proof
  show "map (slot_of tiny_layout) (series (st_history (two_reads None)) ''x'' ''f'')
      = filter (on ''x'' ''f'') (bk_queue (st_books (two_reads None)))"
    using ledger_exact [OF store_reachable_two_reads] by blast
  show "length (bk_queue (st_books (two_reads None))) = 2" by (simp add: store_example_defs)
qed

text \<open>
  The budget holds after every write: either the store is within its cap, or no history is left
  to evict. What is evicted is the shortest sufficient run of the oldest entries, and a write is
  always the latest read of its field afterwards.
\<close>

theorem budget_enforced:
  fixes r :: read
  assumes "store_reachable l st" and "bk_budget (st_books st) = Some cap"
  defines "st' \<equiv> upsert_latest l r st"
  shows "(\<not> over_budget (usage_of st') \<or> us_entries (usage_of st') = 0)
    \<and> (\<exists>taken. bk_queue (st_books st) @ [slot_of l r] = taken @ bk_queue (st_books st')
         \<and> (taken \<noteq> [] \<longrightarrow> cap < us_bytes (usage_of st') + sl_bytes (last taken)))
    \<and> latest st' (rd_device r) (rd_field r) = Some r"
proof -
  let ?old = "case latest st (rd_device r) (rd_field r) of None \<Rightarrow> 0 | Some old \<Rightarrow> latest_bytes l old"
  let ?b1 = "record_slot (slot_of l r) (restate_latest (latest_bytes l r) ?old (st_books st))"
  obtain b' taken where e: "enforce ?b1 = (b', taken)" by fastforce
  have b': "st_books st' = b'" using e by (simp add: st'_def upsert_latest_def admit_slot_def)
  have "bk_history_bytes ?b1 = sum_list (map sl_bytes (bk_queue ?b1))"
    using store_okD(1) [OF store_reachable_ok [OF assms(1)]] by (simp add: record_slot_def restate_latest_def)
  note enf = enforce_spec [OF this e]
  have cap: "bk_budget ?b1 = Some cap" using assms(2) by (simp add: record_slot_def restate_latest_def)
  have "bk_queue ?b1 = bk_queue (st_books st) @ [slot_of l r]" by (simp add: record_slot_def restate_latest_def)
  then have "\<exists>taken. bk_queue (st_books st) @ [slot_of l r] = taken @ bk_queue (st_books st')
      \<and> (taken \<noteq> [] \<longrightarrow> cap < us_bytes (usage_of st') + sl_bytes (last taken))"
    using enf(1) enf(6) [OF cap] by (intro exI [of _ taken]) (simp add: usage_of_def b')
  moreover have "latest st' (rd_device r) (rd_field r) = Some r" by (simp add: st'_def latest_upsert)
  ultimately show ?thesis
    using enf(4) enf(5) [OF cap] cap by (auto simp: usage_of_def over_budget_def b')
qed

theorem budget_enforced_witness:
  "(if over_budget (usage_of (two_reads (Some 150)))
    then us_entries (usage_of (two_reads (Some 150))) = 0 else True)"
proof -
  let ?st = "upsert_latest tiny_layout (flag_read ''x'' ''1'') (with_budget (Some 150))"
  have r: "store_reachable tiny_layout ?st"
    by (intro sr_upsert sr_start) (simp add: store_example_defs)
  have b: "bk_budget (st_books ?st) = Some 150" by (simp add: store_example_defs)
  show ?thesis unfolding two_reads_def using budget_enforced [OF r b] by auto
qed

text \<open>
  A sweep drops exactly what is older than its cutoff: every series keeps its entries stamped at
  the cutoff or later, the latest reads are untouched, and the report counts what went.
\<close>

theorem prune_exact:
  assumes "store_reachable l st"
  shows "series (st_history (fst (prune c st))) d f = filter (\<lambda>r. c \<le> rd_at r) (series (st_history st) d f)
    \<and> latest (fst (prune c st)) d f = latest st d f
    \<and> us_entries (usage_of (fst (prune c st))) + sw_entries (snd (prune c st)) = us_entries (usage_of st)
    \<and> us_bytes (usage_of (fst (prune c st))) + sw_bytes (snd (prune c st)) = us_bytes (usage_of st)"
proof -
  have ok: "store_ok l st" using assms by (rule store_reachable_ok)
  note eq = prune_books [OF store_okD(1) [OF ok], of c]
  have "sum_list (map sl_bytes (filter P q)) + sum_list (map sl_bytes (filter (\<lambda>s. \<not> P s) q))
      = sum_list (map sl_bytes q)" for P q
    by (induction q) auto
  from this [of "\<lambda>s. sl_at s < c" "bk_queue (st_books st)"] show ?thesis
    using prune_history(2) [OF store_okD(3,5) [OF ok], of c d f] store_okD(1) [OF ok]
      sum_length_filter_compl [of "\<lambda>s. sl_at s < c" "bk_queue (st_books st)"]
    by (simp add: prune_def eq latest_def usage_of_def used_def not_less add.commute)
qed

theorem prune_exact_witness:
  "map rd_at (series (st_history (fst (prune ''2'' (two_reads None)))) ''x'' ''f'') = [''2'']"
proof -
  have "map rd_at (series (st_history (two_reads None)) ''x'' ''f'') = [''1'', ''2'']"
    by (simp add: store_example_defs)
  then obtain a b where s: "series (st_history (two_reads None)) ''x'' ''f'' = [a, b]" "rd_at a = ''1''" "rd_at b = ''2''"
    by auto
  have "series (st_history (fst (prune ''2'' (two_reads None)))) ''x'' ''f''
      = filter (\<lambda>r. ''2'' \<le> rd_at r) (series (st_history (two_reads None)) ''x'' ''f'')"
    using prune_exact [OF store_reachable_two_reads] by blast
  with s show ?thesis by (simp add: less_eq_list_code less_char_def)
qed

text \<open>
  Without the assumption on stamps the sweep drops the wrong entry: a backfilled read, stamped
  before the entry already held, is kept past the cutoff while the newer entry in front of it is
  dropped, although the retention port says expiry goes by a read's own stamp.
\<close>

theorem prune_drops_newer_entry:
  "let st = upsert_latest tiny_layout (flag_read ''x'' ''1'') (upsert_latest tiny_layout (flag_read ''x'' ''3'') (with_budget None))
   in map rd_at (series (st_history st) ''x'' ''f'') = [''3'', ''1'']
      \<and> map rd_at (series (st_history (fst (prune ''2'' st))) ''x'' ''f'') = [''1'']"
  by (simp add: store_example_defs)

end
