(* ===== verification/Sis_Protocol.thy ===== *)
theory Sis_Protocol
  imports Sis_Types
begin

text \<open>
  \<^verbatim>\<open>sismatic-core/src/protocol.rs\<close> and its small modules: decoded values, the streaming parse
  step, control characters, payload helpers, recording states and the SIS error token.

  \<open>winnow\<close> is a third-party parser library. The four of its parsers the protocol uses are the
  fields of the parameter record \<open>winnow\<close>; what the protocol relies on of them, their documented
  behaviour on partial input, is the predicate \<open>winnow_ok\<close>.
\<close>

named_theorems protocol_defs \<open>definitions of the protocol layer\<close>


section \<open>Values\<close>

datatype core_state = CoreStopped | CoreStarted | CorePaused | CoreUnknown

definition from_code :: "int \<Rightarrow> core_state" where
  "from_code code = (if code = 0 then CoreStopped else if code = 2 then CorePaused
     else if code = 1 then CoreStarted else CoreUnknown)"

definition is_recording :: "core_state \<Rightarrow> bool" where
  "is_recording s \<longleftrightarrow> s = CoreStarted \<or> s = CorePaused"

fun show_core_state :: "core_state \<Rightarrow> string" where
  "show_core_state CoreStopped = ''stopped''"
| "show_core_state CoreStarted = ''started''"
| "show_core_state CorePaused = ''paused''"
| "show_core_state CoreUnknown = ''unknown''"

type_synonym mac_addr = "8 word list"

datatype core_value =
    VText string
  | VVersion string
  | VPort "16 word"
  | VNumber "32 word"
  | VFlag bool
  | VMac mac_addr
  | VAck string
  | VState core_state
  | VAlarms "(string \<times> string) list"

definition hex_digit :: "nat \<Rightarrow> char" where
  "hex_digit n = (if n < 10 then char_of (48 + n) else char_of (55 + n))"

definition show_byte :: "8 word \<Rightarrow> string" where
  "show_byte b = [hex_digit (unat b div 16), hex_digit (unat b mod 16)]"

fun join :: "string \<Rightarrow> string list \<Rightarrow> string" where
  "join sep [] = []"
| "join sep [s] = s"
| "join sep (s # ss) = s @ sep @ join sep ss"

definition show_mac :: "mac_addr \<Rightarrow> string" where
  "show_mac m = join ''-'' (map show_byte m)"

fun show_value :: "core_value \<Rightarrow> string" where
  "show_value (VText s) = s"
| "show_value (VVersion s) = s"
| "show_value (VAck s) = s"
| "show_value (VPort p) = show_uint p"
| "show_value (VNumber n) = show_uint n"
| "show_value (VFlag b) = (if b then ''1'' else ''0'')"
| "show_value (VState s) = show_core_state s"
| "show_value (VMac m) = show_mac m"
| "show_value (VAlarms a) = join '', '' (map (\<lambda>(n, l). n @ '':'' @ l) a)"

fun as_state :: "core_value \<Rightarrow> core_state option" where
  "as_state (VState s) = Some s"
| "as_state v = None"

fun as_port :: "core_value \<Rightarrow> 16 word option" where
  "as_port (VPort p) = Some p"
| "as_port v = None"

fun as_mac :: "core_value \<Rightarrow> mac_addr option" where
  "as_mac (VMac m) = Some m"
| "as_mac v = None"


section \<open>Control characters and payload helpers\<close>

definition ESC :: char where "ESC = CHR 0x1B"
definition CR :: char where "CR = CHR 0x0D"
definition LF :: char where "LF = CHR 0x0A"

abbreviation CRLF :: string where "CRLF \<equiv> [CR, LF]"

definition RCDR :: string where "RCDR = ''RCDR''"
definition RCDR_LOWER :: string where "RCDR_LOWER = ''Rcdr''"

definition swap_non_printable :: "string \<Rightarrow> string" where
  "swap_non_printable s = concat (map (\<lambda>c. if c = ESC then ''<ESC>'' else if c = CR then ''<CR>''
     else if c = LF then ''<LF>'' else [c]) s)"

definition esc_cr :: "string \<Rightarrow> string" where
  "esc_cr verb = [ESC] @ verb @ [CR]"

definition esc_rcdr :: "string \<Rightarrow> string" where
  "esc_rcdr verb = [ESC] @ verb @ RCDR @ [CR]"

definition normalize :: "string \<Rightarrow> string" where
  "normalize s = map (\<lambda>c. if c = CHR ''-'' then CHR ''_'' else c) (to_ascii_uppercase s)"

definition shorten :: "string \<Rightarrow> nat \<Rightarrow> string" where
  "shorten s n = chars_take n s"

definition is_not_cr :: "char \<Rightarrow> bool" where
  "is_not_cr c \<longleftrightarrow> c \<noteq> CR"

definition echoed :: "string \<Rightarrow> string" where
  "echoed verb = (case verb of [] \<Rightarrow> [] | c # cs \<Rightarrow> char_upper c # to_ascii_lowercase cs)"


section \<open>Parsers\<close>

text \<open>What a parser returns: a value and the input left, or why not.\<close>

datatype 'a presult = POk 'a string | PBacktrack | PCut | PIncomplete

type_synonym 'a parser = "string \<Rightarrow> 'a presult"

record winnow =
  literal :: "string \<Rightarrow> string parser"
  take_while_of :: "nat \<Rightarrow> nat option \<Rightarrow> (char \<Rightarrow> bool) \<Rightarrow> string parser"
  one_of :: "char list \<Rightarrow> char parser"
  separated :: "(string \<times> string) parser \<Rightarrow> char \<Rightarrow> (string \<times> string) list parser"

text \<open>The \<open>?\<close> of a parser body.\<close>

definition pbind :: "'a presult \<Rightarrow> ('a \<Rightarrow> string \<Rightarrow> 'b presult) \<Rightarrow> 'b presult" where
  "pbind r f = (case r of POk v rest \<Rightarrow> f v rest | PBacktrack \<Rightarrow> PBacktrack | PCut \<Rightarrow> PCut
     | PIncomplete \<Rightarrow> PIncomplete)"

lemma pbind_simps [simp]:
  "pbind (POk v rest) f = f v rest" "pbind PBacktrack f = PBacktrack" "pbind PCut f = PCut"
  "pbind PIncomplete f = PIncomplete"
  by (simp_all add: pbind_def)

datatype 'a step = NeedMore | Done 'a

text \<open>
  \<open>search\<close>: the parser is tried at every character of the buffer; a committed failure stops the
  search.
\<close>

fun search :: "'a parser \<Rightarrow> string \<Rightarrow> 'a step" where
  "search core [] = NeedMore"
| "search core (c # buf) =
     (if is_continuation c then search core buf
      else case core (c # buf) of
             POk v rest \<Rightarrow> Done v
           | PCut \<Rightarrow> NeedMore
           | PBacktrack \<Rightarrow> search core buf
           | PIncomplete \<Rightarrow> search core buf)"

definition parser_of :: "'a parser \<Rightarrow> ('a \<Rightarrow> core_value) \<Rightarrow> string \<Rightarrow> core_value step" where
  "parser_of core wrap buf = (case search core buf of Done v \<Rightarrow> Done (wrap v) | NeedMore \<Rightarrow> NeedMore)"

record instruction =
  in_name :: string
  in_payload :: string
  in_parser :: "string \<Rightarrow> core_value step"

definition parse_step :: "instruction \<Rightarrow> string \<Rightarrow> core_value step" where
  "parse_step i buf = in_parser i buf"

definition custom :: "string \<Rightarrow> string \<Rightarrow> (string \<Rightarrow> core_value step) \<Rightarrow> instruction" where
  "custom n payload f = \<lparr>in_name = n, in_payload = payload, in_parser = f\<rparr>"

definition contains :: "string \<Rightarrow> string \<Rightarrow> bool" where
  "contains s p \<longleftrightarrow> (\<exists>i \<in> set [0..<Suc (length s)]. take (length p) (drop i s) = p)"

definition raw_until :: "string \<Rightarrow> string \<Rightarrow> string \<Rightarrow> instruction" where
  "raw_until n payload terminator = custom n payload
     (\<lambda>buf. if terminator = [] \<or> contains buf terminator then Done (VText buf) else NeedMore)"


section \<open>Documented behaviour of the parser library\<close>

definition winnow_ok :: "winnow \<Rightarrow> bool" where
  "winnow_ok w \<longleftrightarrow>
     (\<forall>t s. t \<noteq> [] \<longrightarrow> literal w t s =
        (if take (length t) s = t then POk t (drop (length t) s)
         else if take (length s) t = s then PIncomplete else PBacktrack))
     \<and> (\<forall>m n P s. take_while_of w m n P s =
          (let run = takeWhile P s;
               k = (case n of None \<Rightarrow> length run | Some n' \<Rightarrow> min n' (length run))
           in if run = s \<and> (case n of None \<Rightarrow> True | Some n' \<Rightarrow> length run < n') then PIncomplete
              else if k < m then PBacktrack else POk (take k s) (drop k s)))
     \<and> (\<forall>cs s. one_of w cs s =
          (case s of [] \<Rightarrow> PIncomplete | c # rest \<Rightarrow> if c \<in> set cs then POk c rest else PBacktrack))"

lemma winnow_okD:
  assumes "winnow_ok w"
  shows "t \<noteq> [] \<Longrightarrow> literal w t s =
      (if take (length t) s = t then POk t (drop (length t) s)
       else if take (length s) t = s then PIncomplete else PBacktrack)"
    and "take_while_of w m None P s =
      (let run = takeWhile P s in if run = s then PIncomplete
       else if length run < m then PBacktrack else POk run (dropWhile P s))"
    and "one_of w cs s =
      (case s of [] \<Rightarrow> PIncomplete | c # rest \<Rightarrow> if c \<in> set cs then POk c rest else PBacktrack)"
  using assms by (auto simp: winnow_ok_def Let_def takeWhile_eq_take [symmetric] dropWhile_eq_drop [symmetric])

text \<open>A reference implementation, for the examples.\<close>

fun separated_of :: "nat \<Rightarrow> (string \<times> string) parser \<Rightarrow> char \<Rightarrow> (string \<times> string) list parser" where
  "separated_of 0 p sep s = POk [] s"
| "separated_of (Suc n) p sep s =
     (case p s of
        POk v (c # rest) \<Rightarrow>
          (if c = sep then
             (case separated_of n p sep rest of
                POk (v' # vs) rest' \<Rightarrow> POk (v # v' # vs) rest'
              | POk [] rest' \<Rightarrow> POk [v] (c # rest)
              | PBacktrack \<Rightarrow> POk [v] (c # rest) | PCut \<Rightarrow> PCut | PIncomplete \<Rightarrow> PIncomplete)
           else POk [v] (c # rest))
      | POk v [] \<Rightarrow> PIncomplete
      | PBacktrack \<Rightarrow> POk [] s
      | PCut \<Rightarrow> PCut
      | PIncomplete \<Rightarrow> PIncomplete)"

definition plain_winnow :: winnow where
  "plain_winnow = \<lparr>
     literal = (\<lambda>t s. if take (length t) s = t then POk t (drop (length t) s)
                else if take (length s) t = s then PIncomplete else PBacktrack),
     take_while_of = (\<lambda>m n P s. let run = takeWhile P s;
               k = (case n of None \<Rightarrow> length run | Some n' \<Rightarrow> min n' (length run))
           in if run = s \<and> (case n of None \<Rightarrow> True | Some n' \<Rightarrow> length run < n') then PIncomplete
              else if k < m then PBacktrack else POk (take k s) (drop k s)),
     one_of = (\<lambda>cs s. case s of [] \<Rightarrow> PIncomplete | c # rest \<Rightarrow> if c \<in> set cs then POk c rest else PBacktrack),
     separated = (\<lambda>p sep s. separated_of (Suc (length s)) p sep s)\<rparr>"

lemma winnow_ok_plain: "winnow_ok plain_winnow"
  by (simp add: winnow_ok_def plain_winnow_def)


section \<open>The error token\<close>

record sis_error =
  se_code :: "8 word"

definition sis_description :: "sis_error \<Rightarrow> string option" where
  "sis_description e = map_of
     [(10, ''unrecognized command''), (12, ''invalid port number''),
      (13, ''invalid parameter (number is out of range)''), (14, ''not valid for this configuration''),
      (17, ''invalid command for signal type''), (18, ''system timed out''), (22, ''busy''),
      (24, ''privilege violation''), (26, ''maximum connections exceeded''),
      (28, ''bad file name or file not found'')] (se_code e)"

definition show_sis_error :: "sis_error \<Rightarrow> string" where
  "show_sis_error e =
     (let digits = show_uint (se_code e)
      in ''E'' @ (if length digits < 2 then ''0'' @ digits else digits) @ '': ''
         @ (case sis_description e of Some what \<Rightarrow> what | None \<Rightarrow> ''undocumented error code''))"

definition of_line :: "string \<Rightarrow> sis_error option" where
  "of_line line =
     (case strip_prefix ''E'' line of
        None \<Rightarrow> None
      | Some digits \<Rightarrow>
          if length digits \<noteq> 2 \<or> \<not> list_all is_ascii_digit digits then None
          else map_option (\<lambda>code. \<lparr>se_code = code\<rparr>) (parse_uint digits))"

text \<open>\<open>rfind\<close> and \<open>split_terminator\<close> of the standard library, for CR LF.\<close>

definition rfind_crlf :: "string \<Rightarrow> nat option" where
  "rfind_crlf s = find (\<lambda>i. take 2 (drop i s) = CRLF) (rev [0..<length s])"

fun split_crlf :: "string \<Rightarrow> string list" where
  "split_crlf [] = [[]]"
| "split_crlf [c] = [[c]]"
| "split_crlf (c # d # s) =
     (if c = CR \<and> d = LF then [] # split_crlf s
      else (case split_crlf (d # s) of [] \<Rightarrow> [[c]] | l # ls \<Rightarrow> (c # l) # ls))"

definition split_terminator_crlf :: "string \<Rightarrow> string list" where
  "split_terminator_crlf s = (let ls = split_crlf s in if last ls = [] then butlast ls else ls)"

fun find_map :: "('a \<Rightarrow> 'b option) \<Rightarrow> 'a list \<Rightarrow> 'b option" where
  "find_map f [] = None"
| "find_map f (x # xs) = (case f x of None \<Rightarrow> find_map f xs | Some y \<Rightarrow> Some y)"

definition in_reply :: "string \<Rightarrow> sis_error option" where
  "in_reply buf =
     (case rfind_crlf buf of
        None \<Rightarrow> None
      | Some i \<Rightarrow> find_map of_line (split_terminator_crlf (take (i + 2) buf)))"


section \<open>Lines of a reply\<close>

lemma contains_Cons: "contains (c # s) p \<longleftrightarrow> take (length p) (c # s) = p \<or> contains s p"
proof -
  have "set [0..<Suc (length (c # s))] = insert 0 (Suc ` set [0..<Suc (length s)])"
    by (auto simp: image_iff less_Suc_eq_0_disj simp del: upt_Suc)
  then show ?thesis
    unfolding contains_def by (simp del: upt_Suc set_upt add: image_iff bex_simps)
qed

lemma contains_Nil: "contains [] p \<longleftrightarrow> p = []"
  by (auto simp: contains_def)

lemma contains_crlf_simps:
  "\<not> contains [] CRLF" "\<not> contains [c] CRLF"
  "contains (c # d # s) CRLF \<longleftrightarrow> (c = CR \<and> d = LF) \<or> contains (d # s) CRLF"
  by (auto simp: contains_Cons contains_Nil)

lemma crlf_distinct [simp]: "CR \<noteq> LF" "LF \<noteq> CR"
  by (auto simp: CR_def LF_def)

lemma split_crlf_whole: "\<not> contains l CRLF \<Longrightarrow> split_crlf l = [l]"
  by (induction l rule: split_crlf.induct) (auto simp: contains_crlf_simps)

lemma split_crlf_line:
  "\<not> contains l CRLF \<Longrightarrow> split_crlf (l @ CRLF @ rest) = l # split_crlf rest"
proof (induction l rule: split_crlf.induct)
  case (2 c)
  then show ?case by (cases "split_crlf rest") auto
next
  case (3 c d s)
  then have "split_crlf ((d # s) @ CRLF @ rest) = (d # s) # split_crlf rest"
    by (simp add: contains_crlf_simps)
  with 3 show ?case by (auto simp: contains_crlf_simps)
qed simp

abbreviation with_crlf :: "string list \<Rightarrow> string" where
  "with_crlf ls \<equiv> concat (map (\<lambda>l. l @ CRLF) ls)"

lemma split_crlf_lines:
  "\<forall>l \<in> set ls. \<not> contains l CRLF \<Longrightarrow> split_crlf (with_crlf ls @ rest) = ls @ split_crlf rest"
  by (induction ls) (auto simp: split_crlf_line [simplified])

lemma crlf_decompose:
  "\<exists>ls tail. s = with_crlf ls @ tail \<and> (\<forall>l \<in> set (tail # ls). \<not> contains l CRLF)"
proof (induction s rule: split_crlf.induct)
  case 1
  then show ?case by (intro exI [of _ "[]"]) (simp add: contains_crlf_simps)
next
  case (2 c)
  then show ?case by (intro exI [of _ "[]"] exI [of _ "[c]"]) (simp add: contains_crlf_simps)
next
  case (3 c d s)
  show ?case
  proof (cases "c = CR \<and> d = LF")
    case True
    with 3 obtain ls tail where "s = with_crlf ls @ tail"
      "\<forall>l \<in> set (tail # ls). \<not> contains l CRLF" by blast
    with True show ?thesis
      by (intro exI [of _ "[] # ls"] exI [of _ tail]) (simp add: contains_crlf_simps)
  next
    case False
    with 3 obtain ls tail where s: "d # s = with_crlf ls @ tail"
      "\<forall>l \<in> set (tail # ls). \<not> contains l CRLF" by blast
    show ?thesis
    proof (cases ls)
      case Nil
      with s False show ?thesis
        by (intro exI [of _ "[]"] exI [of _ "c # d # s"]) (auto simp: contains_crlf_simps)
    next
      case (Cons l ls')
      have "\<not> contains (c # l) CRLF"
        using s False Cons by (cases l) (auto simp: contains_crlf_simps)
      with s Cons show ?thesis
        by (intro exI [of _ "(c # l) # ls'"] exI [of _ tail]) simp
    qed
  qed
qed

lemma crlf_at: "take 2 s = CRLF \<Longrightarrow> contains s CRLF"
  by (cases s rule: split_crlf.cases) (auto simp: contains_crlf_simps)

lemma contains_drop: "contains (drop i s) p \<Longrightarrow> contains s p"
proof (induction i arbitrary: s)
  case (Suc i)
  then show ?case by (cases s) (auto simp: contains_Cons)
qed simp

lemma rfind_crlf_none: "\<not> contains s CRLF \<Longrightarrow> rfind_crlf s = None"
  unfolding rfind_crlf_def find_None_iff by (blast dest: crlf_at intro: contains_drop)

lemma find_rev_upt:
  "k < n \<Longrightarrow> P k \<Longrightarrow> \<forall>i. k < i \<and> i < n \<longrightarrow> \<not> P i \<Longrightarrow> find P (rev [0..<n]) = Some k"
  by (induction n) (auto simp: less_Suc_eq)

lemma crlf_later:
  assumes "\<not> contains tail CRLF"
  shows "take 2 (drop (Suc k) (CRLF @ tail)) \<noteq> CRLF"
proof
  assume "take 2 (drop (Suc k) (CRLF @ tail)) = CRLF"
  then have "contains (drop k (LF # tail)) CRLF"
    by (intro crlf_at) simp
  then have "contains (LF # tail) CRLF" by (rule contains_drop)
  with assms show False by (cases tail) (simp_all add: contains_crlf_simps)
qed

lemma rfind_crlf_last:
  assumes "\<not> contains tail CRLF"
  shows "rfind_crlf (s @ CRLF @ tail) = Some (length s)"
  unfolding rfind_crlf_def
proof (rule find_rev_upt)
  show "\<forall>i. length s < i \<and> i < length (s @ CRLF @ tail) \<longrightarrow>
      take 2 (drop i (s @ CRLF @ tail)) \<noteq> CRLF"
  proof (intro allI impI)
    fix i assume "length s < i \<and> i < length (s @ CRLF @ tail)"
    then obtain k where "i = length s + Suc k"
      by (metis add_Suc_right less_imp_Suc_add)
    then show "take 2 (drop i (s @ CRLF @ tail)) \<noteq> CRLF"
      using crlf_later [OF assms, of k] by (simp only: drop_append) simp
  qed
qed simp_all

lemma of_line_iff:
  "of_line l = Some e \<longleftrightarrow>
     (\<exists>a b. l = [CHR ''E'', a, b] \<and> is_ascii_digit a \<and> is_ascii_digit b
        \<and> se_code e = of_nat (10 * (of_char a - 48) + (of_char b - 48)))"
proof (cases "\<exists>a b. l = [CHR ''E'', a, b]")
  case True
  then obtain a b where l: "l = [CHR ''E'', a, b]" by blast
  have plus: "strip_plus [a, b] = [a, b]" if "is_ascii_digit a"
    using that by (auto simp: strip_plus_def)
  have small: "10 * (of_char a - 48) + (of_char b - 48) < (256::nat)"
    if "is_ascii_digit a" "is_ascii_digit b" using that by arith
  show ?thesis
  proof (cases "is_ascii_digit a \<and> is_ascii_digit b")
    case True
    then have "parse_uint [a, b] = Some (of_nat (10 * (of_char a - 48) + (of_char b - 48)) :: 8 word)"
      using plus small by (simp add: parse_uint_def)
    with True show ?thesis
      by (cases e) (auto simp: l of_line_def strip_prefix_def)
  qed (auto simp: l of_line_def strip_prefix_def)
next
  case False
  have "of_line l = None"
  proof (cases "take 1 l = ''E'' \<and> length (drop 1 l) = 2")
    case True
    then have "\<exists>a b. l = [CHR ''E'', a, b]"
      by (cases l; cases "tl l"; cases "tl (tl l)") auto
    with False show ?thesis by blast
  qed (auto simp: of_line_def strip_prefix_def)
  with False show ?thesis by auto
qed

lemma in_reply_lines:
  assumes "\<forall>l \<in> set (tail # ls). \<not> contains l CRLF"
  shows "in_reply (with_crlf ls @ tail) = find_map of_line ls"
proof (cases ls rule: rev_cases)
  case Nil
  with assms show ?thesis by (simp add: in_reply_def rfind_crlf_none)
next
  case (snoc ks k)
  have "rfind_crlf ((with_crlf ks @ k) @ CRLF @ tail) = Some (length (with_crlf ks @ k))"
    using assms by (intro rfind_crlf_last) simp
  moreover have "with_crlf ls @ tail = (with_crlf ks @ k) @ CRLF @ tail"
    by (simp add: snoc)
  moreover have "take (length (with_crlf ks @ k) + 2) ((with_crlf ks @ k) @ CRLF @ tail) = with_crlf ls"
    by (simp add: snoc)
  moreover have "split_crlf (with_crlf ls) = ls @ [[]]"
    using assms split_crlf_lines [of ls "[]"] by simp
  ultimately show ?thesis
    by (simp only: in_reply_def split_terminator_crlf_def option.case Let_def) simp
qed

lemma find_map_append:
  "find_map f (xs @ ys) = (case find_map f xs of None \<Rightarrow> find_map f ys | Some y \<Rightarrow> Some y)"
  by (induction xs) (auto split: option.split)

lemma in_reply_extend:
  assumes "in_reply buf = Some e"
  shows "in_reply (buf @ rest) = Some e"
proof -
  obtain ls tail where buf: "buf = with_crlf ls @ tail" "\<forall>l \<in> set (tail # ls). \<not> contains l CRLF"
    using crlf_decompose by blast
  obtain ls' tail' where m: "tail @ rest = with_crlf ls' @ tail'"
    "\<forall>l \<in> set (tail' # ls'). \<not> contains l CRLF"
    using crlf_decompose by blast
  have "buf @ rest = with_crlf (ls @ ls') @ tail'" using buf m by simp
  with buf m assms show ?thesis
    using in_reply_lines [of tail ls] in_reply_lines [of tail' "ls @ ls'"]
    by (auto simp: find_map_append)
qed

text \<open>
  C25. The error token of a reply is recognised exactly: in a buffer made of complete lines and a
  tail, \<open>in_reply\<close> reports the first complete line that is \<open>E\<close> followed by exactly two decimal
  digits, with that two-digit code, and nothing else: no part of a longer line and no part of
  the unfinished tail. Once reported, the token is reported whatever bytes follow.
\<close>

theorem in_reply_exact:
  assumes "\<forall>l \<in> set (tail # ls). \<not> contains l CRLF"
  shows "in_reply (with_crlf ls @ tail) = find_map of_line ls
    \<and> (\<forall>l e. of_line l = Some e \<longleftrightarrow>
         (\<exists>a b. l = [CHR ''E'', a, b] \<and> is_ascii_digit a \<and> is_ascii_digit b
            \<and> se_code e = of_nat (10 * (of_char a - 48) + (of_char b - 48))))
    \<and> (\<forall>e rest. in_reply (with_crlf ls @ tail) = Some e
         \<longrightarrow> in_reply ((with_crlf ls @ tail) @ rest) = Some e)"
  by (intro conjI allI impI in_reply_lines [OF assms] of_line_iff) (rule in_reply_extend)

theorem in_reply_exact_witness:
  "in_reply (''E1400'' @ CRLF @ ''E14'' @ CRLF @ ''E22'') = Some \<lparr>se_code = 14\<rparr>"
proof -
  have "\<forall>l \<in> set [''E22'', ''E1400'', ''E14'']. \<not> contains l CRLF"
    by code_simp
  note in_reply_exact [OF this]
  moreover have "find_map of_line [''E1400'', ''E14''] = Some \<lparr>se_code = 14\<rparr>"
    by (simp add: of_line_def strip_prefix_def parse_uint_def strip_plus_def)
  ultimately show ?thesis by simp
qed

end
