(* ===== verification/Sis_Catalog.thy ===== *)
theory Sis_Catalog
  imports Sis_Protocol
begin

text \<open>
  \<^verbatim>\<open>sismatic-core/src/protocol/instructions\<close>: the instruction catalogs. The macro
  \<open>instruction_catalog!\<close> of \<^verbatim>\<open>catalog.rs\<close> derives every name function of an enum from one table;
  here the table is a list of entries and the derived functions are generic in it. The
  instances are \<open>Command\<close>, \<open>Query\<close> and \<open>Register\<close> with their payloads and reply parsers
  (\<open>Setting\<close> is in \<open>Sis_Setting\<close>).
\<close>


section \<open>One table per enum\<close>

record 'v entry =
  en_variant :: 'v
  en_name :: string
  en_aliases :: "string list"
  en_doc :: string

type_synonym 'v catalog = "'v entry list"

definition entry :: "'v \<Rightarrow> string \<Rightarrow> string list \<Rightarrow> string \<Rightarrow> 'v entry" where
  "entry v n as d = \<lparr>en_variant = v, en_name = n, en_aliases = as, en_doc = d\<rparr>"

definition catalog_all :: "'v catalog \<Rightarrow> 'v list" where
  "catalog_all cat = map en_variant cat"

text \<open>A match over the variants: the arm of the variant's own entry.\<close>

definition arm :: "'v catalog \<Rightarrow> 'v \<Rightarrow> 'v entry option" where
  "arm cat v = find (\<lambda>e. en_variant e = v) cat"

definition catalog_name :: "'v catalog \<Rightarrow> 'v \<Rightarrow> string" where
  "catalog_name cat v = (case arm cat v of Some e \<Rightarrow> en_name e | None \<Rightarrow> [])"

definition catalog_description :: "'v catalog \<Rightarrow> 'v \<Rightarrow> string" where
  "catalog_description cat v = (case arm cat v of Some e \<Rightarrow> en_doc e | None \<Rightarrow> [])"

definition catalog_accepted :: "'v catalog \<Rightarrow> 'v \<Rightarrow> string list" where
  "catalog_accepted cat v = (case arm cat v of Some e \<Rightarrow> en_name e # en_aliases e | None \<Rightarrow> [])"

datatype unknown_instruction = UnknownInstruction string

fun show_unknown_instruction :: "unknown_instruction \<Rightarrow> string" where
  "show_unknown_instruction (UnknownInstruction s) =
     ''no built-in instruction named '' @ [CHR 0x27] @ s @ [CHR 0x27]"

text \<open>The arms of \<open>from_str\<close> are tried in catalog order.\<close>

definition catalog_from_str :: "'v catalog \<Rightarrow> string \<Rightarrow> unknown_instruction + 'v" where
  "catalog_from_str cat s =
     (case find (\<lambda>e. normalize s \<in> set (en_name e # en_aliases e)) cat of
        Some e \<Rightarrow> Inr (en_variant e)
      | None \<Rightarrow> Inl (UnknownInstruction s))"


section \<open>Commands\<close>

datatype command =
    Cmd_Start | Cmd_Stop | Cmd_Pause

definition command_catalog :: "command catalog" where
  "command_catalog =
    [ entry Cmd_Start ''STARTRECORDING'' [''START'']
        ''Start recording.'',
      entry Cmd_Stop ''STOPRECORDING'' [''STOP'']
        ''Stop recording.'',
      entry Cmd_Pause ''PAUSERECORDING'' [''PAUSE'']
        ''Pause recording.'' ]"

fun command_verb :: "command \<Rightarrow> string" where
  "command_verb Cmd_Start = ''Y1''"
| "command_verb Cmd_Stop = ''Y0''"
| "command_verb Cmd_Pause = ''Y2''"

definition command_echo :: "winnow \<Rightarrow> string \<Rightarrow> string \<Rightarrow> core_value step" where
  "command_echo w verb =
     (let token = RCDR_LOWER @ verb
      in parser_of
           (\<lambda>i. pbind (literal w token i) (\<lambda>_ i. pbind (literal w CRLF i) (\<lambda>_ i. POk token i)))
           VAck)"

definition command_instruction :: "winnow \<Rightarrow> command \<Rightarrow> instruction" where
  "command_instruction w c =
     (let verb = command_verb c
      in \<lparr>in_name = catalog_name command_catalog c,
          in_payload = [ESC] @ verb @ RCDR @ [CR],
          in_parser = command_echo w verb\<rparr>)"


section \<open>Reply parsers of the queries\<close>

definition alarm_entry :: "winnow \<Rightarrow> (string \<times> string) parser" where
  "alarm_entry w i =
     pbind (literal w ''<name:'' i) (\<lambda>_ i.
     pbind (take_while_of w 0 None (\<lambda>c. c \<noteq> CHR '','' \<and> c \<noteq> CHR ''>'') i) (\<lambda>name i.
     pbind (literal w '',level:'' i) (\<lambda>_ i.
     pbind (take_while_of w 0 None (\<lambda>c. c \<noteq> CHR ''>'') i) (\<lambda>level i.
     pbind (literal w ''>'' i) (\<lambda>_ i. POk (name, level) i)))))"

definition active_alarms :: "winnow \<Rightarrow> string \<Rightarrow> core_value step" where
  "active_alarms w = parser_of
     (\<lambda>i. pbind (separated w (alarm_entry w) CHR ''*'' i) (\<lambda>alarms i.
          pbind (literal w CRLF i) (\<lambda>_ i. POk alarms i)))
     VAlarms"

definition parse_state :: "winnow \<Rightarrow> string \<Rightarrow> core_value step" where
  "parse_state w = parser_of
     (\<lambda>i. pbind (one_of w ''012'' i) (\<lambda>d i.
          pbind (literal w CRLF i) (\<lambda>_ i. POk (from_code (of_char d - 48)) i)))
     VState"

text \<open>\<open>u8::from_str_radix\<close> of the hex digits \<open>parse_mac\<close> reads.\<close>

definition hex_val :: "char \<Rightarrow> nat" where
  "hex_val c = (let n = of_char c in if n \<le> 57 then n - 48 else if n \<le> 70 then n - 55 else n - 87)"

definition from_hex :: "string \<Rightarrow> 8 word option" where
  "from_hex h =
     (if h = [] \<or> \<not> list_all is_ascii_hexdigit h then None
      else let n = foldl (\<lambda>a c. 16 * a + hex_val c) 0 h in if n < 256 then Some (of_nat n) else None)"

fun parse_mac_from :: "winnow \<Rightarrow> nat list \<Rightarrow> mac_addr parser" where
  "parse_mac_from w [] i = POk [] i"
| "parse_mac_from w (k # ks) i =
     pbind (if k > 0 then literal w ''-'' i else POk [] i) (\<lambda>_ i.
     pbind (take_while_of w 2 (Some 2) is_ascii_hexdigit i) (\<lambda>h i.
     case from_hex h of
       None \<Rightarrow> PBacktrack
     | Some b \<Rightarrow> pbind (parse_mac_from w ks i) (\<lambda>bs i. POk (b # bs) i)))"

definition parse_mac :: "winnow \<Rightarrow> mac_addr parser" where
  "parse_mac w = parse_mac_from w [0, 1, 2, 3, 4, 5]"

definition mac_address :: "winnow \<Rightarrow> string \<Rightarrow> core_value step" where
  "mac_address w = parser_of
     (\<lambda>i. pbind (parse_mac w i) (\<lambda>mac i. pbind (literal w CRLF i) (\<lambda>_ i. POk mac i)))
     VMac"

definition plain_line :: "winnow \<Rightarrow> string parser" where
  "plain_line w i =
     pbind (take_while_of w 0 None is_not_cr i) (\<lambda>v i.
     pbind (literal w CRLF i) (\<lambda>_ i. POk v i))"

definition plain_text :: "winnow \<Rightarrow> string \<Rightarrow> core_value step" where
  "plain_text w = parser_of (plain_line w) VText"

text \<open>The body \<open>plain_port\<close> and \<open>plain_number\<close> share, at the width of the result.\<close>

definition plain_digits :: "winnow \<Rightarrow> 'w::len word parser" where
  "plain_digits w i =
     pbind (take_while_of w 1 None (\<lambda>c. is_ascii_digit c) i) (\<lambda>d i.
     pbind (literal w CRLF i) (\<lambda>_ i.
     case parse_uint d of Some n \<Rightarrow> POk n i | None \<Rightarrow> PCut))"

definition plain_port :: "winnow \<Rightarrow> string \<Rightarrow> core_value step" where
  "plain_port w = parser_of (plain_digits w) VPort"

definition plain_number :: "winnow \<Rightarrow> string \<Rightarrow> core_value step" where
  "plain_number w = parser_of (plain_digits w) VNumber"

definition boolean_flag :: "winnow \<Rightarrow> string \<Rightarrow> core_value step" where
  "boolean_flag w = parser_of
     (\<lambda>i. pbind (one_of w ''01'' i) (\<lambda>b i.
          pbind (literal w CRLF i) (\<lambda>_ i. POk (b = CHR ''1'') i)))
     VFlag"


section \<open>Queries\<close>

datatype query =
    Q_Stream1Name | Q_Stream2Name | Q_Stream3Name | Q_Firmware | Q_RunningState | Q_UnitName |
  Q_TelnetPort | Q_SshPort | Q_HttpPort | Q_SnmpPort | Q_HttpsPort | Q_SnmpUnitLocation |
  Q_SnmpUnitContact | Q_SnmpPrivateCommunityString | Q_SnmpPublicCommunityString | Q_SnmpState
  | Q_DhcpMode | Q_Timezone | Q_MacAddress | Q_PortTimeout | Q_GlobalPortTimeout | Q_ModelName
  | Q_ModelDescription | Q_ActiveAlarms | Q_PartNumber | Q_Contributor | Q_Course | Q_Coverage
  | Q_Date | Q_Description | Q_Format | Q_Identifier | Q_Language | Q_Presenter | Q_Publisher
  | Q_Relation | Q_Rights | Q_Source | Q_Subject | Q_SystemName | Q_Title | Q_Type |
  Q_Stream1State | Q_Stream2State | Q_Stream3State | Q_RtmpStream1LiveState |
  Q_RtmpStream2LiveState | Q_RtmpStream3LiveState | Q_RtmpBackupStream1LiveState |
  Q_RtmpBackupStream2LiveState | Q_RtmpBackupStream3LiveState

definition query_catalog :: "query catalog" where
  "query_catalog =
    [ entry Q_Stream1Name ''STREAM_1_NAME'' [''STREAM_NAME_1'']
        ''Name of stream 1.'',
      entry Q_Stream2Name ''STREAM_2_NAME'' [''STREAM_NAME_2'']
        ''Name of stream 2.'',
      entry Q_Stream3Name ''STREAM_3_NAME'' [''STREAM_NAME_3'']
        ''Name of stream 3.'',
      entry Q_Firmware ''FIRMWARE'' []
        ''Firmware/version string, e.g. 2.11.'',
      entry Q_RunningState ''RUNNING_STATE'' []
        ''Current recording state (stopped, started, or paused).'',
      entry Q_UnitName ''UNIT_NAME'' []
        ''Configured unit name.'',
      entry Q_TelnetPort ''TELNET_PORT'' []
        ''Telnet service port.'',
      entry Q_SshPort ''SSH_PORT'' []
        ''SSH service port.'',
      entry Q_HttpPort ''HTTP_PORT'' []
        ''HTTP service port.'',
      entry Q_SnmpPort ''SNMP_PORT'' []
        ''SNMP service port.'',
      entry Q_HttpsPort ''HTTPS_PORT'' []
        ''HTTPS service port.'',
      entry Q_SnmpUnitLocation ''SNMP_UNIT_LOCATION'' []
        ''SNMP unit location string.'',
      entry Q_SnmpUnitContact ''SNMP_UNIT_CONTACT'' []
        ''SNMP unit contact string.'',
      entry Q_SnmpPrivateCommunityString ''SNMP_PRIVATE_COMMUNITY_STRING'' []
        ''SNMP private community string.'',
      entry Q_SnmpPublicCommunityString ''SNMP_PUBLIC_COMMUNITY_STRING'' []
        ''SNMP public community string.'',
      entry Q_SnmpState ''SNMP_STATE'' []
        ''Whether SNMP is enabled.'',
      entry Q_DhcpMode ''DHCP_MODE'' []
        ''Whether DHCP is enabled.'',
      entry Q_Timezone ''TIMEZONE'' []
        ''Configured timezone.'',
      entry Q_MacAddress ''MAC_ADDRESS'' []
        ''Hardware MAC address.'',
      entry Q_PortTimeout ''PORT_TIMEOUT'' []
        ''Per-port timeout in tens of seconds; 30 tens of seconds=300 seconds.'',
      entry Q_GlobalPortTimeout ''GLOBAL_PORT_TIMEOUT'' []
        ''Global port timeout in tens of seconds; 30 tens of seconds=300 seconds.'',
      entry Q_ModelName ''MODEL_NAME'' []
        ''Device model name.'',
      entry Q_ModelDescription ''MODEL_DESCRIPTION'' []
        ''Device model description.'',
      entry Q_ActiveAlarms ''ACTIVE_ALARMS'' []
        ''Active alarms.'',
      entry Q_PartNumber ''PART_NUMBER'' []
        ''Device part number.'',
      entry Q_Contributor ''CONTRIBUTOR'' []
        ''Dublin Core Contributor (read)'',
      entry Q_Course ''COURSE'' []
        ''Course'',
      entry Q_Coverage ''COVERAGE'' []
        ''Dublin Core 'coverage' metadata register (read).'',
      entry Q_Date ''DATE'' []
        ''Dublin Core Date (read-only) (read)'',
      entry Q_Description ''DESCRIPTION'' []
        ''Dublin Core Description (read)'',
      entry Q_Format ''FORMAT'' []
        ''Dublin Core Format (read)'',
      entry Q_Identifier ''IDENTIFIER'' []
        ''Dublin Core Identifier (read-only) (read)'',
      entry Q_Language ''LANGUAGE'' []
        ''Dublin Core 'language' metadata register (read).'',
      entry Q_Presenter ''PRESENTER'' []
        ''Presenter metadata register (read).'',
      entry Q_Publisher ''PUBLISHER'' []
        ''Dublin Core 'publisher' metadata register (read).'',
      entry Q_Relation ''RELATION'' []
        ''Dublin Core 'relation' metadata register (read).'',
      entry Q_Rights ''RIGHTS'' []
        ''Dublin Core Rights (read)'',
      entry Q_Source ''SOURCE'' []
        ''Dublin Core 'source' metadata register (read).'',
      entry Q_Subject ''SUBJECT'' []
        ''Dublin Core 'subject' metadata register (read).'',
      entry Q_SystemName ''SYSTEMNAME'' []
        ''System Name'',
      entry Q_Title ''TITLE'' []
        ''Recording title metadata register (read).'',
      entry Q_Type ''TYPE'' []
        ''Dublin Core Type (read)'',
      entry Q_Stream1State ''STREAM_1_STATE'' [''STREAM_1_ENABLED'', ''STREAM_1_STATUS'']
        ''Whether stream 1 is enabled.'',
      entry Q_Stream2State ''STREAM_2_STATE'' [''STREAM_2_ENABLED'', ''STREAM_2_STATUS'']
        ''Whether stream 2 is enabled.'',
      entry Q_Stream3State ''STREAM_3_STATE'' [''STREAM_3_ENABLED'', ''STREAM_3_STATUS'']
        ''Whether stream 3 is enabled.'',
      entry Q_RtmpStream1LiveState ''RTMP_STREAM_1_LIVE_STATE'' [''RTMP_STREAM_LIVE_STATE_1'', ''RTMP_1_LIVE_STATE'']
        ''Whether the primary RTMP push for stream 1 is live.'',
      entry Q_RtmpStream2LiveState ''RTMP_STREAM_2_LIVE_STATE'' [''RTMP_STREAM_LIVE_STATE_2'', ''RTMP_2_LIVE_STATE'']
        ''Whether the primary RTMP push for stream 2 is live.'',
      entry Q_RtmpStream3LiveState ''RTMP_STREAM_3_LIVE_STATE'' [''RTMP_STREAM_LIVE_STATE_3'', ''RTMP_3_LIVE_STATE'']
        ''Whether the primary RTMP push for stream 3 is live.'',
      entry Q_RtmpBackupStream1LiveState ''RTMP_BACKUP_STREAM_1_LIVE_STATE'' [''RTMP_BACKUP_STREAM_LIVE_STATE_1'', ''RTMP_1_BACKUP_LIVE_STATE'']
        ''Whether the backup RTMP push for stream 1 is live.'',
      entry Q_RtmpBackupStream2LiveState ''RTMP_BACKUP_STREAM_2_LIVE_STATE'' [''RTMP_BACKUP_STREAM_LIVE_STATE_2'', ''RTMP_2_BACKUP_LIVE_STATE'']
        ''Whether the backup RTMP push for stream 2 is live.'',
      entry Q_RtmpBackupStream3LiveState ''RTMP_BACKUP_STREAM_3_LIVE_STATE'' [''RTMP_BACKUP_STREAM_LIVE_STATE_3'', ''RTMP_3_BACKUP_LIVE_STATE'']
        ''Whether the backup RTMP push for stream 3 is live.'' ]"

fun query_wire :: "winnow \<Rightarrow> query \<Rightarrow> string \<times> (string \<Rightarrow> core_value step)" where
  "query_wire w Q_Stream1Name = (esc_cr ''N1STRC'', plain_text w)"
| "query_wire w Q_Stream2Name = (esc_cr ''N2STRC'', plain_text w)"
| "query_wire w Q_Stream3Name = (esc_cr ''N3STRC'', plain_text w)"
| "query_wire w Q_Stream1State = (esc_cr ''1STRC'', boolean_flag w)"
| "query_wire w Q_Stream2State = (esc_cr ''2STRC'', boolean_flag w)"
| "query_wire w Q_Stream3State = (esc_cr ''3STRC'', boolean_flag w)"
| "query_wire w Q_RtmpStream1LiveState = (esc_cr ''S1*1RTMP'', boolean_flag w)"
| "query_wire w Q_RtmpStream2LiveState = (esc_cr ''S1*2RTMP'', boolean_flag w)"
| "query_wire w Q_RtmpStream3LiveState = (esc_cr ''S1*3RTMP'', boolean_flag w)"
| "query_wire w Q_RtmpBackupStream1LiveState = (esc_cr ''S2*1RTMP'', boolean_flag w)"
| "query_wire w Q_RtmpBackupStream2LiveState = (esc_cr ''S2*2RTMP'', boolean_flag w)"
| "query_wire w Q_RtmpBackupStream3LiveState = (esc_cr ''S2*3RTMP'', boolean_flag w)"
| "query_wire w Q_Firmware = (''Q'', plain_text w)"
| "query_wire w Q_RunningState = (esc_rcdr ''Y'', parse_state w)"
| "query_wire w Q_UnitName = (esc_cr ''CN'', plain_text w)"
| "query_wire w Q_TelnetPort = (esc_cr ''MT'', plain_port w)"
| "query_wire w Q_SshPort = (esc_cr ''BPMAP'', plain_port w)"
| "query_wire w Q_HttpPort = (esc_cr ''MH'', plain_port w)"
| "query_wire w Q_SnmpPort = (esc_cr ''APMAP'', plain_port w)"
| "query_wire w Q_HttpsPort = (esc_cr ''SPMAP'', plain_port w)"
| "query_wire w Q_SnmpUnitLocation = (esc_cr ''LSNMP'', plain_text w)"
| "query_wire w Q_SnmpUnitContact = (esc_cr ''CSNMP'', plain_text w)"
| "query_wire w Q_SnmpPrivateCommunityString = (esc_cr ''XSNMP'', plain_text w)"
| "query_wire w Q_SnmpPublicCommunityString = (esc_cr ''PSNMP'', plain_text w)"
| "query_wire w Q_SnmpState = (esc_cr ''ESNMP'', boolean_flag w)"
| "query_wire w Q_DhcpMode = (esc_cr ''DH'', boolean_flag w)"
| "query_wire w Q_Timezone = (esc_cr ''TZON'', plain_text w)"
| "query_wire w Q_MacAddress = (esc_cr ''CH'', mac_address w)"
| "query_wire w Q_PortTimeout = (esc_cr ''0TC'', plain_number w)"
| "query_wire w Q_GlobalPortTimeout = (esc_cr ''1TC'', plain_number w)"
| "query_wire w Q_ModelName = (''1I'', plain_text w)"
| "query_wire w Q_ModelDescription = (''2I'', plain_text w)"
| "query_wire w Q_ActiveAlarms = (''39I'', active_alarms w)"
| "query_wire w Q_PartNumber = (''N'', plain_text w)"
| "query_wire w Q_Contributor = (esc_rcdr ''M0'', plain_text w)"
| "query_wire w Q_Course = (esc_rcdr ''M16'', plain_text w)"
| "query_wire w Q_Coverage = (esc_rcdr ''M1'', plain_text w)"
| "query_wire w Q_Date = (esc_rcdr ''M3'', plain_text w)"
| "query_wire w Q_Description = (esc_rcdr ''M4'', plain_text w)"
| "query_wire w Q_Format = (esc_rcdr ''M5'', plain_text w)"
| "query_wire w Q_Identifier = (esc_rcdr ''M6'', plain_text w)"
| "query_wire w Q_Language = (esc_rcdr ''M7'', plain_text w)"
| "query_wire w Q_Presenter = (esc_rcdr ''M2'', plain_text w)"
| "query_wire w Q_Publisher = (esc_rcdr ''M8'', plain_text w)"
| "query_wire w Q_Relation = (esc_rcdr ''M9'', plain_text w)"
| "query_wire w Q_Rights = (esc_rcdr ''M10'', plain_text w)"
| "query_wire w Q_Source = (esc_rcdr ''M11'', plain_text w)"
| "query_wire w Q_Subject = (esc_rcdr ''M12'', plain_text w)"
| "query_wire w Q_SystemName = (esc_rcdr ''M15'', plain_text w)"
| "query_wire w Q_Title = (esc_rcdr ''M13'', plain_text w)"
| "query_wire w Q_Type = (esc_rcdr ''M14'', plain_text w)"

definition query_instruction :: "winnow \<Rightarrow> query \<Rightarrow> instruction" where
  "query_instruction w q =
     (case query_wire w q of (payload, parser) \<Rightarrow>
        \<lparr>in_name = catalog_name query_catalog q, in_payload = payload, in_parser = parser\<rparr>)"


section \<open>Registers\<close>

datatype register =
    R_Contributor | R_Course | R_Coverage | R_Description | R_Format | R_Language | R_Presenter
  | R_Publisher | R_Relation | R_Rights | R_Source | R_Subject | R_SystemName | R_Title |
  R_Type

definition register_catalog :: "register catalog" where
  "register_catalog =
    [ entry R_Contributor ''CONTRIBUTOR'' []
        ''Dublin Core 'contributor'.'',
      entry R_Course ''COURSE'' []
        ''Course name.'',
      entry R_Coverage ''COVERAGE'' []
        ''Dublin Core 'coverage'.'',
      entry R_Description ''DESCRIPTION'' []
        ''Dublin Core 'description'.'',
      entry R_Format ''FORMAT'' []
        ''Dublin Core 'format'.'',
      entry R_Language ''LANGUAGE'' []
        ''Dublin Core 'language'.'',
      entry R_Presenter ''PRESENTER'' []
        ''Presenter name.'',
      entry R_Publisher ''PUBLISHER'' []
        ''Dublin Core 'publisher'.'',
      entry R_Relation ''RELATION'' []
        ''Dublin Core 'relation'.'',
      entry R_Rights ''RIGHTS'' []
        ''Dublin Core 'rights'.'',
      entry R_Source ''SOURCE'' []
        ''Dublin Core 'source'.'',
      entry R_Subject ''SUBJECT'' []
        ''Dublin Core 'subject'.'',
      entry R_SystemName ''SYSTEMNAME'' []
        ''System name.'',
      entry R_Title ''TITLE'' []
        ''Recording title.'',
      entry R_Type ''TYPE'' []
        ''Dublin Core 'type'.'' ]"

fun register_index :: "register \<Rightarrow> 8 word" where
  "register_index R_Contributor = 0"
| "register_index R_Coverage = 1"
| "register_index R_Presenter = 2"
| "register_index R_Description = 4"
| "register_index R_Format = 5"
| "register_index R_Language = 7"
| "register_index R_Publisher = 8"
| "register_index R_Relation = 9"
| "register_index R_Rights = 10"
| "register_index R_Source = 11"
| "register_index R_Subject = 12"
| "register_index R_Title = 13"
| "register_index R_Type = 14"
| "register_index R_SystemName = 15"
| "register_index R_Course = 16"

definition reg :: "register \<Rightarrow> string" where
  "reg r = ''M'' @ show_uint (register_index r)"

definition MAX_VALUE_LEN :: nat where "MAX_VALUE_LEN = 127"

definition settable_echo :: "winnow \<Rightarrow> string \<Rightarrow> string \<Rightarrow> core_value step" where
  "settable_echo w r =
     (let head = RCDR_LOWER @ r @ ''*''
      in parser_of (\<lambda>i. pbind (literal w head i) (\<lambda>_ i. plain_line w i)) VText)"

definition register_instruction :: "winnow \<Rightarrow> register \<Rightarrow> string \<Rightarrow> instruction" where
  "register_instruction w r value =
     (let value = shorten value MAX_VALUE_LEN
      in \<lparr>in_name = catalog_name register_catalog r,
          in_payload = [ESC] @ reg r @ ''*'' @ value @ RCDR @ [CR],
          in_parser = settable_echo w (reg r)\<rparr>)"

section \<open>The contract of a catalog\<close>

text \<open>
  What the macro's documentation asks of a table (normalized spellings) and what the match
  it generates needs (each variant in one entry, no spelling twice).
\<close>

abbreviation spellings :: "'v entry \<Rightarrow> string list" where
  "spellings e \<equiv> en_name e # en_aliases e"

locale name_catalog =
  fixes cat :: "'v catalog"
  assumes covers: "v \<in> set (catalog_all cat)"
    and once: "distinct (catalog_all cat)"
    and normalized: "list_all (\<lambda>e. list_all (\<lambda>n. normalize n = n) (spellings e)) cat"
    and unambiguous: "distinct (concat (map spellings cat))"
begin

lemma spelling_unique:
  assumes "e \<in> set cat" and "e' \<in> set cat" and "n \<in> set (spellings e)" and "n \<in> set (spellings e')"
  shows "e = e'"
proof -
  obtain xs ys where cat: "cat = xs @ e # ys"
    using assms(1) by (meson split_list)
  have "n \<notin> set (concat (map spellings xs)) \<union> set (concat (map spellings ys))"
    using unambiguous assms(3) by (auto simp: cat)
  with assms(2,4) show ?thesis by (auto simp: cat)
qed

lemma arm_some:
  obtains e where "e \<in> set cat" and "arm cat v = Some e" and "en_variant e = v"
proof (cases "arm cat v")
  case None
  with covers [of v] show ?thesis
    by (auto simp: arm_def catalog_all_def find_None_iff)
next
  case (Some e)
  then show ?thesis
    by (intro that [of e]) (auto simp: arm_def find_Some_iff)
qed

lemma accepted_arm: "n \<in> set (catalog_accepted cat v) \<longleftrightarrow>
    (\<exists>e \<in> set cat. en_variant e = v \<and> n \<in> set (spellings e))"
proof -
  obtain e where e: "e \<in> set cat" "arm cat v = Some e" "en_variant e = v"
    by (rule arm_some)
  have "e' = e" if "e' \<in> set cat" "en_variant e' = v" for e'
    using once e(1,3) that unfolding catalog_all_def distinct_map by (metis inj_onD)
  with e show ?thesis
    unfolding catalog_accepted_def e(2) option.case by blast
qed

lemma from_str_iff: "catalog_from_str cat s = Inr v \<longleftrightarrow> normalize s \<in> set (catalog_accepted cat v)"
proof (cases "find (\<lambda>e. normalize s \<in> set (spellings e)) cat")
  case None
  then have "catalog_from_str cat s = Inl (UnknownInstruction s)"
    unfolding catalog_from_str_def by simp
  moreover have "normalize s \<notin> set (catalog_accepted cat v)"
    unfolding accepted_arm using None by (simp add: find_None_iff)
  ultimately show ?thesis by simp
next
  case (Some e)
  then have e: "e \<in> set cat" "normalize s \<in> set (spellings e)"
    by (auto simp: find_Some_iff)
  have "catalog_from_str cat s = Inr (en_variant e)"
    unfolding catalog_from_str_def Some by simp
  moreover have "normalize s \<in> set (catalog_accepted cat v) \<longleftrightarrow> en_variant e = v"
    unfolding accepted_arm using e spelling_unique by blast
  ultimately show ?thesis by simp
qed

lemma from_str_name: "catalog_from_str cat (catalog_name cat v) = Inr v"
proof -
  obtain e where e: "e \<in> set cat" "arm cat v = Some e" "en_variant e = v"
    by (rule arm_some)
  then have "normalize (en_name e) = en_name e"
    using normalized by (auto simp: list_all_iff)
  with e show ?thesis
    unfolding from_str_iff by (auto simp: catalog_name_def catalog_accepted_def)
qed

lemma name_unique: "catalog_name cat u = catalog_name cat v \<Longrightarrow> u = v"
  by (metis from_str_name sum.inject(2))

end

interpretation commands: name_catalog command_catalog
proof
  fix v show "v \<in> set (catalog_all command_catalog)"
    by (cases v) (simp_all add: catalog_all_def command_catalog_def entry_def)
qed code_simp+

interpretation queries: name_catalog query_catalog
proof
  fix v show "v \<in> set (catalog_all query_catalog)"
    by (cases v) (simp_all add: catalog_all_def query_catalog_def entry_def)
qed code_simp+

interpretation registers: name_catalog register_catalog
proof
  fix v show "v \<in> set (catalog_all register_catalog)"
    by (cases v) (simp_all add: catalog_all_def register_catalog_def entry_def)
qed code_simp+


section \<open>Searching a reply\<close>

abbreviation no_match :: "'a presult \<Rightarrow> bool" where
  "no_match r \<equiv> r = PBacktrack \<or> r = PIncomplete"

text \<open>Text before the reply that the parser cannot start in is skipped.\<close>

lemma search_skip:
  assumes "\<And>x y. j = x @ y \<Longrightarrow> y \<noteq> [] \<Longrightarrow> no_match (core (y @ s))"
  shows "search core (j @ s) = search core s"
  using assms
proof (induction j)
  case (Cons c j)
  then have "no_match (core ((c # j) @ s))" by blast
  moreover have "search core (j @ s) = search core s"
    using Cons.prems by (intro Cons.IH) (metis append_Cons)
  ultimately show ?case by auto
qed simp

lemma search_none:
  assumes "\<And>x y. s = x @ y \<Longrightarrow> y \<noteq> [] \<Longrightarrow> no_match (core y)"
  shows "search core s = NeedMore"
  using search_skip [of s core "[]"] assms by simp

lemma search_here: "\<not> is_continuation c \<Longrightarrow> search core (c # s) =
    (case core (c # s) of POk v rest \<Rightarrow> Done v | PCut \<Rightarrow> NeedMore | _ \<Rightarrow> search core s)"
  by (auto split: presult.splits)

lemma literal_no_match:
  "winnow_ok w \<Longrightarrow> t \<noteq> [] \<Longrightarrow> take (length t) s \<noteq> t \<Longrightarrow> no_match (literal w t s)"
  by (simp add: winnow_okD)

lemma literal_ok: "winnow_ok w \<Longrightarrow> t \<noteq> [] \<Longrightarrow> literal w t (t @ s) = POk t s"
  by (simp add: winnow_okD)

lemma literal_first:
  assumes "winnow_ok w" and "t = a # t'" and "s = c # s'" and "a \<noteq> c"
  shows "literal w t s = PBacktrack"
  using assms by (auto simp: winnow_okD)

lemma take_while_run:
  assumes "winnow_ok w" and "\<forall>c \<in> set r. P c" and "\<not> P c" and "m \<le> length r"
  shows "take_while_of w m None P (r @ c # s) = POk r (c # s)"
  using assms by (simp add: winnow_okD takeWhile_append dropWhile_append)

lemma plain_line_ok:
  assumes "winnow_ok w" and "CR \<notin> set v"
  shows "plain_line w (v @ CRLF @ s) = POk v s"
proof -
  have "take_while_of w 0 None is_not_cr (v @ CR # LF # s) = POk v (CR # LF # s)"
    using assms by (intro take_while_run) (auto simp: is_not_cr_def)
  then show ?thesis
    using assms(1) literal_ok [of w CRLF s] by (simp add: plain_line_def)
qed


section \<open>Numeric replies\<close>

lemma digits_val_digits: "digits_val a ds = Some v \<Longrightarrow> \<forall>c \<in> set ds. is_ascii_digit c"
  by (induction ds arbitrary: a) (auto split: if_splits)

lemma digit_facts: "is_ascii_digit c \<Longrightarrow> c \<noteq> CR \<and> c \<noteq> LF \<and> c \<noteq> CHR ''*'' \<and> c \<noteq> CHR ''+'' \<and> \<not> is_continuation c"
  by (auto simp: CR_def LF_def is_continuation_def)

lemma parse_uint_digits:
  assumes "digits_val 0 ds = Some v" and "ds \<noteq> []"
  shows "parse_uint ds = (if v < 2 ^ LENGTH('w) then Some (of_nat v :: 'w::len word) else None)"
proof -
  obtain c cs where ds: "ds = c # cs" using assms(2) by (cases ds) auto
  then have "c \<noteq> CHR ''+''" using digits_val_digits [OF assms(1)] digit_facts by simp
  with assms(1) show ?thesis by (simp add: ds parse_uint_def strip_plus_def)
qed

lemma plain_digits_here:
  assumes "winnow_ok w" and "digits_val 0 ds = Some v" and "ds \<noteq> []"
  shows "plain_digits w (ds @ CRLF @ s) =
    (if v < 2 ^ LENGTH('w) then POk (of_nat v :: 'w::len word) s else PCut)"
proof -
  have "take_while_of w 1 None (\<lambda>c. is_ascii_digit c) (ds @ CR # LF # s) = POk ds (CR # LF # s)"
    using assms digits_val_digits [OF assms(2)]
    by (intro take_while_run) (auto simp: CR_def Suc_le_eq)
  then show ?thesis
    using literal_ok [OF assms(1), of CRLF s] parse_uint_digits [OF assms(2,3), where 'w = 'w]
    by (simp add: plain_digits_def)
qed

lemma plain_digits_elsewhere:
  assumes "winnow_ok w" and "y \<noteq> []" and "CR \<notin> set y" and "\<not> is_ascii_digit (last y)"
  shows "no_match (plain_digits w (y @ s))"
proof -
  let ?D = "\<lambda>c. is_ascii_digit c"
  define run where "run = takeWhile ?D y"
  obtain c y' where y: "y = run @ c # y'" "\<not> ?D c"
  proof -
    have "dropWhile ?D y \<noteq> []"
      using assms(2,4) by (auto simp: dropWhile_eq_Nil_conv)
    then obtain c y' where "dropWhile ?D y = c # y'" by (cases "dropWhile ?D y") auto
    then show ?thesis
      using that [of c y'] hd_dropWhile [of ?D y] takeWhile_dropWhile_id [of ?D y]
      by (simp add: run_def)
  qed
  have "take_while_of w 1 None ?D (run @ c # y' @ s) =
      (if run = [] then PBacktrack else POk run (c # y' @ s))"
  proof (cases "run = []")
    case True
    then show ?thesis using assms(1) y(2) by (auto simp: winnow_okD)
  next
    case False
    then show ?thesis using assms(1) y(2)
      by (subst take_while_run) (auto simp: run_def Suc_le_eq dest: set_takeWhileD)
  qed
  moreover have "literal w CRLF (c # y' @ s) = PBacktrack"
    using assms(1,3) y by (intro literal_first [where a = CR]) auto
  ultimately show ?thesis
    by (simp add: plain_digits_def y(1) split: if_splits)
qed

lemma plain_digits_incomplete:
  assumes "winnow_ok w" and "\<not> contains s CRLF"
  shows "no_match (plain_digits w s)"
proof -
  let ?D = "\<lambda>c. is_ascii_digit c"
  have "\<not> contains (dropWhile ?D s) CRLF"
    using assms(2) contains_drop by (auto simp: dropWhile_eq_drop)
  then have "take 2 (dropWhile ?D s) \<noteq> CRLF" using crlf_at by blast
  then have "no_match (literal w CRLF (dropWhile ?D s))"
    using assms(1) by (intro literal_no_match) (auto simp: numeral_2_eq_2)
  then show ?thesis
    using assms(1) by (auto simp: plain_digits_def winnow_okD Let_def)
qed

lemma search_digits:
  assumes "winnow_ok w" and "CR \<notin> set j" and "j = [] \<or> \<not> is_ascii_digit (last j)"
    and "digits_val 0 ds = Some v" and "ds \<noteq> []"
  shows "search (plain_digits w) (j @ ds @ CRLF @ s) =
    (if v < 2 ^ LENGTH('w) then Done (of_nat v :: 'w::len word) else NeedMore)"
proof -
  have "search (plain_digits w :: 'w word parser) (j @ ds @ CRLF @ s) = search (plain_digits w) (ds @ CRLF @ s)"
    using assms(1-3) by (intro search_skip plain_digits_elsewhere) auto
  moreover obtain c cs where "ds = c # cs" using assms(5) by (cases ds) auto
  moreover have "\<not> is_continuation c"
    using digits_val_digits [OF assms(4)] digit_facts \<open>ds = c # cs\<close> by simp
  ultimately show ?thesis
    using plain_digits_here [OF assms(1,4,5), where 'w = 'w and s = s]
    by (simp add: search_here del: search.simps)
qed

lemma search_digits_incomplete:
  assumes "winnow_ok w" and "\<not> contains s CRLF"
  shows "search (plain_digits w) s = NeedMore"
proof (rule search_none)
  fix x y assume "s = x @ y"
  then have "\<not> contains y CRLF" using assms(2) contains_drop [of "length x" s] by auto
  with assms(1) show "no_match (plain_digits w y)" by (rule plain_digits_incomplete)
qed

lemma no_crlf_prefix:
  assumes "CR \<notin> set s" and "n < length (s @ CRLF)"
  shows "\<not> contains (take n (s @ CRLF)) CRLF"
proof -
  have free: "\<not> contains u CRLF" if "CR \<notin> set (butlast u)" for u
    using that by (induction u rule: split_crlf.induct) (auto simp: contains_crlf_simps split: if_splits)
  have "butlast (take n (s @ CRLF)) = take (n - 1) s"
  proof (cases "n \<le> length s")
    case True
    then show ?thesis by (simp add: butlast_take)
  next
    case False
    then have "n = Suc (length s)" using assms(2) by simp
    then show ?thesis by simp
  qed
  then show ?thesis using assms(1) by (intro free) (auto dest: in_set_takeD)
qed


definition port_queries :: "query list" where
  "port_queries = [Q_TelnetPort, Q_SshPort, Q_HttpPort, Q_SnmpPort, Q_HttpsPort]"

definition number_queries :: "query list" where
  "number_queries = [Q_PortTimeout, Q_GlobalPortTimeout]"

lemma port_query_step: "q \<in> set port_queries \<Longrightarrow> parse_step (query_instruction w q) = plain_port w"
  by (auto simp: port_queries_def parse_step_def query_instruction_def fun_eq_iff)

lemma number_query_step: "q \<in> set number_queries \<Longrightarrow> parse_step (query_instruction w q) = plain_number w"
  by (auto simp: number_queries_def parse_step_def query_instruction_def fun_eq_iff)

text \<open>
  A numeric reply is decoded exactly or not at all. When the device answers a port or timeout
  query with a decimal number and CR LF, behind whatever line noise or request echo that ends in
  a character that is not a digit and holds no CR, the query decodes the number when it fits the field (16 bits for
  a port, 32 for a timeout) and otherwise reports nothing: it never decodes a shorter number
  from the tail of the digits. While the line is incomplete it asks for more bytes.
\<close>

theorem numeric_reply_exact:
  assumes "winnow_ok w" and "CR \<notin> set noise" and "noise = [] \<or> \<not> is_ascii_digit (last noise)"
    and "digits_val 0 ds = Some v" and "ds \<noteq> []"
    and "p \<in> set port_queries" and "q \<in> set number_queries"
  shows "parse_step (query_instruction w p) (noise @ ds @ CRLF @ rest) =
        (if v < 65536 then Done (VPort (of_nat v)) else NeedMore)
    \<and> parse_step (query_instruction w q) (noise @ ds @ CRLF @ rest) =
        (if v < 4294967296 then Done (VNumber (of_nat v)) else NeedMore)
    \<and> (\<forall>n < length (noise @ ds @ CRLF).
         parse_step (query_instruction w p) (take n (noise @ ds @ CRLF)) = NeedMore
         \<and> parse_step (query_instruction w q) (take n (noise @ ds @ CRLF)) = NeedMore)"
proof (intro conjI allI impI)
  note step = port_query_step [OF assms(6)] number_query_step [OF assms(7)]
    plain_port_def plain_number_def parser_of_def
  show "parse_step (query_instruction w p) (noise @ ds @ CRLF @ rest) =
        (if v < 65536 then Done (VPort (of_nat v)) else NeedMore)"
    by (simp add: step search_digits [OF assms(1-5), simplified])
  show "parse_step (query_instruction w q) (noise @ ds @ CRLF @ rest) =
        (if v < 4294967296 then Done (VNumber (of_nat v)) else NeedMore)"
    by (simp add: step search_digits [OF assms(1-5), simplified])
  fix n assume n: "n < length (noise @ ds @ CRLF)"
  have "CR \<notin> set (noise @ ds)"
    using assms(2) digits_val_digits [OF assms(4)] digit_facts by auto
  then have "\<not> contains (take n ((noise @ ds) @ CRLF)) CRLF"
    using n by (intro no_crlf_prefix) simp_all
  then have none: "\<not> contains (take n (noise @ ds @ CRLF)) CRLF" by simp
  show "parse_step (query_instruction w p) (take n (noise @ ds @ CRLF)) = NeedMore"
    "parse_step (query_instruction w q) (take n (noise @ ds @ CRLF)) = NeedMore"
    by (simp_all only: step search_digits_incomplete [OF assms(1) none] step.case)
qed

theorem numeric_reply_exact_witness:
  "parse_step (query_instruction plain_winnow Q_SshPort) (''x: '' @ ''99999'' @ CRLF) = NeedMore
   \<and> parse_step (query_instruction plain_winnow Q_PortTimeout) (''x: '' @ ''99999'' @ CRLF)
       = Done (VNumber 99999)"
proof -
  have "winnow_ok plain_winnow" "CR \<notin> set ''x: ''" "''x: '' = [] \<or> \<not> is_ascii_digit (last ''x: '')"
    "digits_val 0 ''99999'' = Some 99999" "''99999'' \<noteq> []"
    "Q_SshPort \<in> set port_queries" "Q_PortTimeout \<in> set number_queries"
    by (simp_all add: winnow_ok_plain CR_def port_queries_def number_queries_def)
  from numeric_reply_exact [OF this, of "[]"] show ?thesis by simp
qed


section \<open>Registers and their queries\<close>

lemma char_digits [simp]:
  "char_of (48::nat) = CHR ''0''" "char_of (49::nat) = CHR ''1''" "char_of (50::nat) = CHR ''2''"
  "char_of (51::nat) = CHR ''3''" "char_of (52::nat) = CHR ''4''" "char_of (53::nat) = CHR ''5''"
  "char_of (54::nat) = CHR ''6''" "char_of (55::nat) = CHR ''7''" "char_of (56::nat) = CHR ''8''"
  "char_of (57::nat) = CHR ''9''"
  by code_simp+

text \<open>The query that reads the cell a register writes.\<close>

fun register_query :: "register \<Rightarrow> query" where
  "register_query R_Contributor = Q_Contributor"
| "register_query R_Coverage = Q_Coverage"
| "register_query R_Presenter = Q_Presenter"
| "register_query R_Description = Q_Description"
| "register_query R_Format = Q_Format"
| "register_query R_Language = Q_Language"
| "register_query R_Publisher = Q_Publisher"
| "register_query R_Relation = Q_Relation"
| "register_query R_Rights = Q_Rights"
| "register_query R_Source = Q_Source"
| "register_query R_Subject = Q_Subject"
| "register_query R_Title = Q_Title"
| "register_query R_Type = Q_Type"
| "register_query R_SystemName = Q_SystemName"
| "register_query R_Course = Q_Course"

lemma register_query_name:
  "catalog_from_str query_catalog (catalog_name register_catalog r) = Inr (register_query r)"
  by (induction r) code_simp+

lemma register_query_payload:
  "in_payload (query_instruction w (register_query r)) = [ESC] @ reg r @ RCDR @ [CR]"
  by (induction r) (simp_all add: query_instruction_def reg_def esc_rcdr_def show_uint_def show_nat.simps)

lemma register_index_inj: "register_index r = register_index r' \<Longrightarrow> r = r'"
  by (induction r; induction r') simp_all

text \<open>
  C28. Reading and writing a metadata register address the same cell. Every register is readable:
  its name is the name of a query, and that query's request is \<open>ESC M<n> RCDR CR\<close> for the index
  \<open>n\<close> the register is written at; two registers never share an index. A value written to a
  register is cut to 127 characters, and is sent whole when it is no longer than that.
\<close>

theorem register_addressing:
  "(\<exists>q. catalog_from_str query_catalog (catalog_name register_catalog r) = Inr q
        \<and> in_payload (query_instruction w q) = [ESC] @ reg r @ RCDR @ [CR])
   \<and> (\<forall>r'. register_index r = register_index r' \<longrightarrow> r = r')
   \<and> (\<exists>sent. in_payload (register_instruction w r value) = [ESC] @ reg r @ ''*'' @ sent @ RCDR @ [CR]
        \<and> chars_count sent \<le> 127 \<and> (chars_count value \<le> 127 \<longrightarrow> sent = value))"
proof (intro conjI)
  show "\<exists>q. catalog_from_str query_catalog (catalog_name register_catalog r) = Inr q
        \<and> in_payload (query_instruction w q) = [ESC] @ reg r @ RCDR @ [CR]"
    using register_query_name register_query_payload by blast
  show "\<forall>r'. register_index r = register_index r' \<longrightarrow> r = r'"
    using register_index_inj by blast
  show "\<exists>sent. in_payload (register_instruction w r value) = [ESC] @ reg r @ ''*'' @ sent @ RCDR @ [CR]
        \<and> chars_count sent \<le> 127 \<and> (chars_count value \<le> 127 \<longrightarrow> sent = value)"
    by (intro exI [of _ "shorten value 127"])
       (simp add: register_instruction_def MAX_VALUE_LEN_def shorten_def chars_take_length chars_take_id)
qed

theorem register_addressing_witness:
  "\<exists>sent. in_payload (register_instruction plain_winnow R_Title ''Week 4'')
       = [ESC] @ ''M13'' @ ''*'' @ sent @ RCDR @ [CR] \<and> sent = ''Week 4''"
  using register_addressing [of R_Title plain_winnow "''Week 4''"]
  by (auto simp: reg_def show_uint_def show_nat.simps chars_count_def is_continuation_def)

end
