(* ===== verification/Sis_Text.thy ===== *)
theory Sis_Text
  imports Sis_Prelude
begin

text \<open>
  UTF-8 as the Rust standard library checks it. Every \<^verbatim>\<open>str\<close> of the program satisfies
  \<open>is_utf8\<close>; \<open>valid_up_to\<close> is what \<^verbatim>\<open>std::str::from_utf8\<close> reports of a byte buffer, and
  \<open>scalars\<close> are the characters \<^verbatim>\<open>chars()\<close> walks, each as its bytes.
\<close>


section \<open>Well-formed sequences\<close>

abbreviation byte_in :: "char \<Rightarrow> nat \<Rightarrow> nat \<Rightarrow> bool" where
  "byte_in c lo hi \<equiv> lo \<le> of_char c \<and> of_char c \<le> hi"

definition second_byte_ok :: "char \<Rightarrow> char \<Rightarrow> bool" where
  "second_byte_ok a b \<longleftrightarrow>
     (if of_char a = (224::nat) then byte_in b 160 191
      else if of_char a = (237::nat) then byte_in b 128 159
      else if of_char a = (240::nat) then byte_in b 144 191
      else if of_char a = (244::nat) then byte_in b 128 143
      else byte_in b 128 191)"

text \<open>How many bytes the well-formed sequence at the front takes (0 when there is none).\<close>

fun utf8_width :: "string \<Rightarrow> nat" where
  "utf8_width [] = 0"
| "utf8_width (a # s) =
     (if byte_in a 0 127 then 1
      else if byte_in a 194 223 then
        (case s of b # _ \<Rightarrow> if second_byte_ok a b then 2 else 0 | _ \<Rightarrow> 0)
      else if byte_in a 224 239 then
        (case s of b # c # _ \<Rightarrow> if second_byte_ok a b \<and> is_continuation c then 3 else 0 | _ \<Rightarrow> 0)
      else if byte_in a 240 244 then
        (case s of b # c # d # _ \<Rightarrow>
             if second_byte_ok a b \<and> is_continuation c \<and> is_continuation d then 4 else 0
         | _ \<Rightarrow> 0)
      else 0)"

function valid_up_to :: "string \<Rightarrow> nat" where
  "valid_up_to s =
     (if utf8_width s = 0 then 0 else utf8_width s + valid_up_to (drop (utf8_width s) s))"
  by pat_completeness auto
termination
proof (relation "measure length", goal_cases)
  case (2 s)
  then show ?case by (cases s) auto
qed simp

declare valid_up_to.simps [simp del]

definition is_utf8 :: "string \<Rightarrow> bool" where
  "is_utf8 s \<longleftrightarrow> valid_up_to s = length s"


section \<open>Characters\<close>

function scalars :: "string \<Rightarrow> string list" where
  "scalars [] = []"
| "scalars (c # s) = (c # takeWhile is_continuation s) # scalars (dropWhile is_continuation s)"
  by pat_completeness auto
termination
  by (relation "measure length") (auto simp: le_imp_less_Suc length_dropWhile_le)

text \<open>\<open>char::is_control\<close>: the one-byte and the two-byte encodings of the control characters.\<close>

definition is_control :: "string \<Rightarrow> bool" where
  "is_control ch = (case map of_char ch of
       [b :: nat] \<Rightarrow> b < 32 \<or> b = 127
     | [a, b] \<Rightarrow> a = 194 \<and> 128 \<le> b \<and> b < 160
     | _ \<Rightarrow> False)"


section \<open>ASCII in valid text\<close>

lemma utf8_width_le: "utf8_width s \<le> length s"
  by (cases s) (auto split: list.splits)

lemma utf8_head:
  assumes "utf8_width s = Suc n"
  obtains c cs t where "s = c # cs @ t" and "length cs = n" and "\<forall>x \<in> set cs. is_continuation x"
    and "\<not> is_continuation c" and "n = 0 \<longleftrightarrow> of_char c < (128::nat)"
proof -
  obtain c u where s: "s = c # u" using assms by (cases s) auto
  have cont: "second_byte_ok a b \<Longrightarrow> is_continuation b" for a b
    by (auto simp: second_byte_ok_def is_continuation_def split: if_splits)
  have "length (take n u) = n"
    using assms utf8_width_le [of s] by (auto simp: s)
  moreover have "\<forall>x \<in> set (take n u). is_continuation x"
    using assms by (auto simp: s split: if_splits list.splits dest: cont)
  moreover have "\<not> is_continuation c" and "n = 0 \<longleftrightarrow> of_char c < (128::nat)"
    using assms by (auto simp: s is_continuation_def split: if_splits list.splits)
  ultimately show ?thesis
    using that [of c "take n u" "drop n u"] by (simp add: s)
qed

lemma valid_up_to_le: "valid_up_to s \<le> length s"
proof (induction s rule: valid_up_to.induct)
  case (1 s)
  then show ?case
    using utf8_width_le [of s] by (subst valid_up_to.simps) auto
qed

lemma is_utf8_Nil [simp]: "is_utf8 []"
  by (simp add: is_utf8_def valid_up_to.simps)

lemma is_utf8_cases:
  assumes "is_utf8 s" and "s \<noteq> []"
  obtains c cs t where "s = c # cs @ t" and "is_utf8 t" and "\<forall>x \<in> set cs. is_continuation x"
    and "\<not> is_continuation c" and "cs = [] \<longleftrightarrow> of_char c < (128::nat)"
proof -
  have w: "utf8_width s \<noteq> 0" and v: "valid_up_to (drop (utf8_width s) s) = length s - utf8_width s"
    using assms by (auto simp: is_utf8_def valid_up_to.simps [of s] split: if_splits)
  then obtain n where n: "utf8_width s = Suc n" by (metis not0_implies_Suc)
  obtain c cs t where s: "s = c # cs @ t" "length cs = n" "\<forall>x \<in> set cs. is_continuation x"
    "\<not> is_continuation c" "n = 0 \<longleftrightarrow> of_char c < (128::nat)"
    using n by (rule utf8_head)
  show ?thesis
    using s v n by (intro that [of c cs t]) (auto simp: is_utf8_def)
qed

lemma is_utf8_start: "is_utf8 t \<Longrightarrow> takeWhile is_continuation t = [] \<and> dropWhile is_continuation t = t"
proof (cases "t = []")
  case False
  assume "is_utf8 t"
  then obtain c cs u where "t = c # cs @ u" "\<not> is_continuation c"
    using False by (rule is_utf8_cases)
  then show ?thesis by simp
qed simp

text \<open>An ASCII byte of a valid string is a character of it.\<close>

lemma ascii_scalar:
  "is_utf8 s \<Longrightarrow> c \<in> set s \<Longrightarrow> of_char c < (128::nat) \<Longrightarrow> [c] \<in> set (scalars s)"
proof (induction s rule: length_induct)
  case (1 s)
  from 1(3) have "s \<noteq> []" by auto
  with 1(2) obtain d ds t where s: "s = d # ds @ t" "is_utf8 t" "\<forall>x \<in> set ds. is_continuation x"
    "\<not> is_continuation d" "ds = [] \<longleftrightarrow> of_char d < (128::nat)"
    by (rule is_utf8_cases)
  have sc: "scalars s = (d # ds) # scalars t"
    using s is_utf8_start [OF s(2)] by (simp add: takeWhile_append dropWhile_append)
  have "c \<notin> set ds" using s(3) 1(4) by (auto simp: is_continuation_def)
  with 1(3) s(1) consider "c = d" | "c \<in> set t" by auto
  then show ?case
  proof cases
    case 1
    with \<open>of_char c < (128::nat)\<close> s(5) show ?thesis unfolding sc by simp
  next
    case 2
    with "1.IH" s 1(4) have "[c] \<in> set (scalars t)" by simp
    then show ?thesis unfolding sc by simp
  qed
qed


section \<open>Trimming\<close>

abbreviation visible :: "char \<Rightarrow> bool" where
  "visible c \<equiv> 33 \<le> (of_char c :: nat) \<and> of_char c < (127::nat)"

lemma whitespace_ends:
  "\<forall>u \<in> set whitespace. u \<noteq> [] \<and> \<not> visible (hd u) \<and> \<not> visible (last u)"
  by (simp add: whitespace_def of_char_of)

lemma leading_space_visible:
  assumes "\<forall>u \<in> set ws. u \<noteq> [] \<and> \<not> visible (hd u)" and "visible c"
  shows "leading_space ws (c # s) = 0"
proof -
  have "find (\<lambda>u. take (length u) (c # s) = u) ws = None"
    unfolding find_None_iff
  proof (intro notI, elim exE conjE)
    fix u assume "u \<in> set ws" "take (length u) (c # s) = u"
    with assms show False by (cases u) auto
  qed
  then show ?thesis by (simp add: leading_space_def)
qed

text \<open>Text that starts and ends with a visible character is its own trim.\<close>

lemma trim_visible:
  assumes "s \<noteq> []" and "visible (hd s)" and "visible (last s)"
  shows "trim s = s"
proof -
  obtain c cs where c: "s = c # cs" using assms(1) by (cases s) auto
  obtain d ds where d: "rev s = d # ds" using assms(1) by (cases "rev s") auto
  then have "d = last s" by (metis hd_rev list.sel(1))
  have "strip_leading whitespace s = s"
    using assms(2) whitespace_ends by (subst strip_leading.simps) (simp add: c leading_space_visible)
  moreover have "strip_leading (map rev whitespace) (rev s) = rev s"
    unfolding d using assms(3) whitespace_ends \<open>d = last s\<close>
    by (subst strip_leading.simps) (simp add: leading_space_visible hd_rev)
  ultimately show ?thesis by (simp add: trim_def)
qed
end
