(* ===== verification/Sis_Setting.thy ===== *)
theory Sis_Setting
  imports Sis_Catalog Sis_Text
begin

text \<open>
  \<^verbatim>\<open>sismatic-core/src/protocol/instructions/setting.rs\<close>: the writable device settings, the shapes
  their values must have on the wire, the frame the value is put in and the parser of the
  device's echo.
\<close>


section \<open>The catalog\<close>

datatype setting =
    S_UnitName | S_Timezone | S_DhcpMode | S_SnmpState | S_SnmpUnitLocation | S_SnmpUnitContact
  | S_TelnetPort | S_HttpPort | S_Stream1Name | S_Stream2Name | S_Stream3Name | S_Stream1State
  | S_Stream2State | S_Stream3State | S_RTMPStream1PublishURL | S_RTMPStream1BackupPublishURL
  | S_RTMPStream2PublishURL | S_RTMPStream2BackupPublishURL | S_RTMPStream3PublishURL |
  S_RTMPStream3BackupPublishURL | S_RTMPStream1State | S_RTMPStream2State | S_RTMPStream3State

definition setting_catalog :: "setting catalog" where
  "setting_catalog =
    [ entry S_UnitName ''UNIT_NAME'' []
        ''Configured unit name.'',
      entry S_Timezone ''TIMEZONE'' []
        ''Configured timezone.'',
      entry S_DhcpMode ''DHCP_MODE'' []
        ''Whether DHCP is enabled.'',
      entry S_SnmpState ''SNMP_STATE'' []
        ''Whether SNMP is enabled.'',
      entry S_SnmpUnitLocation ''SNMP_UNIT_LOCATION'' []
        ''SNMP unit location string.'',
      entry S_SnmpUnitContact ''SNMP_UNIT_CONTACT'' []
        ''SNMP unit contact string.'',
      entry S_TelnetPort ''TELNET_PORT'' []
        ''Telnet service port.'',
      entry S_HttpPort ''HTTP_PORT'' []
        ''HTTP service port.'',
      entry S_Stream1Name ''STREAM_1_NAME'' [''STREAM_NAME_1'']
        ''Name of stream 1.'',
      entry S_Stream2Name ''STREAM_2_NAME'' [''STREAM_NAME_2'']
        ''Name of stream 2.'',
      entry S_Stream3Name ''STREAM_3_NAME'' [''STREAM_NAME_3'']
        ''Name of stream 3.'',
      entry S_Stream1State ''STREAM_1_STATE'' [''STREAM_1_ENABLED'', ''STREAM_1_STATUS'']
        ''Whether stream 1 is enabled.'',
      entry S_Stream2State ''STREAM_2_STATE'' [''STREAM_2_ENABLED'', ''STREAM_2_STATUS'']
        ''Whether stream 2 is enabled.'',
      entry S_Stream3State ''STREAM_3_STATE'' [''STREAM_3_ENABLED'', ''STREAM_3_STATUS'']
        ''Whether stream 3 is enabled.'',
      entry S_RTMPStream1PublishURL ''RTMP_1_URL'' [''RTMP_URL_1'']
        ''Primary RTMP push target URL for stream 1.'',
      entry S_RTMPStream1BackupPublishURL ''RTMP_1_BACKUP_URL'' [''RTMP_BACKUP_URL_1'']
        ''Backup RTMP push target URL for stream 1.'',
      entry S_RTMPStream2PublishURL ''RTMP_2_URL'' [''RTMP_URL_2'']
        ''Primary RTMP push target URL for stream 2.'',
      entry S_RTMPStream2BackupPublishURL ''RTMP_2_BACKUP_URL'' [''RTMP_BACKUP_URL_2'']
        ''Backup RTMP push target URL for stream 2.'',
      entry S_RTMPStream3PublishURL ''RTMP_3_URL'' [''RTMP_URL_3'']
        ''Primary RTMP push target URL for stream 3.'',
      entry S_RTMPStream3BackupPublishURL ''RTMP_3_BACKUP_URL'' [''RTMP_BACKUP_URL_3'']
        ''Backup RTMP push target URL for stream 3.'',
      entry S_RTMPStream1State ''RTMP_1_STATE'' [''RTMP_1_ENABLED'', ''RTMP_1_STATUS'', ''RTMP_STREAM_1_STATE'']
        ''Whether the Archive Channel A RTMP push stream is enabled.'',
      entry S_RTMPStream2State ''RTMP_2_STATE'' [''RTMP_2_ENABLED'', ''RTMP_2_STATUS'', ''RTMP_STREAM_2_STATE'']
        ''Whether the Archive Channel B RTMP push stream is enabled.'',
      entry S_RTMPStream3State ''RTMP_3_STATE'' [''RTMP_3_ENABLED'', ''RTMP_3_STATUS'', ''RTMP_STREAM_3_STATE'']
        ''Whether the Confidence RTMP push stream is enabled.'' ]"


section \<open>Shapes and frames\<close>

datatype shape = ShFlag | ShPort | ShText nat | ShToken nat | ShUrl nat

datatype form = Prefixed | Addressed string

datatype value_error =
    NotAFlag string
  | NotAPort string
  | TooLong nat nat
  | IllegalCharacter string
  | NotAnRtmpUrl string

text \<open>
  \<open>char::escape_debug\<close> of the characters \<open>encode\<close> reports: the separator, which is printed as it
  is, and the control characters.
\<close>

definition hex_lower :: "nat \<Rightarrow> string" where
  "hex_lower n =
     (let d = (\<lambda>k. if k < 10 then char_of (48 + k) else char_of (87 + k))
      in if n < 16 then [d n] else [d (n div 16), d (n mod 16)])"

definition escape_debug :: "string \<Rightarrow> string" where
  "escape_debug ch =
     (if is_control ch then
        (let n = of_char (last ch)
         in if n = 0 then [CHR 0x5C, CHR ''0''] else if n = 9 then [CHR 0x5C, CHR ''t'']
            else if n = 10 then [CHR 0x5C, CHR ''n''] else if n = 13 then [CHR 0x5C, CHR ''r'']
            else [CHR 0x5C] @ ''u{'' @ hex_lower n @ ''}'')
      else ch)"

abbreviation quoted :: "string \<Rightarrow> string" where
  "quoted v \<equiv> [CHR 0x27] @ v @ [CHR 0x27]"

fun show_value_error :: "value_error \<Rightarrow> string" where
  "show_value_error (NotAFlag v) = quoted v @ '' is not a flag; use 1/0, true/false, on/off''"
| "show_value_error (NotAPort v) = quoted v @ '' is not a TCP port in 1..=65535''"
| "show_value_error (TooLong mx got) =
     ''value is '' @ show_nat got @ '' characters; this setting accepts '' @ show_nat mx"
| "show_value_error (IllegalCharacter c) =
     quoted (escape_debug c) @ '' cannot appear in this value; it delimits the field on the wire''"
| "show_value_error (NotAnRtmpUrl v) =
     quoted v @ '' is not an RTMP publish target; expected rtmp://host/... or rtmps://host/... ''
       @ ''(empty clears the target)''"


section \<open>Encoding a value\<close>

definition is_rtmp_url :: "string \<Rightarrow> bool" where
  "is_rtmp_url value =
     (let lower = to_ascii_lowercase value;
          rest = (case strip_prefix ''rtmp://'' lower of
                    Some r \<Rightarrow> Some r
                  | None \<Rightarrow> strip_prefix ''rtmps://'' lower)
      in case rest of None \<Rightarrow> False | Some r \<Rightarrow> r \<noteq> [] \<and> hd r \<noteq> CHR ''/'')"

fun shape_rank :: "shape \<Rightarrow> nat" where
  "shape_rank (ShToken mx) = 1"
| "shape_rank (ShUrl mx) = 2"
| "shape_rank sh = 0"

function encode :: "shape \<Rightarrow> string \<Rightarrow> value_error + string" where
  "encode ShFlag value =
     (let v = to_ascii_lowercase (trim value)
      in if v \<in> {''1'', ''true'', ''on'', ''yes''} then Inr ''1''
         else if v \<in> {''0'', ''false'', ''off'', ''no''} then Inr ''0''
         else Inl (NotAFlag value))"
| "encode ShPort value =
     (case parse_uint (trim value) :: 16 word option of
        Some p \<Rightarrow> if p > 0 then Inr (show_uint p) else Inl (NotAPort value)
      | None \<Rightarrow> Inl (NotAPort value))"
| "encode (ShText mx) value =
     (let got = chars_count value
      in if got > mx then Inl (TooLong mx got) else Inr value)"
| "encode (ShToken mx) value =
     (case encode (ShText mx) value of
        Inl e \<Rightarrow> Inl e
      | Inr text \<Rightarrow>
          (case find (\<lambda>c. c = ''*'' \<or> is_control c) (scalars text) of
             Some c \<Rightarrow> Inl (IllegalCharacter c)
           | None \<Rightarrow> Inr text))"
| "encode (ShUrl mx) value =
     (case encode (ShToken mx) value of
        Inl e \<Rightarrow> Inl e
      | Inr text \<Rightarrow>
          if text = [] \<or> is_rtmp_url text then Inr text else Inl (NotAnRtmpUrl value))"
  by pat_completeness auto
termination
  by (relation "measure (shape_rank \<circ> fst)") auto


section \<open>What each setting needs\<close>

fun setting_shape :: "setting \<Rightarrow> shape" where
  "setting_shape S_DhcpMode = ShFlag"
| "setting_shape S_SnmpState = ShFlag"
| "setting_shape S_TelnetPort = ShPort"
| "setting_shape S_HttpPort = ShPort"
| "setting_shape S_SnmpUnitLocation = ShText 64"
| "setting_shape S_SnmpUnitContact = ShText 64"
| "setting_shape S_UnitName = ShText 63"
| "setting_shape S_Timezone = ShText 64"
| "setting_shape S_Stream1State = ShFlag"
| "setting_shape S_Stream2State = ShFlag"
| "setting_shape S_Stream3State = ShFlag"
| "setting_shape S_Stream1Name = ShToken 127"
| "setting_shape S_Stream2Name = ShToken 127"
| "setting_shape S_Stream3Name = ShToken 127"
| "setting_shape S_RTMPStream1State = ShFlag"
| "setting_shape S_RTMPStream2State = ShFlag"
| "setting_shape S_RTMPStream3State = ShFlag"
| "setting_shape S_RTMPStream1PublishURL = ShUrl 127"
| "setting_shape S_RTMPStream2PublishURL = ShUrl 127"
| "setting_shape S_RTMPStream3PublishURL = ShUrl 127"
| "setting_shape S_RTMPStream1BackupPublishURL = ShUrl 127"
| "setting_shape S_RTMPStream2BackupPublishURL = ShUrl 127"
| "setting_shape S_RTMPStream3BackupPublishURL = ShUrl 127"

fun setting_form :: "setting \<Rightarrow> form" where
  "setting_form S_Stream1Name = Addressed ''N1''"
| "setting_form S_Stream2Name = Addressed ''N2''"
| "setting_form S_Stream3Name = Addressed ''N3''"
| "setting_form S_Stream1State = Addressed ''1''"
| "setting_form S_Stream2State = Addressed ''2''"
| "setting_form S_Stream3State = Addressed ''3''"
| "setting_form S_UnitName = Prefixed"
| "setting_form S_Timezone = Prefixed"
| "setting_form S_DhcpMode = Prefixed"
| "setting_form S_SnmpState = Prefixed"
| "setting_form S_SnmpUnitLocation = Prefixed"
| "setting_form S_SnmpUnitContact = Prefixed"
| "setting_form S_TelnetPort = Prefixed"
| "setting_form S_HttpPort = Prefixed"
| "setting_form S_RTMPStream1State = Addressed ''E1''"
| "setting_form S_RTMPStream2State = Addressed ''E2''"
| "setting_form S_RTMPStream3State = Addressed ''E3''"
| "setting_form S_RTMPStream2PublishURL = Addressed ''U1*2''"
| "setting_form S_RTMPStream1PublishURL = Addressed ''U1*1''"
| "setting_form S_RTMPStream3PublishURL = Addressed ''U1*3''"
| "setting_form S_RTMPStream1BackupPublishURL = Addressed ''U2*1''"
| "setting_form S_RTMPStream2BackupPublishURL = Addressed ''U2*2''"
| "setting_form S_RTMPStream3BackupPublishURL = Addressed ''U2*3''"

fun setting_verb :: "setting \<Rightarrow> string" where
  "setting_verb S_UnitName = ''CN''"
| "setting_verb S_Timezone = ''TZON''"
| "setting_verb S_DhcpMode = ''DH''"
| "setting_verb S_SnmpState = ''ESNMP''"
| "setting_verb S_SnmpUnitLocation = ''LSNMP''"
| "setting_verb S_SnmpUnitContact = ''CSNMP''"
| "setting_verb S_TelnetPort = ''MT''"
| "setting_verb S_HttpPort = ''MH''"
| "setting_verb S_Stream1Name = ''STRC''"
| "setting_verb S_Stream2Name = ''STRC''"
| "setting_verb S_Stream3Name = ''STRC''"
| "setting_verb S_Stream1State = ''STRC''"
| "setting_verb S_Stream2State = ''STRC''"
| "setting_verb S_Stream3State = ''STRC''"
| "setting_verb S_RTMPStream1State = ''RTMP''"
| "setting_verb S_RTMPStream2State = ''RTMP''"
| "setting_verb S_RTMPStream3State = ''RTMP''"
| "setting_verb S_RTMPStream1PublishURL = ''RTMP''"
| "setting_verb S_RTMPStream2PublishURL = ''RTMP''"
| "setting_verb S_RTMPStream3PublishURL = ''RTMP''"
| "setting_verb S_RTMPStream1BackupPublishURL = ''RTMP''"
| "setting_verb S_RTMPStream2BackupPublishURL = ''RTMP''"
| "setting_verb S_RTMPStream3BackupPublishURL = ''RTMP''"


section \<open>Echo parsers\<close>

record address_part =
  ap_prefix :: string
  ap_index :: "32 word option"

fun split_at :: "char \<Rightarrow> string \<Rightarrow> string list" where
  "split_at sep [] = [[]]"
| "split_at sep (c # s) =
     (if c = sep then [] # split_at sep s
      else (case split_at sep s of [] \<Rightarrow> [[c]] | l # ls \<Rightarrow> (c # l) # ls))"

definition address_part_of :: "string \<Rightarrow> address_part" where
  "address_part_of part =
     (let digits_at = length part - length (takeWhile (\<lambda>c. is_ascii_digit c) (rev part))
      in \<lparr>ap_prefix = take digits_at part, ap_index = parse_uint (drop digits_at part)\<rparr>)"

definition address_parts :: "string \<Rightarrow> address_part list" where
  "address_parts addr = map address_part_of (split_at CHR ''*'' addr)"

text \<open>The loop of \<open>addressed_echo\<close> over the parts of the address; \<open>n\<close> counts them.\<close>

fun match_parts :: "winnow \<Rightarrow> nat \<Rightarrow> address_part list \<Rightarrow> unit parser" where
  "match_parts w n [] i = POk () i"
| "match_parts w n (part # parts) i =
     pbind (if n > 0 then literal w ''*'' i else POk [] i) (\<lambda>_ i.
     pbind (if ap_prefix part \<noteq> [] then literal w (ap_prefix part) i else POk [] i) (\<lambda>_ i.
     pbind (case ap_index part of
              None \<Rightarrow> POk () i
            | Some expected \<Rightarrow>
                pbind (take_while_of w 1 None (\<lambda>c. is_ascii_digit c) i) (\<lambda>digits i.
                  if parse_uint digits \<noteq> Some expected then PBacktrack else POk () i))
     (\<lambda>_ i. match_parts w (Suc n) parts i)))"

definition addressed_core :: "winnow \<Rightarrow> string \<Rightarrow> address_part list \<Rightarrow> string parser" where
  "addressed_core w head parts i =
     pbind (literal w head i) (\<lambda>_ i.
     pbind (match_parts w 0 parts i) (\<lambda>_ i.
     pbind (literal w ''*'' i) (\<lambda>_ i. plain_line w i)))"

definition addressed_echo :: "winnow \<Rightarrow> string \<Rightarrow> string \<Rightarrow> string \<Rightarrow> core_value step" where
  "addressed_echo w verb addr =
     (let head = echoed verb; parts = address_parts addr
      in parser_of (addressed_core w head parts) VText)"

definition setting_echo :: "winnow \<Rightarrow> string \<Rightarrow> string \<Rightarrow> core_value step" where
  "setting_echo w verb =
     parser_of (\<lambda>i. pbind (literal w verb i) (\<lambda>_ i. plain_line w i)) VText"

definition setting_instruction :: "winnow \<Rightarrow> setting \<Rightarrow> string \<Rightarrow> value_error + instruction" where
  "setting_instruction w s value =
     (case encode (setting_shape s) value of
        Inl e \<Rightarrow> Inl e
      | Inr encoded \<Rightarrow>
          let verb = setting_verb s;
              (payload, parser) =
                (case setting_form s of
                   Prefixed \<Rightarrow> ([ESC] @ encoded @ verb @ [CR], setting_echo w verb)
                 | Addressed addr \<Rightarrow>
                     ([ESC] @ addr @ ''*'' @ encoded @ verb @ [CR], addressed_echo w verb addr))
          in Inr \<lparr>in_name = catalog_name setting_catalog s, in_payload = payload, in_parser = parser\<rparr>)"


section \<open>What encoding guarantees\<close>

text \<open>Neither the separator nor a one-byte control character.\<close>

abbreviation framed_char :: "char \<Rightarrow> bool" where
  "framed_char c \<equiv> c \<noteq> CHR ''*'' \<and> 32 \<le> (of_char c :: nat) \<and> of_char c \<noteq> (127::nat)"

interpretation settings: name_catalog setting_catalog
proof
  fix v show "v \<in> set (catalog_all setting_catalog)"
    by (cases v) (simp_all add: catalog_all_def setting_catalog_def entry_def)
qed code_simp+

lemma encode_text: "encode (ShText mx) value = Inr v \<Longrightarrow> v = value \<and> chars_count v \<le> mx"
  by (auto simp: Let_def split: if_splits)

lemma encode_token:
  assumes "is_utf8 value" and "encode (ShToken mx) value = Inr v"
  shows "v = value \<and> chars_count v \<le> mx \<and> list_all framed_char v"
proof -
  from assms(2) have v: "v = value" "chars_count v \<le> mx"
    and clean: "find (\<lambda>c. c = ''*'' \<or> is_control c) (scalars value) = None"
    by (auto simp: Let_def split: if_splits sum.splits option.splits)
  have "framed_char c" if c: "c \<in> set value" for c
  proof (rule ccontr)
    assume bad: "\<not> framed_char c"
    then have "of_char c < (128::nat)" by auto
    with assms(1) c have "[c] \<in> set (scalars value)" by (rule ascii_scalar)
    moreover have "[c] = ''*'' \<or> is_control [c]" using bad by (auto simp: is_control_def)
    ultimately show False using clean by (auto simp: find_None_iff)
  qed
  with v show ?thesis by (simp add: list_all_iff)
qed

lemma encode_url:
  assumes "is_utf8 value" and "encode (ShUrl mx) value = Inr v"
  shows "v = value \<and> chars_count v \<le> mx \<and> list_all framed_char v \<and> (v = [] \<or> is_rtmp_url v)"
proof -
  from assms(2) have tok: "encode (ShToken mx) value = Inr v" and url: "v = [] \<or> is_rtmp_url v"
    by (auto simp del: encode.simps(4) split: if_splits sum.splits)
  from encode_token [OF assms(1) tok] url show ?thesis by blast
qed

lemma encode_flag: "encode ShFlag value = Inr v \<Longrightarrow> v = ''0'' \<or> v = ''1''"
  by (auto simp: Let_def split: if_splits)

lemma encode_port:
  assumes "encode ShPort value = Inr v"
  obtains n where "v = show_nat n" and "1 \<le> n" and "n \<le> 65535"
proof -
  from assms obtain p :: "16 word" where "v = show_uint p" "p > 0"
    by (auto split: option.splits if_splits)
  moreover have "unat p \<le> 65535" using unsigned_less [of p, where 'a = nat] by simp
  moreover have "1 \<le> unat p" using \<open>p > 0\<close> by (simp add: word_less_nat_alt Suc_le_eq)
  ultimately show ?thesis using that [of "unat p"] by (simp add: show_uint_def)
qed

lemma show_nat_short: "n \<le> 65535 \<Longrightarrow> length (show_nat n) \<le> 5"
  by (simp add: show_nat.simps)

lemma chars_count_le: "chars_count s \<le> length s"
  by (simp add: chars_count_def)

definition free_text :: "shape \<Rightarrow> bool" where
  "free_text sh \<longleftrightarrow> (case sh of ShText mx \<Rightarrow> True | _ \<Rightarrow> False)"

lemma encode_framed:
  assumes "is_utf8 value" and "encode sh value = Inr v" and "\<not> free_text sh"
  shows "list_all framed_char v"
proof (cases sh)
  case ShFlag
  then show ?thesis using encode_flag assms(2) by fastforce
next
  case ShPort
  then obtain n where "v = show_nat n" using assms(2) encode_port by blast
  then show ?thesis
    using show_nat_digits [of n] digit_facts by (fastforce simp: list_all_iff)
qed (use assms encode_token encode_url in \<open>auto simp: free_text_def\<close>)

lemma setting_payload:
  assumes "setting_instruction w s value = Inr i"
  obtains v where "encode (setting_shape s) value = Inr v"
    and "in_payload i = (case setting_form s of
           Prefixed \<Rightarrow> [ESC] @ v @ setting_verb s @ [CR]
         | Addressed addr \<Rightarrow> [ESC] @ addr @ ''*'' @ v @ setting_verb s @ [CR])"
  using assms
  by (auto simp: setting_instruction_def Let_def split: sum.splits prod.splits form.splits)

lemma verb_plain: "CR \<notin> set (setting_verb s) \<and> CHR ''*'' \<notin> set (setting_verb s)"
  by (induction s; code_simp)

lemma addr_no_cr: "setting_form s = Addressed a \<Longrightarrow> CR \<notin> set a"
proof -
  have "case setting_form s of Prefixed \<Rightarrow> True | Addressed a \<Rightarrow> CR \<notin> set a"
    by (induction s; code_simp)
  then show "setting_form s = Addressed a \<Longrightarrow> CR \<notin> set a" by simp
qed

lemma setting_ceiling: "case setting_shape s of ShToken mx \<Rightarrow> mx = 127 | ShUrl mx \<Rightarrow> mx = 127 | _ \<Rightarrow> True"
  by (induction s) simp_all

lemma framed_no_cr: "list_all framed_char v \<Longrightarrow> CR \<notin> set v \<and> CHR ''*'' \<notin> set v"
proof -
  have bad: "\<not> framed_char CR" "\<not> framed_char CHR ''*''" by (simp_all add: CR_def)
  assume "list_all framed_char v"
  with bad show ?thesis unfolding list_all_iff by blast
qed

lemma setting_sends:
  assumes "setting_instruction w s value = Inr i"
  shows "\<exists>a v. encode (setting_shape s) value = Inr v \<and> CR \<notin> set a
      \<and> in_payload i = [ESC] @ a @ v @ setting_verb s @ [CR]
      \<and> a = (case setting_form s of Prefixed \<Rightarrow> [] | Addressed addr \<Rightarrow> addr @ ''*'')"
proof -
  obtain v where v: "encode (setting_shape s) value = Inr v"
    "in_payload i = (case setting_form s of
           Prefixed \<Rightarrow> [ESC] @ v @ setting_verb s @ [CR]
         | Addressed addr \<Rightarrow> [ESC] @ addr @ ''*'' @ v @ setting_verb s @ [CR])"
    using assms by (rule setting_payload)
  then show ?thesis
    using addr_no_cr [of s] by (cases "setting_form s") (auto simp: CR_def)
qed

text \<open>
  C30. A setting whose value has a shape (a flag, a port, a stream name or a push URL) is framed
  safely: the request is \<open>ESC\<close>, the address if there is one, the encoded value, the verb and CR,
  the value holds neither the separator \<open>*\<close> nor a control character, and so the only CR of the
  request is its terminator. The value sent is the caller's text as it is (at most 127
  characters), or for a flag \<open>0\<close> or \<open>1\<close>, or for a port its decimal digits without leading zeros.
\<close>

theorem setting_framed:
  assumes "setting_instruction w s value = Inr i" and "is_utf8 value"
    and "\<not> free_text (setting_shape s)"
  shows "\<exists>v. in_payload i = [ESC]
        @ (case setting_form s of Prefixed \<Rightarrow> [] | Addressed addr \<Rightarrow> addr @ ''*'')
        @ v @ setting_verb s @ [CR]
      \<and> list_all framed_char v \<and> CR \<notin> set (butlast (in_payload i))
      \<and> (case setting_shape s of
           ShFlag \<Rightarrow> v = ''0'' \<or> v = ''1''
         | ShPort \<Rightarrow> \<exists>n. v = show_nat n \<and> 1 \<le> n \<and> n \<le> 65535
         | ShText mx \<Rightarrow> False
         | ShToken mx \<Rightarrow> v = value \<and> chars_count v \<le> 127
         | ShUrl mx \<Rightarrow> v = value \<and> chars_count v \<le> 127 \<and> (v = [] \<or> is_rtmp_url v))"
proof -
  obtain a v where v: "encode (setting_shape s) value = Inr v" "CR \<notin> set a"
    "in_payload i = [ESC] @ a @ v @ setting_verb s @ [CR]"
    "a = (case setting_form s of Prefixed \<Rightarrow> [] | Addressed addr \<Rightarrow> addr @ ''*'')"
    using setting_sends [OF assms(1)] by blast
  have framed: "list_all framed_char v"
    using assms(2,3) v(1) by (intro encode_framed)
  have "CR \<notin> set (butlast (in_payload i))"
    using v(2) framed_no_cr [OF framed] verb_plain [of s]
    by (simp add: v(3) butlast_append CR_def ESC_def)
  moreover have "case setting_shape s of
           ShFlag \<Rightarrow> v = ''0'' \<or> v = ''1''
         | ShPort \<Rightarrow> \<exists>n. v = show_nat n \<and> 1 \<le> n \<and> n \<le> 65535
         | ShText mx \<Rightarrow> False
         | ShToken mx \<Rightarrow> v = value \<and> chars_count v \<le> 127
         | ShUrl mx \<Rightarrow> v = value \<and> chars_count v \<le> 127 \<and> (v = [] \<or> is_rtmp_url v)"
    using v(1) assms(3) setting_ceiling [of s]
    by (cases "setting_shape s")
       (auto simp: free_text_def dest: encode_flag encode_token [OF assms(2)] encode_url [OF assms(2)]
         elim!: encode_port simp del: encode.simps)
  ultimately show ?thesis using v(3) framed unfolding v(4) by blast
qed

theorem setting_framed_witness:
  "\<exists>i. setting_instruction plain_winnow S_Stream1Name ''Hall A'' = Inr i
     \<and> CR \<notin> set (butlast (in_payload i))"
proof -
  obtain i where i: "setting_instruction plain_winnow S_Stream1Name ''Hall A'' = Inr i"
    by (auto simp: setting_instruction_def chars_count_def is_continuation_def is_control_def Let_def)
  moreover have "is_utf8 ''Hall A''" by code_simp
  moreover have "\<not> free_text (setting_shape S_Stream1Name)" by (simp add: free_text_def)
  ultimately show ?thesis using setting_framed by blast
qed
end
