(* ===== verification/Sis_Echo.thy ===== *)
theory Sis_Echo
  imports Sis_Setting
begin

text \<open>
  The echo parsers of \<^verbatim>\<open>setting.rs\<close> against the echoes a device sends: addresses matched part by
  part with their indices compared as numbers, and the offset search over a buffer that may
  repeat the request.
\<close>

section \<open>The echo of an addressed write\<close>

text \<open>An address as a device spells it: each index behind any number of zeros.\<close>

fun echo_parts :: "(nat \<Rightarrow> nat) \<Rightarrow> nat \<Rightarrow> address_part list \<Rightarrow> string" where
  "echo_parts pad n [] = []"
| "echo_parts pad n (p # ps) =
     (if n > 0 then ''*'' else []) @ ap_prefix p
     @ (case ap_index p of None \<Rightarrow> [] | Some k \<Rightarrow> replicate (pad n) CHR ''0'' @ show_uint k)
     @ echo_parts pad (Suc n) ps"

definition echo_head :: "(nat \<Rightarrow> nat) \<Rightarrow> setting \<Rightarrow> string \<Rightarrow> string" where
  "echo_head pad s addr = echoed (setting_verb s) @ echo_parts pad 0 (address_parts addr)"

definition echo_line :: "(nat \<Rightarrow> nat) \<Rightarrow> setting \<Rightarrow> string \<Rightarrow> string \<Rightarrow> string" where
  "echo_line pad s addr v = echo_head pad s addr @ ''*'' @ v @ CRLF"

definition plain_part :: "address_part \<Rightarrow> bool" where
  "plain_part p \<longleftrightarrow> (ap_prefix p = [] \<or> ap_prefix p \<in> {''N'', ''E'', ''U''}) \<and> ap_index p \<noteq> None"

fun parts_differ :: "address_part list \<Rightarrow> address_part list \<Rightarrow> bool" where
  "parts_differ (p # ps) (q # qs) \<longleftrightarrow> p \<noteq> q \<or> parts_differ ps qs"
| "parts_differ ps qs \<longleftrightarrow> False"

definition addr_of :: "setting \<Rightarrow> string" where
  "addr_of s = (case setting_form s of Prefixed \<Rightarrow> [] | Addressed a \<Rightarrow> a)"

abbreviation part :: "string \<Rightarrow> 32 word \<Rightarrow> address_part" where
  "part p k \<equiv> \<lparr>ap_prefix = p, ap_index = Some k\<rparr>"

lemma address_table:
  "address_parts (addr_of S_Stream1Name) = [part ''N'' 1]"
  "address_parts (addr_of S_Stream2Name) = [part ''N'' 2]"
  "address_parts (addr_of S_Stream3Name) = [part ''N'' 3]"
  "address_parts (addr_of S_Stream1State) = [part [] 1]"
  "address_parts (addr_of S_Stream2State) = [part [] 2]"
  "address_parts (addr_of S_Stream3State) = [part [] 3]"
  "address_parts (addr_of S_RTMPStream1State) = [part ''E'' 1]"
  "address_parts (addr_of S_RTMPStream2State) = [part ''E'' 2]"
  "address_parts (addr_of S_RTMPStream3State) = [part ''E'' 3]"
  "address_parts (addr_of S_RTMPStream1PublishURL) = [part ''U'' 1, part [] 1]"
  "address_parts (addr_of S_RTMPStream2PublishURL) = [part ''U'' 1, part [] 2]"
  "address_parts (addr_of S_RTMPStream3PublishURL) = [part ''U'' 1, part [] 3]"
  "address_parts (addr_of S_RTMPStream1BackupPublishURL) = [part ''U'' 2, part [] 1]"
  "address_parts (addr_of S_RTMPStream2BackupPublishURL) = [part ''U'' 2, part [] 2]"
  "address_parts (addr_of S_RTMPStream3BackupPublishURL) = [part ''U'' 2, part [] 3]"
  by (simp_all add: address_parts_def addr_of_def address_part_of_def parse_uint_def strip_plus_def)

lemma parts_plain: "setting_form s = Addressed a \<Longrightarrow> list_all plain_part (address_parts (addr_of s))"
  by (induction s) (simp_all add: address_table plain_part_def)

lemma parts_apart:
  "setting_form s = Addressed a \<Longrightarrow> setting_form s' = Addressed a' \<Longrightarrow> s \<noteq> s' \<Longrightarrow>
   setting_verb s = setting_verb s' \<Longrightarrow>
   parts_differ (address_parts (addr_of s)) (address_parts (addr_of s'))"
  by (induction s; induction s') (simp_all add: address_table)

lemma echoed_heads: "echoed ''STRC'' = ''Strc''" "echoed ''RTMP'' = ''Rtmp''"
  by code_simp+

lemma verb_heads:
  "setting_form s = Addressed a \<Longrightarrow>
     (setting_verb s = ''STRC'' \<and> echoed (setting_verb s) = ''Strc'')
   \<or> (setting_verb s = ''RTMP'' \<and> echoed (setting_verb s) = ''Rtmp'')"
  by (induction s) (simp_all add: echoed_heads)

lemma addr_ofI: "setting_form s = Addressed a \<Longrightarrow> addr_of s = a"
  by (simp add: addr_of_def)

lemma zeros_val: "digits_val 0 (replicate n CHR ''0'' @ ds) = digits_val 0 ds"
  by (induction n) simp_all

lemma padded_index:
  defines "ds \<equiv> \<lambda>n k. replicate n CHR ''0'' @ show_uint (k :: 32 word)"
  shows "parse_uint (ds n k) = Some k" and "\<forall>c \<in> set (ds n k). is_ascii_digit c" and "ds n k \<noteq> []"
proof -
  have v: "digits_val 0 (ds n k) = Some (unat k)"
    by (simp add: ds_def zeros_val show_uint_def digits_val_show_nat)
  show ne: "ds n k \<noteq> []"
    using show_nat_hd [of "unat k"] by (auto simp: ds_def show_uint_def)
  show "parse_uint (ds n k) = Some k"
    using unsigned_less [of k, where 'a = nat] by (simp add: parse_uint_digits [OF v ne])
  show "\<forall>c \<in> set (ds n k). is_ascii_digit c"
    using v by (rule digits_val_digits)
qed

text \<open>One part of the address, against the spelling of a part.\<close>

lemma match_part:
  assumes w: "winnow_ok w" and "plain_part p" and "plain_part q"
    and star: "n = 0 \<or> pre = ''*''" and pre: "n > 0 \<or> pre = []"
    and s: "s = c # s'" "\<not> is_ascii_digit c"
  shows "match_parts w n (p # ps) (pre @ ap_prefix q
      @ (case ap_index q of None \<Rightarrow> [] | Some k \<Rightarrow> replicate z CHR ''0'' @ show_uint k) @ s)
    = (if p = q then match_parts w (Suc n) ps s else PBacktrack)"
proof -
  obtain k where k: "ap_index p = Some k" using assms(2) by (auto simp: plain_part_def)
  obtain l where l: "ap_index q = Some l" using assms(3) by (auto simp: plain_part_def)
  let ?D = "\<lambda>c. is_ascii_digit c"
  define ds where "ds = replicate z CHR ''0'' @ show_uint l"
  note ds = padded_index [of z l, folded ds_def]
  obtain d ds' where d: "ds = d # ds'" "is_ascii_digit d" using ds(2,3) by (cases ds) auto
  have run: "take_while_of w 1 None ?D (ds @ s) = POk ds s"
    using w ds(2,3) s by (simp add: take_while_run Suc_le_eq)
  have none: "take_while_of w 1 None ?D (b # t) = PBacktrack" if "\<not> ?D b" for b t
    using w that by (auto simp: winnow_okD)
  have letter: "literal w [a] (b # t) = (if a = b then POk [a] t else PBacktrack)" for a b t
    using w by (simp add: winnow_okD)
  have first: "(if n > 0 then literal w ''*'' (pre @ t) else POk [] (pre @ t)) = POk (if n > 0 then ''*'' else []) t" for t
    using star pre w by (auto simp: letter)
  have "p = q \<longleftrightarrow> ap_prefix p = ap_prefix q \<and> k = l"
    using k l by (cases p; cases q) auto
  moreover have "ap_prefix p = [] \<or> (\<exists>a. ap_prefix p = [a] \<and> \<not> ?D a)"
    "ap_prefix q = [] \<or> (\<exists>a. ap_prefix q = [a] \<and> \<not> ?D a)"
    using assms(2,3) by (auto simp: plain_part_def)
  ultimately show ?thesis
    unfolding match_parts.simps first pbind_simps l option.case ds_def [symmetric]
    using d run ds(1) by (elim disjE exE conjE) (auto simp: k letter none [unfolded One_nat_def])
qed

lemma match_parts_echo:
  assumes w: "winnow_ok w" and "list_all plain_part ps"
  shows "match_parts w n ps (echo_parts pad n ps @ CHR ''*'' # s) = POk () (CHR ''*'' # s)"
  using assms(2)
proof (induction ps arbitrary: n)
  case (Cons p ps)
  obtain c t where t: "echo_parts pad (Suc n) ps @ CHR ''*'' # s = c # t" "\<not> is_ascii_digit c"
    by (cases ps) auto
  with Cons show ?case
    using match_part [OF w, of p p n "if n > 0 then ''*'' else []" "c # t" c t "ps" "pad n"]
    by (simp del: match_parts.simps(2) flip: t(1))
qed simp

lemma match_parts_differ:
  assumes w: "winnow_ok w" and "list_all plain_part ps" "list_all plain_part qs" and "parts_differ ps qs"
  shows "match_parts w n ps (echo_parts pad n qs @ CHR ''*'' # s) = PBacktrack"
  using assms(2-)
proof (induction ps qs arbitrary: n rule: parts_differ.induct)
  case (1 p ps q qs)
  obtain c t where t: "echo_parts pad (Suc n) qs @ CHR ''*'' # s = c # t" "\<not> is_ascii_digit c"
    by (cases qs) auto
  with 1 show ?case
    using match_part [OF w, of p q n "if n > 0 then ''*'' else []" "c # t" c t "ps" "pad n"]
    by (auto simp del: match_parts.simps(2) simp flip: t(1))
qed simp_all

lemma literal_cases:
  assumes "winnow_ok w" and "t \<noteq> []"
  obtains r where "s = t @ r" and "literal w t s = POk t r" | "no_match (literal w t s)"
proof (cases "take (length t) s = t")
  case True
  then have "s = t @ drop (length t) s" by (metis append_take_drop_id)
  with True assms show ?thesis by (intro that(1) [of "drop (length t) s"]) (auto simp: winnow_okD)
next
  case False
  with assms show ?thesis by (intro that(2)) (simp add: winnow_okD)
qed

lemma digits_cases:
  assumes "winnow_ok w"
  obtains ds r where "s = ds @ r" and "\<forall>c \<in> set ds. is_ascii_digit c"
      and "take_while_of w 1 None (\<lambda>c. is_ascii_digit c) s = POk ds r"
    | "no_match (take_while_of w 1 None (\<lambda>c. is_ascii_digit c) s)"
proof (cases "takeWhile (\<lambda>c. is_ascii_digit c) s = s \<or> length (takeWhile (\<lambda>c. is_ascii_digit c) s) < 1")
  case True
  with assms show ?thesis by (intro that(2)) (auto simp: winnow_okD Let_def)
next
  case False
  with assms show ?thesis
    by (intro that(1) [of "takeWhile (\<lambda>c. is_ascii_digit c) s" "dropWhile (\<lambda>c. is_ascii_digit c) s"])
       (auto simp: winnow_okD Let_def dest: set_takeWhileD)
qed

text \<open>A parser that fails, or consumes a piece of the input without CR.\<close>

definition eats :: "'a presult \<Rightarrow> string \<Rightarrow> bool" where
  "eats r s \<longleftrightarrow> no_match r \<or> (\<exists>u rest v. s = u @ rest \<and> CR \<notin> set u \<and> r = POk v rest)"

lemma eats_bind: "eats r s \<Longrightarrow> (\<And>v i. eats (g v i) i) \<Longrightarrow> eats (pbind r g) s"
proof -
  assume r: "eats r s" and g: "\<And>v i. eats (g v i) i"
  from r consider "no_match r" | u rest v where "s = u @ rest" "CR \<notin> set u" "r = POk v rest"
    by (auto simp: eats_def)
  then show ?thesis
  proof cases
    case 1
    then show ?thesis by (auto simp: eats_def)
  next
    case 2
    then show ?thesis using g [of v rest]
      by (auto simp: eats_def)
  qed
qed

lemma eats_POk [simp]: "eats (POk v s) s"
  by (auto simp: eats_def)

lemma eats_PBacktrack [simp]: "eats PBacktrack s"
  by (simp add: eats_def)

lemma eats_literal: "winnow_ok w \<Longrightarrow> t \<noteq> [] \<Longrightarrow> CR \<notin> set t \<Longrightarrow> eats (literal w t s) s"
  by (rule literal_cases [of w t s]) (auto simp: eats_def)

lemma eats_digits: "winnow_ok w \<Longrightarrow> eats (take_while_of w 1 None (\<lambda>c. is_ascii_digit c) s) s"
  by (rule digits_cases [of w s]) (use digit_facts in \<open>auto simp: eats_def\<close>)

lemmas eats_digits_Suc = eats_digits [unfolded One_nat_def]

lemma eats_match_parts:
  assumes w: "winnow_ok w" and "list_all plain_part ps"
  shows "eats (match_parts w n ps s) s"
  using assms(2)
proof (induction ps arbitrary: n s)
  case (Cons p ps)
  obtain k where k: "ap_index p = Some k" using Cons.prems by (auto simp: plain_part_def)
  have pre: "CR \<notin> set (ap_prefix p)" using Cons.prems by (auto simp: plain_part_def CR_def)
  have star: "CR \<notin> set ''*''" by (simp add: CR_def)
  show ?case
    unfolding match_parts.simps k option.case
    using Cons pre star
    by (intro eats_bind)
       (auto intro!: eats_literal [OF w] eats_digits_Suc [OF w] eats_bind split: if_splits)
qed simp

lemma cr_not_star: "CHR ''*'' \<noteq> CR" "CR \<noteq> CHR ''*''"
  by (simp_all add: CR_def)

lemma addressed_needs_star:
  assumes w: "winnow_ok w" and "list_all plain_part ps" and "head \<noteq> []" and "CR \<notin> set head"
    and star: "CHR ''*'' \<notin> set (takeWhile is_not_cr s)"
  shows "no_match (addressed_core w head ps s)"
proof -
  let ?front = "pbind (literal w head s) (\<lambda>_ i. match_parts w 0 ps i)"
  have "eats ?front s"
    using assms(3,4) by (intro eats_bind eats_literal eats_match_parts w assms(2))
  then consider "no_match ?front"
    | u rest where "s = u @ rest" "CR \<notin> set u" "?front = POk () rest"
    by (auto simp: eats_def)
  then have "no_match (pbind ?front (\<lambda>_ i. pbind (literal w ''*'' i) (\<lambda>_ i. plain_line w i)))"
  proof cases
    case 2
    have "rest = [] \<or> hd rest \<noteq> CHR ''*''"
      using star 2(1,2) by (cases rest) (auto simp: takeWhile_append is_not_cr_def cr_not_star split: if_splits)
    then have "no_match (literal w ''*'' rest)"
      by (intro literal_no_match w) (cases rest; auto)+
    with 2(3) show ?thesis by auto
  qed auto
  moreover have "addressed_core w head ps s
      = pbind ?front (\<lambda>_ i. pbind (literal w ''*'' i) (\<lambda>_ i. plain_line w i))"
    by (simp add: addressed_core_def pbind_def split: presult.split)
  ultimately show ?thesis by simp
qed

lemma addressed_here:
  assumes "winnow_ok w" and "list_all plain_part ps" and "head \<noteq> []" and "CR \<notin> set v"
  shows "addressed_core w head ps (head @ echo_parts pad 0 ps @ ''*'' @ v @ CRLF @ s) = POk v s"
  using assms literal_ok [of w "''*''" "v @ CRLF @ s"]
  by (simp add: addressed_core_def literal_ok match_parts_echo plain_line_ok [simplified])

lemma addressed_other:
  assumes "winnow_ok w" and "list_all plain_part ps" and "list_all plain_part qs" and "head \<noteq> []"
    and "parts_differ ps qs"
  shows "addressed_core w head ps (head @ echo_parts pad 0 qs @ ''*'' @ s) = PBacktrack"
  using assms by (simp add: addressed_core_def literal_ok match_parts_differ)

lemma addressed_first:
  assumes "winnow_ok w" and "c \<noteq> hd head" and "head \<noteq> []"
  shows "no_match (addressed_core w head ps (c # s))"
  using assms literal_first [of w head "hd head" "tl head" "c # s" c s]
  by (simp add: addressed_core_def)

text \<open>The request and the echo of a setting are, up to the value, text no other echo starts in.\<close>

abbreviation quiet_char :: "char \<Rightarrow> bool" where
  "quiet_char c \<equiv> c \<noteq> CHR ''S'' \<and> c \<noteq> CHR ''R''"

lemma digit_quiet: "is_ascii_digit c \<Longrightarrow> quiet_char c"
  by auto

lemma echo_parts_quiet: "list_all plain_part ps \<Longrightarrow> list_all quiet_char (echo_parts pad n ps)"
proof (induction ps arbitrary: n)
  case (Cons p ps)
  then obtain k where k: "ap_index p = Some k" by (auto simp: plain_part_def)
  have "list_all quiet_char (replicate (pad n) CHR ''0'' @ show_uint k)"
    using padded_index(2) [of "pad n" k] digit_quiet by (simp only: list_all_iff) blast
  with Cons k show ?case by (auto simp: plain_part_def)
qed simp

lemma search_over:
  assumes w: "winnow_ok w" and "list_all plain_part ps" and head: "head \<in> {''Strc'', ''Rtmp''}"
    and A: "list_all quiet_char A" and B: "CHR ''*'' \<notin> set B" and rest: "rest = [] \<or> B \<noteq> [] \<and> last B = CR"
  shows "search (addressed_core w head ps) (A @ B @ rest) = search (addressed_core w head ps) rest"
proof -
  have "search (addressed_core w head ps) ((A @ B) @ rest) = search (addressed_core w head ps) rest"
  proof (rule search_skip)
    fix x y assume xy: "A @ B = x @ y" "y \<noteq> []"
    then obtain us where "A = x @ us \<and> us @ B = y \<or> A @ us = x \<and> B = us @ y"
      by (auto simp: append_eq_append_conv2)
    then consider c y' where "y = c # y'" "c \<in> set A" | z where "B = z @ y"
      by (cases us) auto
    then show "no_match (addressed_core w head ps (y @ rest))"
    proof cases
      case 1
      then have "quiet_char c" using A by (simp add: list_all_iff)
      then show ?thesis
        using 1(1) head addressed_first [OF w, of c head ps "y' @ rest"] by auto
    next
      case 2
      have "set (takeWhile is_not_cr (y @ rest)) \<subseteq> set y"
      proof (cases "rest = []")
        case False
        then have "last y = CR" using rest 2 xy(2) by simp
        then have "\<exists>c \<in> set y. \<not> is_not_cr c"
          using xy(2) last_in_set [of y] by (auto simp: is_not_cr_def)
        then have "takeWhile is_not_cr (y @ rest) = takeWhile is_not_cr y"
          by (auto simp: takeWhile_append)
        then show ?thesis by (auto dest: set_takeWhileD)
      qed (auto dest: set_takeWhileD)
      then have "CHR ''*'' \<notin> set (takeWhile is_not_cr (y @ rest))" using B 2 by auto
      then show ?thesis
        using w assms(2) head by (intro addressed_needs_star) (auto simp: CR_def)
    qed
  qed
  then show ?thesis by simp
qed

lemma addressed_step:
  assumes "setting_instruction w s value = Inr i" and "setting_form s = Addressed a"
  shows "parse_step i buf = (case search (addressed_core w (echoed (setting_verb s)) (address_parts a)) buf
    of Done v \<Rightarrow> Done (VText v) | NeedMore \<Rightarrow> NeedMore)"
  using assms
  by (auto simp: setting_instruction_def parse_step_def addressed_echo_def parser_of_def Let_def
      split: sum.splits)

lemma addr_quiet: "setting_form s = Addressed a \<Longrightarrow> list_all quiet_char a"
proof -
  have "case setting_form s of Prefixed \<Rightarrow> True | Addressed a \<Rightarrow> list_all quiet_char a"
    by (induction s; code_simp)
  then show "setting_form s = Addressed a \<Longrightarrow> list_all quiet_char a" by simp
qed

lemma addressed_not_free: "setting_form s = Addressed a \<Longrightarrow> \<not> free_text (setting_shape s)"
  by (induction s) (simp_all add: free_text_def)

lemma setting_framed_helper:
  assumes "setting_instruction w s value = Inr i" and "is_utf8 value" and "setting_form s = Addressed a"
  shows "\<exists>e. list_all framed_char e
    \<and> in_payload i = ([ESC] @ a @ ''*'') @ (e @ setting_verb s @ [CR])"
proof -
  obtain v where v: "encode (setting_shape s) value = Inr v"
    "in_payload i = [ESC] @ a @ ''*'' @ v @ setting_verb s @ [CR]"
    using assms(1) by (rule setting_payload) (simp add: assms(3))
  with assms addressed_not_free show ?thesis
    by (intro exI [of _ v]) (auto intro: encode_framed)
qed

text \<open>
  The echo of an addressed write (a stream name or state, a push URL or state) is recognised
  exactly. A device's echo of the write, with each index of the address behind any number of
  zeros, completes the exchange with the value the device stored, also when the device first
  repeats the request; the request alone never completes it, and neither does the echo of
  a write to any other stream, target or field.
\<close>

theorem addressed_echo_exact:
  assumes "winnow_ok w" and "setting_instruction w s value = Inr i" and "is_utf8 value"
    and "setting_form s = Addressed a" and "setting_form s' = Addressed a'"
    and "CR \<notin> set v" and "CHR ''*'' \<notin> set v"
  shows "parse_step i (echo_line pad s a v) = Done (VText v)
    \<and> parse_step i (in_payload i @ echo_line pad s a v) = Done (VText v)
    \<and> parse_step i (in_payload i @ [LF]) = NeedMore
    \<and> (s \<noteq> s' \<longrightarrow> parse_step i (echo_line pad s' a' v) = NeedMore)"
proof -
  note w = assms(1)
  let ?head = "echoed (setting_verb s)" and ?ps = "address_parts a"
  let ?core = "addressed_core w ?head ?ps"
  have ps: "list_all plain_part ?ps" and qs: "list_all plain_part (address_parts a')"
    using parts_plain assms(4,5) addr_ofI by metis+
  have heads: "echoed (setting_verb u) \<in> {''Strc'', ''Rtmp''}" if "setting_form u = Addressed b" for u b
    using verb_heads [OF that] by auto
  note head = heads [OF assms(4)] and head' = heads [OF assms(5)]
  obtain e where e: "list_all framed_char e"
    and pay: "in_payload i = ([ESC] @ a @ ''*'') @ (e @ setting_verb s @ [CR])"
    using setting_framed_helper [OF assms(2,3,4)] by blast
  have A: "list_all quiet_char ([ESC] @ a @ ''*'')"
    using addr_quiet [OF assms(4)] by (simp add: ESC_def)
  have B: "CHR ''*'' \<notin> set (e @ setting_verb s @ [CR])"
    using framed_no_cr [OF e] verb_plain [of s] by (simp add: CR_def)
  have own: "search ?core (echo_line pad s a v) = Done v"
  proof -
    have "?core (?head @ echo_parts pad 0 ?ps @ ''*'' @ v @ CRLF) = POk v []"
      using addressed_here [OF w ps _ assms(6), of ?head pad "[]"] head by auto
    moreover obtain c t where "?head = c # t" "\<not> is_continuation c"
      using head by (auto simp: is_continuation_def)
    ultimately show ?thesis
      by (simp add: echo_line_def echo_head_def search_here del: search.simps)
  qed
  have repeat: "search ?core (in_payload i @ echo_line pad s a v) = Done v"
    using search_over [OF w ps head A B, of "echo_line pad s a v"] own by (simp add: pay)
  have alone: "search ?core (in_payload i @ [LF]) = NeedMore"
    using search_over [OF w ps head A, of "e @ setting_verb s @ CRLF" "[]"] B
    by (simp add: pay LF_def)
  have other: "search ?core (echo_line pad s' a' v) = NeedMore" if "s \<noteq> s'"
  proof -
    obtain c t where ct: "echoed (setting_verb s') = c # t" "list_all quiet_char t" "\<not> is_continuation c"
      using head' by (auto simp: is_continuation_def)
    have "no_match (?core (echo_line pad s' a' v))"
    proof (cases "setting_verb s = setting_verb s'")
      case True
      have "parts_differ ?ps (address_parts a')"
        using parts_apart [OF assms(4,5) that True] assms(4,5) addr_ofI by metis
      then have "?core (?head @ echo_parts pad 0 (address_parts a') @ ''*'' @ v @ CRLF) = PBacktrack"
        using head by (intro addressed_other w ps qs) auto
      then show ?thesis by (simp add: echo_line_def echo_head_def True)
    next
      case False
      then have "c \<noteq> hd ?head"
        using verb_heads [OF assms(4)] verb_heads [OF assms(5)] ct(1) by auto
      moreover have "?head \<noteq> []" using head by auto
      ultimately have "no_match (?core (c # u))" for u
        using addressed_first [OF w] by blast
      then show ?thesis
        unfolding echo_line_def echo_head_def ct(1) append.simps .
    qed
    moreover have "search ?core (t @ echo_parts pad 0 (address_parts a') @ ''*'' @ v @ CRLF) = NeedMore"
      using search_over [OF w ps head, of "t @ echo_parts pad 0 (address_parts a') @ ''*''" "v @ CRLF" "[]"]
        ct(2) echo_parts_quiet [OF qs, of pad 0] assms(7) by (simp add: CR_def LF_def)
    ultimately show ?thesis
      using ct(1,3) by (auto simp: echo_line_def echo_head_def split: presult.splits)
  qed
  show ?thesis
    unfolding addressed_step [OF assms(2,4)] using own repeat alone other by simp
qed

theorem addressed_echo_exact_witness:
  "\<exists>i. setting_instruction plain_winnow S_RTMPStream1State ''on'' = Inr i
     \<and> parse_step i (''RtmpE01*1'' @ CRLF) = Done (VText ''1'')
     \<and> parse_step i (''RtmpE02*1'' @ CRLF) = NeedMore"
proof -
  obtain i where i: "setting_instruction plain_winnow S_RTMPStream1State ''on'' = Inr i"
  proof -
    have "encode ShFlag ''on'' = Inr ''1''"
      by (simp add: trim_visible to_ascii_lowercase_def char_lower_def)
    then show ?thesis using that by (simp add: setting_instruction_def)
  qed
  have lines: "echo_line (\<lambda>_. 1) S_RTMPStream1State ''E1'' ''1'' = ''RtmpE01*1'' @ CRLF"
    "echo_line (\<lambda>_. 1) S_RTMPStream2State ''E2'' ''1'' = ''RtmpE02*1'' @ CRLF"
    using address_table(7,8)
    by (simp_all add: echo_line_def echo_head_def echoed_heads addr_of_def show_uint_def show_nat.simps)
  have "is_utf8 ''on''" by code_simp
  from addressed_echo_exact [OF winnow_ok_plain i this, of "''E1''" S_RTMPStream2State "''E2''" "''1''" "\<lambda>_. 1"]
  show ?thesis using i lines by (simp add: CR_def)
qed

end
