(* ===== verification/Sis_Config.thy ===== *)
theory Sis_Config
  imports Sis_Setting
begin

text \<open>
  \<^verbatim>\<open>sismatic-core/src/devices/config.rs\<close>: resolving a devices document into device and group
  configurations. A \<open>Duration\<close> is its number of nanoseconds, a \<open>u64\<close> number of seconds a
  \<open>64 word\<close>. Hashing (\<^verbatim>\<open>Uuid::new_v5\<close>) and the deserializers of the file formats belong to other
  packages and are parameters. A panic of the code is the value \<open>None\<close> of an option around the
  result.
\<close>


section \<open>Resolved configurations\<close>

type_synonym duration = nat
type_synonym uuid = nat

abbreviation seconds :: "nat \<Rightarrow> duration" where
  "seconds s \<equiv> s * 1000000000"

definition DURATION_LIMIT :: nat where
  "DURATION_LIMIT = 2 ^ 64 * 1000000000"

definition from_secs :: "64 word \<Rightarrow> duration" where
  "from_secs s = seconds (unat s)"

text \<open>\<open>Duration + Duration\<close> panics on overflow.\<close>

definition duration_add :: "duration \<Rightarrow> duration \<Rightarrow> duration option" where
  "duration_add a b = (if a + b < DURATION_LIMIT then Some (a + b) else None)"

record device_config =
  dc_uuid :: uuid
  dc_id :: string
  dc_host :: string
  dc_port :: "16 word"
  dc_username :: string
  dc_password :: string
  dc_connect_timeout :: duration
  dc_exchange_timeout :: duration
  dc_eager :: bool
  dc_sis_keepalive :: "duration option"
  dc_eager_retry :: "duration option"
  dc_cold_backoff :: "duration option"
  dc_disabled_fields :: "string list"
  dc_auto_disable_after :: "32 word"
  dc_self_heal :: "duration option"

text \<open>\<open>Barrier\<close> of \<^verbatim>\<open>config.rs\<close> has the constructors of the wire type of the same name.\<close>

definition default_group_barrier :: barrier where
  "default_group_barrier = FailBatch"

record group_config =
  gc_id :: string
  gc_device_ids :: "string list"
  gc_barrier_timeout :: duration
  gc_barrier :: barrier

record resolved =
  rs_devices :: "device_config list"
  rs_groups :: "group_config list"

datatype config_error =
    CIo string
  | CParse string
  | CUnsupportedFormat string
  | CDuplicateId string
  | CMissingField string string
  | CUnknownDisabledField string string
  | CEmptyGroup string
  | CUnknownGroupMember string string

abbreviation ticked :: "string \<Rightarrow> string" where
  "ticked s \<equiv> [CHR 0x60] @ s @ [CHR 0x60]"

fun show_config_error :: "config_error \<Rightarrow> string" where
  "show_config_error (CIo e) = ''reading devices file: '' @ e"
| "show_config_error (CParse e) = ''parsing devices file: '' @ e"
| "show_config_error (CUnsupportedFormat ext) = ''unsupported config file extension '' @ ticked ext"
| "show_config_error (CDuplicateId i) = ''duplicate device id '' @ ticked i"
| "show_config_error (CMissingField d f) =
     ''device '' @ ticked d @ '' is missing '' @ ticked f @ '' (set it on the device or in [defaults])''"
| "show_config_error (CUnknownDisabledField d f) =
     ''device '' @ ticked d @ '' disables '' @ ticked f @ '', which is not a field this server ''
       @ ''can query or write (see '' @ ticked ''GET /v1/reads'' @ '' and '' @ ticked ''GET /v1/writes''
       @ '' for the accepted names)''"
| "show_config_error (CEmptyGroup i) = ''group '' @ ticked i @ '' has no member devices''"
| "show_config_error (CUnknownGroupMember g d) =
     ''group '' @ ticked g @ '' names unknown device '' @ ticked d @ '' (no matching [[device]])''"


section \<open>The document as written\<close>

record defaults =
  df_port :: "16 word option"
  df_username :: "string option"
  df_password :: "string option"
  df_connect_secs :: "64 word option"
  df_exchange_secs :: "64 word option"
  df_eager :: "bool option"
  df_sis_keepalive_secs :: "64 word option"
  df_eager_retry_secs :: "64 word option"
  df_cold_backoff_secs :: "64 word option"
  df_disabled_fields :: "string list option"
  df_auto_disable_after :: "32 word option"
  df_self_heal_secs :: "64 word option"

record raw_device =
  rw_id :: string
  rw_host :: string
  rw_port :: "16 word option"
  rw_username :: "string option"
  rw_password :: "string option"
  rw_connect_secs :: "64 word option"
  rw_exchange_secs :: "64 word option"
  rw_eager :: "bool option"
  rw_sis_keepalive_secs :: "64 word option"
  rw_eager_retry_secs :: "64 word option"
  rw_cold_backoff_secs :: "64 word option"
  rw_disabled_fields :: "string list option"
  rw_auto_disable_after :: "32 word option"
  rw_self_heal_secs :: "64 word option"

datatype raw_barrier = RawFailBatch | RawDispatchReady

fun barrier_from :: "raw_barrier \<Rightarrow> barrier" where
  "barrier_from RawFailBatch = FailBatch"
| "barrier_from RawDispatchReady = DispatchReady"

record raw_group =
  rg_id :: string
  rg_devices :: "string list"
  rg_barrier_timeout_secs :: "64 word option"
  rg_barrier :: "raw_barrier option"

record raw_config =
  rc_defaults :: defaults
  rc_devices :: "raw_device list"
  rc_groups :: "raw_group list"


section \<open>Defaults\<close>

definition DEFAULT_SIS_KEEPALIVE_SECS :: "64 word" where "DEFAULT_SIS_KEEPALIVE_SECS = 120"
definition DEFAULT_EAGER_RETRY_SECS :: "64 word" where "DEFAULT_EAGER_RETRY_SECS = 30"
definition DEFAULT_COLD_BACKOFF_SECS :: "64 word" where "DEFAULT_COLD_BACKOFF_SECS = 30"
definition DEFAULT_PORT :: "16 word" where "DEFAULT_PORT = 22023"
definition DEFAULT_CONNECT_SECS :: "64 word" where "DEFAULT_CONNECT_SECS = 5"
definition DEFAULT_EXCHANGE_SECS :: "64 word" where "DEFAULT_EXCHANGE_SECS = 3"
definition DEFAULT_AUTO_DISABLE_AFTER :: "32 word" where "DEFAULT_AUTO_DISABLE_AFTER = 2"
definition DEFAULT_SELF_HEAL_SECS :: "64 word" where "DEFAULT_SELF_HEAL_SECS = 0"

definition DEVICE_NAMESPACE :: string where
  "DEVICE_NAMESPACE = map (char_of :: nat \<Rightarrow> char)
     [0x1f, 0x9a, 0x4c, 0x2e, 0x7b, 0x63, 0x4d, 0x18, 0x9e, 0x05, 0xc2, 0x7a, 0x83, 0x11, 0x6d, 0x40]"

lemmas default_defs = DEFAULT_SIS_KEEPALIVE_SECS_def DEFAULT_EAGER_RETRY_SECS_def
  DEFAULT_COLD_BACKOFF_SECS_def DEFAULT_PORT_def DEFAULT_CONNECT_SECS_def DEFAULT_EXCHANGE_SECS_def
  DEFAULT_AUTO_DISABLE_AFTER_def DEFAULT_SELF_HEAL_SECS_def

text \<open>\<open>Option::or\<close> and \<open>unwrap_or\<close>.\<close>

definition opt_or :: "'a option \<Rightarrow> 'a option \<Rightarrow> 'a option" where
  "opt_or a b = (case a of Some x \<Rightarrow> Some x | None \<Rightarrow> b)"

definition unwrap_or :: "'a \<Rightarrow> 'a option \<Rightarrow> 'a" where
  "unwrap_or d a = (case a of Some x \<Rightarrow> x | None \<Rightarrow> d)"

text \<open>\<open>(secs > 0).then(|| Duration::from_secs(secs))\<close>.\<close>

definition nonzero_secs :: "64 word \<Rightarrow> duration option" where
  "nonzero_secs s = (if s > 0 then Some (from_secs s) else None)"


section \<open>Identity\<close>

definition le_bytes :: "nat \<Rightarrow> nat \<Rightarrow> string" where
  "le_bytes k n = map (\<lambda>i. char_of (n div 256 ^ i mod 256)) [0..<k]"

definition put :: "string \<Rightarrow> string" where
  "put bytes = le_bytes 8 (length bytes) @ bytes"

definition put_opt_duration :: "duration option \<Rightarrow> string" where
  "put_opt_duration value = (case value of None \<Rightarrow> put ''-'' | Some d \<Rightarrow> put (le_bytes 16 d))"

definition fingerprint_bytes :: "device_config \<Rightarrow> string" where
  "fingerprint_bytes c =
     put (dc_id c) @ put (dc_host c) @ put (le_bytes 2 (unat (dc_port c)))
     @ put (dc_username c) @ put (dc_password c)
     @ put (le_bytes 16 (dc_connect_timeout c)) @ put (le_bytes 16 (dc_exchange_timeout c))
     @ put [if dc_eager c then CHR 0x01 else CHR 0x00]
     @ put_opt_duration (dc_sis_keepalive c) @ put_opt_duration (dc_eager_retry c)
     @ put_opt_duration (dc_cold_backoff c)
     @ put (le_bytes 8 (length (dc_disabled_fields c)))
     @ concat (map put (dc_disabled_fields c))
     @ put (le_bytes 4 (unat (dc_auto_disable_after c)))
     @ put_opt_duration (dc_self_heal c)"

definition fingerprint :: "(string \<Rightarrow> string \<Rightarrow> uuid) \<Rightarrow> device_config \<Rightarrow> uuid" where
  "fingerprint new_v5 c = new_v5 DEVICE_NAMESPACE (fingerprint_bytes c)"

definition derive_uuid :: "(string \<Rightarrow> string \<Rightarrow> uuid) \<Rightarrow> device_config \<Rightarrow> device_config" where
  "derive_uuid new_v5 c = c\<lparr>dc_uuid := fingerprint new_v5 c\<rparr>"


section \<open>Resolving\<close>

definition require :: "string \<Rightarrow> string \<Rightarrow> 'a option \<Rightarrow> config_error + 'a" where
  "require device field value = (case value of Some v \<Rightarrow> Inr v | None \<Rightarrow> Inl (CMissingField device field))"

definition canonical_field :: "string \<Rightarrow> string option" where
  "canonical_field written =
     (case catalog_from_str query_catalog written of
        Inr q \<Rightarrow> Some (catalog_name query_catalog q)
      | Inl _ \<Rightarrow>
          (case catalog_from_str setting_catalog written of
             Inr s \<Rightarrow> Some (catalog_name setting_catalog s)
           | Inl _ \<Rightarrow>
               (case catalog_from_str register_catalog written of
                  Inr r \<Rightarrow> Some (catalog_name register_catalog r)
                | Inl _ \<Rightarrow> None)))"

text \<open>\<open>collect\<close> into a result stops at the first error.\<close>

fun canonicalize_all :: "string \<Rightarrow> string list \<Rightarrow> config_error + string list" where
  "canonicalize_all device [] = Inr []"
| "canonicalize_all device (written # rest) =
     (case canonical_field written of
        None \<Rightarrow> Inl (CUnknownDisabledField device written)
      | Some name \<Rightarrow>
          (case canonicalize_all device rest of Inl e \<Rightarrow> Inl e | Inr names \<Rightarrow> Inr (name # names)))"

definition canonicalize_disabled :: "string \<Rightarrow> string list option \<Rightarrow> config_error + string list" where
  "canonicalize_disabled device listed =
     (case listed of
        None \<Rightarrow> Inr []
      | Some fs \<Rightarrow> (case canonicalize_all device fs of Inl e \<Rightarrow> Inl e | Inr names \<Rightarrow> Inr (oset names)))"

definition resolve :: "(string \<Rightarrow> string \<Rightarrow> uuid) \<Rightarrow> defaults \<Rightarrow> raw_device \<Rightarrow> config_error + device_config" where
  "resolve new_v5 d dev =
     (let i = rw_id dev;
          port = unwrap_or DEFAULT_PORT (opt_or (rw_port dev) (df_port d))
      in case require i ''username'' (opt_or (rw_username dev) (df_username d)) of
           Inl e \<Rightarrow> Inl e
         | Inr username \<Rightarrow>
         (case require i ''password'' (opt_or (rw_password dev) (df_password d)) of
            Inl e \<Rightarrow> Inl e
          | Inr password \<Rightarrow>
              let connect_secs = unwrap_or DEFAULT_CONNECT_SECS (opt_or (rw_connect_secs dev) (df_connect_secs d));
                  exchange_secs = unwrap_or DEFAULT_EXCHANGE_SECS (opt_or (rw_exchange_secs dev) (df_exchange_secs d));
                  eager = unwrap_or False (opt_or (rw_eager dev) (df_eager d));
                  keepalive = nonzero_secs (unwrap_or DEFAULT_SIS_KEEPALIVE_SECS
                    (opt_or (rw_sis_keepalive_secs dev) (df_sis_keepalive_secs d)));
                  retry = nonzero_secs (unwrap_or DEFAULT_EAGER_RETRY_SECS
                    (opt_or (rw_eager_retry_secs dev) (df_eager_retry_secs d)));
                  cold = nonzero_secs (unwrap_or DEFAULT_COLD_BACKOFF_SECS
                    (opt_or (rw_cold_backoff_secs dev) (df_cold_backoff_secs d)))
              in (case canonicalize_disabled i (opt_or (rw_disabled_fields dev) (df_disabled_fields d)) of
                    Inl e \<Rightarrow> Inl e
                  | Inr disabled \<Rightarrow>
                      let after = unwrap_or DEFAULT_AUTO_DISABLE_AFTER
                            (opt_or (rw_auto_disable_after dev) (df_auto_disable_after d));
                          heal = nonzero_secs (unwrap_or DEFAULT_SELF_HEAL_SECS
                            (opt_or (rw_self_heal_secs dev) (df_self_heal_secs d)));
                          r = \<lparr>dc_uuid = 0, dc_id = i, dc_host = rw_host dev, dc_port = port,
                               dc_username = username, dc_password = password,
                               dc_connect_timeout = from_secs connect_secs,
                               dc_exchange_timeout = from_secs exchange_secs,
                               dc_eager = eager, dc_sis_keepalive = keepalive, dc_eager_retry = retry,
                               dc_cold_backoff = cold, dc_disabled_fields = disabled,
                               dc_auto_disable_after = after, dc_self_heal = heal\<rparr>
                      in Inr (r\<lparr>dc_uuid := fingerprint new_v5 r\<rparr>))))"

text \<open>
  \<open>default_barrier_timeout\<close>: \<open>None\<close> is the panic of the addition of two durations that do not
  fit, or of the rounding up.
\<close>

fun member_budgets :: "device_config list \<Rightarrow> string list \<Rightarrow> duration list option" where
  "member_budgets devices [] = Some []"
| "member_budgets devices (m # ms) =
     (case find (\<lambda>d. dc_id d = m) devices of
        None \<Rightarrow> member_budgets devices ms
      | Some d \<Rightarrow>
          (case duration_add (dc_connect_timeout d) (dc_exchange_timeout d) of
             None \<Rightarrow> None
           | Some b \<Rightarrow> map_option (Cons b) (member_budgets devices ms)))"

definition default_barrier_timeout :: "device_config list \<Rightarrow> string list \<Rightarrow> duration option" where
  "default_barrier_timeout devices members =
     (case member_budgets devices members of
        None \<Rightarrow> None
      | Some budgets \<Rightarrow>
          let slowest = fold max budgets 0;
              rounded = slowest div 1000000000 + (if slowest mod 1000000000 > 0 then 1 else 0)
          in if rounded < 2 ^ 64 then Some (seconds (max rounded 1)) else None)"

fun resolve_devices :: "(string \<Rightarrow> string \<Rightarrow> uuid) \<Rightarrow> defaults \<Rightarrow> string set \<Rightarrow> raw_device list
    \<Rightarrow> config_error + (device_config list \<times> string set)" where
  "resolve_devices new_v5 d seen [] = Inr ([], seen)"
| "resolve_devices new_v5 d seen (dev # rest) =
     (if rw_id dev \<in> seen then Inl (CDuplicateId (rw_id dev))
      else case resolve new_v5 d dev of
             Inl e \<Rightarrow> Inl e
           | Inr c \<Rightarrow>
               (case resolve_devices new_v5 d (insert (rw_id dev) seen) rest of
                  Inl e \<Rightarrow> Inl e
                | Inr (cs, seen') \<Rightarrow> Inr (c # cs, seen')))"

fun resolve_groups :: "device_config list \<Rightarrow> string set \<Rightarrow> raw_group list
    \<Rightarrow> (config_error + group_config list) option" where
  "resolve_groups devices seen [] = Some (Inr [])"
| "resolve_groups devices seen (g # rest) =
     (if rg_id g \<in> seen then Some (Inl (CDuplicateId (rg_id g)))
      else if rg_devices g = [] then Some (Inl (CEmptyGroup (rg_id g)))
      else case find (\<lambda>m. m \<notin> set (map dc_id devices)) (rg_devices g) of
             Some m \<Rightarrow> Some (Inl (CUnknownGroupMember (rg_id g) m))
           | None \<Rightarrow>
               (case (case rg_barrier_timeout_secs g of
                        Some s \<Rightarrow> Some (from_secs s)
                      | None \<Rightarrow> default_barrier_timeout devices (rg_devices g)) of
                  None \<Rightarrow> None
                | Some timeout \<Rightarrow>
                    let c = \<lparr>gc_id = rg_id g, gc_device_ids = rg_devices g, gc_barrier_timeout = timeout,
                             gc_barrier = unwrap_or default_group_barrier (map_option barrier_from (rg_barrier g))\<rparr>
                    in (case resolve_groups devices (insert (rg_id g) seen) rest of
                          None \<Rightarrow> None
                        | Some (Inl e) \<Rightarrow> Some (Inl e)
                        | Some (Inr cs) \<Rightarrow> Some (Inr (c # cs)))))"

definition resolve_config :: "(string \<Rightarrow> string \<Rightarrow> uuid) \<Rightarrow> raw_config \<Rightarrow> (config_error + resolved) option" where
  "resolve_config new_v5 raw =
     (case resolve_devices new_v5 (rc_defaults raw) {} (rc_devices raw) of
        Inl e \<Rightarrow> Some (Inl e)
      | Inr (devices, seen) \<Rightarrow>
          (case resolve_groups devices seen (rc_groups raw) of
             None \<Rightarrow> None
           | Some (Inl e) \<Rightarrow> Some (Inl e)
           | Some (Inr groups) \<Rightarrow> Some (Inr \<lparr>rs_devices = devices, rs_groups = groups\<rparr>)))"


section \<open>Loading\<close>

text \<open>The deserializers: text to a document or an error message.\<close>

record formats =
  fm_toml :: "string \<Rightarrow> string + raw_config"
  fm_yaml :: "string \<Rightarrow> string + raw_config"
  fm_json :: "string \<Rightarrow> string + raw_config"

definition parsed :: "string + raw_config \<Rightarrow> config_error + raw_config" where
  "parsed r = (case r of Inl e \<Rightarrow> Inl (CParse e) | Inr raw \<Rightarrow> Inr raw)"

text \<open>\<open>contents\<close> is what reading the file gives, \<open>extension\<close> the extension of its path.\<close>

definition load_raw :: "formats \<Rightarrow> string + string \<Rightarrow> string option \<Rightarrow> config_error + raw_config" where
  "load_raw fmts contents extension =
     (case contents of
        Inl e \<Rightarrow> Inl (CIo e)
      | Inr body \<Rightarrow>
          if extension = Some ''toml'' then parsed (fm_toml fmts body)
          else if extension = Some ''yaml'' \<or> extension = Some ''yml'' then parsed (fm_yaml fmts body)
          else if extension = Some ''json'' then parsed (fm_json fmts body)
          else Inl (CUnsupportedFormat (unwrap_or [] extension)))"

definition resolve_parsed :: "(string \<Rightarrow> string \<Rightarrow> uuid) \<Rightarrow> config_error + raw_config
    \<Rightarrow> (config_error + resolved) option" where
  "resolve_parsed new_v5 r = (case r of Inl e \<Rightarrow> Some (Inl e) | Inr raw \<Rightarrow> resolve_config new_v5 raw)"

definition load :: "(string \<Rightarrow> string \<Rightarrow> uuid) \<Rightarrow> formats \<Rightarrow> string + string \<Rightarrow> string option
    \<Rightarrow> (config_error + resolved) option" where
  "load new_v5 fmts contents extension = resolve_parsed new_v5 (load_raw fmts contents extension)"

definition from_toml_str :: "(string \<Rightarrow> string \<Rightarrow> uuid) \<Rightarrow> formats \<Rightarrow> string \<Rightarrow> (config_error + resolved) option" where
  "from_toml_str new_v5 fmts body = resolve_parsed new_v5 (parsed (fm_toml fmts body))"

definition from_json_str :: "(string \<Rightarrow> string \<Rightarrow> uuid) \<Rightarrow> formats \<Rightarrow> string \<Rightarrow> (config_error + resolved) option" where
  "from_json_str new_v5 fmts body = resolve_parsed new_v5 (parsed (fm_json fmts body))"

definition from_yaml_str :: "(string \<Rightarrow> string \<Rightarrow> uuid) \<Rightarrow> formats \<Rightarrow> string \<Rightarrow> (config_error + resolved) option" where
  "from_yaml_str new_v5 fmts body = resolve_parsed new_v5 (parsed (fm_yaml fmts body))"


section \<open>The identity encoding is injective\<close>

lemma length_le_bytes [simp]: "length (le_bytes k n) = k"
  by (simp add: le_bytes_def)

lemma le_bytes_Suc: "le_bytes (Suc k) n = char_of (n mod 256) # le_bytes k (n div 256)"
proof -
  have "[0..<Suc k] = 0 # map Suc [0..<k]" by (simp add: map_Suc_upt upt_conv_Cons del: upt_Suc)
  then show ?thesis
    unfolding le_bytes_def by (simp add: div_mult2_eq del: upt_Suc)
qed

lemma le_bytes_inj: "le_bytes k n = le_bytes k m \<Longrightarrow> n < 256 ^ k \<Longrightarrow> m < 256 ^ k \<Longrightarrow> n = m"
proof (induction k arbitrary: n m)
  case (Suc k)
  have "n mod 256 = m mod 256"
    using Suc.prems(1) by (simp add: le_bytes_Suc)
  moreover have "n div 256 = m div 256"
    using Suc.prems by (intro Suc.IH) (auto simp: le_bytes_Suc less_mult_imp_div_less mult.commute)
  ultimately show ?case by (metis div_mult_mod_eq)
qed simp

lemma put_inj:
  assumes "put a @ x = put b @ y" and "length a < 2 ^ 64" and "length b < 2 ^ 64"
  shows "a = b \<and> x = y"
proof -
  have "le_bytes 8 (length a) = le_bytes 8 (length b)" and rest: "a @ x = b @ y"
    using assms(1) by (simp_all add: put_def)
  then have "length a = length b"
    using le_bytes_inj [of 8 "length a" "length b"] assms(2,3) by simp
  with rest show ?thesis by simp
qed

lemma puts_inj:
  "concat (map put as) = concat (map put bs) \<Longrightarrow> \<forall>a \<in> set as \<union> set bs. length a < 2 ^ 64 \<Longrightarrow> as = bs"
proof (induction as arbitrary: bs)
  case Nil
  then show ?case by (cases bs) (auto simp: put_def le_bytes_def)
next
  case (Cons a as)
  have "put a \<noteq> []" using length_le_bytes [of 8 "length a"] by (auto simp: put_def simp del: length_le_bytes)
  with Cons.prems(1) obtain b bs' where bs: "bs = b # bs'" by (cases bs) auto
  have "a = b \<and> concat (map put as) = concat (map put bs')"
    using Cons.prems by (intro put_inj) (simp_all add: bs)
  with Cons.IH [of bs'] Cons.prems(2) show ?case by (simp add: bs)
qed

definition small_opt :: "duration option \<Rightarrow> bool" where
  "small_opt d \<longleftrightarrow> (case d of None \<Rightarrow> True | Some n \<Rightarrow> n < DURATION_LIMIT)"

definition opt_segment :: "duration option \<Rightarrow> string" where
  "opt_segment d = (case d of None \<Rightarrow> ''-'' | Some n \<Rightarrow> le_bytes 16 n)"

definition segments :: "device_config \<Rightarrow> string list" where
  "segments c =
     [dc_id c, dc_host c, le_bytes 2 (unat (dc_port c)), dc_username c, dc_password c,
      le_bytes 16 (dc_connect_timeout c), le_bytes 16 (dc_exchange_timeout c),
      [if dc_eager c then CHR 0x01 else CHR 0x00],
      opt_segment (dc_sis_keepalive c), opt_segment (dc_eager_retry c), opt_segment (dc_cold_backoff c),
      le_bytes 8 (length (dc_disabled_fields c))]
     @ dc_disabled_fields c
     @ [le_bytes 4 (unat (dc_auto_disable_after c)), opt_segment (dc_self_heal c)]"

lemma fingerprint_segments: "fingerprint_bytes c = concat (map put (segments c))"
  by (simp add: fingerprint_bytes_def segments_def opt_segment_def put_opt_duration_def split: option.split)

lemma le_inj16: "le_bytes 16 n = le_bytes 16 m \<Longrightarrow> n < DURATION_LIMIT \<Longrightarrow> m < DURATION_LIMIT \<Longrightarrow> n = m"
  by (rule le_bytes_inj) (auto simp: DURATION_LIMIT_def)

lemma opt_segment_inj:
  assumes "opt_segment d = opt_segment e" and "small_opt d" and "small_opt e"
  shows "d = e"
proof -
  have "le_bytes 16 n \<noteq> ''-''" for n
  proof -
    have "length (le_bytes 16 n) \<noteq> length ''-''" by simp
    then show ?thesis by metis
  qed
  then show ?thesis
    using assms le_inj16 by (auto simp: opt_segment_def small_opt_def split: option.splits)
qed

lemma word_bytes_inj:
  "le_bytes 2 (unat p) = le_bytes 2 (unat q) \<Longrightarrow> p = (q :: 16 word)"
  "le_bytes 4 (unat a) = le_bytes 4 (unat b) \<Longrightarrow> a = (b :: 32 word)"
  using le_bytes_inj [of 2 "unat p" "unat q"] le_bytes_inj [of 4 "unat a" "unat b"]
    unsigned_less [of p, where 'a = nat] unsigned_less [of q, where 'a = nat]
    unsigned_less [of a, where 'a = nat] unsigned_less [of b, where 'a = nat]
  by (simp_all add: word_unat_eq_iff)

lemma segments_eq:
  assumes "segments c = segments c'"
  shows "dc_id c = dc_id c'" "dc_host c = dc_host c'"
    "le_bytes 2 (unat (dc_port c)) = le_bytes 2 (unat (dc_port c'))"
    "dc_username c = dc_username c'" "dc_password c = dc_password c'"
    "le_bytes 16 (dc_connect_timeout c) = le_bytes 16 (dc_connect_timeout c')"
    "le_bytes 16 (dc_exchange_timeout c) = le_bytes 16 (dc_exchange_timeout c')"
    "dc_eager c = dc_eager c'"
    "opt_segment (dc_sis_keepalive c) = opt_segment (dc_sis_keepalive c')"
    "opt_segment (dc_eager_retry c) = opt_segment (dc_eager_retry c')"
    "opt_segment (dc_cold_backoff c) = opt_segment (dc_cold_backoff c')"
    "dc_disabled_fields c = dc_disabled_fields c'"
    "le_bytes 4 (unat (dc_auto_disable_after c)) = le_bytes 4 (unat (dc_auto_disable_after c'))"
    "opt_segment (dc_self_heal c) = opt_segment (dc_self_heal c')"
  using assms by (simp_all add: segments_def split: if_splits)

text \<open>The bounds the code's types impose: lengths fit an \<open>usize\<close>, durations fit a \<open>Duration\<close>.\<close>

definition representable :: "device_config \<Rightarrow> bool" where
  "representable c \<longleftrightarrow>
     (\<forall>s \<in> {dc_id c, dc_host c, dc_username c, dc_password c} \<union> set (dc_disabled_fields c). length s < 2 ^ 64)
     \<and> length (dc_disabled_fields c) < 2 ^ 64
     \<and> dc_connect_timeout c < DURATION_LIMIT \<and> dc_exchange_timeout c < DURATION_LIMIT
     \<and> small_opt (dc_sis_keepalive c) \<and> small_opt (dc_eager_retry c) \<and> small_opt (dc_cold_backoff c)
     \<and> small_opt (dc_self_heal c)"

lemma segments_length:
  assumes "\<forall>s \<in> {dc_id c, dc_host c, dc_username c, dc_password c} \<union> set (dc_disabled_fields c). length s < L"
    and "16 < L" and "s \<in> set (segments c)"
  shows "length s < L"
proof -
  have "length (opt_segment d) < L" for d
    using assms(2) by (cases d) (simp_all add: opt_segment_def)
  then show ?thesis using assms by (auto simp: segments_def)
qed

lemma segments_short: "representable c \<Longrightarrow> s \<in> set (segments c) \<Longrightarrow> length s < 2 ^ 64"
  by (rule segments_length) (simp_all only: representable_def, simp_all)

definition plain_device :: "string \<Rightarrow> string \<Rightarrow> device_config" where
  "plain_device i h = \<lparr>dc_uuid = 0, dc_id = i, dc_host = h, dc_port = 22023, dc_username = ''admin'',
     dc_password = ''extron'', dc_connect_timeout = seconds 5, dc_exchange_timeout = seconds 3,
     dc_eager = False, dc_sis_keepalive = Some (seconds 120), dc_eager_retry = Some (seconds 30),
     dc_cold_backoff = Some (seconds 30), dc_disabled_fields = [], dc_auto_disable_after = 2,
     dc_self_heal = None\<rparr>"

lemma fingerprint_bytes_inj:
  assumes "representable c" and "representable c'"
  shows "fingerprint_bytes c = fingerprint_bytes c' \<longleftrightarrow> c\<lparr>dc_uuid := 0\<rparr> = c'\<lparr>dc_uuid := 0\<rparr>"
proof
  note bounds = assms [unfolded representable_def]
  assume "fingerprint_bytes c = fingerprint_bytes c'"
  then have "segments c = segments c'"
    unfolding fingerprint_segments using assms segments_short by (intro puts_inj) auto
  note same = segments_eq [OF this]
  have "dc_connect_timeout c = dc_connect_timeout c'" "dc_exchange_timeout c = dc_exchange_timeout c'"
    using same(6,7) bounds le_inj16 by blast+
  moreover have "dc_sis_keepalive c = dc_sis_keepalive c'" "dc_eager_retry c = dc_eager_retry c'"
      "dc_cold_backoff c = dc_cold_backoff c'" "dc_self_heal c = dc_self_heal c'"
    using same(9,10,11,14) bounds opt_segment_inj by blast+
  moreover have "dc_port c = dc_port c'" "dc_auto_disable_after c = dc_auto_disable_after c'"
    using same(3,13) word_bytes_inj by blast+
  ultimately show "c\<lparr>dc_uuid := 0\<rparr> = c'\<lparr>dc_uuid := 0\<rparr>"
    using same(1,2,4,5,8,12) by simp
next
  assume "c\<lparr>dc_uuid := 0\<rparr> = c'\<lparr>dc_uuid := 0\<rparr>"
  then show "fingerprint_bytes c = fingerprint_bytes c'"
    by (cases c; cases c') (simp add: fingerprint_bytes_def)
qed

text \<open>
  C29. A device's identity covers its whole configuration: the bytes that are hashed into the
  UUID are equal for two configurations exactly when the configurations agree in every field
  but the UUID itself. No two fields can run into each other and no option or list can be
  mistaken for another.
\<close>

theorem identity_bytes_exact:
  assumes "representable c" and "representable c'"
  shows "fingerprint_bytes c = fingerprint_bytes c' \<longleftrightarrow> c\<lparr>dc_uuid := 0\<rparr> = c'\<lparr>dc_uuid := 0\<rparr>"
  using fingerprint_bytes_inj assms by blast

theorem identity_bytes_exact_witness:
  "fingerprint_bytes (plain_device ''a'' ''bc'') \<noteq> fingerprint_bytes (plain_device ''ab'' ''c'')"
proof -
  have "representable (plain_device ''a'' ''bc'')" "representable (plain_device ''ab'' ''c'')"
    by (simp_all add: plain_device_def representable_def small_opt_def DURATION_LIMIT_def)
  from identity_bytes_exact [OF this] show ?thesis by (simp add: plain_device_def)
qed


section \<open>What a resolved document promises\<close>

lemma fingerprint_uuid [simp]: "fingerprint v (c\<lparr>dc_uuid := u\<rparr>) = fingerprint v c"
  by (simp add: fingerprint_def fingerprint_bytes_def)

lemma canonicalize_all_Inr:
  "canonicalize_all i fs = Inr ns \<Longrightarrow> map canonical_field fs = map Some ns"
  by (induction fs arbitrary: ns) (auto split: option.splits sum.splits)

lemma canonicalize_disabled_Inr:
  assumes "canonicalize_disabled i listed = Inr ns"
  shows "Some ` set ns = canonical_field ` set (unwrap_or [] listed) \<and> sorted ns \<and> distinct ns"
proof (cases listed)
  case None
  with assms show ?thesis by (simp add: canonicalize_disabled_def unwrap_or_def)
next
  case (Some fs)
  with assms obtain ms where ms: "canonicalize_all i fs = Inr ms" "ns = oset ms"
    by (auto simp: canonicalize_disabled_def split: sum.splits)
  then have "set (map canonical_field fs) = set (map Some ms)"
    by (metis canonicalize_all_Inr)
  with Some ms show ?thesis by (simp add: unwrap_or_def)
qed

lemma resolve_Inr:
  assumes "resolve v d dev = Inr c"
  shows "dc_id c = rw_id dev" and "dc_uuid c = fingerprint v c"
    and "canonicalize_disabled (rw_id dev) (opt_or (rw_disabled_fields dev) (df_disabled_fields d))
      = Inr (dc_disabled_fields c)"
proof -
  obtain u pw ns where *: "require (rw_id dev) ''username'' (opt_or (rw_username dev) (df_username d)) = Inr u"
    "require (rw_id dev) ''password'' (opt_or (rw_password dev) (df_password d)) = Inr pw"
    and ns: "canonicalize_disabled (rw_id dev) (opt_or (rw_disabled_fields dev) (df_disabled_fields d)) = Inr ns"
    using assms by (auto simp: resolve_def Let_def split: sum.splits)
  note r = assms [unfolded resolve_def Let_def * ns sum.case, simplified]
  show "dc_id c = rw_id dev" "dc_uuid c = fingerprint v c"
    by (auto simp: r [symmetric] fingerprint_def fingerprint_bytes_def)
  show "canonicalize_disabled (rw_id dev) (opt_or (rw_disabled_fields dev) (df_disabled_fields d))
      = Inr (dc_disabled_fields c)"
    using ns by (simp add: r [symmetric])
qed

lemma resolve_devices_Inr:
  "resolve_devices v d seen raws = Inr (cs, seen') \<Longrightarrow>
   list_all2 (\<lambda>raw c. resolve v d raw = Inr c) raws cs
    \<and> distinct (map rw_id raws) \<and> (\<forall>i \<in> set (map rw_id raws). i \<notin> seen)
    \<and> seen' = seen \<union> set (map rw_id raws)"
proof (induction raws arbitrary: seen cs)
  case (Cons r raws)
  from Cons.prems obtain c cs' where r: "rw_id r \<notin> seen" "resolve v d r = Inr c"
    "resolve_devices v d (insert (rw_id r) seen) raws = Inr (cs', seen')" "cs = c # cs'"
    by (auto split: if_splits sum.splits prod.splits)
  from Cons.IH [OF r(3)] r show ?case by auto
qed simp

lemma list_all2_ids: "list_all2 (\<lambda>raw c. resolve v d raw = Inr c) raws cs \<Longrightarrow> map dc_id cs = map rw_id raws"
  by (induction rule: list_all2_induct) (auto simp: resolve_Inr)

lemma member_budgets_bound:
  "member_budgets ds ms = Some bs \<Longrightarrow> m \<in> set ms \<Longrightarrow> find (\<lambda>d. dc_id d = m) ds = Some d \<Longrightarrow>
   dc_connect_timeout d + dc_exchange_timeout d \<in> set bs"
proof (induction ms arbitrary: bs)
  case (Cons k ms)
  show ?case
  proof (cases "k = m")
    case True
    with Cons.prems show ?thesis
      by (auto simp: duration_add_def split: option.splits if_splits)
  next
    case False
    with Cons.prems(2) have "m \<in> set ms" by simp
    moreover obtain bs' where "member_budgets ds ms = Some bs'" "set bs' \<subseteq> set bs"
      using Cons.prems(1) by (force split: option.splits)
    ultimately show ?thesis using Cons.IH Cons.prems(3) by blast
  qed
qed simp

lemma fold_max_ge: "b \<in> set bs \<or> b \<le> a \<Longrightarrow> (b :: nat) \<le> fold max bs a"
proof (induction bs arbitrary: a)
  case (Cons c bs)
  then have "b \<in> set bs \<or> b \<le> max c a" by (auto simp: le_max_iff_disj)
  then show ?case using Cons.IH [of "max c a"] by simp
qed simp

lemma round_up:
  fixes k :: nat
  assumes "0 < k"
  shows "n \<le> (n div k + (if n mod k > 0 then 1 else 0)) * k"
proof (cases "n mod k > 0")
  case True
  have "n = n div k * k + n mod k" by simp
  also have "\<dots> \<le> n div k * k + k" using assms by (intro add_left_mono) (simp add: less_imp_le)
  finally show ?thesis using True by (simp add: add_mult_distrib add.commute)
next
  case False
  then show ?thesis using div_mult_mod_eq [of n k] by simp
qed

lemma default_barrier_timeout_bound:
  assumes "default_barrier_timeout ds ms = Some t" and "m \<in> set ms"
    and "find (\<lambda>d. dc_id d = m) ds = Some d"
  shows "dc_connect_timeout d + dc_exchange_timeout d \<le> t"
proof -
  obtain bs where bs: "member_budgets ds ms = Some bs"
    using assms(1) by (auto simp: default_barrier_timeout_def split: option.splits)
  let ?n = "fold max bs 0"
  have "dc_connect_timeout d + dc_exchange_timeout d \<le> ?n"
    using member_budgets_bound [OF bs assms(2,3)] by (auto intro: fold_max_ge)
  also have "\<dots> \<le> seconds (?n div 1000000000 + (if ?n mod 1000000000 > 0 then 1 else 0))"
    by (rule round_up) simp
  also have "\<dots> \<le> t"
    using assms(1) by (auto simp: default_barrier_timeout_def bs Let_def split: if_splits)
  finally show ?thesis .
qed

definition group_resolves :: "device_config list \<Rightarrow> raw_group \<Rightarrow> group_config \<Rightarrow> bool" where
  "group_resolves ds raw g \<longleftrightarrow> gc_id g = rg_id raw \<and> gc_device_ids g = rg_devices raw
     \<and> rg_devices raw \<noteq> [] \<and> set (rg_devices raw) \<subseteq> set (map dc_id ds)
     \<and> (case rg_barrier_timeout_secs raw of
          Some s \<Rightarrow> gc_barrier_timeout g = from_secs s
        | None \<Rightarrow> \<forall>d \<in> set ds. dc_id d \<in> set (rg_devices raw)
                   \<longrightarrow> dc_connect_timeout d + dc_exchange_timeout d \<le> gc_barrier_timeout g)"

lemma find_by_id: "distinct (map dc_id ds) \<Longrightarrow> d \<in> set ds \<Longrightarrow> find (\<lambda>e. dc_id e = dc_id d) ds = Some d"
  by (induction ds) (auto simp: image_iff)

lemma resolve_groups_Inr:
  assumes "resolve_groups ds seen raws = Some (Inr gs)" and ds: "distinct (map dc_id ds)"
  shows "list_all2 (group_resolves ds) raws gs
    \<and> distinct (map rg_id raws) \<and> (\<forall>i \<in> set (map rg_id raws). i \<notin> seen)"
  using assms(1)
proof (induction raws arbitrary: seen gs)
  case (Cons r raws)
  from Cons.prems obtain t gs' g where t: "rg_id r \<notin> seen" "rg_devices r \<noteq> []"
    "find (\<lambda>m. m \<notin> set (map dc_id ds)) (rg_devices r) = None"
    "(case rg_barrier_timeout_secs r of Some s \<Rightarrow> Some (from_secs s)
        | None \<Rightarrow> default_barrier_timeout ds (rg_devices r)) = Some t"
    "resolve_groups ds (insert (rg_id r) seen) raws = Some (Inr gs')"
    "gs = g # gs'" "gc_id g = rg_id r" "gc_device_ids g = rg_devices r" "gc_barrier_timeout g = t"
    by (auto simp: Let_def split: if_splits option.splits sum.splits)
  have "group_resolves ds r g"
    using t default_barrier_timeout_bound [of ds "rg_devices r" t] find_by_id [OF ds]
    by (auto simp: group_resolves_def find_None_iff split: option.splits)
  with Cons.IH [OF t(5)] t show ?case by auto
qed simp

lemma resolved_consistent:
  assumes "resolve_config v raw = Some (Inr r)"
  shows "distinct (map dc_id (rs_devices r) @ map gc_id (rs_groups r))
    \<and> map dc_id (rs_devices r) = map rw_id (rc_devices raw)
    \<and> list_all2 (group_resolves (rs_devices r)) (rc_groups raw) (rs_groups r)
    \<and> list_all2 (\<lambda>dev c. dc_uuid c = fingerprint v c
         \<and> Some ` set (dc_disabled_fields c) = canonical_field `
             set (unwrap_or [] (opt_or (rw_disabled_fields dev) (df_disabled_fields (rc_defaults raw)))))
        (rc_devices raw) (rs_devices r)"
proof -
  obtain seen where d: "resolve_devices v (rc_defaults raw) {} (rc_devices raw) = Inr (rs_devices r, seen)"
    and g: "resolve_groups (rs_devices r) seen (rc_groups raw) = Some (Inr (rs_groups r))"
    using assms by (auto simp: resolve_config_def split: sum.splits prod.splits option.splits)
  note ds = resolve_devices_Inr [OF d]
  then have ids: "map dc_id (rs_devices r) = map rw_id (rc_devices raw)"
    using list_all2_ids by blast
  note gs = resolve_groups_Inr [OF g, unfolded ids]
  have rel: "list_all2 (group_resolves (rs_devices r)) (rc_groups raw) (rs_groups r)"
    using gs ds by blast
  then have gids: "map gc_id (rs_groups r) = map rg_id (rc_groups raw)"
    by (induction rule: list_all2_induct) (auto simp: group_resolves_def)
  have "list_all2 (\<lambda>dev c. dc_uuid c = fingerprint v c
         \<and> Some ` set (dc_disabled_fields c) = canonical_field `
             set (unwrap_or [] (opt_or (rw_disabled_fields dev) (df_disabled_fields (rc_defaults raw)))))
        (rc_devices raw) (rs_devices r)"
    using conjunct1 [OF ds] by (rule list_all2_mono) (meson canonicalize_disabled_Inr resolve_Inr)
  moreover have "distinct (map dc_id (rs_devices r) @ map gc_id (rs_groups r))"
  proof -
    have "distinct (map rg_id (rc_groups raw))" "\<forall>i \<in> set (map rg_id (rc_groups raw)). i \<notin> seen"
      using gs ds by blast+
    moreover have "distinct (map rw_id (rc_devices raw))" "seen = set (map rw_id (rc_devices raw))"
      using ds by simp_all
    ultimately show ?thesis unfolding ids gids distinct_append by blast
  qed
  ultimately show ?thesis using ids rel by blast
qed

text \<open>
  A resolved document is consistent. Ids are unique across devices and groups, devices and
  groups are those of the document in its order, every group is non-empty and names only
  devices of the document, a group's barrier waits as long as the document says or else at least
  as long as every member may take to connect and exchange, every device carries the identity
  derived from its fields, and its disabled fields are exactly the canonical names of the
  spellings listed for it (its own list, or else the defaults' list).
\<close>

theorem resolve_config_sound:
  assumes "resolve_config v raw = Some (Inr r)"
  shows "distinct (map dc_id (rs_devices r) @ map gc_id (rs_groups r))
    \<and> map dc_id (rs_devices r) = map rw_id (rc_devices raw)
    \<and> list_all2 (group_resolves (rs_devices r)) (rc_groups raw) (rs_groups r)
    \<and> list_all2 (\<lambda>dev c. dc_uuid c = fingerprint v c
         \<and> Some ` set (dc_disabled_fields c) = canonical_field `
             set (unwrap_or [] (opt_or (rw_disabled_fields dev) (df_disabled_fields (rc_defaults raw)))))
        (rc_devices raw) (rs_devices r)"
  using resolved_consistent assms by blast

definition no_defaults :: defaults where
  "no_defaults = \<lparr>df_port = None, df_username = None, df_password = None, df_connect_secs = None,
     df_exchange_secs = None, df_eager = None, df_sis_keepalive_secs = None, df_eager_retry_secs = None,
     df_cold_backoff_secs = None, df_disabled_fields = None, df_auto_disable_after = None,
     df_self_heal_secs = None\<rparr>"

definition written_device :: "string \<Rightarrow> 64 word option \<Rightarrow> raw_device" where
  "written_device i connect = \<lparr>rw_id = i, rw_host = ''10.0.0.7'', rw_port = None,
     rw_username = Some ''admin'', rw_password = Some ''extron'', rw_connect_secs = connect,
     rw_exchange_secs = None, rw_eager = None, rw_sis_keepalive_secs = None, rw_eager_retry_secs = None,
     rw_cold_backoff_secs = None, rw_disabled_fields = None, rw_auto_disable_after = None,
     rw_self_heal_secs = None\<rparr>"

definition written_config :: "64 word option \<Rightarrow> raw_config" where
  "written_config connect = \<lparr>rc_defaults = no_defaults, rc_devices = [written_device ''a'' connect],
     rc_groups = [\<lparr>rg_id = ''g'', rg_devices = [''a''], rg_barrier_timeout_secs = None, rg_barrier = None\<rparr>]\<rparr>"

lemmas config_example_defs = written_config_def written_device_def no_defaults_def resolve_config_def
  resolve_def canonicalize_disabled_def require_def opt_or_def unwrap_or_def default_defs
  default_barrier_timeout_def duration_add_def DURATION_LIMIT_def from_secs_def nonzero_secs_def Let_def

theorem resolve_config_sound_witness:
  "\<exists>r. resolve_config (\<lambda>n b. 7) (written_config None) = Some (Inr r)
     \<and> distinct (map dc_id (rs_devices r) @ map gc_id (rs_groups r))"
proof -
  obtain r where r: "resolve_config (\<lambda>n b. 7) (written_config None) = Some (Inr r)"
    by (simp add: config_example_defs)
  then show ?thesis using resolve_config_sound [OF r] by blast
qed

text \<open>The seconds a device waits to connect and to exchange, as the document says.\<close>

definition budget_secs :: "defaults \<Rightarrow> raw_device \<Rightarrow> nat" where
  "budget_secs d dev =
     unat (unwrap_or DEFAULT_CONNECT_SECS (opt_or (rw_connect_secs dev) (df_connect_secs d)))
     + unat (unwrap_or DEFAULT_EXCHANGE_SECS (opt_or (rw_exchange_secs dev) (df_exchange_secs d)))"

lemma list_all2_right:
  assumes "list_all2 P xs ys" and "y \<in> set ys"
  obtains x where "x \<in> set xs" and "P x y"
  using assms by (induction rule: list_all2_induct) auto

lemma list_all2_left: "list_all2 P xs ys \<Longrightarrow> x \<in> set xs \<Longrightarrow> \<exists>y \<in> set ys. P x y"
  by (induction rule: list_all2_induct) auto

lemma resolve_budget:
  assumes "resolve v d dev = Inr c"
  shows "dc_connect_timeout c + dc_exchange_timeout c = seconds (budget_secs d dev)"
  using assms
  by (auto simp: resolve_def Let_def budget_secs_def from_secs_def split: sum.splits)

text \<open>The sum of two whole numbers of seconds overflows, or it does not; rounding up adds nothing to it.\<close>

definition whole_budgets :: "device_config list \<Rightarrow> bool" where
  "whole_budgets ds \<longleftrightarrow> (\<forall>d \<in> set ds. (dc_connect_timeout d + dc_exchange_timeout d) mod 1000000000 = 0)"

definition overflows :: "device_config list \<Rightarrow> string list \<Rightarrow> bool" where
  "overflows ds ms \<longleftrightarrow> (\<exists>d \<in> set ds. dc_id d \<in> set ms \<and> DURATION_LIMIT \<le> dc_connect_timeout d + dc_exchange_timeout d)"

lemma member_budgets_None:
  assumes "distinct (map dc_id ds)"
  shows "member_budgets ds ms = None \<longleftrightarrow> overflows ds ms"
proof (induction ms)
  case (Cons m ms)
  show ?case
  proof (cases "find (\<lambda>d. dc_id d = m) ds")
    case None
    then have "\<forall>d \<in> set ds. dc_id d \<noteq> m" by (simp add: find_None_iff)
    then have "overflows ds (m # ms) = overflows ds ms" by (auto simp: overflows_def)
    then show ?thesis using None Cons.IH by simp
  next
    case (Some d)
    then have d: "d \<in> set ds" "dc_id d = m" by (auto simp: find_Some_iff)
    have "inj_on dc_id (set ds)" using assms by (simp add: distinct_map)
    then have only: "e \<in> set ds \<Longrightarrow> dc_id e = m \<Longrightarrow> e = d" for e using d by (metis inj_onD)
    have "overflows ds (m # ms) \<longleftrightarrow> DURATION_LIMIT \<le> dc_connect_timeout d + dc_exchange_timeout d \<or> overflows ds ms"
      unfolding overflows_def list.set insert_iff using d only by metis
    then show ?thesis using Some Cons.IH by (simp add: duration_add_def not_less)
  qed
qed (simp add: overflows_def)

lemma member_budgets_whole:
  assumes "whole_budgets ds"
  shows "member_budgets ds ms = Some bs \<Longrightarrow> \<forall>b \<in> set bs. b < DURATION_LIMIT \<and> b mod 1000000000 = 0"
proof (induction ms arbitrary: bs)
  case (Cons m ms)
  show ?case
  proof (cases "find (\<lambda>d. dc_id d = m) ds")
    case (Some d)
    then have "d \<in> set ds" by (auto simp: find_Some_iff)
    with assms Some Cons show ?thesis by (auto simp: whole_budgets_def duration_add_def split: if_splits)
  qed (use Cons in simp)
qed simp

lemma default_barrier_timeout_None:
  assumes "distinct (map dc_id ds)" and "whole_budgets ds"
  shows "default_barrier_timeout ds ms = None \<longleftrightarrow> overflows ds ms"
proof (cases "member_budgets ds ms")
  case None
  then show ?thesis using member_budgets_None [OF assms(1), of ms] by (simp add: default_barrier_timeout_def)
next
  case (Some bs)
  have "fold max bs a < DURATION_LIMIT \<and> fold max bs a mod 1000000000 = 0"
    if "a < DURATION_LIMIT" "a mod 1000000000 = 0" for a
    using member_budgets_whole [OF assms(2) Some] that by (induction bs arbitrary: a) (auto simp: max_def)
  from this [of 0] have "fold max bs 0 < DURATION_LIMIT" "fold max bs 0 mod 1000000000 = 0"
    by (simp_all add: DURATION_LIMIT_def)
  then have "default_barrier_timeout ds ms \<noteq> None"
    by (simp add: default_barrier_timeout_def Some Let_def DURATION_LIMIT_def div_less_iff_less_mult)
  then show ?thesis using member_budgets_None [OF assms(1), of ms] Some by simp
qed

text \<open>The first group that reaches the addition and overflows it stops the resolution; an error before it wins.\<close>

definition overflowing :: "device_config list \<Rightarrow> string set \<Rightarrow> raw_group \<Rightarrow> bool" where
  "overflowing ds seen g \<longleftrightarrow> rg_id g \<notin> seen \<and> rg_devices g \<noteq> [] \<and> set (rg_devices g) \<subseteq> set (map dc_id ds)
     \<and> rg_barrier_timeout_secs g = None \<and> overflows ds (rg_devices g)"

lemma resolve_groups_None:
  assumes "distinct (map dc_id ds)" and "whole_budgets ds"
  shows "resolve_groups ds seen raws = None \<longleftrightarrow>
    (\<exists>pre g post cs. raws = pre @ g # post \<and> resolve_groups ds seen pre = Some (Inr cs)
       \<and> overflowing ds (seen \<union> set (map rg_id pre)) g)"
proof (induction raws arbitrary: seen)
  case (Cons r raws)
  let ?P = "\<lambda>pre g post cs seen raws. raws = pre @ g # post \<and> resolve_groups ds seen pre = Some (Inr cs)
       \<and> overflowing ds (seen \<union> set (map rg_id pre)) g"
  let ?fine = "rg_id r \<notin> seen \<and> rg_devices r \<noteq> [] \<and> set (rg_devices r) \<subseteq> set (map dc_id ds)"
  let ?time = "case rg_barrier_timeout_secs r of Some s \<Rightarrow> Some (from_secs s) | None \<Rightarrow> default_barrier_timeout ds (rg_devices r)"
  have find: "find (\<lambda>m. m \<notin> set (map dc_id ds)) (rg_devices r) = None \<longleftrightarrow> set (rg_devices r) \<subseteq> set (map dc_id ds)"
    by (auto simp: find_None_iff)
  have time: "?time = None \<longleftrightarrow> rg_barrier_timeout_secs r = None \<and> overflows ds (rg_devices r)"
    using default_barrier_timeout_None [OF assms] by (simp split: option.split)
  have head: "resolve_groups ds seen [r] = Some (Inr cs) \<Longrightarrow> ?fine \<and> ?time \<noteq> None" for cs
    using find by (auto split: if_splits option.splits)
  have step: "resolve_groups ds seen (r # rest) = None \<longleftrightarrow> ?fine \<and> (?time = None \<or> resolve_groups ds (insert (rg_id r) seen) rest = None)" for rest
    using find by (auto simp: Let_def split: option.split sum.split)
  have ok: "(\<exists>cs. resolve_groups ds seen (r # rest) = Some (Inr cs))
      \<longleftrightarrow> ?fine \<and> ?time \<noteq> None \<and> (\<exists>cs. resolve_groups ds (insert (rg_id r) seen) rest = Some (Inr cs))" for rest
    using find by (auto simp: Let_def split: option.splits sum.splits)
  have "(\<exists>pre g post cs. ?P pre g post cs seen (r # raws))
      \<longleftrightarrow> overflowing ds seen r \<or> ?fine \<and> ?time \<noteq> None \<and> (\<exists>pre g post cs. ?P pre g post cs (insert (rg_id r) seen) raws)"
    (is "?L \<longleftrightarrow> ?R")
  proof
    assume ?L
    then obtain pre g post cs where P: "?P pre g post cs seen (r # raws)" by blast
    show ?R
    proof (cases pre)
      case Nil
      with P show ?thesis by simp
    next
      case (Cons x pre')
      with P have "x = r" "raws = pre' @ g # post" "\<exists>cs. resolve_groups ds seen (r # pre') = Some (Inr cs)"
        "overflowing ds (insert (rg_id r) seen \<union> set (map rg_id pre')) g" by auto
      with ok [of pre'] show ?thesis by blast
    qed
  next
    assume R: ?R
    show ?L
    proof (cases "overflowing ds seen r")
      case True
      then show ?thesis by (intro exI [of _ "[]"] exI [of _ r] exI [of _ raws] exI [of _ "[]"]) simp
    next
      case False
      with R obtain pre g post cs where f: "?fine" "?time \<noteq> None" and P: "?P pre g post cs (insert (rg_id r) seen) raws" by blast
      then obtain cs' where "resolve_groups ds seen (r # pre) = Some (Inr cs')" using ok [of pre] by blast
      with P show ?thesis by (intro exI [of _ "r # pre"] exI [of _ g] exI [of _ post] exI [of _ cs']) auto
    qed
  qed
  then show ?case unfolding step Cons.IH time overflowing_def by blast
qed simp

text \<open>The budgets of resolved devices are those of their rows, in whole seconds.\<close>

lemma resolved_budgets:
  assumes "list_all2 (\<lambda>dev c. resolve v d dev = Inr c) devs ds"
  shows "whole_budgets ds"
    and "overflows ds ms \<longleftrightarrow> (\<exists>dev \<in> set devs. rw_id dev \<in> set ms \<and> 2 ^ 64 \<le> budget_secs d dev)"
proof -
  have sum: "dc_id c = rw_id dev \<and> dc_connect_timeout c + dc_exchange_timeout c = seconds (budget_secs d dev)"
    if "resolve v d dev = Inr c" for dev c
    using resolve_budget [OF that] resolve_Inr [OF that] by simp
  have row: "\<exists>dev \<in> set devs. resolve v d dev = Inr c" if "c \<in> set ds" for c
    using list_all2_right [OF assms that] by blast
  have limit: "DURATION_LIMIT \<le> seconds n \<longleftrightarrow> 2 ^ 64 \<le> n" for n by (simp add: DURATION_LIMIT_def)
  show "whole_budgets ds" unfolding whole_budgets_def using row sum by fastforce
  show "overflows ds ms \<longleftrightarrow> (\<exists>dev \<in> set devs. rw_id dev \<in> set ms \<and> 2 ^ 64 \<le> budget_secs d dev)"
  proof
    assume "overflows ds ms"
    then obtain c where c: "c \<in> set ds" "dc_id c \<in> set ms" "DURATION_LIMIT \<le> dc_connect_timeout c + dc_exchange_timeout c"
      by (auto simp: overflows_def)
    then show "\<exists>dev \<in> set devs. rw_id dev \<in> set ms \<and> 2 ^ 64 \<le> budget_secs d dev"
      using row [OF c(1)] sum limit by fastforce
  next
    assume "\<exists>dev \<in> set devs. rw_id dev \<in> set ms \<and> 2 ^ 64 \<le> budget_secs d dev"
    then obtain dev where dev: "dev \<in> set devs" "rw_id dev \<in> set ms" "2 ^ 64 \<le> budget_secs d dev" by blast
    obtain c where "c \<in> set ds" "resolve v d dev = Inr c" using list_all2_left [OF assms dev(1)] by blast
    then show "overflows ds ms" unfolding overflows_def using dev(2,3) sum limit by (intro bexI [of _ c]) simp_all
  qed
qed

text \<open>
  C40. Resolution panics exactly when it reaches a budget that does not fit. \<open>resolve_config\<close> returns a
  resolved document or an error for every document, except where the devices resolve, the groups up to some group
  resolve, and that group, sound in itself, names no timeout of its own and has a member that waits \<open>2^64\<close> seconds
  or more to connect and exchange together. The documentation says it never panics.
\<close>

theorem resolve_config_panics_iff:
  "resolve_config v raw = None \<longleftrightarrow>
     (\<exists>ds seen pre g post cs.
        resolve_devices v (rc_defaults raw) {} (rc_devices raw) = Inr (ds, seen)
      \<and> rc_groups raw = pre @ g # post \<and> resolve_groups ds seen pre = Some (Inr cs)
      \<and> rg_id g \<notin> set (map rw_id (rc_devices raw)) \<union> set (map rg_id pre)
      \<and> rg_devices g \<noteq> [] \<and> set (rg_devices g) \<subseteq> set (map rw_id (rc_devices raw))
      \<and> rg_barrier_timeout_secs g = None
      \<and> (\<exists>dev \<in> set (rc_devices raw). rw_id dev \<in> set (rg_devices g) \<and> 2 ^ 64 \<le> budget_secs (rc_defaults raw) dev))"
proof (cases "resolve_devices v (rc_defaults raw) {} (rc_devices raw)")
  case (Inl e)
  then show ?thesis by (simp add: resolve_config_def)
next
  case (Inr q)
  then obtain ds seen where d: "resolve_devices v (rc_defaults raw) {} (rc_devices raw) = Inr (ds, seen)" by (cases q) auto
  note R = resolve_devices_Inr [OF d]
  have ids: "map dc_id ds = map rw_id (rc_devices raw)" using R list_all2_ids by blast
  then have distinct: "distinct (map dc_id ds)" and seen: "seen = set (map rw_id (rc_devices raw))" using R by simp_all
  note budgets = resolved_budgets [OF conjunct1 [OF R]]
  have over: "overflowing ds s g \<longleftrightarrow> rg_id g \<notin> s \<and> rg_devices g \<noteq> [] \<and> set (rg_devices g) \<subseteq> set (map rw_id (rc_devices raw))
      \<and> rg_barrier_timeout_secs g = None
      \<and> (\<exists>dev \<in> set (rc_devices raw). rw_id dev \<in> set (rg_devices g) \<and> 2 ^ 64 \<le> budget_secs (rc_defaults raw) dev)" for s g
    by (simp add: overflowing_def ids budgets(2))
  have "resolve_config v raw = None \<longleftrightarrow> resolve_groups ds seen (rc_groups raw) = None"
    by (simp add: resolve_config_def d split: option.split sum.split)
  also have "\<dots> \<longleftrightarrow> (\<exists>pre g post cs. rc_groups raw = pre @ g # post \<and> resolve_groups ds seen pre = Some (Inr cs)
       \<and> overflowing ds (seen \<union> set (map rg_id pre)) g)"
    by (rule resolve_groups_None [OF distinct budgets(1)])
  also have "\<dots> \<longleftrightarrow> (\<exists>pre g post cs. rc_groups raw = pre @ g # post \<and> resolve_groups ds seen pre = Some (Inr cs)
      \<and> rg_id g \<notin> set (map rw_id (rc_devices raw)) \<union> set (map rg_id pre)
      \<and> rg_devices g \<noteq> [] \<and> set (rg_devices g) \<subseteq> set (map rw_id (rc_devices raw))
      \<and> rg_barrier_timeout_secs g = None
      \<and> (\<exists>dev \<in> set (rc_devices raw). rw_id dev \<in> set (rg_devices g) \<and> 2 ^ 64 \<le> budget_secs (rc_defaults raw) dev))"
    unfolding over seen by (rule refl)
  finally show ?thesis unfolding d sum.inject prod.inject by blast
qed

text \<open>One device and one group of it: a connect timeout of \<open>2^64 - 1\<close> seconds, and one of a minute.\<close>

theorem resolve_config_panics_iff_witness:
  "resolve_config (\<lambda>n b. 7) (written_config (Some 18446744073709551615)) = None
   \<and> resolve_config (\<lambda>n b. 7) (written_config (Some 60)) \<noteq> None"
proof
  show "resolve_config (\<lambda>n b. 7) (written_config (Some 18446744073709551615)) = None"
    unfolding resolve_config_panics_iff
    by (simp add: config_example_defs budget_secs_def Cons_eq_append_conv)
  show "resolve_config (\<lambda>n b. 7) (written_config (Some 60)) \<noteq> None"
    unfolding resolve_config_panics_iff
    by (simp add: config_example_defs budget_secs_def)
qed

end
