(* ===== verification/Sis_Device.thy ===== *)
theory Sis_Device
  imports Sis_Config
begin

text \<open>
  \<^verbatim>\<open>sismatic-core/src/devices\<close>: the learned field vetoes (\<^verbatim>\<open>auto_disabled.rs\<close>), one SIS exchange
  (\<^verbatim>\<open>controller.rs\<close>), a device with its warm connection and cold gate (\<^verbatim>\<open>device.rs\<close>) and a group of
  devices (\<^verbatim>\<open>group.rs\<close>).

  The network is behind two traits, \<^verbatim>\<open>Transport\<close> and \<^verbatim>\<open>Connector\<close>. An open channel is the script of
  what its \<^verbatim>\<open>write_all\<close> and \<^verbatim>\<open>read\<close> calls return and how long each takes; a script that has run out
  is a call that never returns, so a caller's timeout fires. The dials to come are a script of
  the same kind. \<open>world\<close> holds the clock, the dials to come and a record of the calls made, in
  order. A mutex serialises the calls on a device, so each call is a function of its state.
\<close>


section \<open>Durations as text\<close>

text \<open>The fraction of a unit, without trailing zeros: \<open>digits\<close> of it at most.\<close>

fun fraction_digits :: "nat \<Rightarrow> nat \<Rightarrow> string" where
  "fraction_digits 0 n = []"
| "fraction_digits (Suc k) n =
     (if n = 0 then [] else char_of (48 + n div 10 ^ k) # fraction_digits k (n mod 10 ^ k))"

definition show_decimal :: "nat \<Rightarrow> nat \<Rightarrow> nat \<Rightarrow> string \<Rightarrow> string" where
  "show_decimal whole fraction digits unit =
     show_nat whole @ (if fraction = 0 then [] else ''.'' @ fraction_digits digits fraction) @ unit"

text \<open>\<open>impl Debug for Duration\<close>.\<close>

definition show_duration :: "duration \<Rightarrow> string" where
  "show_duration d =
     (if d \<ge> 1000000000 then show_decimal (d div 1000000000) (d mod 1000000000) 9 ''s''
      else if d \<ge> 1000000 then show_decimal (d div 1000000) (d mod 1000000) 6 ''ms''
      else if d \<ge> 1000 then show_decimal (d div 1000) (d mod 1000) 3 ([CHR 0xC2, CHR 0xB5] @ ''s'')
      else show_decimal d 0 1 ''ns'')"


section \<open>Learned vetoes\<close>

type_synonym instant = nat

datatype veto_source = Declared | Inferred

fun show_veto_source :: "veto_source \<Rightarrow> string" where
  "show_veto_source Declared = ''disabled_fields''"
| "show_veto_source Inferred = ''repeated refusals''"

record auto_disabled_field =
  ad_name :: string
  ad_refusals :: "32 word"
  ad_disabled :: bool
  ad_retry_in :: "duration option"

datatype refusal = Counted "32 word" | Disabled "32 word" | Still

record veto_record =
  vr_refusals :: "32 word"
  vr_vetoed_until :: "instant option option"

type_synonym auto_disabled = "(string, veto_record) omap"

definition veto :: "auto_disabled \<Rightarrow> instant \<Rightarrow> string \<Rightarrow> duration option option" where
  "veto auto now field =
     (case map_of auto field of
        None \<Rightarrow> None
      | Some record \<Rightarrow>
          (case vr_vetoed_until record of
             None \<Rightarrow> None
           | Some None \<Rightarrow> Some None
           | Some (Some until) \<Rightarrow> if now < until then Some (Some (until - now)) else None))"

definition saturating_add :: "32 word \<Rightarrow> 32 word" where
  "saturating_add n = (if n = - 1 then n else n + 1)"

definition refused :: "auto_disabled \<Rightarrow> instant \<Rightarrow> string \<Rightarrow> 32 word \<Rightarrow> duration option
    \<Rightarrow> refusal \<times> auto_disabled" where
  "refused auto now field threshold self_heal =
     (if threshold = 0 then (Still, auto)
      else
        let record = (case map_of auto field of
                        Some r \<Rightarrow> r
                      | None \<Rightarrow> \<lparr>vr_refusals = 0, vr_vetoed_until = None\<rparr>);
            already = vr_vetoed_until record \<noteq> None;
            counted = record\<lparr>vr_refusals := saturating_add (vr_refusals record)\<rparr>
        in if vr_refusals counted < threshold
           then (Counted (vr_refusals counted), oput field counted auto)
           else
             (if already then Still else Disabled (vr_refusals counted),
              oput field (counted\<lparr>vr_vetoed_until := Some (map_option (\<lambda>wait. now + wait) self_heal)\<rparr>) auto))"

definition answered :: "auto_disabled \<Rightarrow> string \<Rightarrow> bool \<times> auto_disabled" where
  "answered auto field =
     (case map_of auto field of
        Some record \<Rightarrow> (vr_vetoed_until record \<noteq> None, odel field auto)
      | None \<Rightarrow> (False, auto))"

definition snapshot :: "auto_disabled \<Rightarrow> instant \<Rightarrow> auto_disabled_field list" where
  "snapshot auto now = map (\<lambda>(name, record).
     \<lparr>ad_name = name, ad_refusals = vr_refusals record,
      ad_disabled = (vr_vetoed_until record \<noteq> None),
      ad_retry_in = (case vr_vetoed_until record of
          Some (Some until) \<Rightarrow> if now \<le> until then Some (until - now) else None
        | _ \<Rightarrow> None)\<rparr>) auto"


section \<open>One exchange\<close>

datatype transport_error = TIo string

fun show_transport_error :: "transport_error \<Rightarrow> string" where
  "show_transport_error (TIo e) = ''transport i/o error: '' @ e"

datatype connect_error = ConnectFailed string | ConnectTimeout duration

fun show_connect_error :: "connect_error \<Rightarrow> string" where
  "show_connect_error (ConnectFailed e) = e"
| "show_connect_error (ConnectTimeout d) = ''connect timed out after '' @ show_duration d"

datatype controller_error =
    CtTimeout string duration
  | CtRejected string sis_error
  | CtConnectionClosed string
  | CtTransport string transport_error

fun show_controller_error :: "controller_error \<Rightarrow> string" where
  "show_controller_error (CtTimeout i after) = ticked i @ '' timed out after '' @ show_duration after"
| "show_controller_error (CtRejected i e) = ''device refused '' @ ticked i @ '' with '' @ show_sis_error e"
| "show_controller_error (CtConnectionClosed i) = ''channel closed during '' @ ticked i"
| "show_controller_error (CtTransport i source) = ticked i @ '': '' @ show_transport_error source"

record channel =
  ch_writes :: "(duration \<times> transport_error option) list"
  ch_reads :: "(duration \<times> (transport_error + string)) list"

record controller =
  ct_channel :: channel
  ct_exchange_timeout :: duration

definition valid_prefix :: "string \<Rightarrow> string" where
  "valid_prefix bytes = take (valid_up_to bytes) bytes"

text \<open>
  The read loop of \<open>exchange\<close> with \<open>left\<close> time before the deadline of \<open>run\<close>: the outcome, or
  \<open>None\<close> when the deadline comes first; the reads to come; the time left.
\<close>

fun read_reply :: "instruction \<Rightarrow> duration \<Rightarrow> string \<Rightarrow> (duration \<times> (transport_error + string)) list
    \<Rightarrow> (controller_error + core_value) option \<times> (duration \<times> (transport_error + string)) list \<times> duration" where
  "read_reply i left acc [] = (None, [], 0)"
| "read_reply i left acc ((delay, event) # reads) =
     (if left < delay then (None, (delay - left, event) # reads, 0)
      else case event of
             Inl source \<Rightarrow> (Some (Inl (CtTransport (in_name i) source)), reads, left - delay)
           | Inr bytes \<Rightarrow>
               if bytes = [] then (Some (Inl (CtConnectionClosed (in_name i))), reads, left - delay)
               else
                 let acc' = acc @ bytes; reply = valid_prefix acc'
                 in (case in_reply reply of
                       Some e \<Rightarrow> (Some (Inl (CtRejected (in_name i) e)), reads, left - delay)
                     | None \<Rightarrow>
                         (case parse_step i reply of
                            Done value \<Rightarrow> (Some (Inr value), reads, left - delay)
                          | NeedMore \<Rightarrow> read_reply i (left - delay) acc' reads)))"

definition exchange :: "instruction \<Rightarrow> duration \<Rightarrow> channel
    \<Rightarrow> (controller_error + core_value) option \<times> channel \<times> duration" where
  "exchange i left ch =
     (case ch_writes ch of
        [] \<Rightarrow> (None, ch, 0)
      | (delay, result) # writes \<Rightarrow>
          if left < delay then (None, ch\<lparr>ch_writes := (delay - left, result) # writes\<rparr>, 0)
          else
            (case result of
               Some source \<Rightarrow> (Some (Inl (CtTransport (in_name i) source)), ch\<lparr>ch_writes := writes\<rparr>, left - delay)
             | None \<Rightarrow>
                 (case read_reply i (left - delay) [] (ch_reads ch) of
                    (r, reads, left') \<Rightarrow> (r, \<lparr>ch_writes = writes, ch_reads = reads\<rparr>, left'))))"

text \<open>\<open>Controller::run\<close>: the outcome, the controller and the time the exchange took.\<close>

definition controller_run :: "controller \<Rightarrow> instruction
    \<Rightarrow> (controller_error + core_value) \<times> controller \<times> duration" where
  "controller_run ct i =
     (let limit = ct_exchange_timeout ct
      in case exchange i limit (ct_channel ct) of
           (r, ch, left) \<Rightarrow>
             (case r of Some result \<Rightarrow> result | None \<Rightarrow> Inl (CtTimeout (in_name i) limit),
              ct\<lparr>ct_channel := ch\<rparr>, limit - left))"


section \<open>A device\<close>

datatype device_error =
    DConnect connect_error
  | DCommand controller_error
  | DCold duration
  | DDisabled string veto_source "duration option"

fun is_refusal :: "device_error \<Rightarrow> bool" where
  "is_refusal (DCommand (CtRejected i e)) = True"
| "is_refusal e = False"

fun show_device_error :: "device_error \<Rightarrow> string" where
  "show_device_error (DConnect e) = ''connect failed: '' @ show_connect_error e"
| "show_device_error (DCommand e) = show_controller_error e"
| "show_device_error (DCold retry_in) =
     ''device is cold; dialing again possible in '' @ show_duration retry_in"
| "show_device_error (DDisabled field source retry_in) =
     (case retry_in of
        Some d \<Rightarrow> ticked field @ '' is disabled on this device ('' @ show_veto_source source @ ''); ''
          @ ''it will be tried again in '' @ show_duration d
      | None \<Rightarrow> ticked field @ '' is disabled on this device ('' @ show_veto_source source @ '')'')"

record link =
  lk_conn :: "controller option"
  lk_cold_until :: "instant option"

definition default_link :: link where
  "default_link = \<lparr>lk_conn = None, lk_cold_until = None\<rparr>"

datatype connectivity = Warm | Busy | Cold | Gated

datatype dial_mode = WhenWarm | Always

record device =
  dv_config :: device_config
  dv_link :: link
  dv_auto_disabled :: auto_disabled

definition with_auto_disabled :: "device_config \<Rightarrow> auto_disabled \<Rightarrow> device" where
  "with_auto_disabled config auto =
     \<lparr>dv_config = config, dv_link = default_link, dv_auto_disabled = auto\<rparr>"

definition new_device :: "device_config \<Rightarrow> device" where
  "new_device config = with_auto_disabled config []"

definition field_veto :: "device \<Rightarrow> instant \<Rightarrow> string \<Rightarrow> (veto_source \<times> duration option) option" where
  "field_veto dev now field =
     (if field \<in> set (dc_disabled_fields (dv_config dev)) then Some (Declared, None)
      else map_option (\<lambda>retry_in. (Inferred, retry_in)) (veto (dv_auto_disabled dev) now field))"

text \<open>\<open>locked\<close> says that a call holds the connection lock.\<close>

definition connectivity :: "device \<Rightarrow> bool \<Rightarrow> instant \<Rightarrow> connectivity" where
  "connectivity dev locked now =
     (if locked then Busy
      else if lk_conn (dv_link dev) \<noteq> None then Warm
      else case lk_cold_until (dv_link dev) of
             Some until \<Rightarrow> if now < until then Gated else Cold
           | None \<Rightarrow> Cold)"

text \<open>Calls on the two traits, as they happen.\<close>

datatype action = Dialed | Wrote string

record world =
  wd_now :: instant
  wd_dials :: "(duration \<times> (connect_error + channel)) list"
  wd_log :: "action list"

definition connect :: "device_config \<Rightarrow> world \<Rightarrow> (device_error + controller) \<times> world" where
  "connect config w =
     (let w = w\<lparr>wd_log := wd_log w @ [Dialed]\<rparr>;
          limit = dc_connect_timeout config
      in case wd_dials w of
           [] \<Rightarrow> (Inl (DConnect (ConnectTimeout limit)), w\<lparr>wd_now := wd_now w + limit\<rparr>)
         | (delay, result) # dials \<Rightarrow>
             if limit < delay
             then (Inl (DConnect (ConnectTimeout limit)), w\<lparr>wd_now := wd_now w + limit, wd_dials := dials\<rparr>)
             else
               let w = w\<lparr>wd_now := wd_now w + delay, wd_dials := dials\<rparr>
               in (case result of
                     Inl e \<Rightarrow> (Inl (DConnect e), w)
                   | Inr ch \<Rightarrow>
                       (Inr \<lparr>ct_channel = ch, ct_exchange_timeout = dc_exchange_timeout config\<rparr>, w)))"

definition dial :: "device_config \<Rightarrow> dial_mode \<Rightarrow> link \<Rightarrow> world
    \<Rightarrow> (device_error + controller) \<times> link \<times> world" where
  "dial config mode lk w =
     (case (mode, lk_cold_until lk) of
        (WhenWarm, Some until) \<Rightarrow>
          if wd_now w < until then (Inl (DCold (until - wd_now w)), lk, w)
          else (case connect config w of
             (Inr ct, w') \<Rightarrow> (Inr ct, lk\<lparr>lk_cold_until := None\<rparr>, w')
           | (Inl e, w') \<Rightarrow> (Inl e,
               lk\<lparr>lk_cold_until := map_option (\<lambda>b. wd_now w' + b) (dc_cold_backoff config)\<rparr>, w'))
      | _ \<Rightarrow>
          (case connect config w of
             (Inr ct, w') \<Rightarrow> (Inr ct, lk\<lparr>lk_cold_until := None\<rparr>, w')
           | (Inl e, w') \<Rightarrow> (Inl e,
               lk\<lparr>lk_cold_until := map_option (\<lambda>b. wd_now w' + b) (dc_cold_backoff config)\<rparr>, w')))"

text \<open>The write of an exchange and the time it takes, as the world sees them.\<close>

definition exchanged :: "instruction \<Rightarrow> duration \<Rightarrow> world \<Rightarrow> world" where
  "exchanged i spent w = w\<lparr>wd_now := wd_now w + spent, wd_log := wd_log w @ [Wrote (in_payload i)]\<rparr>"

function exec_loop :: "device_config \<Rightarrow> instruction \<Rightarrow> dial_mode \<Rightarrow> bool \<Rightarrow> link \<Rightarrow> world
    \<Rightarrow> (device_error + core_value) \<times> link \<times> world" where
  "exec_loop config i mode reconnected lk w =
     (let was_cached = lk_conn lk \<noteq> None
      in case (case lk_conn lk of
                 Some ct \<Rightarrow> (Inr ct, lk, w)
               | None \<Rightarrow> dial config mode lk w) of
           (Inl e, lk', w') \<Rightarrow> (Inl e, lk', w')
         | (Inr ct, lk', w') \<Rightarrow>
             (case controller_run ct i of
                (Inr value, ct', spent) \<Rightarrow> (Inr value, lk'\<lparr>lk_conn := Some ct'\<rparr>, exchanged i spent w')
              | (Inl (CtRejected n e), ct', spent) \<Rightarrow>
                  (Inl (DCommand (CtRejected n e)), lk'\<lparr>lk_conn := Some ct'\<rparr>, exchanged i spent w')
              | (Inl err, ct', spent) \<Rightarrow>
                  if was_cached \<and> \<not> reconnected
                  then exec_loop config i mode True (lk'\<lparr>lk_conn := None\<rparr>) (exchanged i spent w')
                  else (Inl (DCommand err), lk'\<lparr>lk_conn := None\<rparr>, exchanged i spent w')))"
  by pat_completeness auto
termination
  by (relation "measure (\<lambda>(config, i, mode, reconnected, lk, w). if reconnected then 0 else 1)") auto

declare exec_loop.simps [simp del]

definition exec :: "instruction \<Rightarrow> dial_mode \<Rightarrow> device \<Rightarrow> world \<Rightarrow> (device_error + core_value) \<times> device \<times> world" where
  "exec i mode dev w =
     (case exec_loop (dv_config dev) i mode False (dv_link dev) w of
        (r, lk, w') \<Rightarrow> (r, dev\<lparr>dv_link := lk\<rparr>, w'))"

definition run :: "instruction \<Rightarrow> device \<Rightarrow> world \<Rightarrow> (device_error + core_value) \<times> device \<times> world" where
  "run i dev w =
     (case field_veto dev (wd_now w) (in_name i) of
        Some (source, retry_in) \<Rightarrow> (Inl (DDisabled (in_name i) source retry_in), dev, w)
      | None \<Rightarrow> exec i WhenWarm dev w)"

definition probe :: "instruction \<Rightarrow> device \<Rightarrow> world \<Rightarrow> (device_error + core_value) \<times> device \<times> world" where
  "probe i dev w = exec i Always dev w"


section \<open>A group of devices\<close>

record group_error =
  gr_id :: string
  gr_failures :: "(string \<times> device_error) list"

definition show_group_error :: "group_error \<Rightarrow> string" where
  "show_group_error e = ''group '' @ ticked (gr_id e) @ '': ''
     @ join ''; '' (map (\<lambda>(d, err). ticked d @ '': '' @ show_device_error err) (gr_failures e))"

record device_group =
  dg_id :: string
  dg_devices :: "(device \<times> world) list"

definition member_ids :: "device_group \<Rightarrow> string list" where
  "member_ids g = map (\<lambda>(d, w). dc_id (dv_config d)) (dg_devices g)"

text \<open>
  \<open>DeviceGroup::run\<close>: the members' exchanges run concurrently, each on its own device, so
  each member's call sees only its own device and world.
\<close>

definition group_run :: "instruction \<Rightarrow> device_group
    \<Rightarrow> (group_error + (string \<times> core_value) list) \<times> device_group" where
  "group_run i g =
     (let outcomes = map (\<lambda>(d, w). (dc_id (dv_config d), run i d w)) (dg_devices g);
          values = concat (map (\<lambda>(n, r, d, w). case r of Inr v \<Rightarrow> [(n, v)] | Inl e \<Rightarrow> []) outcomes);
          failures = concat (map (\<lambda>(n, r, d, w). case r of Inr v \<Rightarrow> [] | Inl e \<Rightarrow> [(n, e)]) outcomes)
      in (if failures = [] then Inr values else Inl \<lparr>gr_id = dg_id g, gr_failures = failures\<rparr>,
          g\<lparr>dg_devices := map (\<lambda>(n, r, d, w). (d, w)) outcomes\<rparr>))"

end
