(* ===== verification/Sis_Device_Spec.thy ===== *)
theory Sis_Device_Spec
  imports Sis_Device
begin

text \<open>
  What the device layer promises: learned vetoes are the trailing refusals, an exchange does not
  depend on how a reply is cut, a call leaves the connection and its cold gate coherent and
  touches the network a bounded number of times.
\<close>


section \<open>Learned vetoes follow the trailing refusals\<close>

text \<open>What a poll loop reports of one field, newest last, and the set that results.\<close>

datatype observation = SawRefusal string instant | SawAnswer string

fun observe_field :: "32 word \<Rightarrow> duration option \<Rightarrow> observation \<Rightarrow> auto_disabled \<Rightarrow> auto_disabled" where
  "observe_field threshold heal (SawRefusal f t) auto = snd (refused auto t f threshold heal)"
| "observe_field threshold heal (SawAnswer f) auto = snd (answered auto f)"

definition learned :: "32 word \<Rightarrow> duration option \<Rightarrow> observation list \<Rightarrow> auto_disabled" where
  "learned threshold heal obs = fold (observe_field threshold heal) obs []"

text \<open>The refusals of a field since it last answered, newest first.\<close>

definition trailing :: "string \<Rightarrow> observation list \<Rightarrow> instant list" where
  "trailing f obs =
     map (\<lambda>ob. case ob of SawRefusal g t \<Rightarrow> t | SawAnswer g \<Rightarrow> 0)
       (takeWhile (\<lambda>ob. ob \<noteq> SawAnswer f)
          (filter (\<lambda>ob. case ob of SawRefusal g t \<Rightarrow> g = f | SawAnswer g \<Rightarrow> g = f) (rev obs)))"

lemma trailing_snoc:
  "trailing f (obs @ [ob]) =
     (case ob of SawRefusal g t \<Rightarrow> if g = f then t # trailing f obs else trailing f obs
      | SawAnswer g \<Rightarrow> if g = f then [] else trailing f obs)"
  by (simp add: trailing_def split: observation.split)

lemma learned_snoc: "learned n h (obs @ [ob]) = observe_field n h ob (learned n h obs)"
  by (simp add: learned_def)

text \<open>What the set holds against a field with these trailing refusals.\<close>

definition verdict :: "32 word \<Rightarrow> duration option \<Rightarrow> instant list \<Rightarrow> veto_record option" where
  "verdict n h ts =
     (if ts = [] \<or> n = 0 then None
      else Some \<lparr>vr_refusals = of_nat (min (length ts) 4294967295),
                 vr_vetoed_until = (if unat n \<le> length ts then Some (map_option (\<lambda>w. hd ts + w) h) else None)\<rparr>)"

abbreviation LIMIT :: nat where "LIMIT \<equiv> 4294967295"

lemma unat_small: "k \<le> LIMIT \<Longrightarrow> unat (of_nat k :: 32 word) = k"
  by (simp add: unsigned_of_nat take_bit_nat_eq_self)

lemma unat_max: "unat (- 1 :: 32 word) = LIMIT"
  by (simp add: unsigned_minus_1_eq_mask mask_eq_exp_minus_1)

lemma saturating_of_nat: "saturating_add (of_nat (min k LIMIT)) = of_nat (min (Suc k) LIMIT)"
proof (cases "k < LIMIT")
  case True
  then have "unat (of_nat k :: 32 word) \<noteq> unat (- 1 :: 32 word)"
    unfolding unat_max by (subst unat_small) simp_all
  then have "of_nat k \<noteq> (- 1 :: 32 word)" by metis
  with True show ?thesis by (simp add: saturating_add_def min_def)
next
  case False
  then show ?thesis by (simp add: saturating_add_def min_def)
qed

lemma saturated_less: "of_nat (min k LIMIT) < (n :: 32 word) \<longleftrightarrow> k < unat n"
proof -
  have "unat n \<le> LIMIT" using unsigned_less [of n, where 'a = nat] by simp
  moreover have "unat (of_nat (min k LIMIT) :: 32 word) = min k LIMIT"
    by (rule unat_small) simp
  ultimately show ?thesis unfolding word_less_nat_alt by linarith
qed

lemma refused_lookup:
  assumes "map_of auto f = verdict n h ts" and "n \<noteq> 0"
  shows "map_of (snd (refused auto t f n h)) f = verdict n h (t # ts)"
proof -
  have n: "unat n \<noteq> 0" using assms(2) by (simp add: unat_eq_0)
  let ?r = "case map_of auto f of Some r \<Rightarrow> r | None \<Rightarrow> \<lparr>vr_refusals = 0, vr_vetoed_until = None\<rparr>"
  have count: "saturating_add (vr_refusals ?r) = of_nat (min (Suc (length ts)) LIMIT)"
    using assms saturating_of_nat [of "length ts"] by (simp add: verdict_def saturating_add_def split: if_splits)
  have below: "vr_vetoed_until ?r = None" if "Suc (length ts) < unat n"
    using that assms by (simp add: verdict_def)
  have eta: "?r\<lparr>vr_refusals := a, vr_vetoed_until := b\<rparr> = \<lparr>vr_refusals = a, vr_vetoed_until = b\<rparr>" for a b
    by (cases ?r) simp
  have eta': "?r\<lparr>vr_refusals := a\<rparr> = \<lparr>vr_refusals = a, vr_vetoed_until = vr_vetoed_until ?r\<rparr>" for a
    by (cases ?r) simp
  show ?thesis
  proof (cases "Suc (length ts) < unat n")
    case True
    then have "of_nat (min (Suc (length ts)) LIMIT) < n" by (simp only: saturated_less not_False_eq_True)
    then show ?thesis
      using assms(2) True below [OF True]
      by (simp add: refused_def Let_def count eta' verdict_def del: of_nat_Suc of_nat_min)
  next
    case False
    then have "\<not> of_nat (min (Suc (length ts)) LIMIT) < n" by (simp only: saturated_less not_False_eq_True)
    then show ?thesis
      using assms(2) False
      by (simp add: refused_def Let_def count eta verdict_def del: of_nat_Suc of_nat_min)
  qed
qed

lemma refused_other: "g \<noteq> f \<Longrightarrow> map_of (snd (refused auto t g n h)) f = map_of auto f"
  by (simp add: refused_def Let_def)

lemma learned_verdict: "map_of (learned n h obs) f = verdict n h (trailing f obs)"
proof (induction obs rule: rev_induct)
  case Nil
  then show ?case by (simp add: learned_def trailing_def verdict_def)
next
  case (snoc ob obs)
  show ?case
  proof (cases ob)
    case (SawRefusal g t)
    show ?thesis
    proof (cases "n = 0")
      case True
      with snoc SawRefusal show ?thesis
        by (simp add: learned_snoc trailing_snoc refused_def verdict_def)
    next
      case False
      with snoc SawRefusal show ?thesis
        by (auto simp: learned_snoc trailing_snoc refused_other refused_lookup)
    qed
  next
    case (SawAnswer g)
    with snoc show ?thesis
      by (auto simp: learned_snoc trailing_snoc answered_def verdict_def split: option.split)
  qed
qed

text \<open>
  C27. A field is vetoed by observation exactly when it deserves it. After any sequence of
  observed answers and refusals of any fields, a field is vetoed at a later time exactly when
  the threshold is not zero, the field was refused at least that often since it last
  answered, and the device either never heals or its heal interval since the last of those
  refusals has not passed; the veto then reports the time that is left. Answers of other fields
  and a counter that has saturated make no difference.
\<close>

theorem veto_iff_trailing_refusals:
  "veto (learned n h obs) now f =
     (let ts = trailing f obs
      in if n \<noteq> 0 \<and> unat n \<le> length ts
         then (case h of
                 None \<Rightarrow> Some None
               | Some w \<Rightarrow> if now < hd ts + w then Some (Some (hd ts + w - now)) else None)
         else None)"
proof -
  have "n \<noteq> 0 \<Longrightarrow> unat n \<le> length (trailing f obs) \<Longrightarrow> trailing f obs \<noteq> []"
    by (auto simp: unat_eq_0)
  then show ?thesis
    by (auto simp: veto_def learned_verdict verdict_def Let_def split: option.split)
qed


section \<open>An exchange does not depend on how the reply is cut\<close>

text \<open>A reply on which neither the error token nor the instruction's parser has decided.\<close>

definition undecided :: "instruction \<Rightarrow> string \<Rightarrow> bool" where
  "undecided i bytes \<longleftrightarrow> in_reply (valid_prefix bytes) = None \<and> parse_step i (valid_prefix bytes) = NeedMore"

text \<open>What the exchange answers with once it has decided.\<close>

definition decision :: "instruction \<Rightarrow> string \<Rightarrow> (controller_error + core_value) option" where
  "decision i bytes =
     (case in_reply (valid_prefix bytes) of
        Some e \<Rightarrow> Some (Inl (CtRejected (in_name i) e))
      | None \<Rightarrow> (case parse_step i (valid_prefix bytes) of Done v \<Rightarrow> Some (Inr v) | NeedMore \<Rightarrow> None))"

abbreviation arrivals :: "(duration \<times> string) list \<Rightarrow> (duration \<times> (transport_error + string)) list" where
  "arrivals chunks \<equiv> map (\<lambda>(d, c). (d, Inr c)) chunks"

lemma read_reply_chunks:
  assumes "sum_list (map fst chunks) \<le> left" and "\<forall>(d, c) \<in> set chunks. c \<noteq> []"
    and "chunks \<noteq> []"
    and "\<forall>n < length (concat (map snd chunks)). undecided i (acc @ take n (concat (map snd chunks))) \<or> n = 0"
    and "decision i (acc @ concat (map snd chunks)) = Some r"
  shows "read_reply i left acc (arrivals chunks @ later)
    = (Some r, later, left - sum_list (map fst chunks))"
  using assms
proof (induction chunks arbitrary: acc left)
  case (Cons p chunks)
  obtain d c where p: "p = (d, c)" by (cases p)
  have c: "c \<noteq> []" and d: "d \<le> left" using Cons.prems(1,2) by (auto simp: p)
  show ?case
  proof (cases "chunks = []")
    case True
    then have "decision i (acc @ c) = Some r" using Cons.prems(5) by (simp add: p)
    then show ?thesis
      using c d by (auto simp: p True decision_def Let_def split: option.splits step.splits)
  next
    case False
    then obtain d' c' rest where "chunks = (d', c') # rest" by (cases chunks) auto
    then have "length c < length (concat (map snd (p # chunks)))"
      using Cons.prems(2) by (auto simp: p)
    with Cons.prems(4) c have "undecided i (acc @ take (length c) (concat (map snd (p # chunks))))"
      by fastforce
    then have und: "undecided i (acc @ c)" by (simp add: p)
    have "read_reply i (left - d) (acc @ c) (arrivals chunks @ later)
        = (Some r, later, left - d - sum_list (map fst chunks))"
    proof (rule Cons.IH)
      show "\<forall>n < length (concat (map snd chunks)).
          undecided i ((acc @ c) @ take n (concat (map snd chunks))) \<or> n = 0"
      proof (intro allI impI)
        fix n assume "n < length (concat (map snd chunks))"
        then have "undecided i (acc @ take (length c + n) (concat (map snd (p # chunks))))"
          using Cons.prems(4) c by (metis (no_types, lifting) add_is_0 concat.simps(2) length_0_conv
              length_append list.simps(9) nat_add_left_cancel_less p snd_conv)
        then show "undecided i ((acc @ c) @ take n (concat (map snd chunks))) \<or> n = 0"
          by (simp add: p)
      qed
    qed (use Cons.prems False in \<open>auto simp: p\<close>)
    with und c d show ?thesis by (simp add: p undecided_def Let_def)
  qed
qed simp

text \<open>
  An exchange does not depend on how the device's reply is cut into reads, not even in the
  middle of a character: if no proper part of the reply decides the exchange, then whatever the
  chunks, as long as they arrive before the deadline, the exchange ends with the last of them and
  with the decision on the whole reply, taking exactly the time the chunks took. A complete error
  token in the reply is a refusal, also where the instruction's parser would accept it as a value.
\<close>

theorem reply_fragments:
  assumes "chunks \<noteq> []" and "\<forall>(d, c) \<in> set chunks. c \<noteq> []"
    and "wait + sum_list (map fst chunks) \<le> limit" and "reply = concat (map snd chunks)"
    and "\<forall>n < length reply. undecided i (take n reply) \<or> n = 0"
    and "decision i reply = Some r"
  shows "controller_run \<lparr>ct_channel = \<lparr>ch_writes = (wait, None) # writes, ch_reads = arrivals chunks @ later\<rparr>,
      ct_exchange_timeout = limit\<rparr> i
    = (r, \<lparr>ct_channel = \<lparr>ch_writes = writes, ch_reads = later\<rparr>, ct_exchange_timeout = limit\<rparr>,
       wait + sum_list (map fst chunks))
    \<and> (\<forall>e. in_reply (valid_prefix reply) = Some e \<longrightarrow> r = Inl (CtRejected (in_name i) e))"
proof
  have "read_reply i (limit - wait) [] (arrivals chunks @ later)
      = (Some r, later, limit - wait - sum_list (map fst chunks))"
    using assms by (intro read_reply_chunks) simp_all
  then show "controller_run \<lparr>ct_channel = \<lparr>ch_writes = (wait, None) # writes, ch_reads = arrivals chunks @ later\<rparr>,
      ct_exchange_timeout = limit\<rparr> i
    = (r, \<lparr>ct_channel = \<lparr>ch_writes = writes, ch_reads = later\<rparr>, ct_exchange_timeout = limit\<rparr>,
       wait + sum_list (map fst chunks))"
    using assms(3) by (simp add: controller_run_def exchange_def)
  show "\<forall>e. in_reply (valid_prefix reply) = Some e \<longrightarrow> r = Inl (CtRejected (in_name i) e)"
    using assms(6) by (simp add: decision_def split: option.splits)
qed

theorem reply_fragments_witness:
  "fst (controller_run \<lparr>ct_channel = \<lparr>ch_writes = [(1, None)],
       ch_reads = arrivals [(2, ''1''), (3, [CR]), (4, [LF])]\<rparr>, ct_exchange_timeout = 20\<rparr>
     (query_instruction plain_winnow Q_SnmpState)) = Inr (VFlag True)"
proof -
  let ?i = "query_instruction plain_winnow Q_SnmpState"
  have "undecided ?i ''1''" "undecided ?i [CHR ''1'', CR]" by code_simp+
  then have und: "\<forall>n < length ([CHR ''1'', CR, LF]). undecided ?i (take n [CHR ''1'', CR, LF]) \<or> n = 0"
    by (auto simp: less_Suc_eq)
  have dec: "decision ?i [CHR ''1'', CR, LF] = Some (Inr (VFlag True))" by code_simp
  show ?thesis
    using reply_fragments [of "[(2, ''1''), (3, [CR]), (4, [LF])]" 1 20 "[CHR ''1'', CR, LF]" ?i
        "Inr (VFlag True)" "[]" "[]", OF _ _ _ _ und dec] by simp
qed


section \<open>What one call on a device does\<close>

definition link_ok :: "link \<Rightarrow> bool" where
  "link_ok lk \<longleftrightarrow> lk_cold_until lk = None \<or> lk_conn lk = None"

lemma connect_log: "wd_log (snd (connect config w)) = wd_log w @ [Dialed]"
  by (auto simp: connect_def Let_def split: list.splits prod.splits sum.splits)

lemma connect_error: "fst (connect config w) = Inl e \<Longrightarrow> \<exists>c. e = DConnect c"
  by (auto simp: connect_def Let_def split: list.splits prod.splits sum.splits if_splits)

text \<open>The three ways a dial goes: held off by the gate, failed (arming the gate), succeeded.\<close>

definition held :: "dial_mode \<Rightarrow> link \<Rightarrow> world \<Rightarrow> bool" where
  "held mode lk w \<longleftrightarrow> mode = WhenWarm \<and> (case lk_cold_until lk of None \<Rightarrow> False | Some u \<Rightarrow> wd_now w < u)"

lemma dial_held:
  "held mode lk w \<Longrightarrow> dial config mode lk w = (Inl (DCold (the (lk_cold_until lk) - wd_now w)), lk, w)"
  by (auto simp: held_def dial_def split: option.splits)

lemma dial_through:
  "\<not> held mode lk w \<Longrightarrow> dial config mode lk w =
     (case connect config w of
        (Inr ct, w') \<Rightarrow> (Inr ct, lk\<lparr>lk_cold_until := None\<rparr>, w')
      | (Inl e, w') \<Rightarrow> (Inl e,
          lk\<lparr>lk_cold_until := map_option (\<lambda>b. wd_now w' + b) (dc_cold_backoff config)\<rparr>, w'))"
  by (auto simp: held_def dial_def split: option.splits dial_mode.splits)

lemma dial_cases:
  obtains (Held) "held mode lk w" "dial config mode lk w = (Inl (DCold (the (lk_cold_until lk) - wd_now w)), lk, w)"
  | (Failed) c w' where "\<not> held mode lk w" "wd_log w' = wd_log w @ [Dialed]"
      "dial config mode lk w = (Inl (DConnect c),
         lk\<lparr>lk_cold_until := map_option (\<lambda>b. wd_now w' + b) (dc_cold_backoff config)\<rparr>, w')"
  | (Opened) ct w' where "\<not> held mode lk w" "wd_log w' = wd_log w @ [Dialed]"
      "dial config mode lk w = (Inr ct, lk\<lparr>lk_cold_until := None\<rparr>, w')"
proof (cases "held mode lk w")
  case True
  then show ?thesis using Held dial_held by blast
next
  case False
  obtain r w' where c: "connect config w = (r, w')" by (cases "connect config w")
  then have log: "wd_log w' = wd_log w @ [Dialed]" using connect_log [of config w] by simp
  show ?thesis
  proof (cases r)
    case (Inl e)
    then obtain x where "e = DConnect x" using c connect_error [of config w e] by auto
    with Inl c log False show ?thesis by (intro Failed [of w' x]) (simp_all add: dial_through)
  next
    case (Inr ct)
    with c log False show ?thesis by (intro Opened [of w' ct]) (simp_all add: dial_through)
  qed
qed

text \<open>How one exchange on a controller ends: a value, a refusal, or a broken channel.\<close>

lemma controller_run_cases:
  obtains (Value) v ct' t where "controller_run ct i = (Inr v, ct', t)"
  | (Refused) n e ct' t where "controller_run ct i = (Inl (CtRejected n e), ct', t)"
  | (Broken) e ct' t where "controller_run ct i = (Inl e, ct', t)" "\<And>n x. e \<noteq> CtRejected n x"
proof -
  obtain r ct' t where c: "controller_run ct i = (r, ct', t)" by (cases "controller_run ct i")
  show ?thesis
  proof (cases r)
    case (Inl e)
    with c show ?thesis using Refused Broken by (cases e) auto
  qed (use c Value in auto)
qed

text \<open>An exchange on a connection just opened is not repeated.\<close>

lemma exec_fresh:
  assumes "lk_conn lk = None"
  shows "exec_loop config i mode rec lk w =
    (case dial config mode lk w of
       (Inl e, lk', w') \<Rightarrow> (Inl e, lk', w')
     | (Inr ct, lk', w') \<Rightarrow>
         (case controller_run ct i of
            (Inr v, ct', t) \<Rightarrow> (Inr v, lk'\<lparr>lk_conn := Some ct'\<rparr>, exchanged i t w')
          | (Inl (CtRejected n e), ct', t) \<Rightarrow>
              (Inl (DCommand (CtRejected n e)), lk'\<lparr>lk_conn := Some ct'\<rparr>, exchanged i t w')
          | (Inl e, ct', t) \<Rightarrow> (Inl (DCommand e), lk'\<lparr>lk_conn := None\<rparr>, exchanged i t w')))"
  using assms
  by (subst exec_loop.simps) (simp add: Let_def split: prod.splits sum.splits controller_error.splits)

lemma exec_cached:
  assumes "lk_conn lk = Some ct"
  shows "exec_loop config i mode False lk w =
    (case controller_run ct i of
       (Inr v, ct', t) \<Rightarrow> (Inr v, lk\<lparr>lk_conn := Some ct'\<rparr>, exchanged i t w)
     | (Inl (CtRejected n e), ct', t) \<Rightarrow>
         (Inl (DCommand (CtRejected n e)), lk\<lparr>lk_conn := Some ct'\<rparr>, exchanged i t w)
     | (Inl e, ct', t) \<Rightarrow> exec_loop config i mode True (lk\<lparr>lk_conn := None\<rparr>) (exchanged i t w))"
  using assms
  by (subst exec_loop.simps) (simp add: Let_def split: prod.splits sum.splits controller_error.splits)

text \<open>What the calls of one exchange may leave behind: the outcome, the link and the actions.\<close>

definition settles :: "(device_error + core_value) \<Rightarrow> link \<Rightarrow> bool" where
  "settles r lk \<longleftrightarrow> link_ok lk
     \<and> (lk_conn lk \<noteq> None \<longleftrightarrow> (case r of Inr v \<Rightarrow> True | Inl e \<Rightarrow> is_refusal e))"

lemma exchanged_log: "wd_log (exchanged i t w) = wd_log w @ [Wrote (in_payload i)]"
  by (simp add: exchanged_def)

lemma exec_fresh_outcome:
  assumes "lk_conn lk = None" and "exec_loop config i mode rec lk w = (r, lk', w')"
  shows "settles r lk' \<and> (\<exists>acts \<in> {[], [Dialed], [Dialed, Wrote (in_payload i)]}.
      wd_log w' = wd_log w @ acts \<and> (acts = [] \<longleftrightarrow> held mode lk w))"
proof (cases rule: dial_cases [of mode lk w config])
  case Held
  with assms show ?thesis by (auto simp: exec_fresh settles_def link_ok_def)
next
  case (Failed c w1)
  with assms show ?thesis by (auto simp: exec_fresh settles_def link_ok_def)
next
  case (Opened ct w1)
  then show ?thesis
    using assms
    by (cases rule: controller_run_cases [of ct i])
       (auto simp: exec_fresh settles_def link_ok_def exchanged_log split: controller_error.splits)
qed

lemma exec_outcome:
  assumes "link_ok lk" and "exec_loop config i mode False lk w = (r, lk', w')"
  defines "sent \<equiv> Wrote (in_payload i)"
  shows "settles r lk' \<and> (\<exists>acts. wd_log w' = wd_log w @ acts
      \<and> (if lk_conn lk = None
         then acts \<in> {[], [Dialed], [Dialed, sent]} \<and> (acts = [] \<longleftrightarrow> held mode lk w)
         else acts \<in> {[sent], [sent, Dialed], [sent, Dialed, sent]}))"
proof (cases "lk_conn lk")
  case None
  with exec_fresh_outcome [OF None assms(2)] show ?thesis by (auto simp: sent_def)
next
  case (Some ct)
  then have warm: "lk_cold_until lk = None" using assms(1) by (simp add: link_ok_def)
  show ?thesis
  proof (cases rule: controller_run_cases [of ct i])
    case (Broken e ct' t)
    let ?lk = "lk\<lparr>lk_conn := None\<rparr>" and ?w = "exchanged i t w"
    have "exec_loop config i mode True ?lk ?w = (r, lk', w')"
      using assms(2) Broken by (cases e) (auto simp: exec_cached [OF Some])
    from exec_fresh_outcome [OF _ this] have "settles r lk'" and
      "\<exists>acts \<in> {[], [Dialed], [Dialed, sent]}. wd_log w' = wd_log w @ sent # acts \<and> acts \<noteq> []"
      using warm by (auto simp: held_def exchanged_log sent_def)
    then show ?thesis using Some by auto
  qed (use assms(2) warm in \<open>auto simp: exec_cached [OF Some] settles_def link_ok_def exchanged_log sent_def Some\<close>)
qed

text \<open>Devices over their life: calls by anyone, and what the poll loops learn.\<close>

inductive device_reachable :: "device_config \<Rightarrow> device \<Rightarrow> bool" for config where
  dr_new: "device_reachable config (with_auto_disabled config auto)"
| dr_run: "device_reachable config dev \<Longrightarrow> run i dev w = (r, dev', w') \<Longrightarrow> device_reachable config dev'"
| dr_probe: "device_reachable config dev \<Longrightarrow> probe i dev w = (r, dev', w') \<Longrightarrow> device_reachable config dev'"
| dr_observe: "device_reachable config dev
    \<Longrightarrow> device_reachable config (dev\<lparr>dv_auto_disabled := observe_field n h ob (dv_auto_disabled dev)\<rparr>)"

lemma exec_device:
  assumes "link_ok (dv_link dev)" and "exec i mode dev w = (r, dev', w')"
  shows "dv_config dev' = dv_config dev \<and> dv_auto_disabled dev' = dv_auto_disabled dev
    \<and> exec_loop (dv_config dev) i mode False (dv_link dev) w = (r, dv_link dev', w')"
  using assms by (auto simp: exec_def split: prod.splits)

lemma run_device:
  assumes "run i dev w = (r, dev', w')"
  shows "(\<exists>source retry. field_veto dev (wd_now w) (in_name i) = Some (source, retry)
        \<and> r = Inl (DDisabled (in_name i) source retry) \<and> dev' = dev \<and> w' = w)
    \<or> (field_veto dev (wd_now w) (in_name i) = None \<and> exec i WhenWarm dev w = (r, dev', w'))"
  using assms by (auto simp: run_def split: option.splits)

lemma device_reachable_ok: "device_reachable config dev \<Longrightarrow> dv_config dev = config \<and> link_ok (dv_link dev)"
proof (induction rule: device_reachable.induct)
  case (dr_run dev i w r dev' w')
  then show ?case
    using run_device [of i dev w r dev' w'] exec_device [of dev i WhenWarm w r dev' w']
      exec_outcome [of "dv_link dev" config i WhenWarm w r "dv_link dev'" w']
    by (auto simp: settles_def)
next
  case (dr_probe dev i w r dev' w')
  then show ?case
    using exec_device [of dev i Always w r dev' w']
      exec_outcome [of "dv_link dev" config i Always w r "dv_link dev'" w']
    by (auto simp: settles_def probe_def)
qed (auto simp: with_auto_disabled_def default_link_def link_ok_def)

text \<open>
  C15. Every call on a device keeps its connection state coherent and touches the network a bounded
  number of times. On every reachable device the cold gate is armed only while no connection is
  held. A call dials at most once and sends its own request at most twice, and sends it twice only when
  the first went out on a connection that had been cached; on a fresh connection it sends at most once. It keeps a
  connection exactly when the device answered, with a value or with a refusal.
\<close>

theorem device_call_effects:
  assumes "device_reachable config dev"
    and "run i dev w = (r, dev', w') \<or> probe i dev w = (r, dev', w')"
    and "\<And>f s t. r \<noteq> Inl (DDisabled f s t)"
  defines "sent \<equiv> Wrote (in_payload i)"
  shows "(lk_cold_until (dv_link dev') = None \<or> lk_conn (dv_link dev') = None)
    \<and> (lk_conn (dv_link dev') \<noteq> None \<longleftrightarrow> (case r of Inr v \<Rightarrow> True | Inl e \<Rightarrow> is_refusal e))
    \<and> (\<exists>acts. wd_log w' = wd_log w @ acts
        \<and> (if lk_conn (dv_link dev) = None then acts \<in> {[], [Dialed], [Dialed, sent]}
           else acts \<in> {[sent], [sent, Dialed], [sent, Dialed, sent]}))"
proof -
  have ok: "link_ok (dv_link dev)" "dv_config dev = config"
    using device_reachable_ok [OF assms(1)] by auto
  obtain mode where "exec i mode dev w = (r, dev', w')"
    using assms(2,3) run_device [of i dev w r dev' w'] by (auto simp: probe_def)
  then have "exec_loop config i mode False (dv_link dev) w = (r, dv_link dev', w')"
    using exec_device ok by blast
  from exec_outcome [OF ok(1) this] show ?thesis
    unfolding sent_def by (auto simp: settles_def link_ok_def split: if_splits)
qed

definition demo_device :: device where
  "demo_device = new_device (plain_device ''a'' ''10.0.0.7'')"

definition demo_world :: world where
  "demo_world = \<lparr>wd_now = 0, wd_dials = [], wd_log = []\<rparr>"

definition demo_query :: instruction where
  "demo_query = query_instruction plain_winnow Q_SnmpState"

lemmas device_example_defs = demo_device_def demo_world_def new_device_def with_auto_disabled_def
  default_link_def plain_device_def run_def probe_def exec_def exec_fresh dial_def connect_def field_veto_def
  veto_def Let_def

lemma demo_run:
  "run demo_query demo_device demo_world =
     (Inl (DConnect (ConnectTimeout (seconds 5))),
      demo_device\<lparr>dv_link := \<lparr>lk_conn = None, lk_cold_until = Some (seconds 35)\<rparr>\<rparr>,
      \<lparr>wd_now = seconds 5, wd_dials = [], wd_log = [Dialed]\<rparr>)"
  by (simp add: device_example_defs)

theorem device_call_effects_witness:
  "\<exists>r dev' w'. run demo_query demo_device demo_world = (r, dev', w')
     \<and> (lk_conn (dv_link dev') \<noteq> None \<longleftrightarrow> (case r of Inr v \<Rightarrow> True | Inl e \<Rightarrow> is_refusal e))"
proof -
  have "device_reachable (plain_device ''a'' ''10.0.0.7'') demo_device"
    unfolding demo_device_def new_device_def by (rule dr_new)
  from device_call_effects [OF this disjI1 [OF demo_run]] show ?thesis
    unfolding demo_run by auto
qed

lemma exec_arms_gate:
  assumes "exec_loop config i mode False lk w = (Inl (DConnect e), lk', w')"
    and "dc_cold_backoff config = Some b"
  shows "lk_conn lk' = None \<and> lk_cold_until lk' = Some (wd_now w' + b)"
proof -
  have fresh: "lk_conn l' = None \<and> lk_cold_until l' = Some (wd_now u' + b)"
    if l: "lk_conn l = None" "exec_loop config i mode rec l u = (Inl (DConnect e), l', u')" for l u l' u' rec
  proof (cases rule: dial_cases [of mode l u config])
    case (Opened ct u1)
    with l show ?thesis
      by (cases rule: controller_run_cases [of ct i])
         (auto simp: exec_fresh split: controller_error.splits)
  qed (use l assms(2) in \<open>auto simp: exec_fresh\<close>)
  show ?thesis
  proof (cases "lk_conn lk")
    case None
    with fresh assms(1) show ?thesis by blast
  next
    case (Some ct)
    show ?thesis
    proof (cases rule: controller_run_cases [of ct i])
      case (Broken x ct' t)
      then have "exec_loop config i mode True (lk\<lparr>lk_conn := None\<rparr>) (exchanged i t w) = (Inl (DConnect e), lk', w')"
        using assms(1) by (cases x) (auto simp: exec_cached [OF Some])
      then show ?thesis by (intro fresh [of "lk\<lparr>lk_conn := None\<rparr>"]) simp_all
    qed (use assms(1) in \<open>auto simp: exec_cached [OF Some]\<close>)
  qed
qed

text \<open>
  The cold gate. After a failed dial on a device with a back-off window, every call made while
  the window is open fails at once with exactly the time that is left and changes nothing: no
  dial, no exchange, no state. The keep-alive's probe in the same situation dials all the same.
\<close>

theorem cold_gate:
  assumes "run i dev w = (Inl (DConnect e), dev', w') \<or> probe i dev w = (Inl (DConnect e), dev', w')"
    and "device_reachable config dev" and "dc_cold_backoff config = Some b"
    and "wd_now w' \<le> wd_now w2" and "wd_now w2 < wd_now w' + b"
    and "field_veto dev' (wd_now w2) (in_name j) = None"
  shows "run j dev' w2 = (Inl (DCold (wd_now w' + b - wd_now w2)), dev', w2)
    \<and> (\<exists>acts. wd_log (snd (snd (probe j dev' w2))) = wd_log w2 @ Dialed # acts)"
proof -
  have ok: "link_ok (dv_link dev)" "dv_config dev = config"
    using device_reachable_ok [OF assms(2)] by auto
  obtain mode where x: "exec i mode dev w = (Inl (DConnect e), dev', w')"
    using assms(1) run_device [of i dev w] by (auto simp: probe_def)
  then have loop: "exec_loop config i mode False (dv_link dev) w = (Inl (DConnect e), dv_link dev', w')"
    and cfg: "dv_config dev' = config"
    using exec_device [OF ok(1) x] ok(2) by auto
  have armed: "lk_conn (dv_link dev') = None \<and> lk_cold_until (dv_link dev') = Some (wd_now w' + b)"
    using exec_arms_gate [OF loop assms(3)] .
  then have "held WhenWarm (dv_link dev') w2" using assms(5) by (simp add: held_def)
  then have "run j dev' w2 = (Inl (DCold (wd_now w' + b - wd_now w2)), dev', w2)"
    using assms(6) armed by (simp add: run_def exec_def exec_fresh dial_held)
  moreover have "\<exists>acts. wd_log (snd (snd (probe j dev' w2))) = wd_log w2 @ Dialed # acts"
  proof -
    obtain r lk'' w3 where l: "exec_loop (dv_config dev') j Always False (dv_link dev') w2 = (r, lk'', w3)"
      by (metis prod_cases3)
    with exec_fresh_outcome [OF conjunct1 [OF armed] l] show ?thesis
      by (auto simp: probe_def exec_def held_def)
  qed
  ultimately show ?thesis by blast
qed

theorem cold_gate_witness:
  "run demo_query (demo_device\<lparr>dv_link := \<lparr>lk_conn = None, lk_cold_until = Some (seconds 35)\<rparr>\<rparr>)
       \<lparr>wd_now = seconds 20, wd_dials = [], wd_log = []\<rparr>
     = (Inl (DCold (seconds 15)), demo_device\<lparr>dv_link := \<lparr>lk_conn = None, lk_cold_until = Some (seconds 35)\<rparr>\<rparr>,
        \<lparr>wd_now = seconds 20, wd_dials = [], wd_log = []\<rparr>)"
proof -
  have "device_reachable (plain_device ''a'' ''10.0.0.7'') demo_device"
    unfolding demo_device_def new_device_def by (rule dr_new)
  from cold_gate [OF disjI1 [OF demo_run] this, of "seconds 30" "\<lparr>wd_now = seconds 20, wd_dials = [], wd_log = []\<rparr>" demo_query]
  show ?thesis by (simp add: plain_device_def field_veto_def veto_def demo_device_def new_device_def with_auto_disabled_def)
qed

definition veto_config :: "string \<Rightarrow> raw_config" where
  "veto_config field = \<lparr>rc_defaults = no_defaults,
     rc_devices = [(written_device ''a'' None)\<lparr>rw_disabled_fields := Some [field]\<rparr>], rc_groups = []\<rparr>"

text \<open>
  A field that an operator lists as disabled is never asked for. Whatever spelling of a query
  the document lists for a device, itself or by the defaults, the resolved device refuses the
  query as declared disabled at any time, without dialing, sending or changing anything.
\<close>

theorem disabled_query_never_asked:
  assumes "resolve_config v raw = Some (Inr rs)" and "k < length (rc_devices raw)"
    and "written \<in> set (unwrap_or [] (opt_or (rw_disabled_fields (rc_devices raw ! k))
           (df_disabled_fields (rc_defaults raw))))"
    and "catalog_from_str query_catalog written = Inr q"
    and "device_reachable (rs_devices rs ! k) dev"
  shows "run (query_instruction w q) dev world =
    (Inl (DDisabled (catalog_name query_catalog q) Declared None), dev, world)"
proof -
  have "list_all2 (\<lambda>raw_dev c. resolve v (rc_defaults raw) raw_dev = Inr c) (rc_devices raw) (rs_devices rs)"
    using assms(1) resolve_devices_Inr
    by (auto simp: resolve_config_def split: sum.splits prod.splits option.splits)
  then have "resolve v (rc_defaults raw) (rc_devices raw ! k) = Inr (rs_devices rs ! k)"
    using assms(2) by (rule list_all2_nthD)
  note listed = canonicalize_disabled_Inr [OF resolve_Inr(3) [OF this]]
  have "canonical_field written = Some (catalog_name query_catalog q)"
    using assms(4) by (simp add: canonical_field_def)
  then have "catalog_name query_catalog q \<in> set (dc_disabled_fields (rs_devices rs ! k))"
    using listed assms(3) by (metis (no_types, lifting) image_iff option.inject)
  moreover have "in_name (query_instruction w q) = catalog_name query_catalog q"
    by (simp add: query_instruction_def split: prod.split)
  ultimately show ?thesis
    using device_reachable_ok [OF assms(5)] by (simp add: run_def field_veto_def)
qed

theorem disabled_query_never_asked_witness:
  "\<exists>rs. resolve_config (\<lambda>n b. 7) (veto_config ''stream-name-2'') = Some (Inr rs)
     \<and> run (query_instruction plain_winnow Q_Stream2Name) (new_device (rs_devices rs ! 0)) demo_world
       = (Inl (DDisabled (catalog_name query_catalog Q_Stream2Name) Declared None),
          new_device (rs_devices rs ! 0), demo_world)"
proof -
  have q: "catalog_from_str query_catalog ''stream-name-2'' = Inr Q_Stream2Name" by code_simp
  then have "canonical_field ''stream-name-2'' = Some (catalog_name query_catalog Q_Stream2Name)"
    by (simp add: canonical_field_def)
  then obtain rs where rs: "resolve_config (\<lambda>n b. 7) (veto_config ''stream-name-2'') = Some (Inr rs)"
    by (simp add: config_example_defs veto_config_def)
  have "device_reachable (rs_devices rs ! 0) (new_device (rs_devices rs ! 0))"
    unfolding new_device_def by (rule dr_new)
  from disabled_query_never_asked [OF rs _ _ q this, of plain_winnow demo_world] rs show ?thesis
    by (simp add: veto_config_def opt_or_def unwrap_or_def)
qed

end
