(* ===== verification/Sis_Transport.thy ===== *)
theory Sis_Transport
  imports Sis_Device_Spec
begin

text \<open>
  \<^verbatim>\<open>sismatic-core/src/devices/transport/ssh.rs\<close>: the SSH channel as the transport of a controller. The russh library is the
  script of what it answers: an entry of \<open>rt_waits\<close> is one return of \<^verbatim>\<open>channel.wait()\<close>, with the time it took; after
  the last entry nothing comes any more.
\<close>


section \<open>Reading\<close>

datatype channel_msg = MData string | MExtendedData string | MEof | MClose | MOther

type_synonym waits = "(duration \<times> channel_msg option) list"

record russh_transport =
  rt_waits :: waits
  rt_pending :: string

text \<open>The loop over \<^verbatim>\<open>channel.wait()\<close>: the time it took and the data, empty at the end of the channel.\<close>

fun wait_data :: "waits \<Rightarrow> (duration \<times> string \<times> waits) option" where
  "wait_data [] = None"
| "wait_data ((d, msg) # ws) =
     (case msg of
        Some (MData data) \<Rightarrow>
          if data = [] then map_option (\<lambda>(t, rest). (d + t, rest)) (wait_data ws) else Some (d, data, ws)
      | Some (MExtendedData data) \<Rightarrow>
          if data = [] then map_option (\<lambda>(t, rest). (d + t, rest)) (wait_data ws) else Some (d, data, ws)
      | Some MEof \<Rightarrow> Some (d, [], ws)
      | Some MClose \<Rightarrow> Some (d, [], ws)
      | Some MOther \<Rightarrow> map_option (\<lambda>(t, rest). (d + t, rest)) (wait_data ws)
      | None \<Rightarrow> Some (d, [], ws))"

definition russh_read :: "nat \<Rightarrow> russh_transport \<Rightarrow> (duration \<times> string \<times> russh_transport) option" where
  "russh_read n tr =
     (if rt_pending tr \<noteq> [] then Some (0, take n (rt_pending tr), tr\<lparr>rt_pending := drop n (rt_pending tr)\<rparr>)
      else case wait_data (rt_waits tr) of
             None \<Rightarrow> None
           | Some (t, data, ws) \<Rightarrow> Some (t, take n data, \<lparr>rt_waits = ws, rt_pending = drop n data\<rparr>))"

text \<open>The first \<open>k\<close> reads into a buffer of \<open>n\<close> bytes, as the controller meets them.\<close>

fun read_script :: "nat \<Rightarrow> nat \<Rightarrow> russh_transport \<Rightarrow> (duration \<times> (transport_error + string)) list" where
  "read_script 0 n tr = []"
| "read_script (Suc k) n tr =
     (case russh_read n tr of
        None \<Rightarrow> []
      | Some (t, chunk, tr) \<Rightarrow> (t, Inr chunk) # read_script k n tr)"


section \<open>Connecting\<close>

datatype auth_reply = AuthSuccess | AuthFailure | AuthPrompts nat

text \<open>
  What the session answers: connecting, the password, each step of the keyboard-interactive exchange, opening the
  channel, requesting the shell; an \<open>Inl\<close> or \<open>Some\<close> is the text of an error.
\<close>

record ssh_session =
  se_connect :: "string option"
  se_password :: "string + bool"
  se_interactive :: "(string + auth_reply) list"
  se_open :: "string option"
  se_shell :: "string option"
  se_waits :: waits

text \<open>The loop of \<^verbatim>\<open>authenticate\<close>: its outcome (\<open>None\<close> when no answer comes) and the answers sent.\<close>

fun keyboard_interactive :: "string \<Rightarrow> (string + auth_reply) list \<Rightarrow> (connect_error + unit) option \<times> string list list" where
  "keyboard_interactive password [] = (None, [])"
| "keyboard_interactive password (reply # replies) =
     (case reply of
        Inl e \<Rightarrow> (Some (Inl (ConnectFailed e)), [])
      | Inr AuthSuccess \<Rightarrow> (Some (Inr ()), [])
      | Inr AuthFailure \<Rightarrow> (Some (Inl (ConnectFailed ''password authentication rejected'')), [])
      | Inr (AuthPrompts n) \<Rightarrow> apsnd (Cons (replicate n password)) (keyboard_interactive password replies))"

definition authenticate :: "string \<Rightarrow> ssh_session \<Rightarrow> (connect_error + unit) option" where
  "authenticate password s =
     (case se_password s of
        Inl e \<Rightarrow> Some (Inl (ConnectFailed e))
      | Inr True \<Rightarrow> Some (Inr ())
      | Inr False \<Rightarrow> fst (keyboard_interactive password (se_interactive s)))"

definition SETTLE :: duration where "SETTLE = 500 * 1000000"

fun drain_login_banner :: "waits \<Rightarrow> waits" where
  "drain_login_banner [] = []"
| "drain_login_banner ((d, msg) # ws) =
     (if SETTLE < d then (d - SETTLE, msg) # ws
      else case msg of
             Some MEof \<Rightarrow> ws
           | Some MClose \<Rightarrow> ws
           | None \<Rightarrow> ws
           | Some _ \<Rightarrow> drain_login_banner ws)"

definition russh_connect :: "device_config \<Rightarrow> ssh_session \<Rightarrow> (connect_error + russh_transport) option" where
  "russh_connect config s =
     (case se_connect s of
        Some e \<Rightarrow> Some (Inl (ConnectFailed e))
      | None \<Rightarrow>
          (case authenticate (dc_password config) s of
             None \<Rightarrow> None
           | Some (Inl e) \<Rightarrow> Some (Inl e)
           | Some (Inr ()) \<Rightarrow>
               (case se_open s of
                  Some e \<Rightarrow> Some (Inl (ConnectFailed e))
                | None \<Rightarrow>
                    (case se_shell s of
                       Some e \<Rightarrow> Some (Inl (ConnectFailed e))
                     | None \<Rightarrow> Some (Inr \<lparr>rt_waits = drain_login_banner (se_waits s), rt_pending = []\<rparr>)))))"


section \<open>A byte stream\<close>

text \<open>The bytes a channel carries up to its end, and whether it ends.\<close>

fun carried :: "waits \<Rightarrow> string" where
  "carried [] = []"
| "carried ((d, msg) # ws) =
     (case msg of
        Some (MData data) \<Rightarrow> data @ carried ws
      | Some (MExtendedData data) \<Rightarrow> data @ carried ws
      | Some MOther \<Rightarrow> carried ws
      | _ \<Rightarrow> [])"

fun ends :: "waits \<Rightarrow> bool" where
  "ends [] = False"
| "ends ((d, msg) # ws) = (case msg of Some (MData data) \<Rightarrow> ends ws | Some (MExtendedData data) \<Rightarrow> ends ws
     | Some MOther \<Rightarrow> ends ws | _ \<Rightarrow> True)"

definition to_come :: "russh_transport \<Rightarrow> string" where
  "to_come tr = rt_pending tr @ carried (rt_waits tr)"

lemma wait_data_carried:
  "case wait_data ws of
     None \<Rightarrow> carried ws = [] \<and> \<not> ends ws
   | Some (t, data, ws') \<Rightarrow> (if data = [] then carried ws = [] \<and> ends ws
       else carried ws = data @ carried ws' \<and> ends ws = ends ws') \<and> t + sum_list (map fst ws') \<le> sum_list (map fst ws)"
proof (induction ws)
  case (Cons e ws)
  then show ?case by (cases e) (auto split: option.splits channel_msg.splits)
qed simp

lemma russh_read_step:
  assumes "0 < n"
  shows "case russh_read n tr of
     None \<Rightarrow> to_come tr = [] \<and> \<not> ends (rt_waits tr)
   | Some (t, chunk, tr') \<Rightarrow> (if chunk = [] then to_come tr = [] \<and> ends (rt_waits tr)
       else to_come tr = chunk @ to_come tr' \<and> ends (rt_waits tr) = ends (rt_waits tr')) \<and> length chunk \<le> n
       \<and> t + sum_list (map fst (rt_waits tr')) \<le> sum_list (map fst (rt_waits tr))"
  using assms wait_data_carried [of "rt_waits tr"]
  by (auto simp: russh_read_def to_come_def split: option.splits if_splits)

lemma read_script_stream:
  assumes "0 < n"
  shows "length (to_come tr) < k \<Longrightarrow> \<exists>chunks rest. read_script k n tr = arrivals chunks @ rest
    \<and> concat (map snd chunks) = to_come tr \<and> (\<forall>(d, c) \<in> set chunks. c \<noteq> [] \<and> length c \<le> n)
    \<and> (case rest of [] \<Rightarrow> \<not> ends (rt_waits tr) | (t, e) # _ \<Rightarrow> e = Inr [] \<and> ends (rt_waits tr)
          \<and> sum_list (map fst chunks) + t \<le> sum_list (map fst (rt_waits tr)))
    \<and> sum_list (map fst chunks) \<le> sum_list (map fst (rt_waits tr))"
proof (induction k arbitrary: tr)
  case (Suc k)
  note step = russh_read_step [OF assms, of tr]
  show ?case
  proof (cases "russh_read n tr")
    case None
    then show ?thesis using step by (intro exI [of _ "[]"]) simp
  next
    case (Some x)
    obtain t chunk tr' where x: "x = (t, chunk, tr')" by (cases x)
    show ?thesis
    proof (cases "chunk = []")
      case True
      then show ?thesis using step
        by (intro exI [of _ "[]"] exI [of _ "(t, Inr []) # read_script k n tr'"]) (simp add: Some x)
    next
      case False
      then have c: "to_come tr = chunk @ to_come tr'" "ends (rt_waits tr) = ends (rt_waits tr')" "length chunk \<le> n"
          "t + sum_list (map fst (rt_waits tr')) \<le> sum_list (map fst (rt_waits tr))"
        using step by (simp_all add: Some x)
      have "length (to_come tr') < k" using Suc.prems False c(1) by (cases chunk) auto
      from Suc.IH [OF this] obtain chunks rest where r: "read_script k n tr' = arrivals chunks @ rest"
          "concat (map snd chunks) = to_come tr'" "\<forall>(d, c) \<in> set chunks. c \<noteq> [] \<and> length c \<le> n"
          "case rest of [] \<Rightarrow> \<not> ends (rt_waits tr') | (t, e) # _ \<Rightarrow> e = Inr [] \<and> ends (rt_waits tr')
            \<and> sum_list (map fst chunks) + t \<le> sum_list (map fst (rt_waits tr'))"
          "sum_list (map fst chunks) \<le> sum_list (map fst (rt_waits tr'))"
        by blast
      then show ?thesis using False c
        by (intro exI [of _ "(t, chunk) # chunks"] exI [of _ rest]) (auto simp: Some x split: list.splits)
    qed
  qed
qed simp

text \<open>A reply that never decides the exchange, and then the end of the channel.\<close>

lemma read_reply_closed:
  assumes "\<forall>(d, c) \<in> set chunks. c \<noteq> []" and "sum_list (map fst chunks) + t \<le> left"
    and "\<forall>n \<le> length (concat (map snd chunks)). n \<noteq> 0 \<longrightarrow> undecided i (acc @ take n (concat (map snd chunks)))"
  shows "fst (read_reply i left acc (arrivals chunks @ (t, Inr []) # later)) = Some (Inl (CtConnectionClosed (in_name i)))"
  using assms
proof (induction chunks arbitrary: acc left)
  case (Cons p chunks)
  obtain d c where p: "p = (d, c)" by (cases p)
  have c: "c \<noteq> []" "d \<le> left" using Cons.prems(1,2) by (auto simp: p)
  have "undecided i (acc @ c)" using Cons.prems(3) c(1) by (auto simp: p dest: spec [of _ "length c"])
  moreover have "fst (read_reply i (left - d) (acc @ c) (arrivals chunks @ (t, Inr []) # later)) = Some (Inl (CtConnectionClosed (in_name i)))"
  proof (rule Cons.IH)
    show "\<forall>(d, c) \<in> set chunks. c \<noteq> []" "sum_list (map fst chunks) + t \<le> left - d" using Cons.prems(1,2) c by (auto simp: p)
    show "\<forall>n \<le> length (concat (map snd chunks)). n \<noteq> 0 \<longrightarrow> undecided i ((acc @ c) @ take n (concat (map snd chunks)))"
    proof (intro allI impI)
      fix n assume "n \<le> length (concat (map snd chunks))" "n \<noteq> 0"
      then show "undecided i ((acc @ c) @ take n (concat (map snd chunks)))"
        using Cons.prems(3) [rule_format, of "length c + n"] by (simp add: p)
    qed
  qed
  ultimately show ?case using c by (simp add: p undecided_def Let_def)
qed simp

text \<open>
  C23. An exchange over SSH depends on the bytes alone. However the server cuts a reply into packets, data or extended, and mixes it
  with empty packets and other messages, and whatever is left over in the transport's buffer between two reads: if all comes before the deadline, and
  no proper part of the reply decides the exchange, the outcome is the decision on the whole reply. If the channel ends
  with nothing decided, the outcome is that it was closed, with no byte lost before.
\<close>

theorem exchange_over_ssh:
  assumes "wait + sum_list (map fst ws) \<le> limit" and "\<forall>n < length (carried ws). n \<noteq> 0 \<longrightarrow> undecided i (take n (carried ws))"
    and "length (carried ws) < k"
  shows "let outcome = fst (controller_run \<lparr>ct_channel = \<lparr>ch_writes = (wait, None) # writes,
               ch_reads = read_script k 1024 \<lparr>rt_waits = ws, rt_pending = []\<rparr>\<rparr>, ct_exchange_timeout = limit\<rparr> i)
         in case decision i (carried ws) of
              Some r \<Rightarrow> carried ws \<noteq> [] \<longrightarrow> outcome = r
            | None \<Rightarrow> ends ws \<longrightarrow> outcome = Inl (CtConnectionClosed (in_name i))"
proof -
  let ?tr = "\<lparr>rt_waits = ws, rt_pending = []\<rparr>"
  have tr: "to_come ?tr = carried ws" by (simp add: to_come_def)
  obtain chunks rest where s: "read_script k 1024 ?tr = arrivals chunks @ rest" "concat (map snd chunks) = carried ws"
      "\<forall>(d, c) \<in> set chunks. c \<noteq> [] \<and> length c \<le> 1024"
      "case rest of [] \<Rightarrow> \<not> ends ws | (t, e) # _ \<Rightarrow> e = Inr [] \<and> ends ws \<and> sum_list (map fst chunks) + t \<le> sum_list (map fst ws)"
      "sum_list (map fst chunks) \<le> sum_list (map fst ws)"
    using read_script_stream [of 1024 ?tr k, unfolded tr russh_transport.simps] assms(3) by auto
  have ne: "\<forall>(d, c) \<in> set chunks. c \<noteq> []" using s(3) by auto
  show ?thesis
  proof (cases "decision i (carried ws)")
    case (Some r)
    have "fst (controller_run \<lparr>ct_channel = \<lparr>ch_writes = (wait, None) # writes, ch_reads = arrivals chunks @ rest\<rparr>, ct_exchange_timeout = limit\<rparr> i) = r"
      if "carried ws \<noteq> []"
    proof -
      have "chunks \<noteq> []" using that s(2) by auto
      then have "read_reply i (limit - wait) [] (arrivals chunks @ rest) = (Some r, rest, limit - wait - sum_list (map fst chunks))"
        using assms(1,2) s ne Some by (intro read_reply_chunks) auto
      then show ?thesis using assms(1) by (simp add: controller_run_def exchange_def)
    qed
    then show ?thesis by (simp add: Some s(1))
  next
    case None
    then have "undecided i (carried ws)" by (auto simp: decision_def undecided_def split: option.splits step.splits)
    then have und: "\<forall>n \<le> length (concat (map snd chunks)). n \<noteq> 0 \<longrightarrow> undecided i ([] @ take n (concat (map snd chunks)))"
      using assms(2) unfolding s(2) by (auto simp: le_less)
    have "fst (controller_run \<lparr>ct_channel = \<lparr>ch_writes = (wait, None) # writes, ch_reads = arrivals chunks @ rest\<rparr>, ct_exchange_timeout = limit\<rparr> i)
        = Inl (CtConnectionClosed (in_name i))" if open_end: "ends ws"
    proof -
      obtain t later where rest: "rest = (t, Inr []) # later" "sum_list (map fst chunks) + t \<le> sum_list (map fst ws)"
        using s(4) open_end by (cases rest) auto
      have "fst (read_reply i (limit - wait) [] (arrivals chunks @ (t, Inr []) # later)) = Some (Inl (CtConnectionClosed (in_name i)))"
        using assms(1) rest(2) by (intro read_reply_closed [OF ne _ und]) simp
      then show ?thesis using assms(1) unfolding rest(1)
        by (cases "read_reply i (limit - wait) [] (arrivals chunks @ (t, Inr []) # later)") (auto simp: controller_run_def exchange_def)
    qed
    then show ?thesis by (simp add: None s(1))
  qed
qed

theorem exchange_over_ssh_witness:
  "fst (controller_run \<lparr>ct_channel = \<lparr>ch_writes = [(1, None)], ch_reads = read_script 9 1024
       \<lparr>rt_waits = [(2, Some (MData ''1'')), (0, Some MOther), (1, Some (MExtendedData [])), (1, Some (MExtendedData [CR])), (4, Some (MData [LF]))],
        rt_pending = []\<rparr>\<rparr>, ct_exchange_timeout = 20\<rparr> (query_instruction plain_winnow Q_SnmpState)) = Inr (VFlag True)"
proof -
  let ?i = "query_instruction plain_winnow Q_SnmpState"
  let ?ws = "[(2, Some (MData ''1'')), (0, Some MOther), (1, Some (MExtendedData [])), (1, Some (MExtendedData [CR])), (4, Some (MData [LF]))] :: waits"
  have ws: "carried ?ws = [CHR ''1'', CR, LF]" by simp
  have "undecided ?i ''1''" "undecided ?i [CHR ''1'', CR]" by code_simp+
  then have und: "\<forall>n < length (carried ?ws). n \<noteq> 0 \<longrightarrow> undecided ?i (take n (carried ?ws))"
    unfolding ws by (auto simp: less_Suc_eq)
  have dec: "decision ?i [CHR ''1'', CR, LF] = Some (Inr (VFlag True))" by code_simp
  have time: "1 + sum_list (map fst ?ws) \<le> (20 :: duration)" and k: "length (carried ?ws) < 9" by simp_all
  show ?thesis using exchange_over_ssh [OF time und k, of "[]", unfolded ws dec Let_def] by simp
qed

end
