(* ===== verification/Sis_Registry.thy ===== *)
theory Sis_Registry
  imports Sis_Device_Spec
begin

text \<open>
  \<^verbatim>\<open>sismatic-core/src/devices/registry.rs\<close>: the devices and groups by id, and the
  reconciliation with a resolved document.

  An \<open>Arc<Device>\<close> is a handle: an index into the list of devices ever built. A handle stays
  valid for the callers that hold it after the registry stops handing it out. The learned vetoes
  of a device are behind an \<open>Arc\<close> of their own, shared by a device and its replacement, hence
  the second list. Iteration over a \<open>DashMap\<close> has no promised order; the model iterates in key
  order, and everything reported is sorted by the code.
\<close>


section \<open>The registry\<close>

type_synonym handle = nat

record device_cell =
  cl_config :: device_config
  cl_link :: link
  cl_auto :: nat

record registry =
  ry_devices :: "(string, handle) omap"
  ry_groups :: "(string, string \<times> handle list) omap"
  ry_cells :: "device_cell list"
  ry_autos :: "auto_disabled list"

datatype resolved_target = TargetDevice handle | TargetGroup "string \<times> handle list"

record registry_change =
  rx_added :: "string list"
  rx_replaced :: "string list"
  rx_removed :: "string list"
  rx_unchanged :: nat

definition no_change :: registry_change where
  "no_change = \<lparr>rx_added = [], rx_replaced = [], rx_removed = [], rx_unchanged = 0\<rparr>"

definition is_nothing :: "registry_change \<Rightarrow> bool" where
  "is_nothing ch \<longleftrightarrow> rx_added ch = [] \<and> rx_replaced ch = [] \<and> rx_removed ch = []"

definition invalidated :: "registry_change \<Rightarrow> string list" where
  "invalidated ch = sort (rx_replaced ch @ rx_removed ch)"

definition handle_config :: "registry \<Rightarrow> handle \<Rightarrow> device_config" where
  "handle_config rg h = cl_config (ry_cells rg ! h)"

text \<open>\<open>devices.insert(id, Arc::new(Device::new(\<dots>)))\<close> and the replacement that shares the vetoes.\<close>

definition insert_new :: "string \<Rightarrow> device_config \<Rightarrow> registry \<Rightarrow> registry" where
  "insert_new i c rg =
     rg\<lparr>ry_devices := oput i (length (ry_cells rg)) (ry_devices rg),
        ry_cells := ry_cells rg @ [\<lparr>cl_config = c, cl_link = default_link, cl_auto = length (ry_autos rg)\<rparr>],
        ry_autos := ry_autos rg @ [[]]\<rparr>"

definition insert_replacement :: "string \<Rightarrow> device_config \<Rightarrow> handle \<Rightarrow> registry \<Rightarrow> registry" where
  "insert_replacement i c existing rg =
     rg\<lparr>ry_devices := oput i (length (ry_cells rg)) (ry_devices rg),
        ry_cells := ry_cells rg @
          [\<lparr>cl_config = c, cl_link = default_link, cl_auto = cl_auto (ry_cells rg ! existing)\<rparr>]\<rparr>"

definition rebuild_groups :: "group_config list \<Rightarrow> registry \<Rightarrow> registry" where
  "rebuild_groups gs rg =
     rg\<lparr>ry_groups := ocollect
          (map (\<lambda>g. (gc_id g, gc_id g, List.map_filter (map_of (ry_devices rg)) (gc_device_ids g))) gs)\<rparr>"

definition empty_registry :: registry where
  "empty_registry = \<lparr>ry_devices = [], ry_groups = [], ry_cells = [], ry_autos = []\<rparr>"

definition registry_build :: "device_config list \<Rightarrow> group_config list \<Rightarrow> registry" where
  "registry_build cs gs = rebuild_groups gs (foldl (\<lambda>rg c. insert_new (dc_id c) c rg) empty_registry cs)"

definition from_configs :: "device_config list \<Rightarrow> registry" where
  "from_configs cs = registry_build cs []"

definition apply_device :: "string \<times> device_config \<Rightarrow> registry \<times> registry_change \<Rightarrow> registry \<times> registry_change" where
  "apply_device e s =
     (let (i, c) = e; (rg, ch) = s
      in case map_of (ry_devices rg) i of
           Some existing \<Rightarrow>
             if dc_uuid (handle_config rg existing) = dc_uuid c
             then (rg, ch\<lparr>rx_unchanged := rx_unchanged ch + 1\<rparr>)
             else (insert_replacement i c existing rg, ch\<lparr>rx_replaced := rx_replaced ch @ [i]\<rparr>)
         | None \<Rightarrow> (insert_new i c rg, ch\<lparr>rx_added := rx_added ch @ [i]\<rparr>))"

definition desired_of :: "device_config list \<Rightarrow> (string, device_config) omap" where
  "desired_of cs = ocollect (map (\<lambda>c. (dc_id c, c)) cs)"

definition registry_apply :: "resolved \<Rightarrow> registry \<Rightarrow> registry \<times> registry_change" where
  "registry_apply r rg =
     (let desired = desired_of (rs_devices r);
          (rg, ch) = foldl (\<lambda>s e. apply_device e s) (rg, no_change) desired;
          stale = filter (\<lambda>i. i \<notin> set (okeys desired)) (okeys (ry_devices rg));
          rg = foldl (\<lambda>rg i. rg\<lparr>ry_devices := odel i (ry_devices rg)\<rparr>) rg stale
      in (rebuild_groups (rs_groups r) rg,
          ch\<lparr>rx_added := sort (rx_added ch), rx_replaced := sort (rx_replaced ch),
             rx_removed := sort (rx_removed ch @ stale)\<rparr>))"

definition registry_device :: "registry \<Rightarrow> string \<Rightarrow> handle option" where
  "registry_device rg i = map_of (ry_devices rg) i"

definition registry_group :: "registry \<Rightarrow> string \<Rightarrow> (string \<times> handle list) option" where
  "registry_group rg i = map_of (ry_groups rg) i"

definition registry_target :: "registry \<Rightarrow> string \<Rightarrow> resolved_target option" where
  "registry_target rg i =
     (case registry_device rg i of
        Some h \<Rightarrow> Some (TargetDevice h)
      | None \<Rightarrow> map_option TargetGroup (registry_group rg i))"

definition registry_ids :: "registry \<Rightarrow> string list" where
  "registry_ids rg = okeys (ry_devices rg)"

definition group_ids :: "registry \<Rightarrow> string list" where
  "group_ids rg = okeys (ry_groups rg)"

definition registry_devices :: "registry \<Rightarrow> handle list" where
  "registry_devices rg = ovals (ry_devices rg)"

definition registry_len :: "registry \<Rightarrow> nat" where
  "registry_len rg = length (ry_devices rg)"

definition registry_is_empty :: "registry \<Rightarrow> bool" where
  "registry_is_empty rg \<longleftrightarrow> ry_devices rg = []"


section \<open>Running through a handle\<close>

text \<open>A handle names a device of the device model; a call changes its connection only.\<close>

definition deref :: "registry \<Rightarrow> handle \<Rightarrow> device" where
  "deref rg h = (let cell = ry_cells rg ! h
     in \<lparr>dv_config = cl_config cell, dv_link = cl_link cell, dv_auto_disabled = ry_autos rg ! cl_auto cell\<rparr>)"

definition put_link :: "handle \<Rightarrow> device \<Rightarrow> registry \<Rightarrow> registry" where
  "put_link h dev rg = rg\<lparr>ry_cells := (ry_cells rg)[h := (ry_cells rg ! h)\<lparr>cl_link := dv_link dev\<rparr>]\<rparr>"

text \<open>\<open>device.auto_disabled().refused(\<dots>)\<close> and \<open>answered(\<dots>)\<close>, through a handle.\<close>

definition note_refused :: "handle \<Rightarrow> instant \<Rightarrow> string \<Rightarrow> registry \<Rightarrow> registry" where
  "note_refused h now field rg =
     (let cell = ry_cells rg ! h; a = cl_auto cell
      in rg\<lparr>ry_autos := (ry_autos rg)[a := snd (refused (ry_autos rg ! a) now field
              (dc_auto_disable_after (cl_config cell)) (dc_self_heal (cl_config cell)))]\<rparr>)"

definition note_answered :: "handle \<Rightarrow> string \<Rightarrow> registry \<Rightarrow> registry" where
  "note_answered h field rg =
     (let a = cl_auto (ry_cells rg ! h)
      in rg\<lparr>ry_autos := (ry_autos rg)[a := snd (answered (ry_autos rg ! a) field)]\<rparr>)"


section \<open>The registry invariant\<close>

definition cells_ok :: "registry \<Rightarrow> bool" where
  "cells_ok rg \<longleftrightarrow> (\<forall>cell \<in> set (ry_cells rg). cl_auto cell < length (ry_autos rg))"

definition registry_ok :: "registry \<Rightarrow> bool" where
  "registry_ok rg \<longleftrightarrow> owf (ry_devices rg) \<and> cells_ok rg
     \<and> (\<forall>i h. map_of (ry_devices rg) i = Some h
          \<longrightarrow> h < length (ry_cells rg) \<and> dc_id (handle_config rg h) = i)"

text \<open>Handles are only ever added.\<close>

definition extends :: "registry \<Rightarrow> registry \<Rightarrow> bool" where
  "extends rg rg' \<longleftrightarrow> (\<exists>cells autos. ry_cells rg' = ry_cells rg @ cells \<and> ry_autos rg' = ry_autos rg @ autos)"


lemma extends_refl [simp]: "extends rg rg"
  by (auto simp: extends_def)

lemma extends_trans [trans]: "extends a b \<Longrightarrow> extends b c \<Longrightarrow> extends a c"
  by (auto simp: extends_def)

lemma extends_cell: "extends rg rg' \<Longrightarrow> h < length (ry_cells rg) \<Longrightarrow> ry_cells rg' ! h = ry_cells rg ! h"
  by (auto simp: extends_def nth_append)

lemma extends_config: "extends rg rg' \<Longrightarrow> h < length (ry_cells rg) \<Longrightarrow> handle_config rg' h = handle_config rg h"
  by (simp add: handle_config_def extends_cell)

lemma extends_auto: "extends rg rg' \<Longrightarrow> a < length (ry_autos rg) \<Longrightarrow> ry_autos rg' ! a = ry_autos rg ! a"
  by (auto simp: extends_def nth_append)

lemma extends_length: "extends rg rg' \<Longrightarrow> length (ry_cells rg) \<le> length (ry_cells rg')
    \<and> length (ry_autos rg) \<le> length (ry_autos rg')"
  by (auto simp: extends_def)

text \<open>The handle an id has after reconciling it with configuration \<open>c\<close>.\<close>

definition settled_on :: "registry \<Rightarrow> registry \<Rightarrow> string \<Rightarrow> device_config \<Rightarrow> handle \<Rightarrow> bool" where
  "settled_on rg rg' i c h =
     (case map_of (ry_devices rg) i of
        Some h0 \<Rightarrow>
          if dc_uuid (handle_config rg h0) = dc_uuid c then h = h0
          else length (ry_cells rg) \<le> h \<and> h < length (ry_cells rg')
             \<and> ry_cells rg' ! h = \<lparr>cl_config = c, cl_link = default_link, cl_auto = cl_auto (ry_cells rg ! h0)\<rparr>
      | None \<Rightarrow> length (ry_cells rg) \<le> h \<and> h < length (ry_cells rg')
             \<and> (\<exists>a. ry_cells rg' ! h = \<lparr>cl_config = c, cl_link = default_link, cl_auto = a\<rparr>
                  \<and> length (ry_autos rg) \<le> a \<and> a < length (ry_autos rg') \<and> ry_autos rg' ! a = []))"

lemma settled_on_later:
  assumes "settled_on rg rg1 i c h" and "extends rg1 rg'"
  shows "settled_on rg rg' i c h"
  using assms extends_cell [OF assms(2)] extends_auto [OF assms(2)] extends_length [OF assms(2)]
  by (fastforce simp: settled_on_def split: option.splits if_splits)

lemma settled_on_earlier:
  assumes "settled_on rg1 rg' i c h" and "extends rg rg1" and "registry_ok rg"
    and "map_of (ry_devices rg1) i = map_of (ry_devices rg) i"
  shows "settled_on rg rg' i c h"
proof (cases "map_of (ry_devices rg) i")
  case None
  then show ?thesis using assms extends_length [OF assms(2)] by (auto simp: settled_on_def)
next
  case (Some h0)
  then have "h0 < length (ry_cells rg)" using assms(3) by (auto simp: registry_ok_def)
  then show ?thesis using assms Some extends_length [OF assms(2)] extends_cell [OF assms(2)] extends_config [OF assms(2)]
    by (auto simp: settled_on_def split: if_splits)
qed

definition kept_by :: "registry \<Rightarrow> string \<Rightarrow> device_config \<Rightarrow> bool" where
  "kept_by rg i c \<longleftrightarrow> (case map_of (ry_devices rg) i of
      Some h \<Rightarrow> dc_uuid (handle_config rg h) = dc_uuid c | None \<Rightarrow> False)"

text \<open>One id: what moves, what is reported, and that nothing else does.\<close>

lemma apply_device_step:
  assumes "registry_ok rg" and "dc_id c = i" and "apply_device (i, c) (rg, ch) = (rg', ch')"
  shows "registry_ok rg'" and "extends rg rg'" and "ry_groups rg' = ry_groups rg"
    and "j \<noteq> i \<Longrightarrow> map_of (ry_devices rg') j = map_of (ry_devices rg) j"
    and "\<exists>h. map_of (ry_devices rg') i = Some h \<and> settled_on rg rg' i c h"
    and "ch' = ch\<lparr>rx_added := rx_added ch @ (if map_of (ry_devices rg) i = None then [i] else []),
      rx_replaced := rx_replaced ch @
        (if map_of (ry_devices rg) i \<noteq> None \<and> \<not> kept_by rg i c then [i] else []),
      rx_unchanged := rx_unchanged ch + (if kept_by rg i c then 1 else 0)\<rparr>"
proof -
  have "registry_ok rg' \<and> extends rg rg' \<and> ry_groups rg' = ry_groups rg
    \<and> (j \<noteq> i \<longrightarrow> map_of (ry_devices rg') j = map_of (ry_devices rg) j)
    \<and> (\<exists>h. map_of (ry_devices rg') i = Some h \<and> settled_on rg rg' i c h)"
  proof (cases "map_of (ry_devices rg) i")
    case None
    then have rg': "rg' = insert_new i c rg" using assms(3) by (simp add: apply_device_def)
    have "registry_ok rg'"
      using assms(1,2) unfolding rg'
      by (auto simp: registry_ok_def cells_ok_def insert_new_def handle_config_def nth_append less_Suc_eq
          intro: owf_intros)
    moreover have "settled_on rg rg' i c (length (ry_cells rg))"
      using None unfolding rg' by (simp add: settled_on_def insert_new_def)
    ultimately show ?thesis unfolding rg' by (auto simp: insert_new_def extends_def)
  next
    case (Some h0)
    then have h0: "h0 < length (ry_cells rg)" "cl_auto (ry_cells rg ! h0) < length (ry_autos rg)"
      using assms(1) by (auto simp: registry_ok_def cells_ok_def)
    show ?thesis
    proof (cases "dc_uuid (handle_config rg h0) = dc_uuid c")
      case True
      then show ?thesis using Some assms by (auto simp: apply_device_def settled_on_def)
    next
      case False
      then have rg': "rg' = insert_replacement i c h0 rg" using assms(3) Some by (simp add: apply_device_def)
      have "registry_ok rg'"
        using assms(1,2) h0 unfolding rg'
        by (auto simp: registry_ok_def cells_ok_def insert_replacement_def handle_config_def nth_append
            less_Suc_eq intro: owf_intros)
      moreover have "settled_on rg rg' i c (length (ry_cells rg))"
        using Some False unfolding rg' by (simp add: settled_on_def insert_replacement_def)
      ultimately show ?thesis unfolding rg' by (auto simp: insert_replacement_def extends_def)
    qed
  qed
  then show "registry_ok rg'" "extends rg rg'" "ry_groups rg' = ry_groups rg"
    "j \<noteq> i \<Longrightarrow> map_of (ry_devices rg') j = map_of (ry_devices rg) j"
    "\<exists>h. map_of (ry_devices rg') i = Some h \<and> settled_on rg rg' i c h" by blast+
  show "ch' = ch\<lparr>rx_added := rx_added ch @ (if map_of (ry_devices rg) i = None then [i] else []),
      rx_replaced := rx_replaced ch @
        (if map_of (ry_devices rg) i \<noteq> None \<and> \<not> kept_by rg i c then [i] else []),
      rx_unchanged := rx_unchanged ch + (if kept_by rg i c then 1 else 0)\<rparr>"
    using assms(3) by (auto simp: apply_device_def kept_by_def split: option.splits if_splits)
qed


text \<open>The loop over the desired devices.\<close>

definition applied_change :: "registry \<Rightarrow> (string \<times> device_config) list \<Rightarrow> registry_change \<Rightarrow> registry_change" where
  "applied_change rg ds ch = ch\<lparr>
     rx_added := rx_added ch @ filter (\<lambda>i. map_of (ry_devices rg) i = None) (okeys ds),
     rx_replaced := rx_replaced ch @
       okeys (filter (\<lambda>(i, c). map_of (ry_devices rg) i \<noteq> None \<and> \<not> kept_by rg i c) ds),
     rx_unchanged := rx_unchanged ch + length (filter (\<lambda>(i, c). kept_by rg i c) ds)\<rparr>"

lemma applied_change_cong:
  assumes "\<And>i c. (i, c) \<in> set ds \<Longrightarrow> map_of (ry_devices rg1) i = map_of (ry_devices rg) i"
    and "\<And>i c. (i, c) \<in> set ds \<Longrightarrow> kept_by rg1 i c = kept_by rg i c"
  shows "applied_change rg1 ds ch = applied_change rg ds ch"
proof -
  have "filter (\<lambda>i. map_of (ry_devices rg1) i = None) (okeys ds) = filter (\<lambda>i. map_of (ry_devices rg) i = None) (okeys ds)"
    using assms(1) by (intro filter_cong) auto
  moreover have "filter (\<lambda>(i, c). map_of (ry_devices rg1) i \<noteq> None \<and> \<not> kept_by rg1 i c) ds
      = filter (\<lambda>(i, c). map_of (ry_devices rg) i \<noteq> None \<and> \<not> kept_by rg i c) ds"
    using assms by (intro filter_cong) auto
  moreover have "filter (\<lambda>(i, c). kept_by rg1 i c) ds = filter (\<lambda>(i, c). kept_by rg i c) ds"
    using assms(2) by (intro filter_cong) auto
  ultimately show ?thesis by (simp add: applied_change_def)
qed

lemma kept_by_extends:
  assumes "extends rg rg1" and "registry_ok rg" and "map_of (ry_devices rg1) i = map_of (ry_devices rg) i"
  shows "kept_by rg1 i c = kept_by rg i c"
  using assms extends_config [OF assms(1)] by (auto simp: kept_by_def registry_ok_def split: option.split)

lemma apply_devices:
  assumes "registry_ok rg" and "distinct (okeys ds)" and "\<forall>(i, c) \<in> set ds. dc_id c = i"
    and "foldl (\<lambda>s e. apply_device e s) (rg, ch) ds = (rg', ch')"
  shows "registry_ok rg' \<and> extends rg rg' \<and> ry_groups rg' = ry_groups rg
    \<and> (\<forall>j. j \<notin> set (okeys ds) \<longrightarrow> map_of (ry_devices rg') j = map_of (ry_devices rg) j)
    \<and> (\<forall>(i, c) \<in> set ds. \<exists>h. map_of (ry_devices rg') i = Some h \<and> settled_on rg rg' i c h)
    \<and> ch' = applied_change rg ds ch"
  using assms
proof (induction ds arbitrary: rg ch)
  case Nil
  then show ?case by (simp add: applied_change_def)
next
  case (Cons e ds)
  obtain i c where e: "e = (i, c)" by (cases e)
  obtain rg1 ch1 where s: "apply_device (i, c) (rg, ch) = (rg1, ch1)" by (cases "apply_device (i, c) (rg, ch)")
  have i: "dc_id c = i" "i \<notin> set (okeys ds)" using Cons.prems e by auto
  note step = apply_device_step [OF Cons.prems(1) i(1) s]
  have rest: "foldl (\<lambda>s e. apply_device e s) (rg1, ch1) ds = (rg', ch')" using Cons.prems(4) e s by simp
  have IH: "registry_ok rg' \<and> extends rg1 rg' \<and> ry_groups rg' = ry_groups rg1
    \<and> (\<forall>j. j \<notin> set (okeys ds) \<longrightarrow> map_of (ry_devices rg') j = map_of (ry_devices rg1) j)
    \<and> (\<forall>(i, c) \<in> set ds. \<exists>h. map_of (ry_devices rg') i = Some h \<and> settled_on rg1 rg' i c h)
    \<and> ch' = applied_change rg1 ds ch1"
    using Cons.prems(2,3) by (intro Cons.IH [OF step(1) _ _ rest]) auto
  have other: "map_of (ry_devices rg1) j = map_of (ry_devices rg) j" if "(j, d) \<in> set ds" for j d
  proof -
    have "j \<in> set (okeys ds)" using that by force
    then have "j \<noteq> i" using i(2) by auto
    then show ?thesis by (rule step(4))
  qed
  have "applied_change rg1 ds ch1 = applied_change rg ds ch1"
    using other kept_by_extends [OF step(2) Cons.prems(1)] by (intro applied_change_cong) auto
  also have "\<dots> = applied_change rg (e # ds) ch"
    using step(6) by (simp add: applied_change_def e)
  finally have change: "ch' = applied_change rg (e # ds) ch" using IH by simp
  have "\<exists>h. map_of (ry_devices rg') j = Some h \<and> settled_on rg rg' j d h" if jd: "(j, d) \<in> set ds" for j d
  proof -
    obtain h where "map_of (ry_devices rg') j = Some h" "settled_on rg1 rg' j d h" using IH jd by blast
    then show ?thesis using settled_on_earlier [OF _ step(2) Cons.prems(1) other [OF jd]] by blast
  qed
  moreover have "\<exists>h. map_of (ry_devices rg') i = Some h \<and> settled_on rg rg' i c h"
    using step(5) IH i(2) settled_on_later by fastforce
  moreover have "\<forall>j. j \<notin> set (okeys (e # ds)) \<longrightarrow> map_of (ry_devices rg') j = map_of (ry_devices rg) j"
    using IH step(4) e by auto
  ultimately show ?case
    using IH step(3) change e extends_trans [OF step(2)] by auto
qed

lemma foldl_odel:
  "foldl (\<lambda>rg i. rg\<lparr>ry_devices := odel i (ry_devices rg)\<rparr>) rg is
     = rg\<lparr>ry_devices := filter (\<lambda>e. fst e \<notin> set is) (ry_devices rg)\<rparr>"
proof (induction "is" arbitrary: rg)
  case (Cons i "is")
  show ?case unfolding foldl_Cons Cons.IH by (simp add: odel_def conj_commute)
qed simp

lemma desired_of_facts:
  "owf (desired_of cs)" "distinct (okeys (desired_of cs))"
  "\<forall>(i, c) \<in> set (desired_of cs). dc_id c = i \<and> c \<in> set cs"
  "set (okeys (desired_of cs)) = dc_id ` set cs"
proof -
  show wf: "owf (desired_of cs)" by (simp add: desired_of_def owf_intros)
  then show "distinct (okeys (desired_of cs))" by (rule owf_distinct)
  have eq: "map_of (desired_of cs) = map_of (rev (map (\<lambda>c. (dc_id c, c)) cs))"
    by (simp add: desired_of_def map_of_ocollect)
  show "\<forall>(i, c) \<in> set (desired_of cs). dc_id c = i \<and> c \<in> set cs"
  proof clarify
    fix i c assume "(i, c) \<in> set (desired_of cs)"
    then have "map_of (rev (map (\<lambda>c. (dc_id c, c)) cs)) i = Some c"
      using wf eq by (simp add: owf_mem_iff)
    then show "dc_id c = i \<and> c \<in> set cs" by (auto dest: map_of_SomeD)
  qed
  have "dom (map_of (desired_of cs)) = dc_id ` set cs" unfolding eq by (force simp: dom_map_of_conv_image_fst)
  then show "set (okeys (desired_of cs)) = dc_id ` set cs" by (simp add: dom_map_of_conv_image_fst)
qed

lemma map_of_desired:
  assumes "distinct (map dc_id cs)"
  shows "map_of (desired_of cs) i = find (\<lambda>c. dc_id c = i) cs"
proof -
  have "map_of (map (\<lambda>c. (dc_id c, c)) cs) i = find (\<lambda>c. dc_id c = i) cs" by (induction cs) auto
  then show ?thesis
    using assms by (simp add: desired_of_def map_of_ocollect_distinct comp_def)
qed



section \<open>Reconciling with a document\<close>

lemma owf_sorted: "owf m \<Longrightarrow> sorted (okeys m)"
  by (simp add: owf_def strict_sorted_imp_sorted)

lemma owf_sorted_filter: "owf m \<Longrightarrow> sorted (okeys (filter P m))"
  by (rule owf_sorted) (rule owf_filter)

text \<open>Two ordered maps that agree outside a set of keys have the same keys outside it.\<close>

lemma okeys_outside_cong:
  assumes "owf m" and "owf m'" and "\<And>i. i \<notin> K \<Longrightarrow> map_of m' i = map_of m i"
  shows "filter (\<lambda>i. i \<notin> K) (okeys m') = filter (\<lambda>i. i \<notin> K) (okeys m)"
proof (rule sorted_distinct_set_unique)
  show "sorted (filter (\<lambda>i. i \<notin> K) (okeys m'))" "sorted (filter (\<lambda>i. i \<notin> K) (okeys m))"
    using assms(1,2) by (auto intro: sorted_wrt_filter owf_sorted)
  show "distinct (filter (\<lambda>i. i \<notin> K) (okeys m'))" "distinct (filter (\<lambda>i. i \<notin> K) (okeys m))"
    using assms(1,2) by (simp_all add: owf_distinct)
  show "set (filter (\<lambda>i. i \<notin> K) (okeys m')) = set (filter (\<lambda>i. i \<notin> K) (okeys m))"
    using assms(3) by (auto simp: dom_map_of_keys [symmetric])
qed

lemma registry_apply_facts:
  assumes ok: "registry_ok rg" and ds: "distinct (map dc_id (rs_devices r))"
    and run: "registry_apply r rg = (rg', ch)"
  defines "desired \<equiv> desired_of (rs_devices r)"
  shows "registry_ok rg' \<and> extends rg rg'"
    and "\<forall>i. (case find (\<lambda>c. dc_id c = i) (rs_devices r) of
                None \<Rightarrow> registry_device rg' i = None
              | Some c \<Rightarrow> \<exists>h. registry_device rg' i = Some h \<and> settled_on rg rg' i c h)"
    and "ry_groups rg' = ocollect (map (\<lambda>g. (gc_id g, gc_id g,
           List.map_filter (registry_device rg') (gc_device_ids g))) (rs_groups r))"
    and "ch = \<lparr>rx_added = filter (\<lambda>i. registry_device rg i = None) (okeys desired),
           rx_replaced = okeys (filter (\<lambda>(i, c). registry_device rg i \<noteq> None \<and> \<not> kept_by rg i c) desired),
           rx_removed = filter (\<lambda>i. i \<notin> set (okeys desired)) (registry_ids rg),
           rx_unchanged = length (filter (\<lambda>(i, c). kept_by rg i c) desired)\<rparr>"
proof -
  obtain rg1 ch1 where f: "foldl (\<lambda>s e. apply_device e s) (rg, no_change) desired = (rg1, ch1)"
    by (cases "foldl (\<lambda>s e. apply_device e s) (rg, no_change) desired")
  note d = desired_of_facts [of "rs_devices r", folded desired_def]
  have "\<forall>(i, c) \<in> set desired. dc_id c = i" using d(3) by blast
  note loop = apply_devices [OF ok d(2) this f]
  define stale where "stale = filter (\<lambda>i. i \<notin> set (okeys desired)) (okeys (ry_devices rg1))"
  define rg2 where "rg2 = rg1\<lparr>ry_devices := filter (\<lambda>e. fst e \<notin> set stale) (ry_devices rg1)\<rparr>"
  have res: "rg' = rebuild_groups (rs_groups r) rg2" "ch = ch1\<lparr>rx_added := sort (rx_added ch1),
      rx_replaced := sort (rx_replaced ch1), rx_removed := sort (rx_removed ch1 @ stale)\<rparr>"
    using run f unfolding registry_apply_def Let_def desired_def [symmetric]
    by (simp_all add: stale_def rg2_def foldl_odel)
  have look2: "map_of (ry_devices rg2) i = (if i \<in> set stale then None else map_of (ry_devices rg1) i)" for i
    by (simp add: rg2_def map_of_filter_keys [of "\<lambda>k. k \<notin> set stale"])
  have dev': "ry_devices rg' = ry_devices rg2" "ry_cells rg' = ry_cells rg1" "ry_autos rg' = ry_autos rg1"
    by (simp_all add: res(1) rebuild_groups_def rg2_def)
  have inset: "i \<in> set stale \<longleftrightarrow> i \<notin> set (okeys desired) \<and> map_of (ry_devices rg1) i \<noteq> None" for i
    unfolding stale_def dom_map_of_keys by auto
  have "owf (ry_devices rg2)" using loop by (simp add: rg2_def owf_filter registry_ok_def)
  then show "registry_ok rg' \<and> extends rg rg'"
    using loop by (simp add: registry_ok_def cells_ok_def handle_config_def extends_def dev' look2)
  show "\<forall>i. (case find (\<lambda>c. dc_id c = i) (rs_devices r) of
                None \<Rightarrow> registry_device rg' i = None
              | Some c \<Rightarrow> \<exists>h. registry_device rg' i = Some h \<and> settled_on rg rg' i c h)"
  proof
    fix i
    have m: "map_of desired i = find (\<lambda>c. dc_id c = i) (rs_devices r)"
      unfolding desired_def by (rule map_of_desired [OF ds])
    show "case find (\<lambda>c. dc_id c = i) (rs_devices r) of
                None \<Rightarrow> registry_device rg' i = None
              | Some c \<Rightarrow> \<exists>h. registry_device rg' i = Some h \<and> settled_on rg rg' i c h"
    proof (cases "map_of desired i")
      case None
      then have "i \<notin> set (okeys desired)" by (simp add: map_of_eq_None_iff)
      then show ?thesis using None m by (auto simp: registry_device_def dev' look2 inset)
    next
      case (Some c)
      then have mem: "(i, c) \<in> set desired" by (rule map_of_SomeD)
      then obtain h where h: "map_of (ry_devices rg1) i = Some h" "settled_on rg rg1 i c h"
        using loop by blast
      have "settled_on rg rg' i c h"
        using h(2) unfolding settled_on_def dev' .
      moreover have "i \<notin> set stale" using mem by (force simp: inset)
      ultimately show ?thesis using Some m h by (simp add: registry_device_def dev' look2)
    qed
  qed
  show "ry_groups rg' = ocollect (map (\<lambda>g. (gc_id g, gc_id g,
           List.map_filter (registry_device rg') (gc_device_ids g))) (rs_groups r))"
    by (simp add: res(1) rebuild_groups_def registry_device_def [abs_def])
  have ch1: "ch1 = applied_change rg desired no_change" using loop by blast
  have "owf (ry_devices rg)" "owf (ry_devices rg1)" using ok loop by (simp_all add: registry_ok_def)
  then have "stale = filter (\<lambda>i. i \<notin> set (okeys desired)) (registry_ids rg)"
    unfolding stale_def registry_ids_def using loop by (intro okeys_outside_cong) auto
  then show "ch = \<lparr>rx_added = filter (\<lambda>i. registry_device rg i = None) (okeys desired),
           rx_replaced = okeys (filter (\<lambda>(i, c). registry_device rg i \<noteq> None \<and> \<not> kept_by rg i c) desired),
           rx_removed = filter (\<lambda>i. i \<notin> set (okeys desired)) (registry_ids rg),
           rx_unchanged = length (filter (\<lambda>(i, c). kept_by rg i c) desired)\<rparr>"
    using ok owf_sorted_filter [OF d(1)] owf_sorted [OF d(1)] owf_sorted [of "ry_devices rg"]
    by (simp add: res(2) ch1 applied_change_def no_change_def registry_device_def sorted_sort_id
        sorted_wrt_filter registry_ids_def registry_ok_def)
qed


text \<open>
  C16. Reconciliation is an exact diff by identity. After \<open>apply\<close> every id of the document
  has one handle: the one it had, if the identity is unchanged; otherwise a new device with the
  document's configuration and no connection, which shares the learned vetoes of the device it
  replaces, or starts with none. Every other id is unknown. Handles and vetoes that existed are
  untouched, so callers that hold a replaced or removed device finish on it. The report names
  exactly the ids added, replaced and removed, sorted, and counts the rest.
\<close>

theorem registry_apply_exact:
  assumes "registry_ok rg" and "distinct (map dc_id (rs_devices r))" and "registry_apply r rg = (rg', ch)"
  shows "registry_ok rg' \<and> extends rg rg'
    \<and> (\<forall>i. case find (\<lambda>c. dc_id c = i) (rs_devices r) of
              None \<Rightarrow> registry_device rg' i = None
            | Some c \<Rightarrow> \<exists>h. registry_device rg' i = Some h \<and> settled_on rg rg' i c h)
    \<and> ch = (let desired = desired_of (rs_devices r)
        in \<lparr>rx_added = filter (\<lambda>i. registry_device rg i = None) (okeys desired),
            rx_replaced = okeys (filter (\<lambda>(i, c). registry_device rg i \<noteq> None \<and> \<not> kept_by rg i c) desired),
            rx_removed = filter (\<lambda>i. i \<notin> set (okeys desired)) (registry_ids rg),
            rx_unchanged = length (filter (\<lambda>(i, c). kept_by rg i c) desired)\<rparr>)"
  using registry_apply_facts [OF assms] unfolding Let_def by blast

definition demo_document :: "uuid \<Rightarrow> string \<Rightarrow> resolved" where
  "demo_document u host = \<lparr>rs_devices = [(plain_device ''a'' host)\<lparr>dc_uuid := u\<rparr>], rs_groups = []\<rparr>"

definition demo_registry :: registry where
  "demo_registry = registry_build (rs_devices (demo_document 1 ''10.0.0.7'')) []"

lemma demo_registry_ok: "registry_ok demo_registry"
  by (simp add: registry_ok_def cells_ok_def demo_registry_def demo_document_def registry_build_def
      rebuild_groups_def insert_new_def empty_registry_def handle_config_def owf_def plain_device_def ocollect_def)

theorem registry_apply_exact_witness:
  "\<exists>rg' ch h. registry_apply (demo_document 2 ''10.0.0.8'') demo_registry = (rg', ch)
     \<and> rx_replaced ch = [''a''] \<and> registry_device rg' ''a'' = Some h \<and> h \<noteq> 0
     \<and> cl_auto (ry_cells rg' ! h) = cl_auto (ry_cells demo_registry ! 0)"
proof -
  let ?r = "demo_document 2 ''10.0.0.8''"
  obtain rg' ch where run: "registry_apply ?r demo_registry = (rg', ch)" by (cases "registry_apply ?r demo_registry")
  note demo = demo_document_def demo_registry_def registry_build_def rebuild_groups_def insert_new_def
    empty_registry_def plain_device_def
  have "distinct (map dc_id (rs_devices ?r))" by (simp add: demo_document_def)
  note x = registry_apply_exact [OF demo_registry_ok this run]
  have c: "find (\<lambda>c. dc_id c = ''a'') (rs_devices ?r) = Some ((plain_device ''a'' ''10.0.0.8'')\<lparr>dc_uuid := 2\<rparr>)"
    by (simp add: demo_document_def plain_device_def)
  obtain h where "registry_device rg' ''a'' = Some h"
      "settled_on demo_registry rg' ''a'' ((plain_device ''a'' ''10.0.0.8'')\<lparr>dc_uuid := 2\<rparr>) h"
    using x c by (auto dest!: spec [of _ "''a''"])
  moreover from this(2) have "h \<noteq> 0 \<and> cl_auto (ry_cells rg' ! h) = cl_auto (ry_cells demo_registry ! 0)"
    by (simp add: settled_on_def demo handle_config_def)
  moreover have "rx_replaced ch = [''a'']"
    using x by (simp add: desired_of_def ocollect_def demo kept_by_def handle_config_def registry_device_def)
  ultimately show ?thesis using run by blast
qed

lemma apply_all_kept:
  assumes "\<forall>(i, c) \<in> set ds. kept_by rg i c"
  shows "foldl (\<lambda>s e. apply_device e s) (rg, ch) ds = (rg, ch\<lparr>rx_unchanged := rx_unchanged ch + length ds\<rparr>)"
  using assms
proof (induction ds arbitrary: ch)
  case (Cons e ds)
  have "apply_device e (rg, ch) = (rg, ch\<lparr>rx_unchanged := rx_unchanged ch + 1\<rparr>)"
    using Cons.prems by (cases e) (auto simp: apply_device_def kept_by_def split: option.splits)
  then show ?case using Cons by simp
qed simp

text \<open>Registered devices carry the identity of their configuration.\<close>

definition identified :: "(string \<Rightarrow> string \<Rightarrow> uuid) \<Rightarrow> registry \<Rightarrow> bool" where
  "identified v rg \<longleftrightarrow> (\<forall>h \<in> set (registry_devices rg).
     dc_uuid (handle_config rg h) = fingerprint v (handle_config rg h) \<and> representable (handle_config rg h))"

lemma same_identity:
  assumes "dc_uuid c = fingerprint v c" and "dc_uuid c' = fingerprint v c'"
    and "representable c" and "representable c'" and "dc_uuid c = dc_uuid c'"
    and "inj_on (v DEVICE_NAMESPACE) S" and "fingerprint_bytes c \<in> S" and "fingerprint_bytes c' \<in> S"
  shows "c = c'"
proof -
  have "fingerprint_bytes c = fingerprint_bytes c'"
    using assms by (simp add: fingerprint_def inj_on_def)
  then have "c\<lparr>dc_uuid := 0\<rparr> = c'\<lparr>dc_uuid := 0\<rparr>" using fingerprint_bytes_inj assms(3,4) by blast
  then have "c\<lparr>dc_uuid := 0, dc_uuid := dc_uuid c\<rparr> = c'\<lparr>dc_uuid := 0, dc_uuid := dc_uuid c'\<rparr>"
    using assms(5) by simp
  then show ?thesis by simp
qed

lemma settled_config:
  assumes "settled_on rg rg' i c h" and "map_of (ry_devices rg) i \<noteq> None \<longrightarrow>
      (\<forall>h0. map_of (ry_devices rg) i = Some h0 \<and> dc_uuid (handle_config rg h0) = dc_uuid c
        \<longrightarrow> handle_config rg' h0 = c)"
  shows "handle_config rg' h = c"
  using assms by (auto simp: settled_on_def handle_config_def split: option.splits if_splits)

lemma registry_apply_configs:
  assumes ok: "registry_ok rg" and idd: "identified v rg"
    and ds: "distinct (map dc_id (rs_devices r))"
    and cs: "\<forall>c \<in> set (rs_devices r). dc_uuid c = fingerprint v c \<and> representable c"
    and inj: "inj_on (v DEVICE_NAMESPACE)
        (fingerprint_bytes ` (handle_config rg ` set (registry_devices rg) \<union> set (rs_devices r)))"
    and run: "registry_apply r rg = (rg', ch)"
  shows "map_option (handle_config rg') (registry_device rg' i) = find (\<lambda>c. dc_id c = i) (rs_devices r)"
proof (cases "find (\<lambda>c. dc_id c = i) (rs_devices r)")
  case None
  then show ?thesis using registry_apply_facts(2) [OF ok ds run] by (auto dest!: spec [of _ i])
next
  case (Some c)
  then obtain h where h: "registry_device rg' i = Some h" "settled_on rg rg' i c h"
    using registry_apply_facts(2) [OF ok ds run] by (auto dest!: spec [of _ i])
  have c: "c \<in> set (rs_devices r)" using Some by (auto simp: find_Some_iff)
  have "handle_config rg' h = c"
  proof (rule settled_config [OF h(2)], intro impI allI, elim conjE)
    fix h0 assume h0: "map_of (ry_devices rg) i = Some h0" "dc_uuid (handle_config rg h0) = dc_uuid c"
    then have mem: "h0 \<in> set (registry_devices rg)" "h0 < length (ry_cells rg)"
      using ok by (force simp: registry_devices_def dest: map_of_SomeD, auto simp: registry_ok_def)
    have "handle_config rg h0 = c"
      using idd mem(1) cs c h0(2) inj
      by (intro same_identity [where v = v and S = "fingerprint_bytes ` (handle_config rg ` set (registry_devices rg)
          \<union> set (rs_devices r))"]) (auto simp: identified_def)
    moreover have "handle_config rg' h0 = handle_config rg h0"
      using registry_apply_facts(1) [OF ok ds run] mem(2) extends_config by blast
    ultimately show "handle_config rg' h0 = c" by simp
  qed
  then show ?thesis using h Some by simp
qed


lemma list_all2_right_ex: "list_all2 P xs ys \<Longrightarrow> y \<in> set ys \<Longrightarrow> \<exists>x. P x y"
  by (induction rule: list_all2_induct) auto

lemma resolved_distinct:
  assumes "resolve_config v raw = Some (Inr r)"
  shows "distinct (map dc_id (rs_devices r))" and "distinct (map gc_id (rs_groups r))"
    and "\<forall>g \<in> set (rs_groups r). gc_id g \<notin> dc_id ` set (rs_devices r)
        \<and> set (gc_device_ids g) \<subseteq> dc_id ` set (rs_devices r)"
    and "\<forall>c \<in> set (rs_devices r). dc_uuid c = fingerprint v c"
proof -
  note res = resolved_consistent [OF assms]
  show "distinct (map dc_id (rs_devices r))" "distinct (map gc_id (rs_groups r))"
    using conjunct1 [OF res] by simp_all
  show "\<forall>c \<in> set (rs_devices r). dc_uuid c = fingerprint v c"
    using list_all2_right_ex [OF conjunct2 [OF conjunct2 [OF conjunct2 [OF res]]]] by blast
  have "set (gc_device_ids g) \<subseteq> dc_id ` set (rs_devices r)" if g: "g \<in> set (rs_groups r)" for g
  proof -
    obtain raw where "group_resolves (rs_devices r) raw g"
      using list_all2_right_ex [OF conjunct1 [OF conjunct2 [OF conjunct2 [OF res]]] g] by (elim exE)
    then show ?thesis by (simp add: group_resolves_def)
  qed
  moreover have "gc_id ` set (rs_groups r) \<inter> dc_id ` set (rs_devices r) = {}"
    using conjunct1 [OF res] by auto
  ultimately show "\<forall>g \<in> set (rs_groups r). gc_id g \<notin> dc_id ` set (rs_devices r)
        \<and> set (gc_device_ids g) \<subseteq> dc_id ` set (rs_devices r)"
    by blast
qed

lemma map_filter_total: "(\<And>x. x \<in> set xs \<Longrightarrow> f x \<noteq> None) \<Longrightarrow> List.map_filter f xs = map (\<lambda>x. the (f x)) xs"
  by (induction xs) (auto simp: List.map_filter_def)

lemma map_of_by_id:
  assumes "registry_ok rg"
  shows "map_of (ocollect (map (\<lambda>h. (dc_id (handle_config rg h), f h)) (registry_devices rg))) i
    = map_option f (registry_device rg i)"
proof -
  have ids: "map (\<lambda>h. (dc_id (handle_config rg h), f h)) (registry_devices rg) = map (\<lambda>(i, h). (i, f h)) (ry_devices rg)"
    using assms by (auto simp: registry_ok_def owf_mem_iff registry_devices_def)
  have "distinct (map fst (map (\<lambda>(i, h). (i, f h)) (ry_devices rg)))"
    using owf_distinct [of "ry_devices rg"] assms by (simp add: registry_ok_def comp_def case_prod_beta)
  then have "map_of (ocollect (map (\<lambda>(i, h). (i, f h)) (ry_devices rg))) i = map_of (map (\<lambda>(i, h). (i, f h)) (ry_devices rg)) i"
    by (rule map_of_ocollect_distinct [THEN fun_cong])
  then show ?thesis unfolding ids by (simp add: registry_device_def map_of_map)
qed

lemma registered_ids: "registry_device rg i \<noteq> None \<longleftrightarrow> i \<in> set (registry_ids rg)"
  by (simp add: registry_device_def registry_ids_def map_of_eq_None_iff)

text \<open>A group of the applied document over devices that are all registered.\<close>

lemma registry_apply_group:
  assumes "ry_groups rg = ocollect (map (\<lambda>g. (gc_id g, gc_id g,
             List.map_filter (registry_device rg) (gc_device_ids g))) gs)"
    and "distinct (map gc_id gs)" and "g \<in> set gs" and "registry_ok rg"
    and "\<forall>i \<in> set (gc_device_ids g). registry_device rg i \<noteq> None" and "registry_device rg (gc_id g) = None"
  shows "\<exists>hs. registry_target rg (gc_id g) = Some (TargetGroup (gc_id g, hs))
      \<and> map (\<lambda>h. dc_id (handle_config rg h)) hs = gc_device_ids g \<and> set hs \<subseteq> set (registry_devices rg)"
proof (intro exI conjI)
  let ?hs = "map (\<lambda>i. the (registry_device rg i)) (gc_device_ids g)"
  have "map_of (map (\<lambda>g. (gc_id g, gc_id g, List.map_filter (registry_device rg) (gc_device_ids g))) gs) (gc_id g)
      = Some (gc_id g, List.map_filter (registry_device rg) (gc_device_ids g))"
    using assms(2,3) by (intro map_of_is_SomeI) (auto simp: comp_def)
  then have "registry_group rg (gc_id g) = Some (gc_id g, ?hs)"
    using assms(1,2,5) map_filter_total [of "gc_device_ids g" "registry_device rg"]
    by (simp add: registry_group_def map_of_ocollect_distinct comp_def)
  then show "registry_target rg (gc_id g) = Some (TargetGroup (gc_id g, ?hs))"
    using assms(6) by (simp add: registry_target_def)
  show "map (\<lambda>h. dc_id (handle_config rg h)) ?hs = gc_device_ids g"
    using assms(4,5) by (auto simp: registry_ok_def registry_device_def intro!: map_idI)
  show "set ?hs \<subseteq> set (registry_devices rg)"
    using assms(5) by (force simp: registry_devices_def registry_device_def dest: map_of_SomeD)
qed

text \<open>Applying a document the registry already follows changes nothing.\<close>

lemma registry_apply_again:
  assumes ok: "registry_ok rg" and ds: "distinct (map dc_id (rs_devices r))"
    and cfg: "\<And>i. map_option (handle_config rg) (registry_device rg i) = find (\<lambda>c. dc_id c = i) (rs_devices r)"
    and grp: "ry_groups rg = ocollect (map (\<lambda>g. (gc_id g, gc_id g,
           List.map_filter (registry_device rg) (gc_device_ids g))) (rs_groups r))"
  shows "registry_apply r rg = (rg, no_change\<lparr>rx_unchanged := length (rs_devices r)\<rparr>)"
proof -
  let ?d = "desired_of (rs_devices r)"
  have map: "map_of ?d i = map_option (handle_config rg) (registry_device rg i)" for i
    using map_of_desired [OF ds] cfg by simp
  have "kept_by rg i c" if "(i, c) \<in> set ?d" for i c
    using that map [of i] desired_of_facts(1) [of "rs_devices r"]
    by (auto simp: owf_mem_iff kept_by_def registry_device_def split: option.splits)
  then have loop: "foldl (\<lambda>s e. apply_device e s) (rg, no_change) ?d
      = (rg, no_change\<lparr>rx_unchanged := length ?d\<rparr>)"
    by (subst apply_all_kept) (auto simp: no_change_def)
  have "set (okeys (ry_devices rg)) = set (okeys ?d)"
    using map by (auto simp: set_eq_iff registry_device_def dom_map_of_keys [symmetric])
  then have stale: "filter (\<lambda>i. i \<notin> set (okeys ?d)) (okeys (ry_devices rg)) = []" by (simp add: filter_empty_conv)
  have "length ?d = length (rs_devices r)"
    using desired_of_facts(2,4) [of "rs_devices r"] ds
    by (metis distinct_card length_map set_map)
  moreover have "rebuild_groups (rs_groups r) rg = rg"
    using grp by (simp add: rebuild_groups_def registry_device_def [abs_def])
  ultimately show ?thesis
    unfolding registry_apply_def Let_def loop prod.case stale by (simp add: no_change_def)
qed

text \<open>A registry that follows a document: its devices are the document's, its groups are over them.\<close>

definition follows :: "registry \<Rightarrow> resolved \<Rightarrow> bool" where
  "follows rg r \<longleftrightarrow>
     (\<forall>i. map_option (handle_config rg) (registry_device rg i) = find (\<lambda>c. dc_id c = i) (rs_devices r))
     \<and> ry_groups rg = ocollect (map (\<lambda>g. (gc_id g, gc_id g,
           List.map_filter (registry_device rg) (gc_device_ids g))) (rs_groups r))"

lemma registered_handle:
  assumes "registry_ok rg" and "h \<in> set (registry_devices rg)"
  obtains i where "registry_device rg i = Some h"
  using assms by (auto simp: registry_devices_def registry_device_def registry_ok_def owf_mem_iff)

lemma follows_configs:
  assumes "registry_ok rg" and "follows rg r" and "distinct (map dc_id (rs_devices r))"
  shows "handle_config rg ` set (registry_devices rg) = set (rs_devices r)"
proof (intro equalityI subsetI)
  fix c assume "c \<in> handle_config rg ` set (registry_devices rg)"
  then obtain h i where "registry_device rg i = Some h" "c = handle_config rg h"
    using registered_handle [OF assms(1)] by blast
  then have "find (\<lambda>c. dc_id c = i) (rs_devices r) = Some c" using assms(2) by (simp add: follows_def) (metis option.map(2))
  then show "c \<in> set (rs_devices r)" by (auto simp: find_Some_iff)
next
  fix c assume "c \<in> set (rs_devices r)"
  then have "find (\<lambda>e. dc_id e = dc_id c) (rs_devices r) = Some c" using assms(3) by (intro find_by_id)
  then obtain h where "registry_device rg (dc_id c) = Some h" "handle_config rg h = c"
    using assms(2) unfolding follows_def by (metis map_option_eq_Some)
  then show "c \<in> handle_config rg ` set (registry_devices rg)"
    by (force simp: registry_devices_def registry_device_def dest: map_of_SomeD)
qed

lemma registry_apply_follows:
  assumes ok: "registry_ok rg" and idd: "identified v rg"
    and ds: "distinct (map dc_id (rs_devices r))"
    and cs: "\<forall>c \<in> set (rs_devices r). dc_uuid c = fingerprint v c \<and> representable c"
    and inj: "inj_on (v DEVICE_NAMESPACE)
        (fingerprint_bytes ` (handle_config rg ` set (registry_devices rg) \<union> set (rs_devices r)))"
    and run: "registry_apply r rg = (rg', ch)"
  shows "registry_ok rg'" and "extends rg rg'" and "follows rg' r" and "identified v rg'"
proof -
  note facts = registry_apply_facts [OF ok ds run]
  show ok': "registry_ok rg'" and "extends rg rg'" using facts(1) by simp_all
  show fol: "follows rg' r"
    unfolding follows_def using registry_apply_configs [OF ok idd ds cs inj run] facts(3) by blast
  show "identified v rg'" unfolding identified_def
  proof
    fix h assume "h \<in> set (registry_devices rg')"
    then have "handle_config rg' h \<in> set (rs_devices r)" using follows_configs [OF ok' fol ds] by blast
    then show "dc_uuid (handle_config rg' h) = fingerprint v (handle_config rg' h) \<and> representable (handle_config rg' h)"
      using cs by blast
  qed
qed

text \<open>A configuration in both documents keeps its device.\<close>

lemma registry_apply_keeps:
  assumes ok: "registry_ok rg" and ds: "distinct (map dc_id (rs_devices r))" and run: "registry_apply r rg = (rg', ch)"
    and c: "c \<in> set (rs_devices r)" and h: "registry_device rg (dc_id c) = Some h" "handle_config rg h = c"
  shows "registry_device rg' (dc_id c) = Some h"
proof -
  have "find (\<lambda>e. dc_id e = dc_id c) (rs_devices r) = Some c" using ds c by (intro find_by_id)
  then obtain h' where "registry_device rg' (dc_id c) = Some h'" "settled_on rg rg' (dc_id c) c h'"
    using registry_apply_facts(2) [OF ok ds run] by (auto dest!: spec [of _ "dc_id c"])
  then show ?thesis using h by (simp add: settled_on_def registry_device_def)
qed

text \<open>
  C37. The registry follows the document. If hashing separates the configurations in play, then
  after \<open>apply\<close> of a resolved document a lookup of any id gives a device with exactly the
  document's configuration for it, or none; every group resolves, under its own id, to the
  current handles of its members in the document's order; every registered device again carries
  the identity of its configuration; and applying the document once more changes nothing at all.
\<close>

theorem registry_follows_document:
  assumes "registry_ok rg" and "identified v rg" and "resolve_config v raw = Some (Inr r)"
    and "\<forall>c \<in> set (rs_devices r). representable c"
    and "inj_on (v DEVICE_NAMESPACE)
        (fingerprint_bytes ` (handle_config rg ` set (registry_devices rg) \<union> set (rs_devices r)))"
    and "registry_apply r rg = (rg', ch)"
  shows "(\<forall>i. map_option (handle_config rg') (registry_device rg' i) = find (\<lambda>c. dc_id c = i) (rs_devices r))
    \<and> (\<forall>g \<in> set (rs_groups r). \<exists>hs. registry_target rg' (gc_id g) = Some (TargetGroup (gc_id g, hs))
        \<and> map (\<lambda>h. dc_id (handle_config rg' h)) hs = gc_device_ids g \<and> set hs \<subseteq> set (registry_devices rg'))
    \<and> identified v rg'
    \<and> registry_apply r rg' = (rg', no_change\<lparr>rx_unchanged := length (rs_devices r)\<rparr>)"
proof (intro conjI)
  note res = resolved_distinct [OF assms(3)]
  have cs: "\<forall>c \<in> set (rs_devices r). dc_uuid c = fingerprint v c \<and> representable c"
    using res(4) assms(4) by blast
  note fol = registry_apply_follows [OF assms(1,2) res(1) cs assms(5,6)]
  have cfg: "map_option (handle_config rg') (registry_device rg' i) = find (\<lambda>c. dc_id c = i) (rs_devices r)" for i
    using fol(3) by (simp add: follows_def)
  then show "\<forall>i. map_option (handle_config rg') (registry_device rg' i) = find (\<lambda>c. dc_id c = i) (rs_devices r)"
    by blast
  have grp: "ry_groups rg' = ocollect (map (\<lambda>g. (gc_id g, gc_id g,
           List.map_filter (registry_device rg') (gc_device_ids g))) (rs_groups r))"
    using fol(3) by (simp add: follows_def)
  have known: "registry_device rg' i \<noteq> None \<longleftrightarrow> i \<in> dc_id ` set (rs_devices r)" for i
    using cfg [of i] by (cases "registry_device rg' i") (auto simp: find_None_iff find_Some_iff dest!: sym [of _ "find _ _"])
  have "\<forall>g \<in> set (rs_groups r). registry_device rg' (gc_id g) = None
      \<and> (\<forall>i \<in> set (gc_device_ids g). registry_device rg' i \<noteq> None)"
    using res(3) known by blast
  then show "\<forall>g \<in> set (rs_groups r). \<exists>hs. registry_target rg' (gc_id g) = Some (TargetGroup (gc_id g, hs))
        \<and> map (\<lambda>h. dc_id (handle_config rg' h)) hs = gc_device_ids g \<and> set hs \<subseteq> set (registry_devices rg')"
    using registry_apply_group [OF grp res(2)] fol(1) by blast
  show "identified v rg'" by (rule fol(4))
  show "registry_apply r rg' = (rg', no_change\<lparr>rx_unchanged := length (rs_devices r)\<rparr>)"
    by (rule registry_apply_again [OF fol(1) res(1) cfg grp])
qed


theorem registry_follows_document_witness:
  "\<exists>r. resolve_config (\<lambda>n b. 7) (written_config None) = Some (Inr r)
     \<and> (let rg = fst (registry_apply r empty_registry)
        in registry_apply r rg = (rg, no_change\<lparr>rx_unchanged := length (rs_devices r)\<rparr>))"
proof -
  obtain r where r: "resolve_config (\<lambda>n b. 7) (written_config None) = Some (Inr r)"
    and reps: "\<forall>c \<in> set (rs_devices r). representable c" and one: "length (rs_devices r) = 1"
    by (simp add: config_example_defs representable_def small_opt_def)
  obtain rg ch where run: "registry_apply r empty_registry = (rg, ch)" by (cases "registry_apply r empty_registry")
  have "registry_ok empty_registry" "identified (\<lambda>n b. 7) empty_registry"
    by (simp_all add: registry_ok_def cells_ok_def identified_def empty_registry_def registry_devices_def)
  moreover have "inj_on ((\<lambda>n b. 7) DEVICE_NAMESPACE) (fingerprint_bytes `
      (handle_config empty_registry ` set (registry_devices empty_registry) \<union> set (rs_devices r)))"
    using one by (auto simp: length_Suc_conv empty_registry_def registry_devices_def)
  ultimately have "registry_apply r rg = (rg, no_change\<lparr>rx_unchanged := length (rs_devices r)\<rparr>)"
    using registry_follows_document [OF _ _ r reps _ run] by blast
  then show ?thesis using r run by (auto simp: Let_def)
qed

end
