(* ===== verification/Sis_Keepalive.thy ===== *)
theory Sis_Keepalive
  imports Sis_Registry
begin

text \<open>
  \<^verbatim>\<open>sismatic-core/src/devices/sis_keepalive.rs\<close>: one keep-warm task per eager device, held to the
  registry's device set, and the loop such a task runs.

  A spawned task is an entry of a task list: the handle it captured and whether it was told to
  stop. The keepalive and the intent relay keep their task sets in step with the registry by the
  same two passes, stop then start; the locale \<open>task_set\<close> states what the passes need of a task
  set and proves what they achieve, once.
\<close>


section \<open>Task sets\<close>

record task =
  tk_handle :: handle
  tk_stopped :: bool

definition stop_task :: "nat \<Rightarrow> task list \<Rightarrow> task list" where
  "stop_task t ts = ts[t := (ts ! t)\<lparr>tk_stopped := True\<rparr>]"

text \<open>
  The two passes of an \<open>apply\<close>. The first stops the tasks of the stale ids, counting those that
  are wanted again (rebound) and those that are not (stopped); the second starts a task for every
  wanted id that has none, counting those left alone (unchanged) and those started (spawned).
\<close>

fun stop_pass :: "(string \<Rightarrow> 's \<Rightarrow> 's) \<Rightarrow> (string, 'w) omap \<Rightarrow> string list \<Rightarrow> 's \<times> nat \<times> nat \<Rightarrow> 's \<times> nat \<times> nat" where
  "stop_pass stop wanted [] acc = acc"
| "stop_pass stop wanted (i # ids) (s, rebound, stopped) =
     stop_pass stop wanted ids
       (stop i s, if map_of wanted i \<noteq> None then (rebound + 1, stopped) else (rebound, stopped + 1))"

fun start_pass :: "('s \<Rightarrow> string \<Rightarrow> 'e option) \<Rightarrow> (string \<Rightarrow> 'w \<Rightarrow> 's \<Rightarrow> 's) \<Rightarrow> (string \<times> 'w) list
    \<Rightarrow> 's \<times> nat \<times> nat \<Rightarrow> 's \<times> nat \<times> nat" where
  "start_pass table start [] acc = acc"
| "start_pass table start ((i, w) # ws) (s, unchanged, spawned) =
     start_pass table start ws
       (if table s i \<noteq> None then (s, unchanged + 1, spawned) else (start i w s, unchanged, spawned + 1))"

text \<open>The running tasks are the ones the table names, each under one id.\<close>

definition tasks_ok :: "(string \<Rightarrow> (uuid \<times> nat) option) \<Rightarrow> task list \<Rightarrow> bool" where
  "tasks_ok tbl ts \<longleftrightarrow>
     (\<forall>i u t. tbl i = Some (u, t) \<longrightarrow> t < length ts \<and> \<not> tk_stopped (ts ! t))
     \<and> (\<forall>t < length ts. \<not> tk_stopped (ts ! t) \<longrightarrow> (\<exists>i u. tbl i = Some (u, t)))
     \<and> (\<forall>i j u v t. tbl i = Some (u, t) \<longrightarrow> tbl j = Some (v, t) \<longrightarrow> i = j)"

text \<open>An id whose task is not the one wanted: gone, or wanted under another identity.\<close>

definition is_stale :: "(string, handle \<times> uuid) omap \<Rightarrow> string \<times> uuid \<Rightarrow> bool" where
  "is_stale wanted e = (case map_of wanted (fst e) of None \<Rightarrow> True | Some (h, u) \<Rightarrow> u \<noteq> snd e)"

text \<open>The identity and the handle of the task running under an id.\<close>

definition captured :: "(string \<Rightarrow> (uuid \<times> nat) option) \<Rightarrow> task list \<Rightarrow> string \<Rightarrow> (handle \<times> uuid) option" where
  "captured tbl ts i = map_option (\<lambda>(u, t). (tk_handle (ts ! t), u)) (tbl i)"

lemma stop_task_handle [simp]: "t < length ts \<Longrightarrow> tk_handle (stop_task b ts ! t) = tk_handle (ts ! t)"
  by (cases "b = t") (simp_all add: stop_task_def)

lemma tasks_ok_stop:
  assumes "tasks_ok tbl ts" and "tbl i = Some (u, t)"
  shows "tasks_ok (tbl(i := None)) (stop_task t ts)"
  using assms unfolding tasks_ok_def stop_task_def
  by (simp add: nth_list_update) (metis option.inject prod.inject)

lemma tasks_ok_start:
  assumes "tasks_ok tbl ts" and "tbl i = None"
  shows "tasks_ok (tbl(i \<mapsto> (u, length ts))) (ts @ [\<lparr>tk_handle = h, tk_stopped = False\<rparr>])"
proof -
  have "t < length ts" if "tbl j = Some (v, t)" for j v t using assms(1) that by (simp add: tasks_ok_def)
  then have new: "tbl j \<noteq> Some (v, length ts)" for j v by blast
  show ?thesis unfolding tasks_ok_def
  proof (intro conjI allI impI)
    fix t assume t: "t < length (ts @ [\<lparr>tk_handle = h, tk_stopped = False\<rparr>])"
      and live: "\<not> tk_stopped ((ts @ [\<lparr>tk_handle = h, tk_stopped = False\<rparr>]) ! t)"
    show "\<exists>j v. (tbl(i \<mapsto> (u, length ts))) j = Some (v, t)"
    proof (cases "t = length ts")
      case False
      then have "t < length ts" "\<not> tk_stopped (ts ! t)" using t live by (simp_all add: nth_append)
      then obtain j v where "tbl j = Some (v, t)" using assms(1) unfolding tasks_ok_def by blast
      then show ?thesis using assms(2) by (intro exI [of _ j] exI [of _ v]) auto
    qed auto
  qed (use assms new in \<open>auto simp: tasks_ok_def nth_append less_Suc_eq split: if_splits\<close>)
qed

locale task_set =
  fixes table :: "'s \<Rightarrow> string \<Rightarrow> (uuid \<times> nat) option"
    and tasks :: "'s \<Rightarrow> task list"
    and stop :: "string \<Rightarrow> 's \<Rightarrow> 's"
    and start :: "string \<Rightarrow> handle \<times> uuid \<Rightarrow> 's \<Rightarrow> 's"
  assumes table_stop: "table (stop i s) = (table s)(i := None)"
    and tasks_stop: "tasks (stop i s) = (case table s i of None \<Rightarrow> tasks s | Some (u, t) \<Rightarrow> stop_task t (tasks s))"
    and table_start: "table (start i (h, u) s) = (table s)(i \<mapsto> (u, length (tasks s)))"
    and tasks_start: "tasks (start i (h, u) s) = tasks s @ [\<lparr>tk_handle = h, tk_stopped = False\<rparr>]"
begin

abbreviation ok :: "'s \<Rightarrow> bool" where
  "ok s \<equiv> tasks_ok (table s) (tasks s)"

abbreviation seen :: "'s \<Rightarrow> string \<Rightarrow> (handle \<times> uuid) option" where
  "seen s \<equiv> captured (table s) (tasks s)"

lemma stop_ok: "ok s \<Longrightarrow> ok (stop i s)"
  unfolding table_stop tasks_stop
  by (cases "table s i") (auto simp: fun_upd_idem intro: tasks_ok_stop)

lemma started_ok: "ok s \<Longrightarrow> table s i = None \<Longrightarrow> ok (start i (h, u) s)"
  unfolding table_start tasks_start by (rule tasks_ok_start)

lemma stop_length: "length (tasks (stop i s)) = length (tasks s)"
  by (auto simp: tasks_stop stop_task_def split: option.split)

lemma stop_keeps_handles: "t < length (tasks s) \<Longrightarrow> tk_handle (tasks (stop i s) ! t) = tk_handle (tasks s ! t)"
  by (auto simp: tasks_stop split: option.split)

lemma table_bound: "ok s \<Longrightarrow> table s i = Some (u, t) \<Longrightarrow> t < length (tasks s)"
  by (simp add: tasks_ok_def)

lemma seen_stop: "ok s \<Longrightarrow> seen (stop i s) = (seen s)(i := None)"
  by (auto simp: captured_def table_stop fun_eq_iff stop_keeps_handles table_bound split: prod.splits
      intro!: option.map_cong0 dest: table_bound)

lemma seen_start: "ok s \<Longrightarrow> seen (start i w s) = (seen s)(i \<mapsto> w)"
proof
  fix j assume inv: "ok s"
  obtain h u where w: "w = (h, u)" by (cases w)
  show "seen (start i w s) j = ((seen s)(i \<mapsto> w)) j"
    unfolding w captured_def table_start tasks_start
    by (cases "table s j") (auto simp: nth_append dest: table_bound [OF inv])
qed

lemma stop_pass_facts:
  assumes "ok s" and "stop_pass stop wanted ids (s, a, b) = (s', a', b')"
  shows "ok s' \<and> seen s' = (\<lambda>i. if i \<in> set ids then None else seen s i)
    \<and> a' = a + length (filter (\<lambda>i. map_of wanted i \<noteq> None) ids)
    \<and> b' = b + length (filter (\<lambda>i. map_of wanted i = None) ids)"
  using assms
proof (induction ids arbitrary: s a b)
  case (Cons i ids)
  have "ok (stop i s)" using Cons.prems(1) by (rule stop_ok)
  note IH = Cons.IH [OF this]
  show ?case
  proof (cases "map_of wanted i")
    case None
    then show ?thesis using IH [of a "b + 1"] Cons.prems by (auto simp: seen_stop fun_eq_iff)
  next
    case (Some w)
    then show ?thesis using IH [of "a + 1" b] Cons.prems by (auto simp: seen_stop fun_eq_iff)
  qed
qed auto

lemma start_pass_facts:
  assumes "ok s" and "distinct (okeys ws)" and "start_pass table start ws (s, a, b) = (s', a', b')"
  shows "ok s' \<and> seen s' = (\<lambda>i. case seen s i of Some e \<Rightarrow> Some e | None \<Rightarrow> map_of ws i)
    \<and> a' = a + length (filter (\<lambda>i. seen s i \<noteq> None) (okeys ws))
    \<and> b' = b + length (filter (\<lambda>i. seen s i = None) (okeys ws))"
  using assms
proof (induction ws arbitrary: s a b)
  case (Cons e ws)
  obtain i w where e: "e = (i, w)" by (cases e)
  have i: "i \<notin> set (okeys ws)" "distinct (okeys ws)" using Cons.prems(2) e by auto
  show ?case
  proof (cases "table s i = None")
    case False
    then have "seen s i \<noteq> None" by (simp add: captured_def)
    then show ?thesis using Cons.IH [OF Cons.prems(1) i(2), of "a + 1" b] Cons.prems(3) e False
      by (auto simp: fun_eq_iff split: option.splits)
  next
    case True
    obtain h u where w: "w = (h, u)" by (cases w)
    have "ok (start i w s)" unfolding w using Cons.prems(1) True by (rule started_ok)
    note IH = Cons.IH [OF this i(2), of a "b + 1"]
    have none: "seen s i = None" using True by (simp add: captured_def)
    have "filter (\<lambda>j. seen (start i w s) j \<noteq> None) (okeys ws) = filter (\<lambda>j. seen s j \<noteq> None) (okeys ws)"
      "filter (\<lambda>j. seen (start i w s) j = None) (okeys ws) = filter (\<lambda>j. seen s j = None) (okeys ws)"
      using i(1) by (auto simp: seen_start [OF Cons.prems(1)] intro!: filter_cong)
    then show ?thesis using IH Cons.prems(3) e True none i(1)
      by (auto simp: fun_eq_iff seen_start [OF Cons.prems(1)] split: option.splits)
  qed
qed (auto simp: fun_eq_iff split: option.split)

text \<open>Both passes together, over the stale ids: the tasks that run afterwards and the counts.\<close>

lemma reconciled:
  assumes inv: "ok s" and dw: "distinct (okeys wanted)" and di: "distinct ids"
    and ids: "set ids = {i. \<exists>h u. seen s i = Some (h, u) \<and> is_stale wanted (i, u)}"
    and p1: "stop_pass stop wanted ids (s, 0, 0) = (s1, rebound, stopped)"
    and p2: "start_pass table start wanted (s1, 0, 0) = (s2, unchanged, spawned)"
  shows "ok s2" and "seen s2 i = (case map_of wanted i of
        None \<Rightarrow> None
      | Some (h, u) \<Rightarrow> (case seen s i of
            Some (h', u') \<Rightarrow> if u' = u then Some (h', u) else Some (h, u)
          | None \<Rightarrow> Some (h, u)))"
    and "spawned = rebound + length (filter (\<lambda>i. seen s i = None) (okeys wanted))"
    and "rebound = length (filter (\<lambda>i. map_of wanted i \<noteq> None) ids)"
    and "stopped = length (filter (\<lambda>i. map_of wanted i = None) ids)"
    and "unchanged = length (filter (\<lambda>i. seen s i \<noteq> None \<and> i \<notin> set ids) (okeys wanted))"
proof -
  note f1 = stop_pass_facts [OF inv p1]
  then have "ok s1" by blast
  note f2 = start_pass_facts [OF this dw p2]
  have seen1: "seen s1 i = (if i \<in> set ids then None else seen s i)" for i using f1 by (simp add: fun_eq_iff)
  show "ok s2" using f2 by blast
  show "seen s2 i = (case map_of wanted i of
        None \<Rightarrow> None
      | Some (h, u) \<Rightarrow> (case seen s i of
            Some (h', u') \<Rightarrow> if u' = u then Some (h', u) else Some (h, u)
          | None \<Rightarrow> Some (h, u)))"
    using f2 unfolding ids is_stale_def by (auto simp: seen1 ids is_stale_def split: option.splits)
  show reb: "rebound = length (filter (\<lambda>i. map_of wanted i \<noteq> None) ids)" using f1 by simp
  show "stopped = length (filter (\<lambda>i. map_of wanted i = None) ids)" using f1 by simp
  have "unchanged = length (filter (\<lambda>i. seen s1 i \<noteq> None) (okeys wanted))" using f2 by simp
  then show "unchanged = length (filter (\<lambda>i. seen s i \<noteq> None \<and> i \<notin> set ids) (okeys wanted))"
    unfolding seen1 by (auto intro!: arg_cong [where f = length] filter_cong split: if_splits)
  have "spawned = card ({i. seen s1 i = None} \<inter> set (okeys wanted))"
    using f2 unfolding distinct_length_filter [OF dw] by simp
  also have "{i. seen s1 i = None} \<inter> set (okeys wanted)
      = ({i. seen s i = None} \<inter> set (okeys wanted)) \<union> ({i. map_of wanted i \<noteq> None} \<inter> set ids)"
    using dom_map_of_keys [of wanted] by (auto simp: seen1 ids simp del: not_None_eq)
  also have "card \<dots> = card ({i. seen s i = None} \<inter> set (okeys wanted)) + card ({i. map_of wanted i \<noteq> None} \<inter> set ids)"
    by (rule card_Un_disjoint) (simp, simp, auto simp: ids)
  finally show "spawned = rebound + length (filter (\<lambda>i. seen s i = None) (okeys wanted))"
    unfolding reb distinct_length_filter [OF dw] distinct_length_filter [OF di] by simp
qed

text \<open>
  If the handles wanted never move under an unchanged identity, the tasks that run afterwards are
  exactly the wanted ones.
\<close>

lemma in_step:
  assumes "\<And>i. seen s2 i = (case map_of wanted i of
        None \<Rightarrow> None
      | Some (h, u) \<Rightarrow> (case seen s i of
            Some (h', u') \<Rightarrow> if u' = u then Some (h', u) else Some (h, u)
          | None \<Rightarrow> Some (h, u)))"
    and "\<And>i h h' u. seen s i = Some (h', u) \<Longrightarrow> map_of wanted i = Some (h, u) \<Longrightarrow> h' = h"
  shows "seen s2 = map_of wanted"
  using assms by (auto simp: fun_eq_iff split: option.splits)

end


section \<open>The keepalive supervisor\<close>

record warm =
  wm_device :: uuid
  wm_task :: nat

record keepalive_change =
  kc_started :: nat
  kc_stopped :: nat
  kc_rebound :: nat
  kc_unchanged :: nat

record sis_keepalive =
  ka_warm :: "(string, warm) omap"
  ka_tasks :: "task list"

definition keepalive_entry :: "sis_keepalive \<Rightarrow> string \<Rightarrow> (uuid \<times> nat) option" where
  "keepalive_entry ka i = map_option (\<lambda>w. (wm_device w, wm_task w)) (map_of (ka_warm ka) i)"

definition keepalive_stop :: "string \<Rightarrow> sis_keepalive \<Rightarrow> sis_keepalive" where
  "keepalive_stop i ka =
     (case map_of (ka_warm ka) i of
        Some w \<Rightarrow> ka\<lparr>ka_warm := odel i (ka_warm ka), ka_tasks := stop_task (wm_task w) (ka_tasks ka)\<rparr>
      | None \<Rightarrow> ka)"

definition keepalive_start :: "string \<Rightarrow> handle \<times> uuid \<Rightarrow> sis_keepalive \<Rightarrow> sis_keepalive" where
  "keepalive_start i w ka =
     ka\<lparr>ka_warm := oput i \<lparr>wm_device = snd w, wm_task = length (ka_tasks ka)\<rparr> (ka_warm ka),
        ka_tasks := ka_tasks ka @ [\<lparr>tk_handle = fst w, tk_stopped = False\<rparr>]\<rparr>"

text \<open>A device is given by its handle and its configuration.\<close>

definition eager_devices :: "(handle \<times> device_config) list \<Rightarrow> (string, handle \<times> uuid) omap" where
  "eager_devices devices =
     ocollect (map (\<lambda>(h, c). (dc_id c, h, dc_uuid c)) (filter (\<lambda>(h, c). dc_eager c) devices))"

definition keepalive_apply :: "(handle \<times> device_config) list \<Rightarrow> sis_keepalive \<Rightarrow> sis_keepalive \<times> keepalive_change" where
  "keepalive_apply devices ka =
     (let wanted = eager_devices devices;
          stale = okeys (filter (\<lambda>(i, w). is_stale wanted (i, wm_device w)) (ka_warm ka));
          (ka, rebound, stopped) = stop_pass keepalive_stop wanted stale (ka, 0, 0);
          (ka, unchanged, spawned) = start_pass keepalive_entry keepalive_start wanted (ka, 0, 0)
      in (ka, \<lparr>kc_started = spawned - rebound, kc_stopped = stopped, kc_rebound = rebound,
               kc_unchanged = unchanged\<rparr>))"

definition empty_keepalive :: sis_keepalive where
  "empty_keepalive = \<lparr>ka_warm = [], ka_tasks = []\<rparr>"

definition keepalive_spawn :: "(handle \<times> device_config) list \<Rightarrow> sis_keepalive" where
  "keepalive_spawn devices = fst (keepalive_apply devices empty_keepalive)"

definition keepalive_len :: "sis_keepalive \<Rightarrow> nat" where
  "keepalive_len ka = length (ka_warm ka)"

text \<open>\<open>Drop\<close>: every task in the map is aborted.\<close>

definition keepalive_drop :: "sis_keepalive \<Rightarrow> task list" where
  "keepalive_drop ka = foldl (\<lambda>ts w. stop_task (wm_task w) ts) (ka_tasks ka) (ovals (ka_warm ka))"

interpretation ka: task_set keepalive_entry ka_tasks keepalive_stop keepalive_start
proof
  show "keepalive_entry (keepalive_stop i s) = (keepalive_entry s)(i := None)" for i s
    by (auto simp: keepalive_entry_def keepalive_stop_def fun_eq_iff split: option.split)
  show "ka_tasks (keepalive_stop i s) = (case keepalive_entry s i of None \<Rightarrow> ka_tasks s
      | Some (u, t) \<Rightarrow> stop_task t (ka_tasks s))" for i s
    by (simp add: keepalive_entry_def keepalive_stop_def split: option.split)
  show "keepalive_entry (keepalive_start i (h, u) s) = (keepalive_entry s)(i \<mapsto> (u, length (ka_tasks s)))" for i h u s
    by (auto simp: keepalive_entry_def keepalive_start_def fun_eq_iff)
  show "ka_tasks (keepalive_start i (h, u) s) = ka_tasks s @ [\<lparr>tk_handle = h, tk_stopped = False\<rparr>]" for i h u s
    by (simp add: keepalive_start_def)
qed


section \<open>The keep-warm loop\<close>

text \<open>
  The loop of one task, over \<open>n\<close> probes: each probe is reported with its trigger and outcome; the
  next one waits the interval of that outcome, and the loop returns where the interval is unset.
\<close>

record probe_event =
  pe_trigger :: string
  pe_warm :: bool
  pe_at :: instant

fun keep_warm_loop :: "winnow \<Rightarrow> nat \<Rightarrow> string \<Rightarrow> device \<Rightarrow> world \<Rightarrow> probe_event list \<times> bool \<times> device \<times> world" where
  "keep_warm_loop wn 0 trigger dev w = ([], False, dev, w)"
| "keep_warm_loop wn (Suc n) trigger dev w =
     (case probe (query_instruction wn Q_Firmware) dev w of
        (r, dev', w') \<Rightarrow>
          let warm = (case r of Inr v \<Rightarrow> True | Inl e \<Rightarrow> False);
              event = \<lparr>pe_trigger = trigger, pe_warm = warm, pe_at = wd_now w'\<rparr>;
              (wait, next_trigger) =
                (if warm then (dc_sis_keepalive (dv_config dev), ''periodic'')
                 else (dc_eager_retry (dv_config dev), ''retry''))
          in case wait of
               None \<Rightarrow> ([event], True, dev', w')
             | Some interval \<Rightarrow>
                 (case keep_warm_loop wn n next_trigger dev' (w'\<lparr>wd_now := wd_now w' + interval\<rparr>) of
                    (events, ended, dev'', w'') \<Rightarrow> (event # events, ended, dev'', w'')))"

definition keep_warm :: "winnow \<Rightarrow> nat \<Rightarrow> device \<Rightarrow> world \<Rightarrow> probe_event list \<times> bool \<times> device \<times> world" where
  "keep_warm wn n dev w = keep_warm_loop wn n ''eager'' dev w"



section \<open>Properties\<close>

definition keepalive_ok :: "sis_keepalive \<Rightarrow> bool" where
  "keepalive_ok ka \<longleftrightarrow> owf (ka_warm ka) \<and> tasks_ok (keepalive_entry ka) (ka_tasks ka)"

text \<open>The devices a fleet keeps warm, by id: the handle and identity a task must have captured.\<close>

definition kept_warm :: "sis_keepalive \<Rightarrow> string \<Rightarrow> (handle \<times> uuid) option" where
  "kept_warm ka = captured (keepalive_entry ka) (ka_tasks ka)"

lemma owf_keepalive_stop: "owf (ka_warm ka) \<Longrightarrow> owf (ka_warm (keepalive_stop i ka))"
  by (auto simp: keepalive_stop_def intro: owf_intros split: option.split)

lemma owf_keepalive_start: "owf (ka_warm ka) \<Longrightarrow> owf (ka_warm (keepalive_start i w ka))"
  by (auto simp: keepalive_start_def intro: owf_intros)

lemma stop_pass_keeps:
  assumes "\<And>i s. P s \<Longrightarrow> P (stop i s)" and "P s"
  shows "P (fst (stop_pass stop wanted ids (s, a, b)))"
  using assms(2) by (induction ids arbitrary: s a b) (simp_all add: assms(1) split: if_split)

lemma start_pass_keeps:
  assumes "\<And>i w s. P s \<Longrightarrow> P (start i w s)" and "P s"
  shows "P (fst (start_pass table start ws (s, a, b)))"
  using assms(2)
proof (induction ws arbitrary: s a b)
  case (Cons e ws)
  then show ?case by (cases e) (simp add: assms(1))
qed simp

lemma stale_ids:
  assumes "owf m" and "\<And>i. tbl i = map_option f (map_of m i)"
  shows "distinct (okeys (filter (\<lambda>(i, w). P i (fst (f w))) m))"
    and "set (okeys (filter (\<lambda>(i, w). P i (fst (f w))) m)) = {i. \<exists>h u. captured tbl ts i = Some (h, u) \<and> P i u}"
proof -
  show "distinct (okeys (filter (\<lambda>(i, w). P i (fst (f w))) m))"
    using owf_distinct [OF owf_filter [OF assms(1)]] .
  have "i \<in> set (okeys (filter (\<lambda>(i, w). P i (fst (f w))) m)) \<longleftrightarrow> (\<exists>w. map_of m i = Some w \<and> P i (fst (f w)))" for i
    using owf_mem_iff [OF assms(1)] by force
  moreover have "(\<exists>h u. captured tbl ts i = Some (h, u) \<and> P i u) \<longleftrightarrow> (\<exists>w. map_of m i = Some w \<and> P i (fst (f w)))" for i
    by (cases "map_of m i") (auto simp: captured_def assms(2) split: prod.splits)
  ultimately show "set (okeys (filter (\<lambda>(i, w). P i (fst (f w))) m)) = {i. \<exists>h u. captured tbl ts i = Some (h, u) \<and> P i u}"
    by blast
qed

lemma keepalive_apply_facts:
  assumes "keepalive_ok ka" and "keepalive_apply devices ka = (ka', ch)"
  shows "keepalive_ok ka'"
    and "kept_warm ka' i = (case map_of (eager_devices devices) i of
        None \<Rightarrow> None
      | Some (h, u) \<Rightarrow> (case kept_warm ka i of
            Some (h', u') \<Rightarrow> if u' = u then Some (h', u) else Some (h, u)
          | None \<Rightarrow> Some (h, u)))"
    and "kc_started ch = length (filter (\<lambda>i. kept_warm ka i = None) (okeys (eager_devices devices)))"
proof -
  let ?w = "eager_devices devices"
  define stale where "stale = okeys (filter (\<lambda>(i, w). is_stale ?w (i, wm_device w)) (ka_warm ka))"
  obtain s1 rebound stopped where p1: "stop_pass keepalive_stop ?w stale (ka, 0, 0) = (s1, rebound, stopped)"
    by (metis prod_cases3)
  obtain s2 unchanged spawned where p2: "start_pass keepalive_entry keepalive_start ?w (s1, 0, 0) = (s2, unchanged, spawned)"
    by (metis prod_cases3)
  have res: "ka' = s2" "kc_started ch = spawned - rebound"
    using assms(2) p1 p2 unfolding keepalive_apply_def Let_def stale_def [symmetric] by auto
  have wf: "owf (ka_warm ka)" and inv: "tasks_ok (keepalive_entry ka) (ka_tasks ka)"
    using assms(1) by (simp_all add: keepalive_ok_def)
  have dw: "distinct (okeys ?w)" by (simp add: eager_devices_def owf_distinct owf_intros)
  note st = stale_ids [OF wf keepalive_entry_def, where P = "\<lambda>i u. is_stale ?w (i, u)", unfolded fst_conv,
      folded stale_def]
  note rec = ka.reconciled [OF inv dw st p1 p2]
  have "owf (ka_warm s2)"
    using start_pass_keeps [where P = "\<lambda>s. owf (ka_warm s)" and start = keepalive_start and s = s1
          and table = keepalive_entry and ws = ?w and a = 0 and b = 0, OF owf_keepalive_start]
      stop_pass_keeps [where P = "\<lambda>s. owf (ka_warm s)" and stop = keepalive_stop and wanted = ?w
          and ids = stale and a = 0 and b = 0, OF owf_keepalive_stop wf]
    by (simp add: p1 p2)
  then show "keepalive_ok ka'" using rec(1) by (simp add: keepalive_ok_def res)
  show "kept_warm ka' i = (case map_of ?w i of
        None \<Rightarrow> None
      | Some (h, u) \<Rightarrow> (case kept_warm ka i of
            Some (h', u') \<Rightarrow> if u' = u then Some (h', u) else Some (h, u)
          | None \<Rightarrow> Some (h, u)))"
    using rec(2) [of i] unfolding kept_warm_def res(1) .
  show "kc_started ch = length (filter (\<lambda>i. kept_warm ka i = None) (okeys ?w))"
    unfolding res(2) rec(3) by (simp add: kept_warm_def)
qed


lemma connect_time: "wd_now w \<le> wd_now (snd (connect config w))"
  by (auto simp: connect_def Let_def split: list.splits prod.splits sum.splits)

lemma dial_time:
  assumes "dial config mode lk w = (r, lk', w')"
  shows "wd_now w \<le> wd_now w'"
  using assms connect_time [of w config]
  by (cases "held mode lk w") (auto simp: dial_held dial_through split: prod.splits sum.splits)

lemma exchanged_time: "wd_now w \<le> wd_now (exchanged i t w)"
  by (simp add: exchanged_def)

lemma exec_fresh_time:
  assumes "lk_conn lk = None" and "exec_loop config i mode rec lk w = (r, lk', w')"
  shows "wd_now w \<le> wd_now w'"
proof -
  obtain r1 lk1 w1 where d: "dial config mode lk w = (r1, lk1, w1)" by (metis prod_cases3)
  note w1 = dial_time [OF d]
  show ?thesis
  proof (cases r1)
    case (Inl e)
    then show ?thesis using assms d w1 by (simp add: exec_fresh)
  next
    case (Inr ct)
    then show ?thesis using assms d le_trans [OF w1 exchanged_time]
      by (cases rule: controller_run_cases [of ct i]) (auto simp: exec_fresh split: controller_error.splits)
  qed
qed

lemma exec_time:
  assumes "exec_loop config i mode False lk w = (r, lk', w')"
  shows "wd_now w \<le> wd_now w'"
proof (cases "lk_conn lk")
  case None
  then show ?thesis using assms by (rule exec_fresh_time)
next
  case (Some ct)
  show ?thesis
  proof (cases rule: controller_run_cases [of ct i])
    case (Broken e ct' t)
    then have "exec_loop config i mode True (lk\<lparr>lk_conn := None\<rparr>) (exchanged i t w) = (r, lk', w')"
      using assms by (cases e) (auto simp: exec_cached [OF Some])
    from exec_fresh_time [OF _ this] show ?thesis using exchanged_time [of w i t] by simp
  qed (use assms exchanged_time in \<open>auto simp: exec_cached [OF Some]\<close>)
qed

lemma probe_facts:
  assumes "probe i dev w = (r, dev', w')"
  shows "dv_config dev' = dv_config dev" and "wd_now w \<le> wd_now w'"
  using assms exec_time by (auto simp: probe_def exec_def split: prod.splits)


definition next_wait :: "device_config \<Rightarrow> bool \<Rightarrow> duration option" where
  "next_wait c warm = (if warm then dc_sis_keepalive c else dc_eager_retry c)"

text \<open>One turn of the loop.\<close>

lemma keep_warm_turn:
  assumes "keep_warm_loop wn (Suc n) trigger dev w = (events, ended, dev', w')"
  obtains e :: probe_event where "pe_trigger e = trigger" "wd_now w \<le> pe_at e"
    "next_wait (dv_config dev) (pe_warm e) = None" "events = [e]" "ended"
  | e :: probe_event and wait and dev1 :: device and w1 :: world and rest where "pe_trigger e = trigger" "wd_now w \<le> pe_at e" "dv_config dev1 = dv_config dev"
    "next_wait (dv_config dev) (pe_warm e) = Some wait" "wd_now w1 = pe_at e + wait" "events = e # rest"
    "keep_warm_loop wn n (if pe_warm e then ''periodic'' else ''retry'') dev1 w1 = (rest, ended, dev', w')"
proof -
  obtain r dev1 w1 where p: "probe (query_instruction wn Q_Firmware) dev w = (r, dev1, w1)" by (metis prod_cases3)
  define warm where "warm = (case r of Inr v \<Rightarrow> True | Inl e \<Rightarrow> False)"
  define e where "e = \<lparr>pe_trigger = trigger, pe_warm = warm, pe_at = wd_now w1\<rparr>"
  note probe = probe_facts [OF p]
  have turn: "(case next_wait (dv_config dev) warm of
        None \<Rightarrow> ([e], True, dev1, w1)
      | Some wait \<Rightarrow>
          (case keep_warm_loop wn n (if warm then ''periodic'' else ''retry'') dev1 (w1\<lparr>wd_now := wd_now w1 + wait\<rparr>) of
             (events, ended, dev', w') \<Rightarrow> (e # events, ended, dev', w'))) = (events, ended, dev', w')"
    using assms unfolding keep_warm_loop.simps p prod.case Let_def warm_def [symmetric] e_def [symmetric]
    by (simp add: next_wait_def split: if_splits)
  show thesis
  proof (cases "next_wait (dv_config dev) warm")
    case None
    then show thesis using that(1) [of e] turn probe by (auto simp: e_def)
  next
    case (Some wait)
    obtain rest ended' d' v' where k: "keep_warm_loop wn n (if warm then ''periodic'' else ''retry'') dev1
        (w1\<lparr>wd_now := wd_now w1 + wait\<rparr>) = (rest, ended', d', v')" by (metis prod_cases4)
    then have "events = e # rest" "ended' = ended" "d' = dev'" "v' = w'" using turn Some by auto
    then show thesis using that(2) [of e dev1 wait "w1\<lparr>wd_now := wd_now w1 + wait\<rparr>" rest] k Some probe
      by (simp add: e_def)
  qed
qed

lemma keep_warm_loop_cadence:
  assumes "keep_warm_loop wn n trigger dev w = (events, ended, dev', w')" and "c = dv_config dev"
  shows "(events \<noteq> [] \<longrightarrow> pe_trigger (hd events) = trigger \<and> wd_now w \<le> pe_at (hd events))
    \<and> (\<forall>k. Suc k < length events \<longrightarrow>
         pe_trigger (events ! Suc k) = (if pe_warm (events ! k) then ''periodic'' else ''retry'')
         \<and> (\<exists>wait. next_wait c (pe_warm (events ! k)) = Some wait \<and> pe_at (events ! k) + wait \<le> pe_at (events ! Suc k)))
    \<and> (if ended then events \<noteq> [] \<and> next_wait c (pe_warm (last events)) = None else length events = n)"
  using assms
proof (induction n arbitrary: trigger dev w events)
  case (Suc n)
  from Suc.prems(1) show ?case
  proof (cases rule: keep_warm_turn)
    case (1 e)
    then show ?thesis using Suc.prems(2) by simp
  next
    case (2 e wait dev1 w1 rest)
    note IH = Suc.IH [OF 2(7), unfolded 2(3), OF Suc.prems(2)]
    have "pe_trigger ((e # rest) ! Suc k) = (if pe_warm ((e # rest) ! k) then ''periodic'' else ''retry'')
         \<and> (\<exists>wait. next_wait c (pe_warm ((e # rest) ! k)) = Some wait
              \<and> pe_at ((e # rest) ! k) + wait \<le> pe_at ((e # rest) ! Suc k))"
      if "Suc k < length (e # rest)" for k
    proof (cases k)
      case 0
      then have "rest \<noteq> []" using that by auto
      then have "hd rest = rest ! 0" by (simp add: hd_conv_nth)
      then show ?thesis using IH \<open>rest \<noteq> []\<close> 2(4,5) 0 Suc.prems(2) by auto
    next
      case (Suc m)
      then show ?thesis using IH that by auto
    qed
    then show ?thesis using IH 2 Suc.prems(2) by (auto split: if_splits)
  qed
qed auto

text \<open>
  C32. The keep-warm task probes first because it was started (\<open>eager\<close>) and from then on at the
  cadence of the last outcome: after an answer it waits the keepalive interval and probes again as
  \<open>periodic\<close>, after any failure it waits the retry interval and probes as \<open>retry\<close>. It ends
  exactly when the interval it would wait is unset; with both intervals set it never ends.
\<close>

theorem keep_warm_cadence:
  assumes "keep_warm wn n dev w = (events, ended, dev', w')" and "c = dv_config dev"
  shows "(events \<noteq> [] \<longrightarrow> pe_trigger (hd events) = ''eager'' \<and> wd_now w \<le> pe_at (hd events))
    \<and> (\<forall>k. Suc k < length events \<longrightarrow>
         pe_trigger (events ! Suc k) = (if pe_warm (events ! k) then ''periodic'' else ''retry'')
         \<and> (\<exists>wait. next_wait c (pe_warm (events ! k)) = Some wait \<and> pe_at (events ! k) + wait \<le> pe_at (events ! Suc k)))
    \<and> (if ended then events \<noteq> [] \<and> next_wait c (pe_warm (last events)) = None else length events = n)
    \<and> (dc_sis_keepalive c \<noteq> None \<and> dc_eager_retry c \<noteq> None \<longrightarrow> \<not> ended \<and> length events = n)"
  using keep_warm_loop_cadence [OF assms(1) [unfolded keep_warm_def] assms(2)]
  by (auto simp: next_wait_def split: if_splits)

theorem keep_warm_cadence_witness:
  "\<exists>events dev' w'. keep_warm plain_winnow 3 demo_device demo_world = (events, False, dev', w') \<and> length events = 3"
proof -
  obtain events ended dev' w' where k: "keep_warm plain_winnow 3 demo_device demo_world = (events, ended, dev', w')"
    by (metis prod_cases4)
  have "dc_sis_keepalive (dv_config demo_device) \<noteq> None \<and> dc_eager_retry (dv_config demo_device) \<noteq> None"
    by (simp add: demo_device_def new_device_def with_auto_disabled_def plain_device_def)
  with keep_warm_cadence [OF k refl] k show ?thesis by auto
qed

end
