(* ===== verification/Sis_Admission.thy ===== *)
theory Sis_Admission
  imports Sis_Types
begin

text \<open>
  \<^verbatim>\<open>sismatic-store\<close>: the pure policy of the write side (\<^verbatim>\<open>outbox.rs\<close>), the group
  expectation rules (\<^verbatim>\<open>group.rs\<close>) and the mapping of store failures onto the wire
  envelope (\<^verbatim>\<open>error.rs\<close>).
\<close>

named_theorems admission_simps \<open>equations of the admission policy\<close>


section \<open>Verbs and the admission table\<close>

datatype verb = Start | Stop | Pause | WriteMetadata | WriteSetting

fun verb_of :: "intent \<Rightarrow> verb" where
  "verb_of StartRecording = Start"
| "verb_of StopRecording = Stop"
| "verb_of PauseRecording = Pause"
| "verb_of (SetMetadata field value) = WriteMetadata"
| "verb_of (SetSetting field value) = WriteSetting"

fun admit :: "desired_recording_state \<Rightarrow> verb \<Rightarrow> rejection + desired_recording_state" where
  "admit Idle Start = Inr Recording"
| "admit Idle Stop = Inl NotRecording"
| "admit Idle Pause = Inl NotRecording"
| "admit Idle WriteMetadata = Inr Idle"
| "admit Idle WriteSetting = Inr Idle"
| "admit Recording Start = Inl AlreadyRecording"
| "admit Recording Stop = Inr Idle"
| "admit Recording Pause = Inr Paused"
| "admit Recording WriteMetadata = Inl MetadataFrozen"
| "admit Recording WriteSetting = Inr Recording"
| "admit Paused Start = Inr Recording"
| "admit Paused Stop = Inr Idle"
| "admit Paused Pause = Inl AlreadyPaused"
| "admit Paused WriteMetadata = Inl MetadataFrozen"
| "admit Paused WriteSetting = Inr Paused"

definition opens_recording :: "desired_recording_state \<Rightarrow> desired_recording_state \<Rightarrow> bool" where
  "opens_recording pre post \<longleftrightarrow> pre = Idle \<and> post = Recording"

fun rollback :: "desired_recording_state \<Rightarrow> verb \<Rightarrow> desired_recording_state" where
  "rollback Recording Start = Idle"
| "rollback Idle Stop = Recording"
| "rollback Paused Pause = Recording"
| "rollback other v = other"

definition epoch_of :: "desired_recording_state \<Rightarrow> desired_recording_state \<Rightarrow> nat \<Rightarrow> nat" where
  "epoch_of pre post epoch = (case pre of Idle \<Rightarrow> epoch + 1 | _ \<Rightarrow> epoch)"

fun reconcile :: "desired_recording_state \<Rightarrow> recording_state \<Rightarrow> desired_recording_state" where
  "reconcile p Unknown = p"
| "reconcile p Stopped = Idle"
| "reconcile p Started = Recording"
| "reconcile p PausedState = Paused"


section \<open>Submissions and what the port returns\<close>

record barrier_policy =
  bp_timeout :: nat
  bp_on_timeout :: barrier

record submission =
  su_ids :: "write_id list"
  su_targets :: "device_id list"
  su_group :: "group_id option"
  su_batch :: "batch_id option"
  su_barrier :: "barrier_policy option"
  su_intent :: intent
  su_at :: timestamp
  su_key :: "string option"

datatype submit_error =
    Rejected device_id rejection desired_recording_state
  | Malformed string
  | Backend string

datatype store_error = BackendError string

datatype outcome = OSucceeded read_value | OFailed string

datatype claim = One write_record | Batch batch_id "write_record list"


section \<open>Group expectations\<close>

definition RECORDING_STATE_FIELD :: string where
  "RECORDING_STATE_FIELD = ''RUNNING_STATE''"

fun expects :: "intent \<Rightarrow> field_name \<times> read_value" where
  "expects StartRecording = (RECORDING_STATE_FIELD, State Started)"
| "expects StopRecording = (RECORDING_STATE_FIELD, State Stopped)"
| "expects PauseRecording = (RECORDING_STATE_FIELD, State PausedState)"
| "expects (SetMetadata field value) = (field, Text value)"
| "expects (SetSetting field value) = (field, Text value)"

definition flag_of :: "string \<Rightarrow> bool option" where
  "flag_of text =
     (let t = to_ascii_lowercase text in
      if t \<in> set [''1'', ''true'', ''on'', ''yes''] then Some True
      else if t \<in> set [''0'', ''false'', ''off'', ''no''] then Some False
      else None)"

fun state_name :: "recording_state \<Rightarrow> string" where
  "state_name Stopped = ''stopped''"
| "state_name Started = ''started''"
| "state_name PausedState = ''paused''"
| "state_name Unknown = ''unknown''"

fun matches_text :: "string \<Rightarrow> read_value \<Rightarrow> bool" where
  "matches_text want (Text got) = (want = got)"
| "matches_text want (Version got) = (want = got)"
| "matches_text want (Ack got) = (want = got)"
| "matches_text want (Port got) = (parse_uint want = Some got)"
| "matches_text want (Number got) = (parse_uint want = Some got)"
| "matches_text want (Flag got) = (flag_of want = Some got)"
| "matches_text want (Mac got) = eq_ignore_ascii_case want got"
| "matches_text want (State got) = eq_ignore_ascii_case want (state_name got)"
| "matches_text want (Alarms as) = False"

definition satisfies :: "read_value \<Rightarrow> read_value \<Rightarrow> bool" where
  "satisfies expected observed =
     (if expected = observed then True
      else case expected of
             Text want \<Rightarrow> matches_text (trim want) observed
           | _ \<Rightarrow> False)"


section \<open>Store failures on the wire\<close>

fun desired_state_name :: "desired_recording_state \<Rightarrow> string" where
  "desired_state_name Idle = ''idle''"
| "desired_state_name Recording = ''recording''"
| "desired_state_name Paused = ''paused''"

fun show_read_error :: "store_error \<Rightarrow> string" where
  "show_read_error (BackendError e) = ''store read failed: '' @ e"

fun show_write_error :: "store_error \<Rightarrow> string" where
  "show_write_error (BackendError e) = ''store write failed: '' @ e"

definition api_error_of_read :: "store_error \<Rightarrow> api_error" where
  "api_error_of_read e = api_coded Internal (show_read_error e)"

definition api_error_of_write :: "store_error \<Rightarrow> api_error" where
  "api_error_of_write e = api_coded Internal (show_write_error e)"

fun api_error_of_submit :: "submit_error \<Rightarrow> api_error" where
  "api_error_of_submit (Rejected device rej desired) =
     api_rejected rej (show_rejection rej @ '' (device '' @ [CHR 0x27] @ device @ [CHR 0x27]
       @ '', desired_recording_state: '' @ desired_state_name desired @ '')'')"
| "api_error_of_submit (Malformed msg) = api_coded Internal (''malformed submission: '' @ msg)"
| "api_error_of_submit (Backend msg) = api_coded Internal msg"


section \<open>The policy\<close>

text \<open>A verb's admission is a total decision, and every admitted verb but the two writes moves.\<close>

lemma admit_metadata_iff: "admit s WriteMetadata = Inr s' \<longleftrightarrow> s = Idle \<and> s' = Idle"
  by (cases s) auto

lemma admit_setting [simp]: "admit s WriteSetting = Inr s"
  by (cases s) auto

lemma admit_cases:
  assumes "admit s v = Inr s'"
  obtains "v = Start" "s \<noteq> Recording" "s' = Recording"
    | "v = Stop" "s \<noteq> Idle" "s' = Idle"
    | "v = Pause" "s = Recording" "s' = Paused"
    | "v = WriteMetadata" "s = Idle" "s' = Idle"
    | "v = WriteSetting" "s' = s"
  using assms by (cases s; cases v) auto

lemma rollback_writes [simp]:
  "rollback s WriteMetadata = s" "rollback s WriteSetting = s"
  by (cases s; simp)+

lemma opens_recording_simps [simp]:
  "opens_recording Idle Recording"
  "opens_recording Idle s \<longleftrightarrow> s = Recording"
  "\<not> opens_recording Recording s" "\<not> opens_recording Paused s"
  by (auto simp: opens_recording_def)

end
