(* ===== verification/Sis_Outbox.thy ===== *)
theory Sis_Outbox
  imports Sis_Admission "HOL-Library.Sublist"
begin

text \<open>
  \<^verbatim>\<open>sismatic-store-memory/src/outbox.rs\<close>: the in-memory outbox behind the
  \<open>WriteSubmit\<close>, \<open>WriteLog\<close>, \<open>WriteDrain\<close> and \<open>GroupState\<close> ports. Every method runs
  under one mutex, so each is one function from the state it finds to the state it
  leaves and what it returns. The operations are in this theory, their invariants and
  their correctness in \<open>Sis_Outbox_Inv\<close>.

  \<open>chrono\<close> is not part of the repository: the three of its functions the outbox calls
  are the fields of the parameter record \<open>chrono\<close>. Instants and durations are whole
  nanoseconds.
\<close>

named_theorems outbox_defs \<open>definitions of the outbox operations\<close>


section \<open>Clock functions\<close>

record chrono =
  parse_from_rfc3339 :: "string \<Rightarrow> int option"
  duration_from_std :: "nat \<Rightarrow> int option"
  to_rfc3339_millis :: "int \<Rightarrow> string"

definition delay_from :: "chrono \<Rightarrow> timestamp \<Rightarrow> nat \<Rightarrow> timestamp" where
  "delay_from ch at delay =
     (case parse_from_rfc3339 ch at of
        None \<Rightarrow> at
      | Some parsed \<Rightarrow>
          (case duration_from_std ch delay of
             None \<Rightarrow> at
           | Some d \<Rightarrow> to_rfc3339_millis ch (parsed + d)))"

definition elapsed_past :: "chrono \<Rightarrow> timestamp \<Rightarrow> nat \<Rightarrow> timestamp \<Rightarrow> bool" where
  "elapsed_past ch armed_at timeout now =
     (case (parse_from_rfc3339 ch armed_at, parse_from_rfc3339 ch now) of
        (Some armed, Some n) \<Rightarrow>
          (case duration_from_std ch timeout of
             None \<Rightarrow> False
           | Some t \<Rightarrow> armed + t < n)
      | _ \<Rightarrow> False)"


section \<open>State\<close>

record device_log =
  dl_desired :: desired_recording_state
  dl_epoch :: nat
  dl_queue :: "write_id list"
  dl_history :: "write_id list"
  dl_keys :: "(string, write_id) omap"

definition default_log :: device_log where
  "default_log = \<lparr>dl_desired = Idle, dl_epoch = 0, dl_queue = [], dl_history = [], dl_keys = []\<rparr>"

datatype gate = Waiting | Open | Abandoned

record batch =
  ba_members :: "device_id list"
  ba_ready :: "device_id list"
  ba_armed_at :: timestamp
  ba_barrier :: barrier_policy
  ba_gate :: gate

record outbox =
  ob_logs :: "(device_id, device_log) omap"
  ob_batches :: "(batch_id, batch) omap"
  ob_groups :: "(group_id, (field_name, group_expectation) omap) omap"
  ob_records :: "(write_id, write_record) omap"
  ob_max_attempts :: nat
  ob_backoff :: nat

definition DEFAULT_BACKOFF :: nat where
  "DEFAULT_BACKOFF = 500 * 10 ^ 6"

definition with_max_attempts :: "nat \<Rightarrow> outbox" where
  "with_max_attempts n =
     \<lparr>ob_logs = [], ob_batches = [], ob_groups = [], ob_records = [],
      ob_max_attempts = max n 1, ob_backoff = DEFAULT_BACKOFF\<rparr>"

definition set_max_attempts :: "nat \<Rightarrow> outbox \<Rightarrow> outbox" where
  "set_max_attempts n ob = ob\<lparr>ob_max_attempts := max n 1\<rparr>"

definition with_backoff :: "nat \<Rightarrow> outbox \<Rightarrow> outbox" where
  "with_backoff b ob = ob\<lparr>ob_backoff := b\<rparr>"

definition log_of :: "outbox \<Rightarrow> device_id \<Rightarrow> device_log" where
  "log_of ob d = (case map_of (ob_logs ob) d of None \<Rightarrow> default_log | Some l \<Rightarrow> l)"

definition device_of :: "outbox \<Rightarrow> write_id \<Rightarrow> device_id option" where
  "device_of ob i = map_option wr_device (map_of (ob_records ob) i)"


section \<open>Submission\<close>

definition accepted_of :: "write_record \<Rightarrow> accepted" where
  "accepted_of r = \<lparr>ac_id = wr_id r, ac_device = wr_device r, ac_epoch = wr_epoch r\<rparr>"

definition batch_acceptances :: "outbox \<Rightarrow> batch_id \<Rightarrow> accepted list" where
  "batch_acceptances ob b =
     (case map_of (ob_batches ob) b of
        None \<Rightarrow> []
      | Some entry \<Rightarrow>
          map accepted_of
            (List.map_filter
               (\<lambda>d. case map_of (ob_logs ob) d of
                      None \<Rightarrow> None
                    | Some log \<Rightarrow>
                        find (\<lambda>r. wr_batch r = Some b)
                          (List.map_filter (map_of (ob_records ob)) (rev (dl_history log))))
               (ba_members entry)))"

text \<open>The idempotent replay: what the key of the first target already produced, if anything.\<close>

definition replay_of :: "outbox \<Rightarrow> submission \<Rightarrow> acceptance option" where
  "replay_of ob s =
     (case su_key s of
        None \<Rightarrow> None
      | Some key \<Rightarrow>
          (case Option.bind (map_of (ob_logs ob) (hd (su_targets s))) (\<lambda>log. map_of (dl_keys log) key) of
             None \<Rightarrow> None
           | Some existing \<Rightarrow>
               (case map_of (ob_records ob) existing of
                  None \<Rightarrow> None
                | Some first \<Rightarrow>
                    Some \<lparr>acc_batch = wr_batch first,
                          acc_writes = (case wr_batch first of
                                          Some b \<Rightarrow> batch_acceptances ob b
                                        | None \<Rightarrow> [accepted_of first])\<rparr>)))"

text \<open>
  The first loop: every target is judged before anything is recorded. It touches the
  state all the same: \<open>entry(..).or_default()\<close> leaves an empty log behind.
\<close>

fun admit_targets ::
  "intent \<Rightarrow> device_id list \<Rightarrow> outbox \<Rightarrow>
     outbox \<times> (submit_error + (desired_recording_state \<times> desired_recording_state \<times> nat) list)" where
  "admit_targets i [] ob = (ob, Inr [])"
| "admit_targets i (d # ds) ob =
     (let ob' = ob\<lparr>ob_logs := oentry d default_log id (ob_logs ob)\<rparr>;
          log = log_of ob' d;
          pre = dl_desired log
      in case admit pre (verb_of i) of
           Inl rej \<Rightarrow> (ob', Inl (Rejected d rej pre))
         | Inr post \<Rightarrow>
             (case admit_targets i ds ob' of
                (ob'', Inl e) \<Rightarrow> (ob'', Inl e)
              | (ob'', Inr rest) \<Rightarrow>
                  (ob'', Inr ((pre, post, epoch_of pre post (dl_epoch log)) # rest))))"

definition new_record :: "submission \<Rightarrow> device_id \<Rightarrow> write_id \<Rightarrow> nat \<Rightarrow> write_record" where
  "new_record s d i epoch =
     \<lparr>wr_id = i, wr_device = d, wr_intent = su_intent s, wr_batch = su_batch s,
      wr_epoch = epoch, wr_status = Pending, wr_attempts = 0,
      wr_enqueued_at = su_at s, wr_updated_at = su_at s, wr_not_before = su_at s\<rparr>"

definition append_write ::
  "submission \<Rightarrow> write_id \<Rightarrow> desired_recording_state \<times> desired_recording_state \<times> nat \<Rightarrow>
     device_log \<Rightarrow> device_log" where
  "append_write s i adm log =
     (case adm of (pre, post, epoch) \<Rightarrow>
        log\<lparr>dl_queue := dl_queue log @ [i],
            dl_history := dl_history log @ [i],
            dl_desired := post,
            dl_epoch := (if opens_recording pre post then epoch else dl_epoch log),
            dl_keys := (case su_key s of None \<Rightarrow> dl_keys log | Some key \<Rightarrow> oput key i (dl_keys log))\<rparr>)"

text \<open>The second loop: record, then queue.\<close>

fun record_targets ::
  "submission \<Rightarrow> (device_id \<times> write_id \<times> desired_recording_state \<times> desired_recording_state \<times> nat) list \<Rightarrow>
     outbox \<Rightarrow> outbox \<times> accepted list" where
  "record_targets s [] ob = (ob, [])"
| "record_targets s ((d, i, adm) # rest) ob =
     (let epoch = snd (snd adm);
          ob1 = ob\<lparr>ob_records := oput i (new_record s d i epoch) (ob_records ob)\<rparr>;
          ob2 = ob1\<lparr>ob_logs := oentry d default_log (append_write s i adm) (ob_logs ob1)\<rparr>;
          (ob3, writes) = record_targets s rest ob2
      in (ob3, \<lparr>ac_id = i, ac_device = d, ac_epoch = epoch\<rparr> # writes))"

definition record_expectation :: "submission \<Rightarrow> outbox \<Rightarrow> outbox" where
  "record_expectation s ob =
     (case su_group s of
        None \<Rightarrow> ob
      | Some g \<Rightarrow>
          (case expects (su_intent s) of (field, value) \<Rightarrow>
             ob\<lparr>ob_groups := oentry g []
                  (oput field \<lparr>ge_field = field, ge_value = value, ge_since = su_at s\<rparr>)
                  (ob_groups ob)\<rparr>))"

definition default_barrier :: barrier_policy where
  "default_barrier = \<lparr>bp_timeout = 15 * 10 ^ 9, bp_on_timeout = FailBatch\<rparr>"

definition arm_batch :: "submission \<Rightarrow> outbox \<Rightarrow> outbox" where
  "arm_batch s ob =
     (case su_batch s of
        None \<Rightarrow> ob
      | Some b \<Rightarrow>
          ob\<lparr>ob_batches := oput b
               \<lparr>ba_members = oset (su_targets s), ba_ready = [], ba_armed_at = su_at s,
                ba_barrier = (case su_barrier s of None \<Rightarrow> default_barrier | Some p \<Rightarrow> p),
                ba_gate = Waiting\<rparr> (ob_batches ob)\<rparr>)"

definition submit :: "submission \<Rightarrow> outbox \<Rightarrow> outbox \<times> (submit_error + acceptance)" where
  "submit s ob =
     (if su_targets s = [] then (ob, Inl (Malformed ''no targets''))
      else if length (su_ids s) \<noteq> length (su_targets s) then
        (ob, Inl (Malformed (show_nat (length (su_ids s)) @ '' ids for ''
                    @ show_nat (length (su_targets s)) @ '' targets'')))
      else case replay_of ob s of
        Some acc \<Rightarrow> (ob, Inr acc)
      | None \<Rightarrow>
          (case admit_targets (su_intent s) (su_targets s) ob of
             (ob1, Inl e) \<Rightarrow> (ob1, Inl e)
           | (ob1, Inr admitted) \<Rightarrow>
               (case record_targets s (zip (su_targets s) (zip (su_ids s) admitted)) ob1 of
                  (ob2, writes) \<Rightarrow>
                    (arm_batch s (record_expectation s ob2),
                     Inr \<lparr>acc_batch = su_batch s, acc_writes = writes\<rparr>))))"


section \<open>Leaving the fleet\<close>

definition forget_group :: "group_id \<Rightarrow> outbox \<Rightarrow> outbox \<times> nat" where
  "forget_group g ob =
     (ob\<lparr>ob_groups := odel g (ob_groups ob)\<rparr>,
      (case map_of (ob_groups ob) g of None \<Rightarrow> 0 | Some fs \<Rightarrow> length fs))"

text \<open>
  \<open>cancel_batch\<close>: the inner loop over one member's doomed rows, the loop over the members,
  and the whole.
\<close>

fun cancel_rows :: "string \<Rightarrow> write_id list \<Rightarrow> (write_id, write_record) omap \<Rightarrow>
    (write_id, write_record) omap \<times> nat" where
  "cancel_rows reason [] recs = (recs, 0)"
| "cancel_rows reason (i # is) recs =
     (case map_of recs i of
        Some r \<Rightarrow>
          (if wr_status r = Pending then
             (let (recs', n) = cancel_rows reason is
                (oput i (r\<lparr>wr_status := Canceled
                   (reason @ '' (this write's device group could not act together)'')\<rparr>) recs)
              in (recs', n + 1))
           else cancel_rows reason is recs)
      | None \<Rightarrow> cancel_rows reason is recs)"

definition of_batch :: "outbox \<Rightarrow> batch_id \<Rightarrow> write_id \<Rightarrow> bool" where
  "of_batch ob b i = (case map_of (ob_records ob) i of None \<Rightarrow> False | Some r \<Rightarrow> wr_batch r = Some b)"

fun cancel_members :: "batch_id \<Rightarrow> string \<Rightarrow> device_id list \<Rightarrow> outbox \<Rightarrow> outbox \<times> nat" where
  "cancel_members b reason [] ob = (ob, 0)"
| "cancel_members b reason (d # ds) ob =
     (case map_of (ob_logs ob) d of
        None \<Rightarrow> cancel_members b reason ds ob
      | Some log \<Rightarrow>
          (let doomed = filter (of_batch ob b) (dl_queue log);
               kept = filter (\<lambda>i. \<not> of_batch ob b i) (dl_queue log);
               (recs, n) = cancel_rows reason doomed (ob_records ob);
               ob1 = ob\<lparr>ob_logs := oput d (log\<lparr>dl_queue := kept\<rparr>) (ob_logs ob), ob_records := recs\<rparr>;
               (ob2, m) = cancel_members b reason ds ob1
           in (ob2, n + m)))"

definition cancel_batch :: "batch_id \<Rightarrow> string \<Rightarrow> outbox \<Rightarrow> outbox \<times> nat" where
  "cancel_batch b reason ob =
     (case map_of (ob_batches ob) b of
        None \<Rightarrow> (ob, 0)
      | Some entry \<Rightarrow>
          cancel_members b reason (ba_members entry)
            (ob\<lparr>ob_batches := odel b (ob_batches ob)\<rparr>))"

text \<open>\<open>cancel_queued\<close>: the loop over the device's own queued rows, then the doomed batches.\<close>

fun cancel_own :: "string \<Rightarrow> write_id list \<Rightarrow> (write_id, write_record) omap \<Rightarrow>
    (write_id, write_record) omap \<times> batch_id list \<times> nat" where
  "cancel_own reason [] recs = (recs, [], 0)"
| "cancel_own reason (i # is) recs =
     (case map_of recs i of
        None \<Rightarrow> cancel_own reason is recs
      | Some r \<Rightarrow>
          (let (recs', bs, n) =
                 cancel_own reason is (oput i (r\<lparr>wr_status := Canceled reason\<rparr>) recs)
           in (recs', (case wr_batch r of None \<Rightarrow> bs | Some b \<Rightarrow> b # bs), n + 1)))"

fun cancel_batches :: "string \<Rightarrow> batch_id list \<Rightarrow> outbox \<Rightarrow> outbox \<times> nat" where
  "cancel_batches reason [] ob = (ob, 0)"
| "cancel_batches reason (b # bs) ob =
     (let (ob1, n) = cancel_batch b reason ob;
          (ob2, m) = cancel_batches reason bs ob1
      in (ob2, n + m))"

definition cancel_queued :: "device_id \<Rightarrow> string \<Rightarrow> outbox \<Rightarrow> outbox \<times> nat" where
  "cancel_queued d reason ob =
     (case map_of (ob_logs ob) d of
        None \<Rightarrow> (ob, 0)
      | Some log \<Rightarrow>
          (let (recs, doomed, n) = cancel_own reason (dl_queue log) (ob_records ob);
               ob1 = ob\<lparr>ob_logs := oput d (log\<lparr>dl_queue := []\<rparr>) (ob_logs ob), ob_records := recs\<rparr>;
               (ob2, m) = cancel_batches reason (oset doomed) ob1
           in (ob2, n + m)))"


section \<open>Reading back\<close>

definition write_of :: "outbox \<Rightarrow> write_id \<Rightarrow> write_record option" where
  "write_of ob i = map_of (ob_records ob) i"

definition writes_for :: "outbox \<Rightarrow> device_id \<Rightarrow> write_record list" where
  "writes_for ob d =
     (case map_of (ob_logs ob) d of
        None \<Rightarrow> []
      | Some log \<Rightarrow> List.map_filter (map_of (ob_records ob)) (rev (dl_history log)))"

definition desired_state_of :: "outbox \<Rightarrow> device_id \<Rightarrow> desired_recording_state \<times> nat" where
  "desired_state_of ob d =
     (case map_of (ob_logs ob) d of
        None \<Rightarrow> (Idle, 0)
      | Some log \<Rightarrow> (dl_desired log, dl_epoch log))"

definition expected :: "outbox \<Rightarrow> group_id \<Rightarrow> field_name \<Rightarrow> group_expectation option" where
  "expected ob g f = Option.bind (map_of (ob_groups ob) g) (\<lambda>fs. map_of fs f)"

definition expected_all :: "outbox \<Rightarrow> group_id \<Rightarrow> group_expectation list" where
  "expected_all ob g = (case map_of (ob_groups ob) g of None \<Rightarrow> [] | Some fs \<Rightarrow> ovals fs)"

definition in_flight :: "outbox \<Rightarrow> device_id \<Rightarrow> write_record list" where
  "in_flight ob d =
     (case map_of (ob_logs ob) d of
        None \<Rightarrow> []
      | Some log \<Rightarrow>
          filter (\<lambda>r. wr_status r = InFlight)
            (List.map_filter (map_of (ob_records ob)) (dl_history log)))"


section \<open>Draining\<close>

definition claim_head :: "device_id \<Rightarrow> timestamp \<Rightarrow> outbox \<Rightarrow>
    outbox \<times> (store_error + write_record option)" where
  "claim_head d at ob =
     (case map_of (ob_logs ob) d of
        None \<Rightarrow> (ob, Inr None)
      | Some log \<Rightarrow>
          (case dl_queue log of
             [] \<Rightarrow> (ob, Inr None)
           | i # q \<Rightarrow>
               (let ob1 = ob\<lparr>ob_logs := oput d (log\<lparr>dl_queue := q\<rparr>) (ob_logs ob)\<rparr>
                in case map_of (ob_records ob) i of
                     None \<Rightarrow> (ob1, Inl (BackendError ''a queued id has no record behind it''))
                   | Some r \<Rightarrow>
                       (let r' = r\<lparr>wr_status := InFlight, wr_attempts := wr_attempts r + 1,
                                   wr_updated_at := at\<rparr>
                        in (ob1\<lparr>ob_records := oput i r' (ob_records ob)\<rparr>, Inr (Some r'))))))"

definition barrier_expired :: string where
  "barrier_expired = ''the group barrier expired before every member was ready''"

definition fail_head :: "device_id \<Rightarrow> timestamp \<Rightarrow> outbox \<Rightarrow> outbox" where
  "fail_head d at ob =
     (case map_of (ob_logs ob) d of
        None \<Rightarrow> ob
      | Some log \<Rightarrow>
          (case dl_queue log of
             [] \<Rightarrow> ob
           | i # q \<Rightarrow>
               (case map_of (ob_records ob) i of
                  None \<Rightarrow> ob\<lparr>ob_logs := oput d (log\<lparr>dl_queue := q\<rparr>) (ob_logs ob)\<rparr>
                | Some r \<Rightarrow>
                    ob\<lparr>ob_logs := oput d
                         (log\<lparr>dl_queue := q,
                              dl_desired := rollback (dl_desired log) (verb_of (wr_intent r))\<rparr>)
                         (ob_logs ob),
                       ob_records := oput i
                         (r\<lparr>wr_status := Failed barrier_expired, wr_updated_at := at\<rparr>)
                         (ob_records ob)\<rparr>)))"

definition queue_head :: "outbox \<Rightarrow> device_id \<Rightarrow> write_id option" where
  "queue_head ob d =
     Option.bind (map_of (ob_logs ob) d)
       (\<lambda>log. case dl_queue log of [] \<Rightarrow> None | i # q \<Rightarrow> Some i)"

definition is_ready_for :: "outbox \<Rightarrow> batch_id \<Rightarrow> timestamp \<Rightarrow> device_id \<Rightarrow> bool" where
  "is_ready_for ob b at member =
     (case queue_head ob member of
        None \<Rightarrow> False
      | Some i \<Rightarrow>
          (case map_of (ob_records ob) i of
             None \<Rightarrow> False
           | Some r \<Rightarrow> wr_batch r = Some b \<and> wr_not_before r \<le> at))"

datatype batch_step =
    Wait
  | Release "device_id list"
  | Alone
  | Fail "device_id list"

fun gate_after :: "batch_step \<Rightarrow> gate" where
  "gate_after Wait = Waiting"
| "gate_after (Release ds) = Open"
| "gate_after Alone = Open"
| "gate_after (Fail ds) = Abandoned"

definition step_batch :: "chrono \<Rightarrow> batch_id \<Rightarrow> device_id \<Rightarrow> timestamp \<Rightarrow> outbox \<Rightarrow> outbox \<times> batch_step" where
  "step_batch ch b d at ob =
     (case map_of (ob_batches ob) b of
        None \<Rightarrow> (ob, Wait)
      | Some ba \<Rightarrow>
          (case ba_gate ba of
             Open \<Rightarrow> (ob, Alone)
           | Abandoned \<Rightarrow> (ob, Fail [d])
           | Waiting \<Rightarrow>
               (let ready = filter (is_ready_for ob b at) (ba_members ba);
                    complete = (ready = ba_members ba);
                    expired = (\<not> complete
                                 \<and> elapsed_past ch (ba_armed_at ba) (bp_timeout (ba_barrier ba)) at);
                    step = (if complete then Release ready
                            else if \<not> expired then Wait
                            else case bp_on_timeout (ba_barrier ba) of
                                   DispatchReady \<Rightarrow> Release ready
                                 | FailBatch \<Rightarrow> Fail ready)
                in (ob\<lparr>ob_batches := oput b (ba\<lparr>ba_ready := ready, ba_gate := gate_after step\<rparr>)
                         (ob_batches ob)\<rparr>, step))))"

fun claim_members :: "device_id list \<Rightarrow> timestamp \<Rightarrow> outbox \<Rightarrow>
    outbox \<times> (store_error + write_record list)" where
  "claim_members [] at ob = (ob, Inr [])"
| "claim_members (d # ds) at ob =
     (case claim_head d at ob of
        (ob1, Inl e) \<Rightarrow> (ob1, Inl e)
      | (ob1, Inr r) \<Rightarrow>
          (case claim_members ds at ob1 of
             (ob2, Inl e) \<Rightarrow> (ob2, Inl e)
           | (ob2, Inr rs) \<Rightarrow> (ob2, Inr (case r of None \<Rightarrow> rs | Some r' \<Rightarrow> r' # rs))))"

fun fail_members :: "device_id list \<Rightarrow> timestamp \<Rightarrow> outbox \<Rightarrow> outbox" where
  "fail_members [] at ob = ob"
| "fail_members (d # ds) at ob = fail_members ds at (fail_head d at ob)"

definition claim_alone :: "device_id \<Rightarrow> timestamp \<Rightarrow> outbox \<Rightarrow>
    outbox \<times> (store_error + claim option)" where
  "claim_alone d at ob =
     (case claim_head d at ob of
        (ob', Inl e) \<Rightarrow> (ob', Inl e)
      | (ob', Inr r) \<Rightarrow> (ob', Inr (map_option One r)))"

definition claim_next :: "chrono \<Rightarrow> device_id \<Rightarrow> timestamp \<Rightarrow> outbox \<Rightarrow>
    outbox \<times> (store_error + claim option)" where
  "claim_next ch d at ob =
     (case queue_head ob d of
        None \<Rightarrow> (ob, Inr None)
      | Some i \<Rightarrow>
          (case map_of (ob_records ob) i of
             None \<Rightarrow> (ob, Inl (BackendError ''a queued id has no record behind it''))
           | Some r \<Rightarrow>
               if at < wr_not_before r then (ob, Inr None)
               else case wr_batch r of
                 None \<Rightarrow> claim_alone d at ob
               | Some b \<Rightarrow>
                   (case step_batch ch b d at ob of
                      (ob1, Wait) \<Rightarrow> (ob1, Inr None)
                    | (ob1, Alone) \<Rightarrow> claim_alone d at ob1
                    | (ob1, Release members) \<Rightarrow>
                        (case claim_members members at ob1 of
                           (ob2, Inl e) \<Rightarrow> (ob2, Inl e)
                         | (ob2, Inr rs) \<Rightarrow> (ob2, Inr (Some (Batch b rs))))
                    | (ob1, Fail members) \<Rightarrow> (fail_members members at ob1, Inr None))))"

text \<open>\<open>settle\<close>, its three arms first: what happens to the record, the log and the batch.\<close>

definition retry_record :: "chrono \<Rightarrow> timestamp \<Rightarrow> outbox \<Rightarrow> write_record \<Rightarrow> write_record" where
  "retry_record ch at ob r =
     r\<lparr>wr_status := Pending,
       wr_not_before := delay_from ch at (ob_backoff ob * wr_attempts r),
       wr_updated_at := at\<rparr>"

definition settle_batch :: "(batch \<Rightarrow> batch) \<Rightarrow> write_record \<Rightarrow> outbox \<Rightarrow> outbox" where
  "settle_batch f r ob =
     (case wr_batch r of
        None \<Rightarrow> ob
      | Some b \<Rightarrow> ob\<lparr>ob_batches := oadjust b f (ob_batches ob)\<rparr>)"

definition unready :: "device_id \<Rightarrow> batch \<Rightarrow> batch" where
  "unready d ba = ba\<lparr>ba_ready := removeAll d (ba_ready ba)\<rparr>"

definition leave :: "device_id \<Rightarrow> batch \<Rightarrow> batch" where
  "leave d ba = ba\<lparr>ba_members := removeAll d (ba_members ba), ba_ready := removeAll d (ba_ready ba)\<rparr>"

definition settle :: "chrono \<Rightarrow> write_id \<Rightarrow> outcome \<Rightarrow> timestamp \<Rightarrow> outbox \<Rightarrow>
    outbox \<times> (store_error + unit)" where
  "settle ch i out at ob =
     (case map_of (ob_records ob) i of
        None \<Rightarrow> (ob, Inl (BackendError ''settling an unknown write''))
      | Some r \<Rightarrow>
          if wr_status r \<noteq> InFlight
          then (ob, Inl (BackendError ''settling a write that was not in flight''))
          else
            (let d = wr_device r;
                 ob0 = ob\<lparr>ob_logs := oentry d default_log id (ob_logs ob)\<rparr>
             in (case out of
                   OSucceeded value \<Rightarrow>
                     ob0\<lparr>ob_records := oput i (r\<lparr>wr_status := Succeeded value, wr_updated_at := at\<rparr>)
                           (ob_records ob)\<rparr>
                 | OFailed reason \<Rightarrow>
                     if wr_attempts r < ob_max_attempts ob then
                       settle_batch (unready d) r
                         (ob0\<lparr>ob_logs := oentry d default_log
                                (\<lambda>log. log\<lparr>dl_queue := i # dl_queue log\<rparr>) (ob_logs ob0),
                              ob_records := oput i (retry_record ch at ob r) (ob_records ob)\<rparr>)
                     else
                       settle_batch (leave d) r
                         (ob0\<lparr>ob_logs := oentry d default_log
                                (\<lambda>log. log\<lparr>dl_desired :=
                                   rollback (dl_desired log) (verb_of (wr_intent r))\<rparr>) (ob_logs ob0),
                              ob_records := oput i (r\<lparr>wr_status := Failed reason, wr_updated_at := at\<rparr>)
                                (ob_records ob)\<rparr>),
                 Inr ())))"

definition observe :: "device_id \<Rightarrow> recording_state \<Rightarrow> outbox \<Rightarrow> outbox" where
  "observe d observed ob =
     ob\<lparr>ob_logs := oentry d default_log
          (\<lambda>log. let pre = dl_desired log; post = reconcile pre observed in
             log\<lparr>dl_epoch := (if opens_recording pre post then dl_epoch log + 1 else dl_epoch log),
                 dl_desired := post\<rparr>)
          (ob_logs ob)\<rparr>"

end
