(* ===== verification/Sis_Lines.thy ===== *)
theory Sis_Lines
  imports Sis_Types "HOL-Library.Sublist"
begin

text \<open>
  What the outbox promises of its rows, without its locks, maps and batches: every device
  has a line of waiting writes and a history of every write it was ever given, and every
  write has a record. Five kinds of step move a write through its life:

  \<^verbatim>\<open>  admit        -> Pending (at the back of the line)\<close>
  \<^verbatim>\<open>  claim        Pending, at the front -> InFlight (one more attempt)\<close>
  \<^verbatim>\<open>  requeue      InFlight -> Pending (back at the front; fewer than M attempts)\<close>
  \<^verbatim>\<open>  finish       InFlight -> Succeeded or Failed\<close>
  \<^verbatim>\<open>  drop         Pending -> Failed or Canceled (out of the line)\<close>

  \<open>Sis_Outbox_Inv\<close> shows that every operation of the outbox is a sequence of these steps;
  the invariants and the life of a write are proved here once.
\<close>

record line_view =
  lv_records :: "write_id \<Rightarrow> write_record option"
  lv_queue :: "device_id \<Rightarrow> write_id list"
  lv_history :: "device_id \<Rightarrow> write_id list"

text \<open>What no step changes of a record once it is written.\<close>

definition same_write :: "write_record \<Rightarrow> write_record \<Rightarrow> bool" where
  "same_write r r' \<longleftrightarrow> wr_id r' = wr_id r \<and> wr_device r' = wr_device r \<and> wr_intent r' = wr_intent r
     \<and> wr_batch r' = wr_batch r \<and> wr_epoch r' = wr_epoch r \<and> wr_enqueued_at r' = wr_enqueued_at r"

inductive line_step :: "nat \<Rightarrow> line_view \<Rightarrow> line_view \<Rightarrow> bool" for M where
  admit: "lv_records v i = None \<Longrightarrow> wr_id r = i \<Longrightarrow> wr_status r = Pending \<Longrightarrow> wr_attempts r = 0 \<Longrightarrow>
    wr_device r = d \<Longrightarrow>
    line_step M v (v\<lparr>lv_records := (lv_records v)(i \<mapsto> r),
                   lv_queue := (lv_queue v)(d := lv_queue v d @ [i]),
                   lv_history := (lv_history v)(d := lv_history v d @ [i])\<rparr>)"
| claim: "lv_records v i = Some r \<Longrightarrow> lv_queue v d = i # q \<Longrightarrow> same_write r r' \<Longrightarrow>
    wr_status r' = InFlight \<Longrightarrow> wr_attempts r' = wr_attempts r + 1 \<Longrightarrow>
    line_step M v (v\<lparr>lv_records := (lv_records v)(i \<mapsto> r'), lv_queue := (lv_queue v)(d := q)\<rparr>)"
| requeue: "lv_records v i = Some r \<Longrightarrow> wr_status r = InFlight \<Longrightarrow> wr_attempts r < M \<Longrightarrow> same_write r r' \<Longrightarrow>
    wr_status r' = Pending \<Longrightarrow> wr_attempts r' = wr_attempts r \<Longrightarrow> wr_device r = d \<Longrightarrow>
    line_step M v (v\<lparr>lv_records := (lv_records v)(i \<mapsto> r'),
                   lv_queue := (lv_queue v)(d := i # lv_queue v d)\<rparr>)"
| finish: "lv_records v i = Some r \<Longrightarrow> wr_status r = InFlight \<Longrightarrow> same_write r r' \<Longrightarrow>
    settled (wr_status r') \<Longrightarrow> wr_attempts r' = wr_attempts r \<Longrightarrow>
    line_step M v (v\<lparr>lv_records := (lv_records v)(i \<mapsto> r')\<rparr>)"
| drop: "lv_records v i = Some r \<Longrightarrow> i \<in> set (lv_queue v d) \<Longrightarrow> same_write r r' \<Longrightarrow>
    settled (wr_status r') \<Longrightarrow> wr_attempts r' = wr_attempts r \<Longrightarrow>
    line_step M v (v\<lparr>lv_records := (lv_records v)(i \<mapsto> r'),
                   lv_queue := (lv_queue v)(d := removeAll i (lv_queue v d))\<rparr>)"

abbreviation line_steps :: "nat \<Rightarrow> line_view \<Rightarrow> line_view \<Rightarrow> bool" where
  "line_steps M \<equiv> (line_step M)\<^sup>*\<^sup>*"


section \<open>The invariant\<close>

definition keyed :: "line_view \<Rightarrow> bool" where
  "keyed v \<longleftrightarrow> (\<forall>i r. lv_records v i = Some r \<longrightarrow> wr_id r = i)"

definition queued_pending :: "line_view \<Rightarrow> bool" where
  "queued_pending v \<longleftrightarrow> (\<forall>d i. i \<in> set (lv_queue v d) \<longrightarrow>
     (\<exists>r. lv_records v i = Some r \<and> wr_device r = d \<and> wr_status r = Pending))"

definition pending_queued :: "line_view \<Rightarrow> bool" where
  "pending_queued v \<longleftrightarrow> (\<forall>i r. lv_records v i = Some r \<longrightarrow> wr_status r = Pending \<longrightarrow>
     i \<in> set (lv_queue v (wr_device r)))"

definition history_exact :: "line_view \<Rightarrow> bool" where
  "history_exact v \<longleftrightarrow> (\<forall>d i. i \<in> set (lv_history v d) \<longleftrightarrow>
     (\<exists>r. lv_records v i = Some r \<and> wr_device r = d))"

definition no_repeats :: "line_view \<Rightarrow> bool" where
  "no_repeats v \<longleftrightarrow> (\<forall>d. distinct (lv_queue v d)) \<and> (\<forall>d. distinct (lv_history v d))"

definition lines_ok :: "line_view \<Rightarrow> bool" where
  "lines_ok v \<longleftrightarrow> keyed v \<and> queued_pending v \<and> pending_queued v \<and> history_exact v \<and> no_repeats v"

lemmas lines_parts =
  keyed_def queued_pending_def pending_queued_def history_exact_def no_repeats_def

lemma lines_okI [intro?]:
  "keyed v \<Longrightarrow> queued_pending v \<Longrightarrow> pending_queued v \<Longrightarrow> history_exact v \<Longrightarrow> no_repeats v \<Longrightarrow> lines_ok v"
  by (simp add: lines_ok_def)

lemma lines_okD:
  assumes "lines_ok v"
  shows "lv_records v i = Some r \<Longrightarrow> wr_id r = i"
    and "i \<in> set (lv_queue v d) \<Longrightarrow>
      \<exists>r. lv_records v i = Some r \<and> wr_device r = d \<and> wr_status r = Pending"
    and "lv_records v i = Some r \<Longrightarrow> wr_status r = Pending \<Longrightarrow> i \<in> set (lv_queue v (wr_device r))"
    and "i \<in> set (lv_history v d) \<longleftrightarrow> (\<exists>r. lv_records v i = Some r \<and> wr_device r = d)"
    and "distinct (lv_queue v d)" and "distinct (lv_history v d)"
proof -
  have k: "keyed v" and q: "queued_pending v" and p: "pending_queued v"
    and h: "history_exact v" and n: "no_repeats v"
    using assms by (simp_all add: lines_ok_def)
  show "lv_records v i = Some r \<Longrightarrow> wr_id r = i"
    using k by (simp add: keyed_def)
  show "i \<in> set (lv_queue v d) \<Longrightarrow>
      \<exists>r. lv_records v i = Some r \<and> wr_device r = d \<and> wr_status r = Pending"
    using q by (simp add: queued_pending_def)
  show "lv_records v i = Some r \<Longrightarrow> wr_status r = Pending \<Longrightarrow> i \<in> set (lv_queue v (wr_device r))"
    using p by (simp add: pending_queued_def)
  show "i \<in> set (lv_history v d) \<longleftrightarrow> (\<exists>r. lv_records v i = Some r \<and> wr_device r = d)"
    using h by (simp add: history_exact_def)
  show "distinct (lv_queue v d)" and "distinct (lv_history v d)"
    using n by (simp_all add: no_repeats_def)
qed

text \<open>A waiting row stands in exactly one line, its own device's.\<close>

lemma queue_unique:
  "lines_ok v \<Longrightarrow> i \<in> set (lv_queue v d) \<Longrightarrow> lv_records v i = Some r \<Longrightarrow> wr_device r = d \<and> wr_status r = Pending"
  using lines_okD(2) by fastforce

lemma not_pending_not_queued:
  "lines_ok v \<Longrightarrow> lv_records v i = Some r \<Longrightarrow> wr_status r \<noteq> Pending \<Longrightarrow> i \<notin> set (lv_queue v d)"
  using queue_unique by blast

text \<open>One record replaced by one of the same write: what is left to check.\<close>

lemma lines_ok_update:
  assumes ok: "lines_ok v" and r: "lv_records v i = Some r" and same: "same_write r r'"
    and Q: "\<And>d j. j \<in> set (Q d) \<longleftrightarrow>
        (if j = i then d = wr_device r \<and> wr_status r' = Pending else j \<in> set (lv_queue v d))"
    and dist: "\<And>d. distinct (Q d)"
  shows "lines_ok (v\<lparr>lv_records := (lv_records v)(i \<mapsto> r'), lv_queue := Q\<rparr>)"
proof
  let ?w = "v\<lparr>lv_records := (lv_records v)(i \<mapsto> r'), lv_queue := Q\<rparr>"
  show "keyed ?w"
    using lines_okD(1) [OF ok] r same by (auto simp: keyed_def same_write_def)
  show "queued_pending ?w"
    using lines_okD(2) [OF ok] same by (auto simp: queued_pending_def same_write_def Q)
  show "pending_queued ?w"
    using lines_okD(3) [OF ok] same by (auto simp: pending_queued_def same_write_def Q)
  show "history_exact ?w"
    using lines_okD(4) [OF ok] r same by (auto simp: history_exact_def same_write_def)
  show "no_repeats ?w"
    using lines_okD(6) [OF ok] dist by (simp add: no_repeats_def)
qed

lemma line_step_ok:
  assumes "line_step M v w" and ok: "lines_ok v"
  shows "lines_ok w"
  using assms(1)
proof cases
  case (admit i r d)
  have new: "i \<notin> set (lv_queue v d')" "i \<notin> set (lv_history v d')" for d'
    using admit(2) lines_okD(2,4) [OF ok] by fastforce+
  show ?thesis
  proof
    show "keyed w" using admit lines_okD(1) [OF ok] by (simp add: keyed_def)
    show "queued_pending w"
      using admit lines_okD(2) [OF ok] new by (auto simp: queued_pending_def)
    show "pending_queued w"
      using admit lines_okD(3) [OF ok] by (fastforce simp: pending_queued_def)
    show "history_exact w"
      using admit lines_okD(4) [OF ok] new by (auto simp: history_exact_def)
    show "no_repeats w"
      using admit lines_okD(5,6) [OF ok] new by (auto simp: no_repeats_def)
  qed
next
  case (claim i r d q r')
  then have i: "wr_device r = d"
    using queue_unique [OF ok, of i d r] by simp
  have q: "i \<notin> set q" "distinct q"
    using claim(3) lines_okD(5) [OF ok, of d] by auto
  have other: "i \<in> set (lv_queue v d') \<Longrightarrow> d' = d" for d'
    using queue_unique [OF ok _ claim(2)] i by blast
  show ?thesis
    unfolding claim(1) using claim(3,5) i q other lines_okD(5) [OF ok]
    by (intro lines_ok_update [OF ok claim(2,4)]) auto
next
  case (requeue i r r' d)
  then have "i \<notin> set (lv_queue v d')" for d'
    using not_pending_not_queued [OF ok requeue(2), of d'] by simp
  then show ?thesis
    unfolding requeue(1) using requeue(6,8) lines_okD(5) [OF ok]
    by (intro lines_ok_update [OF ok requeue(2,5)]) auto
next
  case (finish i r r')
  then have "i \<notin> set (lv_queue v d')" for d'
    using not_pending_not_queued [OF ok finish(2), of d'] by simp
  then have "lines_ok (v\<lparr>lv_records := (lv_records v)(i \<mapsto> r'), lv_queue := lv_queue v\<rparr>)"
    using finish(5) lines_okD(5) [OF ok]
    by (intro lines_ok_update [OF ok finish(2,4)]) auto
  then show ?thesis
    unfolding finish(1) by simp
next
  case (drop i r d r')
  then have i: "wr_device r = d"
    using queue_unique [OF ok, of i d r] by simp
  have other: "i \<in> set (lv_queue v d') \<Longrightarrow> d' = d" for d'
    using queue_unique [OF ok _ drop(2)] i by blast
  show ?thesis
    unfolding drop(1) using drop(5) i other lines_okD(5) [OF ok]
    by (intro lines_ok_update [OF ok drop(2,4)]) (auto simp: distinct_removeAll)
qed

lemma line_steps_ok: "line_steps M v w \<Longrightarrow> lines_ok v \<Longrightarrow> lines_ok w"
  by (induction rule: rtranclp_induct) (auto intro: line_step_ok)

text \<open>Several waiting writes of one device leave the line together.\<close>

definition drop_rows :: "(write_record \<Rightarrow> write_record) \<Rightarrow> write_id set \<Rightarrow> device_id \<Rightarrow> line_view \<Rightarrow> line_view" where
  "drop_rows f I d v = v\<lparr>
     lv_records := (\<lambda>i. if i \<in> I then map_option f (lv_records v i) else lv_records v i),
     lv_queue := (lv_queue v)(d := filter (\<lambda>i. i \<notin> I) (lv_queue v d))\<rparr>"

lemma drop_rows_steps:
  assumes f: "\<And>r. same_write r (f r)" "\<And>r. settled (wr_status (f r))" "\<And>r. wr_attempts (f r) = wr_attempts r"
  shows "lines_ok v \<Longrightarrow> distinct is \<Longrightarrow> set is \<subseteq> set (lv_queue v d) \<Longrightarrow>
    line_steps M v (drop_rows f (set is) d v)"
proof (induction "is" arbitrary: v)
  case Nil
  have "drop_rows f {} d v = v" by (simp add: drop_rows_def)
  then show ?case by simp
next
  case (Cons i "is")
  obtain r where r: "lv_records v i = Some r"
    using lines_okD(2) [OF Cons.prems(1), of i d] Cons.prems(3) by auto
  let ?w = "v\<lparr>lv_records := (lv_records v)(i \<mapsto> f r), lv_queue := (lv_queue v)(d := removeAll i (lv_queue v d))\<rparr>"
  have step: "line_step M v ?w"
    using r Cons.prems(3) f by (intro line_step.drop) simp_all
  have "line_steps M ?w (drop_rows f (set is) d ?w)"
    using Cons.prems line_step_ok [OF step] by (intro Cons.IH) auto
  moreover have "drop_rows f (set is) d ?w = drop_rows f (set (i # is)) d v"
    using r Cons.prems(2)
    by (cases v) (auto simp: drop_rows_def fun_eq_iff removeAll_filter_not_eq intro: filter_cong)
  ultimately show ?case
    using step by (simp add: converse_rtranclp_into_rtranclp)
qed


section \<open>The life of a write\<close>

lemma same_write_refl [simp]: "same_write r r"
  by (simp add: same_write_def)

lemma same_write_trans: "same_write r r' \<Longrightarrow> same_write r' r'' \<Longrightarrow> same_write r r''"
  by (simp add: same_write_def)

text \<open>Nothing is forgotten: a record stays, and stays a record of the same write.\<close>

lemma line_step_kept:
  "line_step M v w \<Longrightarrow> lv_records v i = Some r \<Longrightarrow>
     \<exists>r'. lv_records w i = Some r' \<and> same_write r r' \<and> wr_attempts r \<le> wr_attempts r'"
  by (induction rule: line_step.induct) auto

lemma line_steps_kept:
  "line_steps M v w \<Longrightarrow> lv_records v i = Some r \<Longrightarrow>
     \<exists>r'. lv_records w i = Some r' \<and> same_write r r' \<and> wr_attempts r \<le> wr_attempts r'"
proof (induction rule: rtranclp_induct)
  case base
  then show ?case by simp
next
  case (step y z)
  then show ?case by (meson line_step_kept same_write_trans le_trans)
qed

text \<open>A settled write is final.\<close>

lemma line_step_final:
  assumes "line_step M v w" and "lines_ok v" and "lv_records v i = Some r" and "settled (wr_status r)"
  shows "lv_records w i = Some r"
  using assms(1)
proof cases
  case (claim j r0 d q r')
  then have "wr_status r0 = Pending"
    using queue_unique [OF assms(2), of j d r0] by simp
  with claim assms(3,4) show ?thesis by auto
next
  case (drop j r0 d r')
  then have "wr_status r0 = Pending"
    using queue_unique [OF assms(2), of j d r0] by simp
  with drop assms(3,4) show ?thesis by auto
qed (use assms(3,4) in auto)

lemma line_steps_final:
  "line_steps M v w \<Longrightarrow> lines_ok v \<Longrightarrow> lv_records v i = Some r \<Longrightarrow> settled (wr_status r) \<Longrightarrow>
     lv_records w i = Some r"
  by (induction rule: rtranclp_induct) (auto intro: line_step_final line_steps_ok)

text \<open>A history only grows, at its end.\<close>

lemma line_step_history: "line_step M v w \<Longrightarrow> \<exists>xs. lv_history w d = lv_history v d @ xs"
  by (induction rule: line_step.induct) auto

lemma line_steps_history: "line_steps M v w \<Longrightarrow> \<exists>xs. lv_history w d = lv_history v d @ xs"
proof (induction rule: rtranclp_induct)
  case (step y z)
  then show ?case using line_step_history [OF step(2), of d] by auto
qed simp


text \<open>
  Attempts never pass the budget \<open>M\<close>: a write that waits has one left, whatever claims and
  requeues it has been through.
\<close>

definition within_budget :: "nat \<Rightarrow> line_view \<Rightarrow> bool" where
  "within_budget M v \<longleftrightarrow> (\<forall>i r. lv_records v i = Some r \<longrightarrow>
     wr_attempts r \<le> M \<and> (wr_status r = Pending \<longrightarrow> wr_attempts r < M))"

lemma line_step_budget:
  assumes "line_step M v w" and "lines_ok v" and "within_budget M v" and "0 < M"
  shows "within_budget M w"
  using assms(1)
proof cases
  case (claim i r d q r')
  then have "wr_status r = Pending"
    using queue_unique [OF assms(2), of i d r] by simp
  then have "wr_attempts r < M"
    using assms(3) claim(2) by (simp add: within_budget_def)
  with claim assms(3) show ?thesis by (simp add: within_budget_def)
qed (use assms(3,4) in \<open>auto simp: within_budget_def\<close>)

lemma line_steps_budget:
  "line_steps M v w \<Longrightarrow> lines_ok v \<Longrightarrow> within_budget M v \<Longrightarrow> 0 < M \<Longrightarrow> within_budget M w"
  by (induction rule: rtranclp_induct) (auto intro: line_step_budget line_steps_ok)

lemma line_step_mono: "line_step M v w \<Longrightarrow> M \<le> N \<Longrightarrow> line_step N v w"
  by (erule line_step.cases) (auto intro: line_step.intros)

lemma line_steps_mono: "line_steps M v w \<Longrightarrow> M \<le> N \<Longrightarrow> line_steps N v w"
  by (induction rule: rtranclp_induct) (auto intro: rtranclp.rtrancl_into_rtrancl line_step_mono)


section \<open>Order\<close>

text \<open>
  A line stands in submission order, and a write in flight was submitted before
  everything that still waits behind it. Claims keep this when a device has at most one
  write in flight; a requeue then puts the write back where it came from.
\<close>

definition flying :: "line_view \<Rightarrow> device_id \<Rightarrow> write_id \<Rightarrow> bool" where
  "flying v d i \<longleftrightarrow> (\<exists>r. lv_records v i = Some r \<and> wr_device r = d \<and> wr_status r = InFlight)"

definition fifo :: "line_view \<Rightarrow> bool" where
  "fifo v \<longleftrightarrow> (\<forall>d. subseq (lv_queue v d) (lv_history v d)) \<and>
     (\<forall>d i. flying v d i \<longrightarrow> subseq (i # lv_queue v d) (lv_history v d)) \<and>
     (\<forall>d i j. flying v d i \<longrightarrow> flying v d j \<longrightarrow> i = j)"

lemma fifoD:
  assumes "fifo v"
  shows "subseq (lv_queue v d) (lv_history v d)"
    and "flying v d i \<Longrightarrow> subseq (i # lv_queue v d) (lv_history v d)"
    and "flying v d i \<Longrightarrow> flying v d j \<Longrightarrow> i = j"
  using assms by (simp_all add: fifo_def)

text \<open>A step that claims only for a device with nothing in flight.\<close>

definition orderly :: "line_view \<Rightarrow> line_view \<Rightarrow> bool" where
  "orderly v w \<longleftrightarrow> (\<forall>d i. flying w d i \<longrightarrow> \<not> flying v d i \<longrightarrow> (\<forall>j. \<not> flying v d j))"

lemma subseq_removeAll: "subseq (removeAll x xs) xs"
  unfolding removeAll_filter_not_eq by simp

lemma subseq_snoc: "subseq xs ys \<Longrightarrow> subseq (xs @ [z]) (ys @ [z])"
  by (rule list_emb_append_mono) auto

lemma fifo_step:
  assumes "line_step M v w" and "lines_ok v" and "fifo v" and "orderly v w"
  shows "fifo w"
  using assms(1)
proof cases
  case (admit i r d)
  have fly: "flying w d' j \<longleftrightarrow> flying v d' j" for d' j
    using admit by (auto simp: flying_def)
  show ?thesis
    using fifoD [OF assms(3)] admit(1) unfolding fifo_def fly
    by (auto intro: subseq_snoc subseq_snoc [where xs = "_ # _", simplified])
next
  case (claim i r d q r')
  then have d: "wr_device r = d" "wr_status r = Pending"
    using queue_unique [OF assms(2), of i d r] by simp_all
  have new: "flying w d i" "\<not> flying v d i"
    using claim d by (auto simp: flying_def same_write_def)
  then have none: "\<not> flying v d j" for j
    using assms(4) unfolding orderly_def by blast
  have fly: "flying w d' j \<longleftrightarrow> (if j = i then d' = d else flying v d' j)" for d' j
    using claim d by (auto simp: flying_def same_write_def)
  have "subseq (i # q) (lv_history v d)"
    using fifoD(1) [OF assms(3), of d] claim(3) by simp
  then show ?thesis
    using fifoD [OF assms(3)] claim(1) none unfolding fifo_def fly
    by (auto dest: subseq_Cons')
next
  case (requeue i r r' d)
  have fly: "flying w d' j \<longleftrightarrow> j \<noteq> i \<and> flying v d' j" for d' j
    using requeue by (auto simp: flying_def)
  have "flying v d i" using requeue by (auto simp: flying_def)
  then show ?thesis
    using fifoD [OF assms(3)] requeue(1) unfolding fifo_def fly by auto
next
  case (finish i r r')
  have fly: "flying w d' j \<longleftrightarrow> j \<noteq> i \<and> flying v d' j" for d' j
    using finish by (auto simp: flying_def)
  show ?thesis
    using fifoD [OF assms(3)] finish(1) unfolding fifo_def fly by auto
next
  case (drop i r d r')
  then have "wr_status r = Pending"
    using queue_unique [OF assms(2), of i d r] by simp
  then have fly: "flying w d' j \<longleftrightarrow> flying v d' j" for d' j
    using drop by (auto simp: flying_def)
  have sub: "subseq (xs @ removeAll i (lv_queue v d)) (lv_history v d)"
    if "subseq (xs @ lv_queue v d) (lv_history v d)" for xs
    using that subseq_removeAll [of i "lv_queue v d"]
    by (meson list_emb_append_mono subseq_order.order_refl subseq_order.order_trans)
  show ?thesis
    using fifoD [OF assms(3)] drop(1) sub [of "[]"] sub [of "[_]"] unfolding fifo_def fly by auto
qed

text \<open>A sequence of steps without a claim leaves every count of attempts as it was.\<close>

definition quiet :: "line_view \<Rightarrow> line_view \<Rightarrow> bool" where
  "quiet v w \<longleftrightarrow> (\<forall>i r'. lv_records w i = Some r' \<longrightarrow>
     wr_attempts r' = (case lv_records v i of None \<Rightarrow> 0 | Some r \<Rightarrow> wr_attempts r))"

lemma quiet_step:
  assumes "line_step M v y" and "line_steps M y w" and "quiet v w"
  shows "orderly v y \<and> quiet y w"
  using assms(1)
proof cases
  case (claim i r d q r')
  then have "lv_records y i = Some r'" by simp
  then obtain r'' where "lv_records w i = Some r''" "wr_attempts r' \<le> wr_attempts r''"
    using line_steps_kept [OF assms(2)] by blast
  with assms(3) claim(2,6) have False by (auto simp: quiet_def)
  then show ?thesis ..
qed (use assms(3) in \<open>auto simp: orderly_def flying_def quiet_def split: option.splits if_splits\<close>)

lemma fifo_quiet:
  "line_steps M v w \<Longrightarrow> lines_ok v \<Longrightarrow> fifo v \<Longrightarrow> quiet v w \<Longrightarrow> fifo w"
proof (induction rule: converse_rtranclp_induct)
  case (step v y)
  then show ?case using quiet_step [OF step(1,2)] fifo_step line_step_ok by blast
qed

text \<open>
  What the order buys: a write at the front of its line, with nothing in flight for its
  device, has only settled writes before it.
\<close>

lemma subseq_set: "subseq xs ys \<Longrightarrow> x \<in> set xs \<Longrightarrow> x \<in> set ys"
  by (auto simp: subseq_conv_nths dest: in_set_nthsD)

lemma subseq_before:
  "subseq (x # xs) (ys @ x # zs) \<Longrightarrow> distinct (ys @ x # zs) \<Longrightarrow> z \<in> set ys \<Longrightarrow> z \<notin> set xs"
proof (induction ys)
  case (Cons y ys)
  then have sub: "subseq (x # xs) (ys @ x # zs)" by auto
  then have "y \<notin> set xs"
    using subseq_set [OF sub, of y] Cons.prems(2) by auto
  with sub Cons show ?case by auto
qed simp

lemma front_oldest:
  assumes ok: "lines_ok v" and ff: "fifo v" and q: "lv_queue v d = i # q"
    and idle: "\<And>j. \<not> flying v d j" and h: "lv_history v d = older @ i # newer"
    and j: "j \<in> set older"
  shows "\<exists>r. lv_records v j = Some r \<and> wr_device r = d \<and> settled (wr_status r)"
proof -
  have dist: "distinct (older @ i # newer)"
    using lines_okD(6) [OF ok, of d] h by simp
  have "subseq (i # q) (older @ i # newer)"
    using fifoD(1) [OF ff, of d] q h by simp
  then have "j \<notin> set (lv_queue v d)"
    using subseq_before [OF _ dist j] dist j q by auto
  moreover obtain r where r: "lv_records v j = Some r" "wr_device r = d"
    using lines_okD(4) [OF ok, of j d] h j by auto
  ultimately have "wr_status r \<noteq> Pending" and "wr_status r \<noteq> InFlight"
    using lines_okD(3) [OF ok r(1)] idle [of j] by (auto simp: flying_def)
  with r show ?thesis by (cases "wr_status r") auto
qed

end
