(* ===== verification/Sis_Outbox_Inv.thy ===== *)
theory Sis_Outbox_Inv
  imports Sis_Outbox Sis_Lines
begin

text \<open>
  The outbox implements the lines of \<open>Sis_Lines\<close>: \<open>view\<close> reads a line view off an outbox,
  and every operation, from an outbox whose view is well formed, is a sequence of line
  steps. The invariant, the life of a write and the order of a line follow from there.
\<close>

definition view :: "outbox \<Rightarrow> line_view" where
  "view ob = \<lparr>lv_records = map_of (ob_records ob),
              lv_queue = (\<lambda>d. dl_queue (log_of ob d)),
              lv_history = (\<lambda>d. dl_history (log_of ob d))\<rparr>"

lemma view_simps [simp]:
  "lv_records (view ob) = map_of (ob_records ob)"
  "lv_queue (view ob) d = dl_queue (log_of ob d)"
  "lv_history (view ob) d = dl_history (log_of ob d)"
  by (simp_all add: view_def)

definition outbox_ok :: "outbox \<Rightarrow> bool" where
  "outbox_ok ob \<longleftrightarrow> lines_ok (view ob)"

text \<open>Reading a log back after each way of writing one.\<close>

lemma log_of_oput [simp]:
  "log_of (ob\<lparr>ob_logs := oput d l m\<rparr>) d' = (if d' = d then l else log_of (ob\<lparr>ob_logs := m\<rparr>) d')"
  by (simp add: log_of_def)

lemma log_of_oentry [simp]:
  "log_of (ob\<lparr>ob_logs := oentry d default_log f m\<rparr>) d'
     = (if d' = d then f (log_of (ob\<lparr>ob_logs := m\<rparr>) d) else log_of (ob\<lparr>ob_logs := m\<rparr>) d')"
  by (simp add: log_of_def)

lemma log_of_same [simp]: "log_of (ob\<lparr>ob_logs := ob_logs ob\<rparr>) = log_of ob"
  by (simp add: log_of_def fun_eq_iff)

lemma log_of_frame [simp]:
  "log_of (ob\<lparr>ob_records := R\<rparr>) = log_of ob"
  "log_of (ob\<lparr>ob_batches := B\<rparr>) = log_of ob"
  "log_of (ob\<lparr>ob_groups := G\<rparr>) = log_of ob"
  "log_of (ob\<lparr>ob_max_attempts := n\<rparr>) = log_of ob"
  "log_of (ob\<lparr>ob_backoff := n\<rparr>) = log_of ob"
  "log_of (ob\<lparr>ob_logs := L, ob_records := R\<rparr>) = log_of (ob\<lparr>ob_logs := L\<rparr>)"
  by (simp_all add: log_of_def fun_eq_iff)

lemma log_of_Some: "map_of (ob_logs ob) d = Some l \<Longrightarrow> log_of ob d = l"
  by (simp add: log_of_def)

lemma view_frame [simp]:
  "view (ob\<lparr>ob_batches := B\<rparr>) = view ob"
  "view (ob\<lparr>ob_groups := G\<rparr>) = view ob"
  "view (ob\<lparr>ob_max_attempts := n\<rparr>) = view ob"
  "view (ob\<lparr>ob_backoff := n\<rparr>) = view ob"
  "view (ob\<lparr>ob_logs := oentry d default_log id (ob_logs ob)\<rparr>) = view ob"
  by (simp_all add: view_def fun_eq_iff)

text \<open>Replacing one record and the line of one device, on the outbox and in the view.\<close>

lemma view_update:
  "map_of R = (map_of (ob_records ob))(i \<mapsto> r) \<Longrightarrow>
   (\<And>d'. dl_queue (log_of (ob\<lparr>ob_logs := L\<rparr>) d') = ((\<lambda>d. dl_queue (log_of ob d))(d := q)) d') \<Longrightarrow>
   (\<And>d'. dl_history (log_of (ob\<lparr>ob_logs := L\<rparr>) d') = dl_history (log_of ob d')) \<Longrightarrow>
   view (ob\<lparr>ob_logs := L, ob_records := R\<rparr>)
     = (view ob)\<lparr>lv_records := (lv_records (view ob))(i \<mapsto> r), lv_queue := (lv_queue (view ob))(d := q)\<rparr>"
  by (simp add: view_def fun_eq_iff)


section \<open>Submission\<close>

lemma admit_targets_frame:
  "ob_records (fst (admit_targets i ds ob)) = ob_records ob \<and>
   ob_batches (fst (admit_targets i ds ob)) = ob_batches ob \<and>
   ob_groups (fst (admit_targets i ds ob)) = ob_groups ob \<and>
   ob_max_attempts (fst (admit_targets i ds ob)) = ob_max_attempts ob \<and>
   ob_backoff (fst (admit_targets i ds ob)) = ob_backoff ob \<and>
   log_of (fst (admit_targets i ds ob)) = log_of ob"
proof (induction ds arbitrary: ob)
  case (Cons d ds)
  let ?ob = "ob\<lparr>ob_logs := oentry d default_log id (ob_logs ob)\<rparr>"
  have same: "log_of ?ob = log_of ob" by (auto simp: fun_eq_iff)
  show ?case
    using Cons.IH [of ?ob] same by (auto simp: Let_def split: sum.split prod.split)
qed simp

lemma admit_targets_view [simp]: "view (fst (admit_targets i ds ob)) = view ob"
  using admit_targets_frame [of i ds ob] by (simp add: view_def)

definition fresh_ids :: "submission \<Rightarrow> outbox \<Rightarrow> bool" where
  "fresh_ids s ob \<longleftrightarrow> distinct (su_ids s) \<and> (\<forall>i \<in> set (su_ids s). map_of (ob_records ob) i = None)"

lemma record_targets_steps:
  "distinct (map (fst \<circ> snd) ts) \<Longrightarrow> \<forall>t \<in> set ts. map_of (ob_records ob) (fst (snd t)) = None \<Longrightarrow>
     line_steps M (view ob) (view (fst (record_targets s ts ob)))"
proof (induction ts arbitrary: ob)
  case (Cons t ts)
  obtain d i adm where t: "t = (d, i, adm)" by (cases t) auto
  define ob2 where "ob2 = ob\<lparr>ob_records := oput i (new_record s d i (snd (snd adm))) (ob_records ob),
    ob_logs := oentry d default_log (append_write s i adm) (ob_logs ob)\<rparr>"
  have eq: "view ob2 = (view ob)\<lparr>
      lv_records := (lv_records (view ob))(i \<mapsto> new_record s d i (snd (snd adm))),
      lv_queue := (lv_queue (view ob))(d := lv_queue (view ob) d @ [i]),
      lv_history := (lv_history (view ob))(d := lv_history (view ob) d @ [i])\<rparr>"
    by (auto simp: ob2_def view_def fun_eq_iff log_of_def append_write_def split: prod.split)
  have "line_step M (view ob) (view ob2)"
    unfolding eq by (rule line_step.admit) (use Cons.prems t in \<open>simp_all add: new_record_def\<close>)
  moreover have "line_steps M (view ob2) (view (fst (record_targets s ts ob2)))"
    using Cons.prems t by (intro Cons.IH) (auto simp: ob2_def)
  moreover have "fst (record_targets s (t # ts) ob) = fst (record_targets s ts ob2)"
    by (simp add: t ob2_def Let_def split: prod.split)
  ultimately show ?case
    by (simp add: converse_rtranclp_into_rtranclp)
qed simp

lemma view_submit_tail [simp]:
  "view (arm_batch s ob) = view ob" "view (record_expectation s ob) = view ob"
  by (auto simp: arm_batch_def record_expectation_def split: option.split prod.split)

lemma admit_targets_length:
  "admit_targets i ds ob = (ob', Inr adm) \<Longrightarrow> length adm = length ds"
  by (induction ds arbitrary: ob ob' adm) (auto simp: Let_def split: sum.splits prod.splits)

lemma submit_cases:
  obtains (malformed) m where "submit s ob = (ob, Inl (Malformed m))"
        "su_targets s = [] \<or> length (su_ids s) \<noteq> length (su_targets s)"
  | (replay) acc where "replay_of ob s = Some acc" "submit s ob = (ob, Inr acc)"
  | (refused) ob1 e where "admit_targets (su_intent s) (su_targets s) ob = (ob1, Inl e)"
        "replay_of ob s = None" "submit s ob = (ob1, Inl e)"
  | (admitted) ob1 adm ob2 writes where
        "su_targets s \<noteq> []" "length (su_ids s) = length (su_targets s)" "replay_of ob s = None"
        "admit_targets (su_intent s) (su_targets s) ob = (ob1, Inr adm)"
        "record_targets s (zip (su_targets s) (zip (su_ids s) adm)) ob1 = (ob2, writes)"
        "submit s ob = (arm_batch s (record_expectation s ob2),
           Inr \<lparr>acc_batch = su_batch s, acc_writes = writes\<rparr>)"
  by (cases "su_targets s = []"; cases "length (su_ids s) = length (su_targets s)";
      cases "replay_of ob s"; cases "admit_targets (su_intent s) (su_targets s) ob";
      cases "snd (admit_targets (su_intent s) (su_targets s) ob)";
      cases "record_targets s (zip (su_targets s) (zip (su_ids s)
        (projr (snd (admit_targets (su_intent s) (su_targets s) ob)))))
        (fst (admit_targets (su_intent s) (su_targets s) ob))")
     (simp_all add: submit_def)

lemma submit_steps:
  assumes "fresh_ids s ob"
  shows "line_steps M (view ob) (view (fst (submit s ob)))"
proof (cases rule: submit_cases [of s ob])
  case (admitted ob1 adm ob2 writes)
  note frame = admit_targets_frame [of "su_intent s" "su_targets s" ob, unfolded admitted(4) fst_conv]
  have len: "length adm = length (su_targets s)"
    using admitted(4) by (rule admit_targets_length)
  have ids: "map (fst \<circ> snd) (zip (su_targets s) (zip (su_ids s) adm)) = su_ids s"
    using len admitted(2) by (intro nth_equalityI) simp_all
  have mem: "fst (snd t) \<in> set (su_ids s)" if "t \<in> set (zip (su_targets s) (zip (su_ids s) adm))" for t
  proof -
    have "(fst \<circ> snd) t \<in> set (map (fst \<circ> snd) (zip (su_targets s) (zip (su_ids s) adm)))"
      using that by simp
    then show ?thesis unfolding ids by simp
  qed
  have "line_steps M (view ob1) (view (fst (record_targets s (zip (su_targets s) (zip (su_ids s) adm)) ob1)))"
    using assms ids mem frame by (intro record_targets_steps) (auto simp: fresh_ids_def)
  moreover have "view ob1 = view ob"
    using admit_targets_view [of "su_intent s" "su_targets s" ob] admitted(4) by simp
  ultimately show ?thesis
    using admitted(5,6) by simp
next
  case (refused ob1 e)
  then show ?thesis
    using admit_targets_view [of "su_intent s" "su_targets s" ob] by simp
qed simp_all


section \<open>Draining\<close>

lemma queue_head_log: "queue_head ob d = (case dl_queue (log_of ob d) of [] \<Rightarrow> None | i # q \<Rightarrow> Some i)"
  by (cases "map_of (ob_logs ob) d") (simp_all add: queue_head_def log_of_def default_log_def)

text \<open>The outcome of claiming a head: nothing to claim, or one claim step.\<close>

lemma claim_head_cases:
  assumes "outbox_ok ob"
  obtains (none) "claim_head d at ob = (ob, Inr None)" "dl_queue (log_of ob d) = []"
  | (claimed) i q r r' where
      "dl_queue (log_of ob d) = i # q" "map_of (ob_records ob) i = Some r"
      "wr_device r = d" "wr_status r = Pending" "same_write r r'" "wr_status r' = InFlight"
      "wr_attempts r' = wr_attempts r + 1"
      "snd (claim_head d at ob) = Inr (Some r')"
      "view (fst (claim_head d at ob)) =
         (view ob)\<lparr>lv_records := (lv_records (view ob))(i \<mapsto> r'), lv_queue := (lv_queue (view ob))(d := q)\<rparr>"
proof (cases "map_of (ob_logs ob) d")
  case None
  then show ?thesis by (intro none) (simp_all add: claim_head_def log_of_def default_log_def)
next
  case (Some log)
  note log = this log_of_Some [OF this]
  show ?thesis
  proof (cases "dl_queue log")
    case Nil
    with log show ?thesis by (intro none) (simp_all add: claim_head_def)
  next
    case (Cons i q)
    then obtain r where r: "map_of (ob_records ob) i = Some r" "wr_device r = d" "wr_status r = Pending"
      using lines_okD(2) [OF assms [unfolded outbox_ok_def], of i d] log by auto
    let ?r = "r\<lparr>wr_status := InFlight, wr_attempts := wr_attempts r + 1, wr_updated_at := at\<rparr>"
    have eq: "claim_head d at ob =
        (ob\<lparr>ob_logs := oput d (log\<lparr>dl_queue := q\<rparr>) (ob_logs ob), ob_records := oput i ?r (ob_records ob)\<rparr>,
         Inr (Some ?r))"
      using log Cons r by (simp add: claim_head_def Let_def)
    show ?thesis
      using log Cons r
      by (intro claimed [of i q r ?r]) (simp_all add: eq same_write_def view_update fun_eq_iff)
  qed
qed

lemma claim_head_steps:
  assumes "outbox_ok ob"
  shows "line_steps M (view ob) (view (fst (claim_head d at ob)))"
  using assms
proof (cases rule: claim_head_cases [of ob d at])
  case (claimed i q r r')
  show ?thesis
    unfolding claimed(9)
    by (rule r_into_rtranclp, rule line_step.claim) (use claimed in simp_all)
qed simp

text \<open>A well-formed outbox never meets the two broken-queue errors.\<close>

lemma claim_head_no_error: "outbox_ok ob \<Longrightarrow> \<exists>r. snd (claim_head d at ob) = Inr r"
  by (cases rule: claim_head_cases [of ob d at]) auto

lemma outbox_ok_steps: "outbox_ok ob \<Longrightarrow> line_steps M (view ob) (view ob') \<Longrightarrow> outbox_ok ob'"
  unfolding outbox_ok_def by (rule line_steps_ok)

lemma claim_members_steps:
  "outbox_ok ob \<Longrightarrow> line_steps M (view ob) (view (fst (claim_members ds at ob)))
     \<and> (\<exists>rs. snd (claim_members ds at ob) = Inr rs)"
proof (induction ds arbitrary: ob)
  case (Cons d ds)
  obtain ob1 x where eq: "claim_head d at ob = (ob1, x)" by (cases "claim_head d at ob")
  have steps: "line_steps M (view ob) (view ob1)"
    using claim_head_steps [OF Cons.prems, of M d at] eq by simp
  obtain r where x: "x = Inr r"
    using claim_head_no_error [OF Cons.prems, of d at] eq by auto
  have "outbox_ok ob1"
    using Cons.prems steps by (rule outbox_ok_steps)
  with Cons.IH [of ob1] steps show ?case
    by (auto simp: eq x split: prod.splits sum.splits intro: rtranclp_trans)
qed simp

lemma fail_head_steps:
  assumes "outbox_ok ob"
  shows "line_steps M (view ob) (view (fail_head d at ob))"
proof (cases "map_of (ob_logs ob) d")
  case None
  then show ?thesis by (simp add: fail_head_def)
next
  case (Some log)
  note log = this log_of_Some [OF this]
  note ok = assms [unfolded outbox_ok_def]
  show ?thesis
  proof (cases "dl_queue log")
    case Nil
    with log show ?thesis by (simp add: fail_head_def)
  next
    case (Cons i q)
    then obtain r where r: "map_of (ob_records ob) i = Some r" "wr_device r = d"
      using lines_okD(2) [OF ok, of i d] log by auto
    have q: "removeAll i (i # q) = q"
      using lines_okD(5) [OF ok, of d] log Cons by (simp add: removeAll_id)
    have "view (fail_head d at ob) = (view ob)\<lparr>
        lv_records := (lv_records (view ob))(i \<mapsto> r\<lparr>wr_status := Failed barrier_expired, wr_updated_at := at\<rparr>),
        lv_queue := (lv_queue (view ob))(d := removeAll i (lv_queue (view ob) d))\<rparr>"
      using log Cons r q by (simp add: fail_head_def view_update fun_eq_iff)
    moreover have "line_step M (view ob) \<dots>"
      using log Cons r by (intro line_step.drop) (simp_all add: same_write_def)
    ultimately show ?thesis by auto
  qed
qed

lemma fail_members_steps:
  "outbox_ok ob \<Longrightarrow> line_steps M (view ob) (view (fail_members ds at ob))"
proof (induction ds arbitrary: ob)
  case (Cons d ds)
  note head = fail_head_steps [OF Cons.prems, of M d at]
  show ?case
    using head Cons.IH [OF outbox_ok_steps [OF Cons.prems head]] by (auto intro: rtranclp_trans)
qed simp

lemma step_batch_view [simp]: "view (fst (step_batch ch b d at ob)) = view ob"
  by (auto simp: step_batch_def Let_def split: option.split gate.split)

lemma claim_alone_steps:
  assumes "outbox_ok ob"
  shows "line_steps M (view ob) (view (fst (claim_alone d at ob)))"
    and "\<exists>c. snd (claim_alone d at ob) = Inr c"
  using claim_head_steps [OF assms, of M d at] claim_head_no_error [OF assms, of d at]
  by (auto simp: claim_alone_def split: prod.splits sum.splits)

text \<open>The branches of \<open>claim_next\<close>, for an outbox whose heads have records.\<close>

lemma claim_next_cases:
  assumes "outbox_ok ob"
  obtains (nothing) "claim_next ch d at ob = (ob, Inr None)"
  | (alone) i r where "queue_head ob d = Some i" "map_of (ob_records ob) i = Some r"
      "wr_batch r = None" "claim_next ch d at ob = claim_alone d at ob"
  | (straggler) i r b where "queue_head ob d = Some i" "map_of (ob_records ob) i = Some r"
      "wr_batch r = Some b" "snd (step_batch ch b d at ob) = Alone"
      "claim_next ch d at ob = claim_alone d at (fst (step_batch ch b d at ob))"
  | (wait) i r b where "queue_head ob d = Some i" "map_of (ob_records ob) i = Some r"
      "wr_batch r = Some b" "snd (step_batch ch b d at ob) = Wait"
      "claim_next ch d at ob = (fst (step_batch ch b d at ob), Inr None)"
  | (release) i r b members rs where "queue_head ob d = Some i" "map_of (ob_records ob) i = Some r"
      "wr_batch r = Some b" "snd (step_batch ch b d at ob) = Release members"
      "snd (claim_members members at (fst (step_batch ch b d at ob))) = Inr rs"
      "claim_next ch d at ob =
         (fst (claim_members members at (fst (step_batch ch b d at ob))), Inr (Some (Batch b rs)))"
  | (expired) i r b members where "queue_head ob d = Some i" "map_of (ob_records ob) i = Some r"
      "wr_batch r = Some b" "snd (step_batch ch b d at ob) = Fail members"
      "claim_next ch d at ob =
         (fail_members members at (fst (step_batch ch b d at ob)), Inr None)"
proof (cases "queue_head ob d")
  case None
  show ?thesis by (rule nothing) (simp add: claim_next_def None)
next
  case (Some i)
  then have "i \<in> set (lv_queue (view ob) d)"
    by (auto simp: queue_head_log split: list.splits)
  then obtain r where r: "map_of (ob_records ob) i = Some r"
    using lines_okD(2) [OF assms [unfolded outbox_ok_def]] by auto
  show ?thesis
  proof (cases "at < wr_not_before r")
    case True
    show ?thesis by (rule nothing) (simp add: claim_next_def Some r True)
  next
    case due: False
    show ?thesis
    proof (cases "wr_batch r")
      case None
      show ?thesis by (rule alone [OF Some r None]) (simp add: claim_next_def Some r due None)
    next
      case (Some b)
      note head = \<open>queue_head ob d = Some i\<close> r Some
      obtain ob1 st where st: "step_batch ch b d at ob = (ob1, st)" by fastforce
      have "outbox_ok ob1"
        using step_batch_view [of ch b d at ob] assms st by (simp add: outbox_ok_def)
      then have rs: "\<exists>rs. snd (claim_members members at ob1) = Inr rs" for members
        using claim_members_steps by blast
      show ?thesis
      proof (cases st)
        case Wait
        show ?thesis by (rule wait [OF head]) (simp_all add: claim_next_def head due st Wait)
      next
        case (Release members)
        obtain rs ob2 where "claim_members members at ob1 = (ob2, Inr rs)"
          using rs [of members] by (metis prod.collapse)
        then show ?thesis
          by (intro release [OF head, of members rs]) (simp_all add: claim_next_def head due st Release)
      next
        case Alone
        show ?thesis by (rule straggler [OF head]) (simp_all add: claim_next_def head due st Alone)
      next
        case (Fail members)
        show ?thesis by (rule expired [OF head]) (simp_all add: claim_next_def head due st Fail)
      qed
    qed
  qed
qed

lemma claim_next_steps:
  assumes "outbox_ok ob"
  shows "line_steps M (view ob) (view (fst (claim_next ch d at ob)))
     \<and> (\<exists>c. snd (claim_next ch d at ob) = Inr c)"
proof -
  have ok1: "outbox_ok (fst (step_batch ch b d at ob))" for b
    using assms by (simp add: outbox_ok_def)
  show ?thesis
    using assms
  proof (cases rule: claim_next_cases [of ob ch d at])
    case alone
    with claim_alone_steps(1) [OF assms, of M d at] claim_alone_steps(2) [OF assms, of d at] show ?thesis by simp
  next
    case (straggler i r b)
    with claim_alone_steps(1) [OF ok1 [of b], of M d at] claim_alone_steps(2) [OF ok1 [of b], of d at] show ?thesis by simp
  next
    case (release i r b members rs)
    with claim_members_steps [OF ok1 [of b], of M members at] show ?thesis by simp
  next
    case (expired i r b members)
    with fail_members_steps [OF ok1 [of b], of M members at] show ?thesis by simp
  qed simp_all
qed


section \<open>Settling and observing\<close>

lemma settle_batch_view [simp]: "view (settle_batch f r ob) = view ob"
  by (simp add: settle_batch_def split: option.split)

lemma settle_batch_frame [simp]:
  "ob_records (settle_batch f r ob) = ob_records ob" "ob_logs (settle_batch f r ob) = ob_logs ob"
  "ob_groups (settle_batch f r ob) = ob_groups ob"
  "ob_max_attempts (settle_batch f r ob) = ob_max_attempts ob"
  by (simp_all add: settle_batch_def split: option.split)

lemma settle_steps:
  assumes "outbox_ok ob" and "ob_max_attempts ob \<le> M"
  shows "line_steps M (view ob) (view (fst (settle ch i out at ob)))"
proof (cases "map_of (ob_records ob) i")
  case None
  then show ?thesis by (simp add: settle_def)
next
  case (Some r)
  show ?thesis
  proof (cases "wr_status r = InFlight")
    case False
    with Some show ?thesis by (simp add: settle_def)
  next
    case fly: True
    let ?ob = "fst (settle ch i out at ob)" and ?d = "wr_device r"
    show ?thesis
    proof (cases "\<exists>reason. out = OFailed reason \<and> wr_attempts r < ob_max_attempts ob")
      case True
      then have "view ?ob = (view ob)\<lparr>
          lv_records := (lv_records (view ob))(i \<mapsto> retry_record ch at ob r),
          lv_queue := (lv_queue (view ob))(?d := i # lv_queue (view ob) ?d)\<rparr>"
        using Some fly by (auto simp: settle_def Let_def view_def fun_eq_iff log_of_def)
      moreover have "line_step M (view ob) \<dots>"
        by (rule line_step.requeue) (use Some fly True assms(2) in \<open>auto simp: retry_record_def same_write_def\<close>)
      ultimately show ?thesis by auto
    next
      case False
      then obtain r' where r': "settled (wr_status r')" "same_write r r'" "wr_attempts r' = wr_attempts r"
          "view ?ob = (view ob)\<lparr>lv_records := (lv_records (view ob))(i \<mapsto> r')\<rparr>"
      proof (cases out)
        case (OSucceeded v)
        with Some fly show ?thesis
          by (intro that [of "r\<lparr>wr_status := Succeeded v, wr_updated_at := at\<rparr>"])
             (simp_all add: settle_def Let_def view_def fun_eq_iff log_of_def same_write_def)
      next
        case (OFailed reason)
        with Some fly False show ?thesis
          by (intro that [of "r\<lparr>wr_status := Failed reason, wr_updated_at := at\<rparr>"])
             (simp_all add: settle_def Let_def view_def fun_eq_iff log_of_def same_write_def)
      qed
      have "line_step M (view ob) (view ?ob)"
        unfolding r'(4) by (rule line_step.finish) (use Some fly r' in simp_all)
      then show ?thesis by simp
    qed
  qed
qed

lemma observe_view [simp]: "view (observe d obs ob) = view ob"
  by (auto simp: observe_def view_def fun_eq_iff Let_def)


section \<open>Cancelling\<close>

abbreviation canceled :: "string \<Rightarrow> write_record \<Rightarrow> write_record" where
  "canceled reason r \<equiv> r\<lparr>wr_status := Canceled reason\<rparr>"

abbreviation canceled_together :: "string \<Rightarrow> write_record \<Rightarrow> write_record" where
  "canceled_together reason \<equiv>
     canceled (reason @ '' (this write's device group could not act together)'')"

lemma cancel_rows_records:
  "distinct is \<Longrightarrow> \<forall>i \<in> set is. \<exists>r. map_of recs i = Some r \<and> wr_status r = Pending \<Longrightarrow>
     map_of (fst (cancel_rows reason is recs))
       = (\<lambda>i. if i \<in> set is then map_option (canceled_together reason) (map_of recs i) else map_of recs i)
     \<and> snd (cancel_rows reason is recs) = length is"
proof (induction "is" arbitrary: recs)
  case (Cons i "is")
  then obtain r where r: "map_of recs i = Some r" "wr_status r = Pending" by auto
  have "map_of (fst (cancel_rows reason is (oput i (canceled_together reason r) recs)))
      = (\<lambda>j. if j \<in> set is then map_option (canceled_together reason) (map_of (oput i (canceled_together reason r) recs) j)
             else map_of (oput i (canceled_together reason r) recs) j)
      \<and> snd (cancel_rows reason is (oput i (canceled_together reason r) recs)) = length is"
    using Cons.prems by (intro Cons.IH) auto
  then show ?case
    using r Cons.prems(1) by (auto simp: fun_eq_iff split: prod.splits)
qed (simp add: fun_eq_iff)

lemma cancel_own_records:
  "distinct is \<Longrightarrow> \<forall>i \<in> set is. map_of recs i \<noteq> None \<Longrightarrow>
     map_of (fst (cancel_own reason is recs))
       = (\<lambda>i. if i \<in> set is then map_option (canceled reason) (map_of recs i) else map_of recs i)
     \<and> snd (snd (cancel_own reason is recs)) = length is"
proof (induction "is" arbitrary: recs)
  case (Cons i "is")
  then obtain r where r: "map_of recs i = Some r" by auto
  have "map_of (fst (cancel_own reason is (oput i (canceled reason r) recs)))
      = (\<lambda>j. if j \<in> set is then map_option (canceled reason) (map_of (oput i (canceled reason r) recs) j)
             else map_of (oput i (canceled reason r) recs) j)
      \<and> snd (snd (cancel_own reason is (oput i (canceled reason r) recs))) = length is"
    using Cons.prems by (intro Cons.IH) auto
  then show ?case
    using r Cons.prems(1) by (auto simp: fun_eq_iff split: prod.splits)
qed (simp add: fun_eq_iff)

text \<open>Both loops, on the view: the rows leave the line of their device together.\<close>

lemma view_drop_rows:
  assumes "map_of (ob_logs ob) d = Some log"
    and "map_of R = (\<lambda>i. if i \<in> set is then map_option f (map_of (ob_records ob) i) else map_of (ob_records ob) i)"
    and "kept = filter (\<lambda>i. i \<notin> set is) (dl_queue log)"
  shows "view (ob\<lparr>ob_logs := oput d (log\<lparr>dl_queue := kept\<rparr>) (ob_logs ob), ob_records := R\<rparr>)
    = drop_rows f (set is) d (view ob)"
  using assms by (simp add: view_def drop_rows_def fun_eq_iff log_of_Some)

lemma cancel_member_steps:
  assumes ok: "outbox_ok ob" and log: "map_of (ob_logs ob) d = Some log"
    and eq: "cancel_rows reason (filter (of_batch ob b) (dl_queue log)) (ob_records ob) = (recs, n)"
  shows "line_steps M (view ob) (view (ob\<lparr>ob_logs :=
      oput d (log\<lparr>dl_queue := filter (\<lambda>i. \<not> of_batch ob b i) (dl_queue log)\<rparr>) (ob_logs ob), ob_records := recs\<rparr>))"
    and "n = length (filter (of_batch ob b) (dl_queue log))"
proof -
  let ?is = "filter (of_batch ob b) (dl_queue log)"
  have dist: "distinct ?is" and pend: "\<forall>i \<in> set ?is. \<exists>r. map_of (ob_records ob) i = Some r \<and> wr_status r = Pending"
    using lines_okD(2) [OF ok [unfolded outbox_ok_def], of _ d] lines_okD(5) [OF ok [unfolded outbox_ok_def], of d]
      log_of_Some [OF log] by auto
  note recs = cancel_rows_records [OF dist pend, of reason, unfolded eq fst_conv snd_conv]
  show "n = length ?is" using recs by simp
  have "line_steps M (view ob) (drop_rows (canceled_together reason) (set ?is) d (view ob))"
    using ok dist log_of_Some [OF log] by (intro drop_rows_steps) (auto simp: same_write_def outbox_ok_def)
  moreover have "view (ob\<lparr>ob_logs :=
      oput d (log\<lparr>dl_queue := filter (\<lambda>i. \<not> of_batch ob b i) (dl_queue log)\<rparr>) (ob_logs ob), ob_records := recs\<rparr>)
    = drop_rows (canceled_together reason) (set ?is) d (view ob)"
    using recs log by (intro view_drop_rows) (auto intro!: filter_cong)
  ultimately show "line_steps M (view ob) (view (ob\<lparr>ob_logs :=
      oput d (log\<lparr>dl_queue := filter (\<lambda>i. \<not> of_batch ob b i) (dl_queue log)\<rparr>) (ob_logs ob), ob_records := recs\<rparr>))"
    by simp
qed

lemma cancel_members_steps:
  "outbox_ok ob \<Longrightarrow> line_steps M (view ob) (view (fst (cancel_members b reason ds ob)))"
proof (induction ds arbitrary: ob)
  case (Cons d ds)
  show ?case
  proof (cases "map_of (ob_logs ob) d")
    case None
    with Cons show ?thesis by simp
  next
    case (Some log)
    obtain recs n where eq: "cancel_rows reason (filter (of_batch ob b) (dl_queue log)) (ob_records ob) = (recs, n)"
      by fastforce
    note step = cancel_member_steps(1) [OF Cons.prems Some eq, of M]
    show ?thesis
      using step Cons.IH [OF outbox_ok_steps [OF Cons.prems step]] Some eq
      by (auto simp: Let_def split: prod.split)
  qed
qed simp

lemma cancel_batch_steps:
  "outbox_ok ob \<Longrightarrow> line_steps M (view ob) (view (fst (cancel_batch b reason ob)))"
  using cancel_members_steps [of "ob\<lparr>ob_batches := odel b (ob_batches ob)\<rparr>" M b reason]
  by (auto simp: cancel_batch_def outbox_ok_def split: option.split)

lemma cancel_batches_steps:
  "outbox_ok ob \<Longrightarrow> line_steps M (view ob) (view (fst (cancel_batches reason bs ob)))"
proof (induction bs arbitrary: ob)
  case (Cons b bs)
  note step = cancel_batch_steps [OF Cons.prems, of M b reason]
  show ?case
    using step Cons.IH [OF outbox_ok_steps [OF Cons.prems step]] by (auto split: prod.splits)
qed simp

lemma cancel_own_steps:
  assumes ok: "outbox_ok ob" and log: "map_of (ob_logs ob) d = Some log"
    and eq: "cancel_own reason (dl_queue log) (ob_records ob) = (recs, doomed, n)"
  shows "view (ob\<lparr>ob_logs := oput d (log\<lparr>dl_queue := []\<rparr>) (ob_logs ob), ob_records := recs\<rparr>)
      = drop_rows (canceled reason) (set (dl_queue log)) d (view ob)"
    and "line_steps M (view ob)
      (view (ob\<lparr>ob_logs := oput d (log\<lparr>dl_queue := []\<rparr>) (ob_logs ob), ob_records := recs\<rparr>))"
    and "n = length (dl_queue log)"
proof -
  have dist: "distinct (dl_queue log)" and pend: "\<forall>i \<in> set (dl_queue log). map_of (ob_records ob) i \<noteq> None"
    using lines_okD(2) [OF ok [unfolded outbox_ok_def], of _ d] lines_okD(5) [OF ok [unfolded outbox_ok_def], of d]
      log_of_Some [OF log] by auto
  note recs = cancel_own_records [OF dist pend, of reason, unfolded eq fst_conv snd_conv]
  show "n = length (dl_queue log)" using recs by simp
  show view: "view (ob\<lparr>ob_logs := oput d (log\<lparr>dl_queue := []\<rparr>) (ob_logs ob), ob_records := recs\<rparr>)
      = drop_rows (canceled reason) (set (dl_queue log)) d (view ob)"
    using recs log by (intro view_drop_rows) auto
  show "line_steps M (view ob)
      (view (ob\<lparr>ob_logs := oput d (log\<lparr>dl_queue := []\<rparr>) (ob_logs ob), ob_records := recs\<rparr>))"
    unfolding view using ok dist log_of_Some [OF log]
    by (intro drop_rows_steps) (auto simp: same_write_def outbox_ok_def)
qed

lemma cancel_queued_steps:
  assumes "outbox_ok ob"
  shows "line_steps M (view ob) (view (fst (cancel_queued d reason ob)))"
proof (cases "map_of (ob_logs ob) d")
  case None
  then show ?thesis by (simp add: cancel_queued_def)
next
  case (Some log)
  obtain recs doomed n where eq: "cancel_own reason (dl_queue log) (ob_records ob) = (recs, doomed, n)"
    using prod_cases3 by blast
  note own = cancel_own_steps [OF assms Some eq]
  show ?thesis
    using own(2) [of M] cancel_batches_steps [OF outbox_ok_steps [OF assms own(2)], of M reason "oset doomed"] Some eq
    by (auto simp: cancel_queued_def Let_def split: prod.split)
qed


section \<open>Reachable outboxes\<close>

text \<open>
  The callers mint identifiers: write ids of a submission are new and distinct, its batch
  id is new, and it names each device once.
\<close>

definition fresh :: "submission \<Rightarrow> outbox \<Rightarrow> bool" where
  "fresh s ob \<longleftrightarrow> fresh_ids s ob \<and> distinct (su_targets s) \<and>
     (\<forall>b. su_batch s = Some b \<longrightarrow> map_of (ob_batches ob) b = None \<and>
        (\<forall>i r. map_of (ob_records ob) i = Some r \<longrightarrow> wr_batch r \<noteq> Some b))"

text \<open>One call on the outbox, by whichever component makes it, with budgets up to \<open>M\<close>.\<close>

inductive outbox_op :: "chrono \<Rightarrow> nat \<Rightarrow> outbox \<Rightarrow> outbox \<Rightarrow> bool" for ch M where
  op_submit: "fresh s ob \<Longrightarrow> outbox_op ch M ob (fst (submit s ob))"
| op_claim: "outbox_op ch M ob (fst (claim_next ch d at ob))"
| op_settle: "outbox_op ch M ob (fst (settle ch i out at ob))"
| op_observe: "outbox_op ch M ob (observe d obs ob)"
| op_cancel: "outbox_op ch M ob (fst (cancel_queued d reason ob))"
| op_forget: "outbox_op ch M ob (fst (forget_group g ob))"
| op_budget: "max n 1 \<le> M \<Longrightarrow> outbox_op ch M ob (set_max_attempts n ob)"
| op_backoff: "outbox_op ch M ob (with_backoff n ob)"

inductive reachable :: "chrono \<Rightarrow> nat \<Rightarrow> outbox \<Rightarrow> bool" for ch M where
  start: "max n 1 \<le> M \<Longrightarrow> reachable ch M (with_max_attempts n)"
| step: "reachable ch M ob \<Longrightarrow> outbox_op ch M ob ob' \<Longrightarrow> reachable ch M ob'"

inductive_cases outbox_opE: "outbox_op ch M ob ob'"

lemma cancel_members_fst:
  "fst (cancel_members b reason (d # ds) ob) =
     (case map_of (ob_logs ob) d of
        None \<Rightarrow> fst (cancel_members b reason ds ob)
      | Some log \<Rightarrow> fst (cancel_members b reason ds
          (ob\<lparr>ob_logs := oput d (log\<lparr>dl_queue := filter (\<lambda>i. \<not> of_batch ob b i) (dl_queue log)\<rparr>) (ob_logs ob),
              ob_records := fst (cancel_rows reason (filter (of_batch ob b) (dl_queue log)) (ob_records ob))\<rparr>)))"
  by (simp add: Let_def split: option.split prod.split)

lemma cancel_batches_fst:
  "fst (cancel_batches reason (b # bs) ob) = fst (cancel_batches reason bs (fst (cancel_batch b reason ob)))"
  by (simp split: prod.split)

lemma cancel_queued_fst:
  "fst (cancel_queued d reason ob) =
     (case map_of (ob_logs ob) d of
        None \<Rightarrow> ob
      | Some log \<Rightarrow> fst (cancel_batches reason
          (oset (fst (snd (cancel_own reason (dl_queue log) (ob_records ob)))))
          (ob\<lparr>ob_logs := oput d (log\<lparr>dl_queue := []\<rparr>) (ob_logs ob),
              ob_records := fst (cancel_own reason (dl_queue log) (ob_records ob))\<rparr>)))"
  by (simp add: cancel_queued_def Let_def split: option.split prod.split)

lemma cancel_members_budget [simp]:
  "ob_max_attempts (fst (cancel_members b reason ds ob)) = ob_max_attempts ob"
  by (induction ds arbitrary: ob) (simp, simp only: cancel_members_fst, simp split: option.split)

lemma cancel_batches_budget [simp]:
  "ob_max_attempts (fst (cancel_batches reason bs ob)) = ob_max_attempts ob"
  by (induction bs arbitrary: ob)
     (simp, simp only: cancel_batches_fst, simp add: cancel_batch_def split: option.split)

lemma claim_head_budget [simp]: "ob_max_attempts (fst (claim_head d at ob)) = ob_max_attempts ob"
  by (simp add: claim_head_def Let_def split: option.split list.split)

lemma claim_members_fst:
  "fst (claim_members (d # ds) at ob) =
     (case snd (claim_head d at ob) of
        Inl e \<Rightarrow> fst (claim_head d at ob)
      | Inr r \<Rightarrow> fst (claim_members ds at (fst (claim_head d at ob))))"
  by (simp split: prod.split sum.split)

lemma claim_members_budget [simp]:
  "ob_max_attempts (fst (claim_members ds at ob)) = ob_max_attempts ob"
  by (induction ds arbitrary: ob) (simp, simp only: claim_members_fst, simp split: sum.split)

lemma fail_members_budget [simp]: "ob_max_attempts (fail_members ds at ob) = ob_max_attempts ob"
  by (induction ds arbitrary: ob) (auto simp: fail_head_def split: option.split list.split)

lemma step_batch_budget [simp]: "ob_max_attempts (fst (step_batch ch b d at ob)) = ob_max_attempts ob"
  by (simp add: step_batch_def Let_def split: option.split gate.split)

lemma record_targets_fst:
  "fst (record_targets s ((d, i, adm) # rest) ob) = fst (record_targets s rest
     (ob\<lparr>ob_records := oput i (new_record s d i (snd (snd adm))) (ob_records ob),
         ob_logs := oentry d default_log (append_write s i adm) (ob_logs ob)\<rparr>))"
  by (simp add: Let_def split: prod.split)

lemma record_targets_budget [simp]:
  "ob_max_attempts (fst (record_targets s ts ob)) = ob_max_attempts ob"
proof (induction ts arbitrary: ob)
  case (Cons t ts)
  then show ?case by (cases t) (simp only: record_targets_fst, simp)
qed simp

lemma submit_tail_budget [simp]:
  "ob_max_attempts (arm_batch s ob) = ob_max_attempts ob"
  "ob_max_attempts (record_expectation s ob) = ob_max_attempts ob"
  by (auto simp: arm_batch_def record_expectation_def split: option.split prod.split)

lemma admit_targets_budget [simp]:
  "ob_max_attempts (fst (admit_targets i ds ob)) = ob_max_attempts ob"
  by (simp add: admit_targets_frame)

lemma submit_budget [simp]: "ob_max_attempts (fst (submit s ob)) = ob_max_attempts ob"
proof (cases rule: submit_cases [of s ob])
  case (refused ob1 e)
  then show ?thesis using admit_targets_budget [of "su_intent s" "su_targets s" ob] by simp
next
  case (admitted ob1 adm ob2 writes)
  then show ?thesis
    using admit_targets_budget [of "su_intent s" "su_targets s" ob]
      record_targets_budget [of s "zip (su_targets s) (zip (su_ids s) adm)" ob1] by simp
qed simp_all

lemma claim_alone_fst [simp]: "fst (claim_alone d at ob) = fst (claim_head d at ob)"
  by (simp add: claim_alone_def split: prod.split sum.split)

lemma claim_next_budget [simp]:
  "outbox_ok ob \<Longrightarrow> ob_max_attempts (fst (claim_next ch d at ob)) = ob_max_attempts ob"
  by (cases rule: claim_next_cases [of ob ch d at]) simp_all

lemma observe_budget [simp]: "ob_max_attempts (observe d obs ob) = ob_max_attempts ob"
  by (simp add: observe_def)

lemma settle_budget [simp]: "ob_max_attempts (fst (settle ch i out at ob)) = ob_max_attempts ob"
  by (simp add: settle_def Let_def split: option.split outcome.split)

lemma outbox_op_steps:
  assumes "outbox_op ch M ob ob'" and "outbox_ok ob" and "ob_max_attempts ob \<le> M"
  shows "line_steps M (view ob) (view ob') \<and> ob_max_attempts ob' \<le> M"
  using assms(1)
proof cases
  case (op_submit s)
  then show ?thesis
    using assms(2,3) by (simp add: submit_steps fresh_def)
next
  case (op_claim d at)
  then show ?thesis using assms(2,3) claim_next_steps [OF assms(2)] by simp
next
  case (op_settle i out at)
  then show ?thesis using assms(2,3) by (simp add: settle_steps)
next
  case (op_cancel d reason)
  then show ?thesis
    using assms(2,3) cancel_queued_steps [OF assms(2)]
    by (simp add: cancel_queued_fst split: option.split)
qed (use assms(3) in \<open>simp_all add: forget_group_def set_max_attempts_def with_backoff_def\<close>)

lemma start_ok: "outbox_ok (with_max_attempts n)" "within_budget M (view (with_max_attempts n))"
  by (simp_all add: outbox_ok_def lines_ok_def lines_parts within_budget_def with_max_attempts_def
        log_of_def default_log_def)

lemma reachable_ok:
  "reachable ch M ob \<Longrightarrow> outbox_ok ob \<and> ob_max_attempts ob \<le> M \<and> 0 < M \<and> within_budget M (view ob)"
proof (induction rule: reachable.induct)
  case (start n)
  then show ?case using start_ok by (auto simp: with_max_attempts_def)
next
  case (step ob ob')
  then have "line_steps M (view ob) (view ob')" and "ob_max_attempts ob' \<le> M"
    using outbox_op_steps by blast+
  with step show ?case
    by (auto intro: line_steps_ok line_steps_budget simp: outbox_ok_def)
qed

lemma reachable_steps:
  "reachable ch M ob \<Longrightarrow> outbox_op ch M ob ob' \<Longrightarrow> line_steps M (view ob) (view ob')"
  using outbox_op_steps reachable_ok by blast

lemma outbox_ops_steps:
  "(outbox_op ch M)\<^sup>*\<^sup>* ob ob' \<Longrightarrow> reachable ch M ob \<Longrightarrow>
     reachable ch M ob' \<and> line_steps M (view ob) (view ob')"
proof (induction rule: rtranclp_induct)
  case (step y z)
  then show ?case by (meson reachable.step reachable_steps rtranclp_trans)
qed simp

end
