(* ===== verification/Sis_Barrier.thy ===== *)
theory Sis_Barrier
  imports Sis_Outbox_Inv
begin

text \<open>
  The rendezvous of the outbox: what the gate of a batch says about the rows of that
  batch, in every reachable outbox. The two ways of taking the head of a line
  (\<open>claim_head\<close>, \<open>fail_head\<close>) share the contract \<open>head_taker\<close>; what a whole release or
  a whole expiry does to the rows is proved once from it.
\<close>

section \<open>Taking the heads of several lines\<close>

definition heads :: "outbox \<Rightarrow> device_id list \<Rightarrow> write_id set" where
  "heads ob ds = {i. \<exists>d \<in> set ds. queue_head ob d = Some i}"

lemma heads_cong: "(\<And>d. d \<in> set ds \<Longrightarrow> queue_head ob' d = queue_head ob d) \<Longrightarrow> heads ob' ds = heads ob ds"
  by (simp add: heads_def)

lemma heads_Cons: "i \<in> heads ob (d # ds) \<longleftrightarrow> queue_head ob d = Some i \<or> i \<in> heads ob ds"
  by (simp add: heads_def)

lemma heads_disjoint:
  assumes "outbox_ok ob" and "d \<notin> set ds" and i: "queue_head ob d = Some i"
  shows "i \<notin> heads ob ds"
proof
  assume "i \<in> heads ob ds"
  then obtain d' where d': "d' \<in> set ds" "queue_head ob d' = Some i" by (auto simp: heads_def)
  have "i \<in> set (lv_queue (view ob) d)" "i \<in> set (lv_queue (view ob) d')"
    using i d'(2) by (auto simp: queue_head_log split: list.splits)
  then have "d = d'"
    using lines_okD(2) [OF assms(1) [unfolded outbox_ok_def]] by (metis option.inject)
  with d' assms(2) show False by simp
qed

locale head_taker =
  fixes take :: "device_id \<Rightarrow> outbox \<Rightarrow> outbox"
    and change :: "write_record \<Rightarrow> write_record"
  assumes take_empty: "outbox_ok ob \<Longrightarrow> queue_head ob d = None \<Longrightarrow> take d ob = ob"
    and take_records: "outbox_ok ob \<Longrightarrow> queue_head ob d = Some i \<Longrightarrow> map_of (ob_records ob) i = Some r \<Longrightarrow>
      map_of (ob_records (take d ob)) = (map_of (ob_records ob))(i \<mapsto> change r)"
    and take_heads: "d' \<noteq> d \<Longrightarrow> queue_head (take d ob) d' = queue_head ob d'"
    and take_batches: "ob_batches (take d ob) = ob_batches ob"
    and take_ok: "outbox_ok ob \<Longrightarrow> outbox_ok (take d ob)"
begin

lemma take_records_eq:
  assumes "outbox_ok ob"
  shows "map_of (ob_records (take d ob)) = (\<lambda>i. if queue_head ob d = Some i
    then map_option change (map_of (ob_records ob) i) else map_of (ob_records ob) i)"
proof (cases "queue_head ob d")
  case None
  then show ?thesis using assms by (simp add: take_empty)
next
  case (Some i)
  then have "i \<in> set (lv_queue (view ob) d)"
    by (auto simp: queue_head_log split: list.splits)
  then obtain r where "map_of (ob_records ob) i = Some r"
    using lines_okD(2) [OF assms [unfolded outbox_ok_def]] by auto
  with Some take_records [OF assms Some] show ?thesis by (auto simp: fun_eq_iff)
qed

lemma take_all:
  "outbox_ok ob \<Longrightarrow> distinct ds \<Longrightarrow>
     outbox_ok (fold take ds ob) \<and> ob_batches (fold take ds ob) = ob_batches ob \<and>
     map_of (ob_records (fold take ds ob)) = (\<lambda>i. if i \<in> heads ob ds
       then map_option change (map_of (ob_records ob) i) else map_of (ob_records ob) i)"
proof (induction ds arbitrary: ob)
  case Nil
  then show ?case by (simp add: heads_def)
next
  case (Cons d ds)
  let ?ob = "take d ob"
  have d: "d \<notin> set ds" and ds: "distinct ds" using Cons.prems(2) by simp_all
  have later: "heads ?ob ds = heads ob ds"
    using d by (intro heads_cong take_heads) auto
  note IH = Cons.IH [OF take_ok [OF Cons.prems(1), of d] ds]
  have "map_of (ob_records (fold take (d # ds) ob)) i = (if i \<in> heads ob (d # ds)
      then map_option change (map_of (ob_records ob) i) else map_of (ob_records ob) i)" for i
    using IH heads_disjoint [OF Cons.prems(1) d, of i]
    by (simp add: later heads_Cons take_records_eq [OF Cons.prems(1)])
  then have "map_of (ob_records (fold take (d # ds) ob)) = (\<lambda>i. if i \<in> heads ob (d # ds)
      then map_option change (map_of (ob_records ob) i) else map_of (ob_records ob) i)"
    by (rule ext)
  moreover have "outbox_ok (fold take (d # ds) ob)" "ob_batches (fold take (d # ds) ob) = ob_batches ob"
    using IH by (simp_all add: take_batches)
  ultimately show ?case by blast
qed

end

abbreviation claimed :: "timestamp \<Rightarrow> write_record \<Rightarrow> write_record" where
  "claimed at r \<equiv> r\<lparr>wr_status := InFlight, wr_attempts := wr_attempts r + 1, wr_updated_at := at\<rparr>"

abbreviation expired_at :: "timestamp \<Rightarrow> write_record \<Rightarrow> write_record" where
  "expired_at at r \<equiv> r\<lparr>wr_status := Failed barrier_expired, wr_updated_at := at\<rparr>"

lemma queue_headD:
  assumes "queue_head ob d = Some i"
  obtains log q where "map_of (ob_logs ob) d = Some log" "dl_queue log = i # q"
  using assms that
  by (cases "map_of (ob_logs ob) d"; cases "dl_queue (the (map_of (ob_logs ob) d))") (auto simp: queue_head_def)

lemma queue_head_None:
  "queue_head ob d = None \<longleftrightarrow> (\<forall>log. map_of (ob_logs ob) d = Some log \<longrightarrow> dl_queue log = [])"
  by (cases "map_of (ob_logs ob) d") (auto simp: queue_head_def split: list.splits)

lemma queue_head_put [simp]:
  "d' \<noteq> d \<Longrightarrow> queue_head (ob\<lparr>ob_logs := oput d l (ob_logs ob)\<rparr>) d' = queue_head ob d'"
  "d' \<noteq> d \<Longrightarrow> queue_head (ob\<lparr>ob_logs := oput d l (ob_logs ob), ob_records := R\<rparr>) d' = queue_head ob d'"
  by (simp_all add: queue_head_def)

interpretation claims: head_taker "\<lambda>d ob. fst (claim_head d at ob)" "claimed at" for at
proof
  fix ob d
  show "outbox_ok ob \<Longrightarrow> queue_head ob d = None \<Longrightarrow> fst (claim_head d at ob) = ob"
    by (auto simp: queue_head_None claim_head_def split: option.split list.split)
next
  fix ob d i r
  assume "queue_head ob d = Some i" "map_of (ob_records ob) i = Some r"
  then show "map_of (ob_records (fst (claim_head d at ob))) = (map_of (ob_records ob))(i \<mapsto> claimed at r)"
    by (auto elim!: queue_headD simp: claim_head_def Let_def)
next
  fix d' d ob
  show "d' \<noteq> d \<Longrightarrow> queue_head (fst (claim_head d at ob)) d' = queue_head ob d'"
    by (simp add: claim_head_def Let_def split: option.split list.split)
next
  fix d ob
  show "ob_batches (fst (claim_head d at ob)) = ob_batches ob"
    by (simp add: claim_head_def Let_def split: option.split list.split)
next
  fix ob d
  show "outbox_ok ob \<Longrightarrow> outbox_ok (fst (claim_head d at ob))"
    by (rule outbox_ok_steps [OF _ claim_head_steps])
qed

interpretation expiries: head_taker "\<lambda>d. fail_head d at" "expired_at at" for at
proof
  fix ob d
  show "outbox_ok ob \<Longrightarrow> queue_head ob d = None \<Longrightarrow> fail_head d at ob = ob"
    by (auto simp: queue_head_None fail_head_def split: option.split list.split)
next
  fix ob d i r
  assume "queue_head ob d = Some i" "map_of (ob_records ob) i = Some r"
  then show "map_of (ob_records (fail_head d at ob)) = (map_of (ob_records ob))(i \<mapsto> expired_at at r)"
    by (auto elim!: queue_headD simp: fail_head_def)
next
  fix d' d ob
  show "d' \<noteq> d \<Longrightarrow> queue_head (fail_head d at ob) d' = queue_head ob d'"
    by (simp add: fail_head_def split: option.split list.split)
next
  fix d ob
  show "ob_batches (fail_head d at ob) = ob_batches ob"
    by (simp add: fail_head_def split: option.split list.split)
next
  fix ob d
  show "outbox_ok ob \<Longrightarrow> outbox_ok (fail_head d at ob)"
    by (rule outbox_ok_steps [OF _ fail_head_steps])
qed

lemma fail_members_fold: "fail_members ds at ob = fold (\<lambda>d. fail_head d at) ds ob"
  by (induction ds arbitrary: ob) simp_all

lemma claim_members_fold:
  "outbox_ok ob \<Longrightarrow> fst (claim_members ds at ob) = fold (\<lambda>d ob. fst (claim_head d at ob)) ds ob"
proof (induction ds arbitrary: ob)
  case (Cons d ds)
  obtain r where "snd (claim_head d at ob) = Inr r"
    using claim_head_no_error [OF Cons.prems] by blast
  with Cons.IH [OF claims.take_ok [OF Cons.prems]] show ?case
    by (simp only: claim_members_fst) simp
qed simp

lemma claim_members_effect:
  assumes "outbox_ok ob" and "distinct ds"
  shows "outbox_ok (fst (claim_members ds at ob))"
    and "ob_batches (fst (claim_members ds at ob)) = ob_batches ob"
    and "map_of (ob_records (fst (claim_members ds at ob))) = (\<lambda>i. if i \<in> heads ob ds
       then map_option (claimed at) (map_of (ob_records ob) i) else map_of (ob_records ob) i)"
  using claims.take_all [OF assms, of at] claim_members_fold [OF assms(1), of ds at] by simp_all

lemma fail_members_effect:
  assumes "outbox_ok ob" and "distinct ds"
  shows "outbox_ok (fail_members ds at ob)"
    and "ob_batches (fail_members ds at ob) = ob_batches ob"
    and "map_of (ob_records (fail_members ds at ob)) = (\<lambda>i. if i \<in> heads ob ds
       then map_option (expired_at at) (map_of (ob_records ob) i) else map_of (ob_records ob) i)"
  using expiries.take_all [OF assms, of at] by (simp_all add: fail_members_fold)


section \<open>What a gate says about the rows of its batch\<close>

text \<open>
  While a batch waits, none of its rows has been tried and each stands in the line of a
  member. Once abandoned, none ever was. Once open under \<open>FailBatch\<close>, each has been.
\<close>

definition gate_ok :: "batch \<Rightarrow> write_record \<Rightarrow> bool" where
  "gate_ok ba r = (case ba_gate ba of
       Waiting \<Rightarrow> wr_status r = Pending \<and> wr_attempts r = 0 \<and> wr_device r \<in> set (ba_members ba)
     | Abandoned \<Rightarrow> wr_status r \<noteq> InFlight \<and> wr_attempts r = 0
     | Open \<Rightarrow> bp_on_timeout (ba_barrier ba) = FailBatch \<longrightarrow> 0 < wr_attempts r)"

definition rows_ok :: "(batch_id \<Rightarrow> batch option) \<Rightarrow> (write_id \<Rightarrow> write_record option) \<Rightarrow> bool" where
  "rows_ok B R \<longleftrightarrow> (\<forall>b ba i r. B b = Some ba \<longrightarrow> R i = Some r \<longrightarrow> wr_batch r = Some b \<longrightarrow> gate_ok ba r)"

text \<open>A batch has at most one row per device, and its member list no repeats.\<close>

definition one_row :: "(write_id \<Rightarrow> write_record option) \<Rightarrow> bool" where
  "one_row R \<longleftrightarrow> (\<forall>i j r r'. R i = Some r \<longrightarrow> R j = Some r' \<longrightarrow> wr_batch r \<noteq> None \<longrightarrow>
     wr_batch r' = wr_batch r \<longrightarrow> wr_device r' = wr_device r \<longrightarrow> i = j)"

definition members_ok :: "(batch_id \<Rightarrow> batch option) \<Rightarrow> bool" where
  "members_ok B \<longleftrightarrow> (\<forall>b ba. B b = Some ba \<longrightarrow> distinct (ba_members ba))"

definition batches_ok :: "outbox \<Rightarrow> bool" where
  "batches_ok ob \<longleftrightarrow> rows_ok (map_of (ob_batches ob)) (map_of (ob_records ob))
     \<and> one_row (map_of (ob_records ob)) \<and> members_ok (map_of (ob_batches ob))"

text \<open>A change of records that keeps writes the same keeps rows one per device.\<close>

lemma one_row_mono:
  assumes "one_row R" and "\<And>i r'. R' i = Some r' \<Longrightarrow> \<exists>r. R i = Some r \<and> same_write r r'"
  shows "one_row R'"
  unfolding one_row_def
proof (intro allI impI)
  fix i j r r'
  assume r: "R' i = Some r" "R' j = Some r'" "wr_batch r \<noteq> None" "wr_batch r' = wr_batch r"
    "wr_device r' = wr_device r"
  obtain s s' where "R i = Some s" "same_write s r" "R j = Some s'" "same_write s' r'"
    using assms(2) r by metis
  with r assms(1) show "i = j" by (auto simp: one_row_def same_write_def)
qed


text \<open>Rows change and gates move together: what is left to check of each pair.\<close>

lemma rows_okI:
  "(\<And>b ba i r. B b = Some ba \<Longrightarrow> R i = Some r \<Longrightarrow> wr_batch r = Some b \<Longrightarrow> gate_ok ba r) \<Longrightarrow> rows_ok B R"
  by (simp add: rows_ok_def)

lemma rows_okD: "rows_ok B R \<Longrightarrow> B b = Some ba \<Longrightarrow> R i = Some r \<Longrightarrow> wr_batch r = Some b \<Longrightarrow> gate_ok ba r"
  by (simp add: rows_ok_def)

text \<open>The steps of a batch, with what each presupposes.\<close>

lemma step_batch_cases:
  obtains (missing) "map_of (ob_batches ob) b = None" "step_batch ch b d at ob = (ob, Wait)"
  | (opened) ba where "map_of (ob_batches ob) b = Some ba" "ba_gate ba = Open"
      "step_batch ch b d at ob = (ob, Alone)"
  | (abandoned) ba where "map_of (ob_batches ob) b = Some ba" "ba_gate ba = Abandoned"
      "step_batch ch b d at ob = (ob, Fail [d])"
  | (moved) ba ready st where "map_of (ob_batches ob) b = Some ba" "ba_gate ba = Waiting"
      "ready = filter (is_ready_for ob b at) (ba_members ba)"
      "step_batch ch b d at ob =
         (ob\<lparr>ob_batches := oput b (ba\<lparr>ba_ready := ready, ba_gate := gate_after st\<rparr>) (ob_batches ob)\<rparr>, st)"
      "st = Wait \<or> st = Release ready \<and> (bp_on_timeout (ba_barrier ba) = FailBatch \<longrightarrow> ready = ba_members ba)
         \<or> st = Fail ready"
proof (cases "map_of (ob_batches ob) b")
  case None
  then show ?thesis by (intro missing) (simp_all add: step_batch_def)
next
  case (Some ba)
  show ?thesis
  proof (cases "ba_gate ba")
    case Waiting
    let ?ready = "filter (is_ready_for ob b at) (ba_members ba)"
    let ?st = "snd (step_batch ch b d at ob)"
    have "step_batch ch b d at ob =
         (ob\<lparr>ob_batches := oput b (ba\<lparr>ba_ready := ?ready, ba_gate := gate_after ?st\<rparr>) (ob_batches ob)\<rparr>, ?st)"
      using Some Waiting by (simp add: step_batch_def Let_def)
    moreover have "?st = Wait
        \<or> ?st = Release ?ready \<and> (bp_on_timeout (ba_barrier ba) = FailBatch \<longrightarrow> ?ready = ba_members ba)
        \<or> ?st = Fail ?ready"
      using Some Waiting by (simp add: step_batch_def Let_def split: barrier.split)
    ultimately show ?thesis
      using moved [OF Some Waiting refl] by blast
  next
    case Open
    with Some show ?thesis by (intro opened) (simp_all add: step_batch_def)
  next
    case Abandoned
    with Some show ?thesis by (intro abandoned) (simp_all add: step_batch_def)
  qed
qed

lemma ready_row:
  assumes "is_ready_for ob b at d" and "outbox_ok ob"
  shows "\<exists>i r. queue_head ob d = Some i \<and> map_of (ob_records ob) i = Some r \<and> wr_batch r = Some b \<and> wr_device r = d"
proof -
  obtain i r where i: "queue_head ob d = Some i" "map_of (ob_records ob) i = Some r" "wr_batch r = Some b"
    using assms(1) by (auto simp: is_ready_for_def split: option.splits)
  then have "i \<in> set (lv_queue (view ob) d)"
    by (auto simp: queue_head_log split: list.splits)
  with i show ?thesis
    using queue_unique [OF assms(2) [unfolded outbox_ok_def], of i d r] by auto
qed

text \<open>The heads of ready members are rows of the batch, and the only ones they have in it.\<close>

lemma ready_heads:
  assumes ok: "outbox_ok ob" and one: "one_row (map_of (ob_records ob))"
    and r: "map_of (ob_records ob) i = Some r"
  shows "i \<in> heads ob (filter (is_ready_for ob b at) ms) \<longleftrightarrow>
    wr_batch r = Some b \<and> wr_device r \<in> set ms \<and> is_ready_for ob b at (wr_device r)"
proof
  assume "i \<in> heads ob (filter (is_ready_for ob b at) ms)"
  then obtain d where d: "d \<in> set ms" "is_ready_for ob b at d" "queue_head ob d = Some i"
    by (auto simp: heads_def)
  with ready_row [OF d(2) ok] r show "wr_batch r = Some b \<and> wr_device r \<in> set ms \<and> is_ready_for ob b at (wr_device r)"
    by auto
next
  assume *: "wr_batch r = Some b \<and> wr_device r \<in> set ms \<and> is_ready_for ob b at (wr_device r)"
  then obtain j r' where j: "queue_head ob (wr_device r) = Some j" "map_of (ob_records ob) j = Some r'"
      "wr_batch r' = Some b" "wr_device r' = wr_device r"
    using ready_row [OF _ ok] by blast
  then have "i = j"
    using one r * by (auto simp: one_row_def)
  with * j show "i \<in> heads ob (filter (is_ready_for ob b at) ms)"
    by (auto simp: heads_def)
qed


section \<open>Every operation keeps it\<close>

lemma queue_head_batches [simp]: "queue_head (ob\<lparr>ob_batches := B\<rparr>) = queue_head ob"
  by (simp add: queue_head_def fun_eq_iff)

lemma heads_batches [simp]: "heads (ob\<lparr>ob_batches := B\<rparr>) = heads ob"
  by (simp add: heads_def fun_eq_iff)

lemma outbox_ok_batches [simp]: "outbox_ok (ob\<lparr>ob_batches := B\<rparr>) = outbox_ok ob"
  by (simp add: outbox_ok_def)

lemma batches_okI:
  assumes "rows_ok (map_of (ob_batches ob')) (map_of (ob_records ob'))"
    and "one_row (map_of (ob_records ob))"
    and "\<And>i r'. map_of (ob_records ob') i = Some r' \<Longrightarrow> \<exists>r. map_of (ob_records ob) i = Some r \<and> same_write r r'"
    and "members_ok (map_of (ob_batches ob'))"
  shows "batches_ok ob'"
  using assms by (simp add: batches_ok_def one_row_mono)

lemma batches_okD:
  assumes "batches_ok ob"
  shows "map_of (ob_batches ob) b = Some ba \<Longrightarrow> map_of (ob_records ob) i = Some r \<Longrightarrow> wr_batch r = Some b \<Longrightarrow>
      gate_ok ba r"
    and "one_row (map_of (ob_records ob))"
    and "map_of (ob_batches ob) b = Some ba \<Longrightarrow> distinct (ba_members ba)"
  using assms by (auto simp: batches_ok_def rows_ok_def members_ok_def)

lemma claim_head_batches_ok:
  assumes ok: "outbox_ok ob" and bs: "batches_ok ob" and i: "queue_head ob d = Some i"
    and r: "map_of (ob_records ob) i = Some r"
    and gate: "\<And>b ba. wr_batch r = Some b \<Longrightarrow> map_of (ob_batches ob) b = Some ba \<Longrightarrow> ba_gate ba = Open"
  shows "batches_ok (fst (claim_head d at ob))"
proof (rule batches_okI [where ob = ob])
  note recs = claims.take_records [OF ok i r, of at]
  show "rows_ok (map_of (ob_batches (fst (claim_head d at ob)))) (map_of (ob_records (fst (claim_head d at ob))))"
    unfolding recs claims.take_batches using batches_okD(1) [OF bs] gate
    by (auto simp: rows_ok_def gate_ok_def)
  show "\<exists>s. map_of (ob_records ob) j = Some s \<and> same_write s r'"
    if "map_of (ob_records (fst (claim_head d at ob))) j = Some r'" for j r'
    using that r unfolding recs by (auto simp: same_write_def split: if_splits)
  show "one_row (map_of (ob_records ob))" by (rule batches_okD(2) [OF bs])
  show "members_ok (map_of (ob_batches (fst (claim_head d at ob))))"
    using bs by (simp add: claims.take_batches batches_ok_def)
qed

lemma fail_head_batches_ok:
  assumes ok: "outbox_ok ob" and bs: "batches_ok ob" and i: "queue_head ob d = Some i"
    and r: "map_of (ob_records ob) i = Some r"
    and gate: "\<And>b ba. wr_batch r = Some b \<Longrightarrow> map_of (ob_batches ob) b = Some ba \<Longrightarrow> ba_gate ba = Abandoned"
  shows "batches_ok (fail_head d at ob)"
proof (rule batches_okI [where ob = ob])
  note recs = expiries.take_records [OF ok i r, of at]
  show "rows_ok (map_of (ob_batches (fail_head d at ob))) (map_of (ob_records (fail_head d at ob)))"
    unfolding recs expiries.take_batches
  proof (rule rows_okI)
    fix b ba j s
    assume j: "map_of (ob_batches ob) b = Some ba" "((map_of (ob_records ob))(i \<mapsto> expired_at at r)) j = Some s"
      "wr_batch s = Some b"
    show "gate_ok ba s"
    proof (cases "j = i")
      case True
      with j gate [of b ba] batches_okD(1) [OF bs j(1) r] show ?thesis by (auto simp: gate_ok_def)
    next
      case False
      with j batches_okD(1) [OF bs j(1) _ j(3)] show ?thesis by simp
    qed
  qed
  show "\<exists>s. map_of (ob_records ob) j = Some s \<and> same_write s r'"
    if "map_of (ob_records (fail_head d at ob)) j = Some r'" for j r'
    using that r unfolding recs by (auto simp: same_write_def split: if_splits)
  show "one_row (map_of (ob_records ob))" by (rule batches_okD(2) [OF bs])
  show "members_ok (map_of (ob_batches (fail_head d at ob)))"
    using bs by (simp add: expiries.take_batches batches_ok_def)
qed

text \<open>
  A waiting batch moves: every ready member's row changes by \<open>change\<close>, the gate by \<open>gate\<close>.
\<close>

lemma resolved_batches_ok:
  assumes ok: "outbox_ok ob" and bs: "batches_ok ob"
    and ba: "map_of (ob_batches ob) b = Some ba" "ba_gate ba = Waiting"
    and ready: "ready = filter (is_ready_for ob b at) (ba_members ba)"
    and B: "ob_batches ob' = oput b (ba\<lparr>ba_ready := ready, ba_gate := g\<rparr>) (ob_batches ob)"
    and R: "map_of (ob_records ob') = (\<lambda>i. if i \<in> heads ob ready
       then map_option change (map_of (ob_records ob) i) else map_of (ob_records ob) i)"
    and change: "\<And>r. same_write r (change r)"
    and hit: "\<And>r. gate_ok ba r \<Longrightarrow> gate_ok (ba\<lparr>ba_ready := ready, ba_gate := g\<rparr>) (change r)"
    and miss: "\<And>r. gate_ok ba r \<Longrightarrow> \<not> wr_device r \<in> set ready \<Longrightarrow> gate_ok (ba\<lparr>ba_ready := ready, ba_gate := g\<rparr>) r"
  shows "batches_ok ob'"
proof (rule batches_okI [where ob = ob])
  show "one_row (map_of (ob_records ob))" by (rule batches_okD(2) [OF bs])
  show "\<exists>r. map_of (ob_records ob) i = Some r \<and> same_write r r'" if "map_of (ob_records ob') i = Some r'" for i r'
    using that change by (auto simp: R split: if_splits)
  show "members_ok (map_of (ob_batches ob'))"
    using batches_okD(3) [OF bs] ba(1) by (simp add: B members_ok_def)
  show "rows_ok (map_of (ob_batches ob')) (map_of (ob_records ob'))"
  proof (rule rows_okI)
    fix b' ba' i r'
    assume b': "map_of (ob_batches ob') b' = Some ba'" and r': "map_of (ob_records ob') i = Some r'" "wr_batch r' = Some b'"
    obtain r where r: "map_of (ob_records ob) i = Some r"
        "r' = (if i \<in> heads ob ready then change r else r)"
      using r'(1) by (auto simp: R split: if_splits)
    then have batch: "wr_batch r = Some b'"
      using r'(2) change [of r] by (auto simp: same_write_def split: if_splits)
    have head: "i \<in> heads ob ready \<longleftrightarrow>
        wr_batch r = Some b \<and> wr_device r \<in> set (ba_members ba) \<and> is_ready_for ob b at (wr_device r)"
      unfolding ready by (rule ready_heads [OF ok batches_okD(2) [OF bs] r(1)])
    show "gate_ok ba' r'"
    proof (cases "b' = b")
      case True
      then have g: "gate_ok ba r" using batches_okD(1) [OF bs ba(1) r(1)] batch by simp
      with True head batch b' r(2) show ?thesis
        using hit [OF g] miss [OF g] by (auto simp: B ready split: if_splits)
    next
      case False
      with head batch b' r show ?thesis
        using batches_okD(1) [OF bs _ r(1) batch, of ba'] by (simp add: B)
    qed
  qed
qed

lemma gate_ok_waiting:
  "ba_gate ba = Waiting \<Longrightarrow> gate_ok ba r \<longleftrightarrow>
     wr_status r = Pending \<and> wr_attempts r = 0 \<and> wr_device r \<in> set (ba_members ba)"
  by (simp add: gate_ok_def)

lemma claim_next_batches_ok:
  assumes ok: "outbox_ok ob" and bs: "batches_ok ob"
  shows "batches_ok (fst (claim_next ch d at ob))"
  using ok
proof (cases rule: claim_next_cases [of ob ch d at])
  case nothing
  with bs show ?thesis by simp
next
  case (alone i r)
  then show ?thesis
    using claim_head_batches_ok [OF ok bs alone(1,2)] by simp
next
  case (straggler i r b)
  then obtain ba where "map_of (ob_batches ob) b = Some ba" "ba_gate ba = Open"
      "step_batch ch b d at ob = (ob, Alone)"
    by (cases rule: step_batch_cases [of ob b ch d at]) auto
  then have "batches_ok (fst (claim_head d at ob))" and "fst (step_batch ch b d at ob) = ob"
    using straggler(3) by (auto intro: claim_head_batches_ok [OF ok bs straggler(1,2)])
  with straggler(5) show ?thesis by simp
next
  case (wait i r b)
  show ?thesis
  proof (cases rule: step_batch_cases [of ob b ch d at])
    case (moved ba ready st)
    let ?ba = "ba\<lparr>ba_ready := ready, ba_gate := Waiting\<rparr>"
    have st: "fst (step_batch ch b d at ob) = ob\<lparr>ob_batches := oput b ?ba (ob_batches ob)\<rparr>"
      using wait(4) moved by auto
    have "gate_ok ?ba r \<longleftrightarrow> gate_ok ba r" for r
      using moved(2) by (simp add: gate_ok_def)
    then have "batches_ok (fst (step_batch ch b d at ob))"
      unfolding st using batches_okD [OF bs] moved(1)
      by (auto simp: batches_ok_def rows_ok_def members_ok_def)
    with wait show ?thesis by simp
  qed (use wait bs in simp_all)
next
  case (release i r b members rs)
  then obtain ba where ba: "map_of (ob_batches ob) b = Some ba" "ba_gate ba = Waiting"
      "members = filter (is_ready_for ob b at) (ba_members ba)"
      "fst (step_batch ch b d at ob) =
         ob\<lparr>ob_batches := oput b (ba\<lparr>ba_ready := members, ba_gate := Open\<rparr>) (ob_batches ob)\<rparr>"
      "bp_on_timeout (ba_barrier ba) = FailBatch \<longrightarrow> members = ba_members ba"
    by (cases rule: step_batch_cases [of ob b ch d at]) auto
  have "distinct members" using batches_okD(3) [OF bs ba(1)] ba(3) by simp
  with ok ba(4) have eff: "ob_batches (fst (claim_next ch d at ob)) = ob_batches (fst (step_batch ch b d at ob))"
      "map_of (ob_records (fst (claim_next ch d at ob))) = (\<lambda>i. if i \<in> heads ob members
         then map_option (claimed at) (map_of (ob_records ob) i) else map_of (ob_records ob) i)"
    unfolding release(6) fst_conv by (simp_all add: claim_members_effect cong: if_cong)
  show ?thesis
    by (rule resolved_batches_ok [OF ok bs ba(1,2,3) eff(1) [unfolded ba(4), simplified] eff(2)])
       (use ba(5) in \<open>auto simp: same_write_def gate_ok_def ba(2)\<close>)
next
  case (expired i r b members)
  show ?thesis
  proof (cases rule: step_batch_cases [of ob b ch d at])
    case (abandoned ba)
    then have d: "members = [d]" and ob1: "fst (step_batch ch b d at ob) = ob"
      using expired(4) by auto
    have ob': "fst (claim_next ch d at ob) = fail_head d at ob"
      using expired(5) d ob1 by simp
    show ?thesis
      unfolding ob' using abandoned expired(3)
      by (intro fail_head_batches_ok [OF ok bs expired(1,2)]) auto
  next
    case (moved ba ready st)
    then have ba: "members = ready" "st = Fail ready" using expired(4) by auto
    have "distinct members" using batches_okD(3) [OF bs moved(1)] moved(3) ba by simp
    with ok moved ba have eff: "ob_batches (fst (claim_next ch d at ob)) =
          oput b (ba\<lparr>ba_ready := ready, ba_gate := Abandoned\<rparr>) (ob_batches ob)"
      "map_of (ob_records (fst (claim_next ch d at ob))) = (\<lambda>i. if i \<in> heads ob ready
         then map_option (expired_at at) (map_of (ob_records ob) i) else map_of (ob_records ob) i)"
      unfolding expired(5) fst_conv by (simp_all add: fail_members_effect cong: if_cong)
    show ?thesis
      by (rule resolved_batches_ok [OF ok bs moved(1,2,3) eff])
         (auto simp: same_write_def gate_ok_def moved(2))
  qed (use expired(4) in simp_all)
qed


lemma settle_batches:
  "map_of (ob_batches (settle_batch f r ob)) =
     (case wr_batch r of None \<Rightarrow> map_of (ob_batches ob)
      | Some b \<Rightarrow> (map_of (ob_batches ob))(b := map_option f (map_of (ob_batches ob) b)))"
  by (simp add: settle_batch_def map_of_oadjust split: option.split)

text \<open>A settlement touches one row, in flight, and of its batch only who belongs to it.\<close>

lemma settle_effect:
  assumes r: "map_of (ob_records ob) i = Some r" and fly: "wr_status r = InFlight"
  obtains f r' where "map_of (ob_records (fst (settle ch i out at ob))) = (map_of (ob_records ob))(i \<mapsto> r')"
    "same_write r r'" "wr_attempts r' = wr_attempts r" "wr_status r' \<noteq> InFlight"
    "map_of (ob_batches (fst (settle ch i out at ob))) =
       (case wr_batch r of None \<Rightarrow> map_of (ob_batches ob)
        | Some b \<Rightarrow> (map_of (ob_batches ob))(b := map_option f (map_of (ob_batches ob) b)))"
    "\<And>ba. ba_gate (f ba) = ba_gate ba \<and> ba_barrier (f ba) = ba_barrier ba
       \<and> (distinct (ba_members ba) \<longrightarrow> distinct (ba_members (f ba)))"
proof (cases out)
  case (OSucceeded v)
  with r fly show ?thesis
    by (intro that [of "r\<lparr>wr_status := Succeeded v, wr_updated_at := at\<rparr>" id])
       (simp_all add: settle_def Let_def same_write_def option.map_id0 fun_upd_idem split: option.split)
next
  case (OFailed reason)
  show ?thesis
  proof (cases "wr_attempts r < ob_max_attempts ob")
    case True
    with OFailed r fly show ?thesis
      by (intro that [of "retry_record ch at ob r" "unready (wr_device r)"])
         (simp_all add: settle_def Let_def same_write_def settle_batches retry_record_def unready_def split: option.split)
  next
    case False
    with OFailed r fly show ?thesis
      by (intro that [of "r\<lparr>wr_status := Failed reason, wr_updated_at := at\<rparr>" "leave (wr_device r)"])
         (simp_all add: settle_def Let_def same_write_def settle_batches leave_def distinct_removeAll split: option.split)
  qed
qed

lemma settle_batches_ok:
  assumes bs: "batches_ok ob"
  shows "batches_ok (fst (settle ch i out at ob))"
proof (cases "\<exists>r. map_of (ob_records ob) i = Some r \<and> wr_status r = InFlight")
  case False
  then have "fst (settle ch i out at ob) = ob"
    by (auto simp: settle_def split: option.split)
  with bs show ?thesis by simp
next
  case True
  then obtain r where r: "map_of (ob_records ob) i = Some r" "wr_status r = InFlight" by blast
  from r obtain f r' where eff:
    "map_of (ob_records (fst (settle ch i out at ob))) = (map_of (ob_records ob))(i \<mapsto> r')"
    "same_write r r'" "wr_attempts r' = wr_attempts r" "wr_status r' \<noteq> InFlight"
    "map_of (ob_batches (fst (settle ch i out at ob))) =
       (case wr_batch r of None \<Rightarrow> map_of (ob_batches ob)
        | Some b \<Rightarrow> (map_of (ob_batches ob))(b := map_option f (map_of (ob_batches ob) b)))"
    "\<And>ba. ba_gate (f ba) = ba_gate ba \<and> ba_barrier (f ba) = ba_barrier ba
       \<and> (distinct (ba_members ba) \<longrightarrow> distinct (ba_members (f ba)))"
    by (rule settle_effect [of ob i r ch out at]) blast
  have gate: "ba_gate ba = Open \<and> gate_ok ba r" if "wr_batch r = Some b" "map_of (ob_batches ob) b = Some ba" for b ba
    using batches_okD(1) [OF bs that(2) r(1) that(1)] r(2) by (auto simp: gate_ok_def split: gate.splits)
  show ?thesis
  proof (rule batches_okI [where ob = ob])
    show "rows_ok (map_of (ob_batches (fst (settle ch i out at ob)))) (map_of (ob_records (fst (settle ch i out at ob))))"
    proof (rule rows_okI)
      fix b ba' j s
      assume b: "map_of (ob_batches (fst (settle ch i out at ob))) b = Some ba'"
        and s: "map_of (ob_records (fst (settle ch i out at ob))) j = Some s" "wr_batch s = Some b"
      obtain t where t: "map_of (ob_records ob) j = Some t" "wr_batch t = Some b" "wr_attempts t = wr_attempts s"
          "j \<noteq> i \<Longrightarrow> s = t"
        using s r(1) eff(2,3) unfolding eff(1) by (auto simp: same_write_def split: if_splits)
      show "gate_ok ba' s"
      proof (cases "wr_batch r = Some b")
        case True
        then obtain ba where ba: "map_of (ob_batches ob) b = Some ba" "ba' = f ba"
          using b unfolding eff(5) by auto
        have "gate_ok ba t" by (rule batches_okD(1) [OF bs ba(1) t(1,2)])
        with gate [OF True ba(1)] ba(2) t(3) eff(6) [of ba] show ?thesis by (simp add: gate_ok_def)
      next
        case False
        then have "map_of (ob_batches ob) b = Some ba'" and "j \<noteq> i"
          using b t(1,2) r(1) unfolding eff(5) by (auto split: option.splits)
        with t batches_okD(1) [OF bs _ t(1,2)] show ?thesis by simp
      qed
    qed
    show "\<exists>s. map_of (ob_records ob) j = Some s \<and> same_write s r''"
      if "map_of (ob_records (fst (settle ch i out at ob))) j = Some r''" for j r''
      using that r eff(2) unfolding eff(1) by (auto split: if_splits)
    show "members_ok (map_of (ob_batches (fst (settle ch i out at ob))))"
      unfolding eff(5) using batches_okD(3) [OF bs] eff(6)
      by (auto simp: members_ok_def split: option.splits)
  qed (rule batches_okD(2) [OF bs])
qed


text \<open>Cancelling touches rows of the cancelled batches, and of no batch, alone.\<close>

definition touched :: "batch_id option set \<Rightarrow> (write_id \<Rightarrow> write_record option) \<Rightarrow>
    (write_id \<Rightarrow> write_record option) \<Rightarrow> bool" where
  "touched X R R' \<longleftrightarrow> (\<forall>i. case R i of
       None \<Rightarrow> R' i = None
     | Some r \<Rightarrow> (\<exists>r'. R' i = Some r' \<and> same_write r r' \<and> wr_attempts r' = wr_attempts r
         \<and> (wr_batch r \<notin> X \<longrightarrow> r' = r)))"

lemma touched_refl [simp]: "touched X R R"
  by (simp add: touched_def split: option.split)

lemma touched_trans: "touched X R R' \<Longrightarrow> touched Y R' R'' \<Longrightarrow> touched (X \<union> Y) R R''"
  unfolding touched_def
proof
  fix i
  assume a: "\<forall>i. case R i of None \<Rightarrow> R' i = None
      | Some r \<Rightarrow> \<exists>r'. R' i = Some r' \<and> same_write r r' \<and> wr_attempts r' = wr_attempts r
          \<and> (wr_batch r \<notin> X \<longrightarrow> r' = r)"
    and b: "\<forall>i. case R' i of None \<Rightarrow> R'' i = None
      | Some r \<Rightarrow> \<exists>r'. R'' i = Some r' \<and> same_write r r' \<and> wr_attempts r' = wr_attempts r
          \<and> (wr_batch r \<notin> Y \<longrightarrow> r' = r)"
  show "case R i of None \<Rightarrow> R'' i = None
      | Some r \<Rightarrow> \<exists>r'. R'' i = Some r' \<and> same_write r r' \<and> wr_attempts r' = wr_attempts r
          \<and> (wr_batch r \<notin> X \<union> Y \<longrightarrow> r' = r)"
    using a [THEN spec, of i] b [THEN spec, of i]
    by (cases "R i") (auto simp: same_write_def split: option.splits)
qed

lemma touched_put:
  "R i = Some r \<Longrightarrow> same_write r r' \<Longrightarrow> wr_attempts r' = wr_attempts r \<Longrightarrow> wr_batch r \<in> X \<Longrightarrow>
     touched X R (R(i \<mapsto> r'))"
  by (simp add: touched_def split: option.split)

lemma cancel_rows_touched:
  "\<forall>i \<in> set is. \<forall>r. map_of recs i = Some r \<longrightarrow> wr_batch r = Some b \<Longrightarrow>
     touched {Some b} (map_of recs) (map_of (fst (cancel_rows reason is recs)))"
proof (induction "is" arbitrary: recs)
  case (Cons i "is")
  show ?case
  proof (cases "\<exists>r. map_of recs i = Some r \<and> wr_status r = Pending")
    case True
    then obtain r where r: "map_of recs i = Some r" "wr_status r = Pending" by blast
    let ?recs = "oput i (canceled_together reason r) recs"
    have "touched {Some b} (map_of recs) (map_of ?recs)"
      using r Cons.prems by (auto intro!: touched_put simp: same_write_def)
    moreover have "touched {Some b} (map_of ?recs) (map_of (fst (cancel_rows reason is ?recs)))"
      using r Cons.prems by (intro Cons.IH) auto
    ultimately have "touched ({Some b} \<union> {Some b}) (map_of recs) (map_of (fst (cancel_rows reason is ?recs)))"
      by (rule touched_trans)
    with r show ?thesis by (auto split: prod.split)
  next
    case False
    with Cons show ?thesis by (auto split: option.split)
  qed
qed simp

lemma cancel_members_touched:
  "touched {Some b} (map_of (ob_records ob)) (map_of (ob_records (fst (cancel_members b reason ds ob))))
     \<and> ob_batches (fst (cancel_members b reason ds ob)) = ob_batches ob"
proof (induction ds arbitrary: ob)
  case (Cons d ds)
  show ?case
  proof (cases "map_of (ob_logs ob) d")
    case None
    with Cons show ?thesis by (simp only: cancel_members_fst) simp
  next
    case (Some log)
    let ?recs = "fst (cancel_rows reason (filter (of_batch ob b) (dl_queue log)) (ob_records ob))"
    let ?ob = "ob\<lparr>ob_logs := oput d (log\<lparr>dl_queue := filter (\<lambda>i. \<not> of_batch ob b i) (dl_queue log)\<rparr>) (ob_logs ob),
      ob_records := ?recs\<rparr>"
    have "touched {Some b} (map_of (ob_records ob)) (map_of ?recs)"
      by (rule cancel_rows_touched) (auto simp: of_batch_def)
    then have "touched ({Some b} \<union> {Some b}) (map_of (ob_records ob))
        (map_of (ob_records (fst (cancel_members b reason ds ?ob))))"
      using Cons.IH [of ?ob] by (intro touched_trans) auto
    with Some Cons.IH [of ?ob] show ?thesis by (simp only: cancel_members_fst) simp
  qed
qed simp

lemma cancel_batch_touched:
  "touched {Some b} (map_of (ob_records ob)) (map_of (ob_records (fst (cancel_batch b reason ob))))
     \<and> map_of (ob_batches (fst (cancel_batch b reason ob))) = (map_of (ob_batches ob))(b := None)"
  using cancel_members_touched [of b "ob\<lparr>ob_batches := odel b (ob_batches ob)\<rparr>" reason]
  by (auto simp: cancel_batch_def fun_upd_idem split: option.split)

lemma cancel_batches_touched:
  "touched (Some ` set bs) (map_of (ob_records ob)) (map_of (ob_records (fst (cancel_batches reason bs ob))))
     \<and> map_of (ob_batches (fst (cancel_batches reason bs ob)))
         = (\<lambda>b. if b \<in> set bs then None else map_of (ob_batches ob) b)"
proof (induction bs arbitrary: ob)
  case (Cons b bs)
  note head = cancel_batch_touched [of b ob reason] and tail = Cons.IH [of "fst (cancel_batch b reason ob)"]
  have "touched ({Some b} \<union> Some ` set bs) (map_of (ob_records ob))
      (map_of (ob_records (fst (cancel_batches reason (b # bs) ob))))"
    using head tail by (simp only: cancel_batches_fst) (blast intro: touched_trans)
  moreover have "map_of (ob_batches (fst (cancel_batches reason (b # bs) ob)))
      = (\<lambda>b'. if b' \<in> set (b # bs) then None else map_of (ob_batches ob) b')"
    using head tail by (simp only: cancel_batches_fst) (auto simp: fun_eq_iff)
  ultimately show ?case by simp
qed simp

lemma cancel_own_touched:
  "touched (insert None (Some ` set (fst (snd (cancel_own reason is recs))))) (map_of recs)
     (map_of (fst (cancel_own reason is recs)))"
proof (induction "is" arbitrary: recs)
  case (Cons i "is")
  show ?case
  proof (cases "map_of recs i")
    case None
    with Cons show ?thesis by simp
  next
    case (Some r)
    let ?recs = "oput i (canceled reason r) recs"
    have "touched {wr_batch r} (map_of recs) (map_of ?recs)"
      using Some by (auto intro!: touched_put simp: same_write_def)
    note touched_trans [OF this Cons.IH [of ?recs]]
    with Some show ?thesis
      by (cases "wr_batch r") (auto simp: insert_commute split: prod.splits)
  qed
qed simp

lemma cancel_queued_touched:
  "\<exists>X. touched X (map_of (ob_records ob)) (map_of (ob_records (fst (cancel_queued d reason ob))))"
proof (cases "map_of (ob_logs ob) d")
  case None
  then show ?thesis by (simp add: cancel_queued_def)
next
  case (Some log)
  let ?ob1 = "ob\<lparr>ob_logs := oput d (log\<lparr>dl_queue := []\<rparr>) (ob_logs ob),
      ob_records := fst (cancel_own reason (dl_queue log) (ob_records ob))\<rparr>"
  have "touched (insert None (Some ` set (fst (snd (cancel_own reason (dl_queue log) (ob_records ob))))))
      (map_of (ob_records ob)) (map_of (ob_records ?ob1))"
    using cancel_own_touched by simp
  note touched_trans [OF this cancel_batches_touched [THEN conjunct1,
    of "oset (fst (snd (cancel_own reason (dl_queue log) (ob_records ob))))" ?ob1 reason]]
  moreover have "fst (cancel_queued d reason ob) = fst (cancel_batches reason
      (oset (fst (snd (cancel_own reason (dl_queue log) (ob_records ob))))) ?ob1)"
    using Some by (simp add: cancel_queued_fst)
  ultimately show ?thesis by (metis (no_types, lifting))
qed

lemma cancel_queued_batches_ok:
  assumes "batches_ok ob"
  shows "batches_ok (fst (cancel_queued d reason ob))"
proof (cases "map_of (ob_logs ob) d")
  case None
  with assms show ?thesis by (simp add: cancel_queued_def)
next
  case (Some log)
  let ?ob' = "fst (cancel_queued d reason ob)"
  let ?doomed = "fst (snd (cancel_own reason (dl_queue log) (ob_records ob)))"
  let ?ob1 = "ob\<lparr>ob_logs := oput d (log\<lparr>dl_queue := []\<rparr>) (ob_logs ob),
      ob_records := fst (cancel_own reason (dl_queue log) (ob_records ob))\<rparr>"
  note bs = cancel_batches_touched [of "oset ?doomed" ?ob1 reason]
  have eq: "?ob' = fst (cancel_batches reason (oset ?doomed) ?ob1)"
    using Some by (simp add: cancel_queued_fst)
  have "touched (insert None (Some ` set ?doomed) \<union> Some ` set (oset ?doomed))
      (map_of (ob_records ob)) (map_of (ob_records ?ob'))"
    unfolding eq using bs cancel_own_touched by (intro touched_trans) auto
  then have rows: "touched (insert None (Some ` set ?doomed)) (map_of (ob_records ob)) (map_of (ob_records ?ob'))"
    by (simp add: insert_absorb)
  have batches: "map_of (ob_batches ?ob') = (\<lambda>b. if b \<in> set ?doomed then None else map_of (ob_batches ob) b)"
    using bs unfolding eq by (simp cong: if_cong)
  have kept: "\<exists>r. map_of (ob_records ob) i = Some r \<and> same_write r r'
      \<and> (wr_batch r \<notin> insert None (Some ` set ?doomed) \<longrightarrow> r' = r)"
    if "map_of (ob_records ?ob') i = Some r'" for i r'
    using rows that by (auto simp: touched_def split: option.splits dest!: spec [of _ i])
  show ?thesis
  proof (rule batches_okI [where ob = ob])
    show "rows_ok (map_of (ob_batches ?ob')) (map_of (ob_records ?ob'))"
    proof (rule rows_okI)
      fix b ba i r'
      assume a: "map_of (ob_batches ?ob') b = Some ba" "map_of (ob_records ?ob') i = Some r'" "wr_batch r' = Some b"
      obtain r where r: "map_of (ob_records ob) i = Some r" "same_write r r'"
          "wr_batch r \<notin> insert None (Some ` set ?doomed) \<longrightarrow> r' = r"
        using kept [OF a(2)] by blast
      have "b \<notin> set ?doomed" and ba: "map_of (ob_batches ob) b = Some ba"
        using a(1) unfolding batches by (auto split: if_splits)
      moreover have "wr_batch r = Some b" using r(2) a(3) by (simp add: same_write_def)
      ultimately have "r' = r" using r(3) by auto
      then show "gate_ok ba r'" using batches_okD(1) [OF assms ba r(1)] a(3) by simp
    qed
    show "members_ok (map_of (ob_batches ?ob'))"
      using batches_okD(3) [OF assms] unfolding batches members_ok_def by (auto split: if_splits)
  qed (use kept batches_okD(2) [OF assms] in blast)+
qed


section \<open>Submission, exactly\<close>

text \<open>What admission decides for one device, and for the targets of a submission.\<close>

definition admission :: "outbox \<Rightarrow> intent \<Rightarrow> device_id \<Rightarrow> desired_recording_state \<times> desired_recording_state \<times> nat" where
  "admission ob i d =
     (let pre = dl_desired (log_of ob d); post = projr (admit pre (verb_of i))
      in (pre, post, epoch_of pre post (dl_epoch (log_of ob d))))"

definition refuses :: "outbox \<Rightarrow> intent \<Rightarrow> device_id \<Rightarrow> bool" where
  "refuses ob i d \<longleftrightarrow> isl (admit (dl_desired (log_of ob d)) (verb_of i))"

lemma admit_targets_result:
  "snd (admit_targets i ds ob) = (case find (refuses ob i) ds of
       Some d \<Rightarrow> Inl (Rejected d (projl (admit (dl_desired (log_of ob d)) (verb_of i))) (dl_desired (log_of ob d)))
     | None \<Rightarrow> Inr (map (admission ob i) ds))"
proof (induction ds arbitrary: ob)
  case (Cons d ds)
  let ?ob = "ob\<lparr>ob_logs := oentry d default_log id (ob_logs ob)\<rparr>"
  have same: "log_of ?ob = log_of ob" by (auto simp: fun_eq_iff)
  then have "refuses ?ob = refuses ob" "admission ?ob = admission ob"
    by (simp_all add: refuses_def admission_def fun_eq_iff)
  with same Cons.IH [of ?ob] show ?case
    by (auto simp: Let_def refuses_def [of ob i d] admission_def [of ob i d]
             split: sum.split prod.split option.splits)
qed simp

lemma record_targets_effect:
  fixes s :: submission and ob :: outbox
  assumes "distinct (map (fst \<circ> snd) ts)" and "distinct (map fst ts)"
  defines "ob' \<equiv> fst (record_targets s ts ob)"
  shows "(d, i, adm) \<in> set ts \<Longrightarrow> map_of (ob_records ob') i = Some (new_record s d i (snd (snd adm)))"
    and "i \<notin> (fst \<circ> snd) ` set ts \<Longrightarrow> map_of (ob_records ob') i = map_of (ob_records ob) i"
    and "(d, i, adm) \<in> set ts \<Longrightarrow> log_of ob' d = append_write s i adm (log_of ob d)"
    and "d \<notin> fst ` set ts \<Longrightarrow> log_of ob' d = log_of ob d"
    and "ob_batches ob' = ob_batches ob" and "ob_groups ob' = ob_groups ob"
proof -
  have "((d, i, adm) \<in> set ts \<longrightarrow> map_of (ob_records ob') i = Some (new_record s d i (snd (snd adm))))
    \<and> (i \<notin> (fst \<circ> snd) ` set ts \<longrightarrow> map_of (ob_records ob') i = map_of (ob_records ob) i)
    \<and> ((d, i, adm) \<in> set ts \<longrightarrow> log_of ob' d = append_write s i adm (log_of ob d))
    \<and> (d \<notin> fst ` set ts \<longrightarrow> log_of ob' d = log_of ob d)
    \<and> ob_batches ob' = ob_batches ob \<and> ob_groups ob' = ob_groups ob"
    unfolding ob'_def using assms(1,2)
  proof (induction ts arbitrary: ob)
    case (Cons t ts)
    obtain d0 i0 adm0 where t: "t = (d0, i0, adm0)" by (cases t)
    let ?ob = "ob\<lparr>ob_records := oput i0 (new_record s d0 i0 (snd (snd adm0))) (ob_records ob),
         ob_logs := oentry d0 default_log (append_write s i0 adm0) (ob_logs ob)\<rparr>"
    have log: "log_of ?ob d = (if d = d0 then append_write s i0 adm0 (log_of ob d0) else log_of ob d)" for d
      by (simp add: log_of_def)
    have mem: "d \<in> fst ` set ts \<and> i \<in> (fst \<circ> snd) ` set ts" if "(d, i, adm) \<in> set ts"
      using that by force
    show ?case
      unfolding t record_targets_fst
      using Cons.IH [of ?ob] Cons.prems mem by (auto simp: t log)
  qed simp
  then show "(d, i, adm) \<in> set ts \<Longrightarrow> map_of (ob_records ob') i = Some (new_record s d i (snd (snd adm)))"
    and "i \<notin> (fst \<circ> snd) ` set ts \<Longrightarrow> map_of (ob_records ob') i = map_of (ob_records ob) i"
    and "(d, i, adm) \<in> set ts \<Longrightarrow> log_of ob' d = append_write s i adm (log_of ob d)"
    and "d \<notin> fst ` set ts \<Longrightarrow> log_of ob' d = log_of ob d"
    and "ob_batches ob' = ob_batches ob" and "ob_groups ob' = ob_groups ob" by blast+
qed


lemma submit_admitted:
  assumes "submit s ob = (ob', Inr acc)" and "replay_of ob s = None" and "fresh s ob"
  shows "d \<in> set (su_targets s) \<Longrightarrow> \<not> refuses ob (su_intent s) d"
    and "k < length (su_targets s) \<Longrightarrow> d = su_targets s ! k \<Longrightarrow>
      map_of (ob_records ob') (su_ids s ! k) =
        Some (new_record s d (su_ids s ! k) (snd (snd (admission ob (su_intent s) d))))
      \<and> log_of ob' d = append_write s (su_ids s ! k) (admission ob (su_intent s) d) (log_of ob d)"
    and "i \<notin> set (su_ids s) \<Longrightarrow> map_of (ob_records ob') i = map_of (ob_records ob) i"
    and "d \<notin> set (su_targets s) \<Longrightarrow> log_of ob' d = log_of ob d"
    and "ob_batches ob' = ob_batches (arm_batch s ob)" and "ob_groups ob' = ob_groups (record_expectation s ob)"
    and "length (su_ids s) = length (su_targets s)"
proof -
  obtain ob1 adm ob2 writes where adm: "length (su_ids s) = length (su_targets s)"
      "admit_targets (su_intent s) (su_targets s) ob = (ob1, Inr adm)"
      "record_targets s (zip (su_targets s) (zip (su_ids s) adm)) ob1 = (ob2, writes)"
      "ob' = arm_batch s (record_expectation s ob2)"
    using assms by (cases rule: submit_cases [of s ob]) auto
  have "find (refuses ob (su_intent s)) (su_targets s) = None"
    and map: "adm = map (admission ob (su_intent s)) (su_targets s)"
    using admit_targets_result [of "su_intent s" "su_targets s" ob] adm(2) by (auto split: option.splits)
  then show "d \<in> set (su_targets s) \<Longrightarrow> \<not> refuses ob (su_intent s) d"
    by (auto simp: find_None_iff)
  let ?ts = "zip (su_targets s) (zip (su_ids s) adm)"
  note frame = admit_targets_frame [of "su_intent s" "su_targets s" ob, unfolded adm(2) fst_conv]
  have fst: "map fst ?ts = su_targets s" and snd: "map (fst \<circ> snd) ?ts = su_ids s"
    using adm(1) map by (auto intro: nth_equalityI)
  have dist: "distinct (map (fst \<circ> snd) ?ts)" "distinct (map fst ?ts)"
    unfolding fst snd using assms(3) by (auto simp: fresh_def fresh_ids_def)
  note eff = record_targets_effect [OF dist, where s = s and ob = ob1, unfolded adm(3) fst_conv]
  have tail: "ob_records ob' = ob_records ob2" "log_of ob' = log_of ob2"
      "ob_batches ob' = ob_batches (arm_batch s ob2)" "ob_groups ob' = ob_groups (record_expectation s ob2)"
    unfolding adm(4) by (auto simp: arm_batch_def record_expectation_def split: option.split prod.split)
  show "ob_batches ob' = ob_batches (arm_batch s ob)" "ob_groups ob' = ob_groups (record_expectation s ob)"
    using tail(3,4) eff(5,6) frame
    by (auto simp: arm_batch_def record_expectation_def split: option.split prod.split)
  show "map_of (ob_records ob') (su_ids s ! k) =
        Some (new_record s d (su_ids s ! k) (snd (snd (admission ob (su_intent s) d))))
      \<and> log_of ob' d = append_write s (su_ids s ! k) (admission ob (su_intent s) d) (log_of ob d)"
    if "k < length (su_targets s)" "d = su_targets s ! k"
  proof -
    have "(d, su_ids s ! k, admission ob (su_intent s) d) \<in> set ?ts"
      using that adm(1) map by (auto simp: in_set_zip)
    with eff(1,3) frame tail show ?thesis by auto
  qed
  show "map_of (ob_records ob') i = map_of (ob_records ob) i" if "i \<notin> set (su_ids s)"
    using that eff(2) [of i, folded set_map, unfolded snd] frame tail(1) by simp
  show "log_of ob' d = log_of ob d" if "d \<notin> set (su_targets s)"
    using that eff(4) [of d, folded set_map, unfolded fst] frame tail(2) by simp
  show "length (su_ids s) = length (su_targets s)" by (rule adm(1))
qed


lemma submit_refused:
  assumes "submit s ob = (ob', Inl e)"
  shows "view ob' = view ob" and "log_of ob' = log_of ob" and "ob_records ob' = ob_records ob"
    and "ob_batches ob' = ob_batches ob" and "ob_groups ob' = ob_groups ob"
  using assms admit_targets_frame [of "su_intent s" "su_targets s" ob]
  by (cases rule: submit_cases [of s ob]; simp add: view_def)+

lemma submit_replayed:
  "submit s ob = (ob', Inr acc) \<Longrightarrow> replay_of ob s = Some a \<Longrightarrow> ob' = ob \<and> acc = a"
  by (cases rule: submit_cases [of s ob]) auto

lemma submit_row:
  assumes "submit s ob = (ob', Inr acc)" and "replay_of ob s = None" and "fresh s ob" and "i \<in> set (su_ids s)"
  shows "\<exists>d epoch k. k < length (su_targets s) \<and> i = su_ids s ! k \<and> d = su_targets s ! k \<and>
    map_of (ob_records ob') i = Some (new_record s d i epoch)"
proof -
  obtain k where "k < length (su_ids s)" "i = su_ids s ! k"
    using assms(4) by (auto simp: in_set_conv_nth)
  then show ?thesis
    using submit_admitted(2,7) [OF assms(1-3)] by auto
qed

lemma submit_batches_ok:
  assumes bs: "batches_ok ob" and fr: "fresh s ob"
  shows "batches_ok (fst (submit s ob))"
proof (cases "submit s ob")
  case (Pair ob' res)
  show ?thesis
  proof (cases "\<exists>acc. res = Inr acc \<and> replay_of ob s = None")
    case False
    then have "ob_records ob' = ob_records ob \<and> ob_batches ob' = ob_batches ob"
      using Pair submit_refused [of s ob ob'] submit_replayed [of s ob ob']
      by (cases res) auto
    with bs Pair show ?thesis by (simp add: batches_ok_def)
  next
    case True
    then obtain acc where sub: "submit s ob = (ob', Inr acc)" "replay_of ob s = None" using Pair by auto
    note eff = submit_admitted [OF sub fr]
    have row: "i \<in> set (su_ids s) \<and> (\<exists>d epoch k. k < length (su_targets s) \<and> i = su_ids s ! k
          \<and> d = su_targets s ! k \<and> r = new_record s d i epoch) \<or> map_of (ob_records ob) i = Some r"
      if "map_of (ob_records ob') i = Some r" for i r
      using that submit_row [OF sub fr, of i] eff(3) [of i] by fastforce
    have none: False if "su_batch s = Some b" "map_of (ob_records ob) i = Some r" "wr_batch r = Some b" for b i r
      using fr that by (auto simp: fresh_def)
    have gate: "map_of (ob_batches ob') b = Some ba \<Longrightarrow> map_of (ob_batches ob) b = Some ba \<and> su_batch s \<noteq> Some b
        \<or> su_batch s = Some b \<and> ba_gate ba = Waiting \<and> ba_members ba = oset (su_targets s)" for b ba
      using eff(5) fr by (auto simp: arm_batch_def fresh_def split: option.splits if_splits)
    have "rows_ok (map_of (ob_batches ob')) (map_of (ob_records ob'))"
    proof (rule rows_okI)
      fix b ba i r
      assume a: "map_of (ob_batches ob') b = Some ba" "map_of (ob_records ob') i = Some r" "wr_batch r = Some b"
      show "gate_ok ba r"
        using gate [OF a(1)] row [OF a(2)] a(3) none [of b i r] batches_okD(1) [OF bs, of b ba i r]
        by (auto simp: gate_ok_def new_record_def)
    qed
    moreover have "one_row (map_of (ob_records ob'))"
      unfolding one_row_def
    proof (intro allI impI)
      fix i j r r'
      assume a: "map_of (ob_records ob') i = Some r" "map_of (ob_records ob') j = Some r'" "wr_batch r \<noteq> None"
        "wr_batch r' = wr_batch r" "wr_device r' = wr_device r"
      have dist: "distinct (su_targets s)" using fr by (simp add: fresh_def)
      show "i = j"
        using row [OF a(1)] row [OF a(2)] a(3-5) none [of _ i r] none [of _ j r'] batches_okD(2) [OF bs] dist
        by (auto simp: new_record_def one_row_def nth_eq_iff_index_eq)
    qed
    moreover have "members_ok (map_of (ob_batches ob'))"
      unfolding members_ok_def using gate batches_okD(3) [OF bs] by fastforce
    ultimately show ?thesis using sub by (simp add: batches_ok_def)
  qed
qed

lemma reachable_batches_ok: "reachable ch M ob \<Longrightarrow> batches_ok ob"
proof (induction rule: reachable.induct)
  case (start n)
  show ?case
    by (simp add: batches_ok_def rows_ok_def one_row_def members_ok_def with_max_attempts_def)
next
  case (step ob ob')
  have ok: "outbox_ok ob" using reachable_ok [OF step(1)] by blast
  from step(2) show ?case
  proof cases
    case (op_submit s)
    then show ?thesis using submit_batches_ok [OF step(3)] by simp
  next
    case (op_claim d at)
    then show ?thesis using claim_next_batches_ok [OF ok step(3)] by simp
  next
    case (op_settle i out at)
    then show ?thesis using settle_batches_ok [OF step(3)] by simp
  next
    case (op_cancel d reason)
    then show ?thesis using cancel_queued_batches_ok [OF step(3)] by simp
  qed (use step(3) in \<open>simp_all add: batches_ok_def observe_def forget_group_def set_max_attempts_def with_backoff_def\<close>)
qed

end
