(* ===== verification/Sis_Outbox_Spec.thy ===== *)
theory Sis_Outbox_Spec
  imports Sis_Barrier
begin

text \<open>
  The correctness of the outbox: the properties of \<^verbatim>\<open>sismatic-store-memory/src/outbox.rs\<close>
  that its callers rely on, each over every outbox reachable by any sequence of calls
  (\<open>reachable\<close>, with retry budgets of at most \<open>M\<close>), followed by what the code does not keep.
\<close>

section \<open>A concrete clock and a concrete history\<close>

text \<open>
  The clock of the examples: an instant is written as that many \<open>t\<close>, so that text order is
  time order.
\<close>

definition tick_chrono :: chrono where
  "tick_chrono = \<lparr>parse_from_rfc3339 = (\<lambda>s. Some (int (length s))),
     duration_from_std = (\<lambda>n. Some (int n)),
     to_rfc3339_millis = (\<lambda>n. replicate (nat n) (CHR ''t''))\<rparr>"

definition write_to :: "string \<Rightarrow> string \<Rightarrow> intent \<Rightarrow> submission" where
  "write_to i d it = \<lparr>su_ids = [i], su_targets = [d], su_group = None, su_batch = None,
     su_barrier = None, su_intent = it, su_at = ''t'', su_key = None\<rparr>"

definition group_write :: "barrier \<Rightarrow> string \<Rightarrow> string list \<Rightarrow> string list \<Rightarrow> intent \<Rightarrow> submission" where
  "group_write policy b is ds it = \<lparr>su_ids = is, su_targets = ds, su_group = Some ''g'', su_batch = Some b,
     su_barrier = Some \<lparr>bp_timeout = 1, bp_on_timeout = policy\<rparr>, su_intent = it, su_at = ''t'', su_key = None\<rparr>"

definition empty_box :: outbox where
  "empty_box = with_backoff 1 (with_max_attempts 2)"

text \<open>One group start, armed and waiting.\<close>

definition armed_box :: outbox where
  "armed_box = fst (submit (group_write FailBatch ''b'' [''i'', ''j''] [''x'', ''y''] StartRecording) empty_box)"

lemmas example_defs = tick_chrono_def write_to_def group_write_def empty_box_def with_backoff_def
  with_max_attempts_def submit_def replay_of_def fresh_def fresh_ids_def record_expectation_def
  arm_batch_def oentry_def oset_def odel_def oadjust_def new_record_def append_write_def log_of_def default_log_def
  opens_recording_def epoch_of_def claim_next_def queue_head_def step_batch_def is_ready_for_def
  elapsed_past_def delay_from_def claim_alone_def claim_head_def settle_def settle_batch_def
  retry_record_def unready_def leave_def fail_head_def cancel_queued_def cancel_batch_def of_batch_def
  observe_def write_of_def desired_state_of_def RECORDING_STATE_FIELD_def less_char_def Let_def

lemma reachable_empty_box: "reachable tick_chrono 2 empty_box"
proof -
  have "reachable tick_chrono 2 (with_max_attempts 2)" by (rule reachable.start) simp
  then show ?thesis unfolding empty_box_def by (rule reachable.step) (rule op_backoff)
qed

lemma reachable_armed_box: "reachable tick_chrono 2 armed_box"
  unfolding armed_box_def
  by (rule reachable.step [OF reachable_empty_box], rule op_submit) (simp add: example_defs)

text \<open>The group start released to both members.\<close>

definition released_box :: outbox where
  "released_box = fst (claim_next tick_chrono ''x'' ''tt'' armed_box)"

lemma reachable_released_box: "reachable tick_chrono 2 released_box"
  unfolding released_box_def by (rule reachable.step [OF reachable_armed_box]) (rule op_claim)


section \<open>The rows of the outbox\<close>

text \<open>
  In every reachable outbox the queue of a device holds exactly its pending writes, its
  history exactly the writes it was ever given, neither holds a write twice, and every record
  stands under its own id.
\<close>

theorem outbox_lines:
  assumes "reachable ch M ob"
  shows "(i \<in> set (dl_queue (log_of ob d)) \<longleftrightarrow>
       (\<exists>r. write_of ob i = Some r \<and> wr_device r = d \<and> wr_status r = Pending))
    \<and> (i \<in> set (dl_history (log_of ob d)) \<longleftrightarrow> (\<exists>r. write_of ob i = Some r \<and> wr_device r = d))
    \<and> distinct (dl_queue (log_of ob d)) \<and> distinct (dl_history (log_of ob d))
    \<and> (\<forall>r. write_of ob i = Some r \<longrightarrow> wr_id r = i)"
proof -
  have ok: "lines_ok (view ob)" using reachable_ok [OF assms] by (simp add: outbox_ok_def)
  show ?thesis
    using lines_okD(1,3) [OF ok, of i] lines_okD(2) [OF ok, of i d] lines_okD(4) [OF ok, of i d]
      lines_okD(5,6) [OF ok, of d]
    by (auto simp: write_of_def)
qed

theorem outbox_lines_witness:
  "reachable tick_chrono 2 armed_box \<and> dl_queue (log_of armed_box ''x'') = [''i'']
     \<and> distinct (dl_queue (log_of armed_box ''x''))
     \<and> (\<exists>r. write_of armed_box ''i'' = Some r \<and> wr_device r = ''x'' \<and> wr_status r = Pending)"
proof -
  have "dl_queue (log_of armed_box ''x'') = [''i'']"
    unfolding armed_box_def by (simp add: example_defs)
  with outbox_lines [OF reachable_armed_box, of "''i''" "''x''"] reachable_armed_box show ?thesis by simp
qed

text \<open>
  C1. Refinement: whatever a caller asks of a reachable outbox, what happens to its rows is a
  sequence of steps of the abstract machine \<open>line_step\<close>: writes join at the back, are claimed
  from the front, go back to the front with an attempt left, or leave for good.
\<close>

theorem outbox_refines_lines:
  assumes "reachable ch M ob" and "outbox_op ch M ob ob'"
  shows "line_steps M (view ob) (view ob')"
  using assms by (rule reachable_steps)

theorem outbox_refines_lines_witness:
  "line_steps 2 (view armed_box) (view released_box) \<and> view armed_box \<noteq> view released_box"
proof
  show "line_steps 2 (view armed_box) (view released_box)"
    using outbox_refines_lines [OF reachable_armed_box] unfolding released_box_def by (blast intro: op_claim)
  have "dl_queue (log_of armed_box ''x'') \<noteq> dl_queue (log_of released_box ''x'')"
    unfolding released_box_def armed_box_def by (simp add: example_defs)
  then show "view armed_box \<noteq> view released_box"
    by (metis view_simps(2))
qed

text \<open>
  C11. A settled write is final: once its record says succeeded, failed or cancelled, no later
  sequence of calls changes it, so a caller that polls it always reads the same answer.
\<close>

theorem settled_final:
  assumes "reachable ch M ob" and "(outbox_op ch M)\<^sup>*\<^sup>* ob ob'"
    and "write_of ob i = Some r" and "settled (wr_status r)"
  shows "write_of ob' i = Some r"
  using line_steps_final [of M "view ob" "view ob'" i r] outbox_ops_steps [OF assms(2,1)]
    reachable_ok [OF assms(1)] assms(3,4)
  by (simp add: write_of_def outbox_ok_def)

definition settled_box :: outbox where
  "settled_box = fst (settle tick_chrono ''i'' (OSucceeded (Flag True)) ''ttt'' released_box)"

lemma reachable_settled_box: "reachable tick_chrono 2 settled_box"
  unfolding settled_box_def by (rule reachable.step [OF reachable_released_box]) (rule op_settle)

theorem settled_final_witness:
  "\<exists>r. wr_status r = Succeeded (Flag True) \<and> write_of settled_box ''i'' = Some r
     \<and> write_of (fst (cancel_queued ''x'' ''gone'' settled_box)) ''i'' = Some r"
proof -
  obtain r where r: "write_of settled_box ''i'' = Some r" "wr_status r = Succeeded (Flag True)"
    unfolding settled_box_def released_box_def armed_box_def by (auto simp: example_defs)
  have "write_of (fst (cancel_queued ''x'' ''gone'' settled_box)) ''i'' = Some r"
    by (rule settled_final [OF reachable_settled_box r_into_rtranclp r(1)]) (auto simp: r(2) intro: op_cancel)
  with r show ?thesis by blast
qed

text \<open>
  Nothing is forgotten or rewritten: across any sequence of calls a record keeps its id,
  device, intent, batch, epoch and time of submission, its attempts never go down, and a
  device's history only grows at its end.
\<close>

theorem records_kept:
  assumes "reachable ch M ob" and "(outbox_op ch M)\<^sup>*\<^sup>* ob ob'" and "write_of ob i = Some r"
  shows "(\<exists>r'. write_of ob' i = Some r' \<and> same_write r r' \<and> wr_attempts r \<le> wr_attempts r')
    \<and> (\<exists>new. dl_history (log_of ob' d) = dl_history (log_of ob d) @ new)"
proof -
  have steps: "line_steps M (view ob) (view ob')" using outbox_ops_steps [OF assms(2,1)] by blast
  show ?thesis
    using line_steps_kept [OF steps, of i r] line_steps_history [OF steps, of d] assms(3)
    by (simp add: write_of_def)
qed

theorem records_kept_witness:
  "\<exists>r r'. write_of armed_box ''i'' = Some r \<and> write_of released_box ''i'' = Some r' \<and> same_write r r'"
proof -
  obtain r where r: "write_of armed_box ''i'' = Some r"
    unfolding armed_box_def by (auto simp: example_defs)
  have "outbox_op tick_chrono 2 armed_box released_box"
    unfolding released_box_def by (rule op_claim)
  then show ?thesis
    using records_kept [OF reachable_armed_box r_into_rtranclp r] r by blast
qed

text \<open>
  No write is attempted more often than the highest budget the outbox was ever given, and
  one that waits has an attempt left.
\<close>

theorem attempts_bounded:
  assumes "reachable ch M ob" and "write_of ob i = Some r"
  shows "wr_attempts r \<le> M \<and> (wr_status r = Pending \<longrightarrow> wr_attempts r < M)"
  using reachable_ok [OF assms(1)] assms(2) by (simp add: within_budget_def write_of_def)

theorem attempts_bounded_witness:
  "\<exists>r. write_of released_box ''i'' = Some r \<and> wr_attempts r = 1 \<and> wr_attempts r \<le> 2"
proof -
  obtain r where r: "write_of released_box ''i'' = Some r" "wr_attempts r = 1"
    unfolding released_box_def armed_box_def by (auto simp: example_defs)
  with attempts_bounded [OF reachable_released_box r(1)] show ?thesis by blast
qed

text \<open>
  A claim on a reachable outbox never reports a queued id without a record behind it.
\<close>

theorem claim_next_no_error:
  assumes "reachable ch M ob"
  shows "\<exists>c. snd (claim_next ch d at ob) = Inr c"
  using claim_next_steps reachable_ok [OF assms] by blast

theorem claim_next_no_error_witness:
  "\<exists>c. snd (claim_next tick_chrono ''x'' ''tt'' armed_box) = Inr c"
  by (rule claim_next_no_error [OF reachable_armed_box])


section \<open>The rendezvous\<close>

lemma claim_head_result:
  assumes "outbox_ok ob"
  shows "snd (claim_head d at ob) =
    Inr (Option.bind (queue_head ob d) (\<lambda>i. map_option (claimed at) (map_of (ob_records ob) i)))"
proof (cases "queue_head ob d")
  case None
  then have "\<forall>log. map_of (ob_logs ob) d = Some log \<longrightarrow> dl_queue log = []"
    by (simp add: queue_head_None)
  with None show ?thesis by (auto simp: claim_head_def split: option.split list.split)
next
  case (Some i)
  then obtain log q where log: "map_of (ob_logs ob) d = Some log" "dl_queue log = i # q"
    by (rule queue_headD)
  then obtain r where "map_of (ob_records ob) i = Some r"
    using lines_okD(2) [OF assms [unfolded outbox_ok_def], of i d] log_of_Some [OF log(1)] by auto
  with Some log show ?thesis by (simp add: claim_head_def Let_def)
qed

lemma claim_members_result:
  "outbox_ok ob \<Longrightarrow> distinct ds \<Longrightarrow> snd (claim_members ds at ob) = Inr (List.map_filter
     (\<lambda>d. Option.bind (queue_head ob d) (\<lambda>i. map_option (claimed at) (map_of (ob_records ob) i))) ds)"
proof (induction ds arbitrary: ob)
  case (Cons d ds)
  let ?ob = "fst (claim_head d at ob)"
  have row: "Option.bind (queue_head ?ob d') (\<lambda>i. map_option (claimed at) (map_of (ob_records ?ob) i))
      = Option.bind (queue_head ob d') (\<lambda>i. map_option (claimed at) (map_of (ob_records ob) i))"
    if "d' \<in> set ds" for d'
  proof -
    have d': "d' \<noteq> d" using that Cons.prems(2) by auto
    have "i \<noteq> j" if "queue_head ob d = Some i" "queue_head ob d' = Some j" for i j
      using heads_disjoint [OF Cons.prems(1), of d "[d']" i] that d' by (auto simp: heads_def)
    with d' show ?thesis
      by (cases "queue_head ob d'") (auto simp: claims.take_heads claims.take_records_eq [OF Cons.prems(1)])
  qed
  have "snd (claim_members ds at ?ob) = Inr (List.map_filter
     (\<lambda>d. Option.bind (queue_head ob d) (\<lambda>i. map_option (claimed at) (map_of (ob_records ob) i))) ds)"
    using Cons.IH [OF claims.take_ok [OF Cons.prems(1)]] Cons.prems(2) row
    by (simp add: List.map_filter_def cong: map_cong filter_cong)
  then show ?case
    using claim_head_result [OF Cons.prems(1), of d at]
    by (auto simp: map_filter_simps split: prod.split sum.splits option.splits)
qed (simp add: map_filter_simps)

text \<open>
  C28. Under \<open>FailBatch\<close> a group write is all or nothing: while the outbox knows the batch, in
  every reachable state either none of its rows was ever attempted or every one of them was.
\<close>

theorem fail_batch_all_or_nothing:
  assumes "reachable ch M ob" and "map_of (ob_batches ob) b = Some ba"
    and "bp_on_timeout (ba_barrier ba) = FailBatch"
  shows "(\<forall>i r. write_of ob i = Some r \<longrightarrow> wr_batch r = Some b \<longrightarrow> wr_attempts r = 0)
    \<or> (\<forall>i r. write_of ob i = Some r \<longrightarrow> wr_batch r = Some b \<longrightarrow> 0 < wr_attempts r)"
  using batches_okD(1) [OF reachable_batches_ok [OF assms(1)] assms(2)] assms(3)
  by (cases "ba_gate ba") (auto simp: gate_ok_def write_of_def)

theorem fail_batch_all_or_nothing_witness:
  "\<exists>ba. map_of (ob_batches released_box) ''b'' = Some ba \<and> bp_on_timeout (ba_barrier ba) = FailBatch
     \<and> (\<exists>r. write_of released_box ''j'' = Some r \<and> wr_attempts r = 1)
     \<and> (\<forall>i r. write_of released_box i = Some r \<longrightarrow> wr_batch r = Some ''b'' \<longrightarrow> 0 < wr_attempts r)"
proof -
  obtain ba r where ba: "map_of (ob_batches released_box) ''b'' = Some ba" "bp_on_timeout (ba_barrier ba) = FailBatch"
      "write_of released_box ''j'' = Some r" "wr_attempts r = 1" "wr_batch r = Some ''b''"
    unfolding released_box_def armed_box_def by (auto simp: example_defs)
  with fail_batch_all_or_nothing [OF reachable_released_box ba(1,2)] show ?thesis by fastforce
qed

lemma claim_alone_not_batch: "claim_alone d at ob \<noteq> (ob', Inr (Some (Batch b rs)))"
proof -
  have "map_option One x \<noteq> Some (Batch b rs)" for x by (cases x) simp_all
  then show ?thesis by (auto simp: claim_alone_def split: prod.splits sum.splits)
qed

text \<open>The state a batch claim finds and the one it leaves.\<close>

lemma batch_claimE:
  assumes "outbox_ok ob" and "claim_next ch d at ob = (ob', Inr (Some (Batch b rs)))"
  obtains ba members where "map_of (ob_batches ob) b = Some ba" "ba_gate ba = Waiting"
      "members = filter (is_ready_for ob b at) (ba_members ba)"
      "bp_on_timeout (ba_barrier ba) = FailBatch \<longrightarrow> members = ba_members ba"
      "claim_members members at
         (ob\<lparr>ob_batches := oput b (ba\<lparr>ba_ready := members, ba_gate := Open\<rparr>) (ob_batches ob)\<rparr>) = (ob', Inr rs)"
  using assms(1)
proof (cases rule: claim_next_cases [of ob ch d at])
  case (release i r b' members rs')
  then have b': "b' = b" "rs' = rs"
      "claim_members members at (fst (step_batch ch b d at ob)) = (ob', Inr rs)"
    using assms(2) by (auto simp: prod_eq_iff)
  show ?thesis
  proof (cases rule: step_batch_cases [of ob b ch d at])
    case (moved ba ready st)
    then have "members = ready" "st = Release ready"
        "bp_on_timeout (ba_barrier ba) = FailBatch \<longrightarrow> ready = ba_members ba"
      using release(4) b' by auto
    with that [of ba members] moved b' show ?thesis by simp
  qed (use release(4) b' in simp_all)
qed (use assms(2) claim_alone_not_batch in \<open>auto dest: sym\<close>)

lemma waiting_ready_row:
  assumes ok: "outbox_ok ob" and bs: "batches_ok ob" and ba: "map_of (ob_batches ob) b = Some ba" "ba_gate ba = Waiting"
    and m: "m \<in> set (filter (is_ready_for ob b at) (ba_members ba))"
  shows "\<exists>i r. queue_head ob m = Some i \<and> map_of (ob_records ob) i = Some r \<and> wr_batch r = Some b
      \<and> wr_device r = m \<and> wr_id r = i \<and> wr_attempts r = 0"
proof -
  obtain i r where r: "queue_head ob m = Some i" "map_of (ob_records ob) i = Some r" "wr_batch r = Some b" "wr_device r = m"
    using ready_row [OF _ ok, of b at m] m by auto
  with batches_okD(1) [OF bs ba(1) r(2,3)] ba(2) lines_okD(1) [OF ok [unfolded outbox_ok_def], of i r]
  show ?thesis by (auto simp: gate_ok_def)
qed

lemma claim_members_rows:
  assumes "outbox_ok ob" and "distinct members" and "claim_members members at ob = (ob', Inr rs)"
    and "\<And>m. m \<in> set members \<Longrightarrow> \<exists>i r. queue_head ob m = Some i \<and> map_of (ob_records ob) i = Some r"
  shows "rs = map (\<lambda>d. claimed at (the (map_of (ob_records ob) (the (queue_head ob d))))) members"
proof -
  have "rs = List.map_filter (\<lambda>d. Option.bind (queue_head ob d)
      (\<lambda>i. map_option (claimed at) (map_of (ob_records ob) i))) members"
    using claim_members_result [OF assms(1,2), of at] assms(3) by simp
  also have "\<dots> = map (\<lambda>d. claimed at (the (map_of (ob_records ob) (the (queue_head ob d))))) members"
    using assms(4) by (induction members) (fastforce simp: map_filter_simps)+
  finally show ?thesis .
qed

text \<open>
  C7. What a batch claim hands out: the batch was waiting and is now open; the rows are, in
  member order, the first attempts of exactly the members that stood ready; and under
  \<open>FailBatch\<close> that is every row of the batch.
\<close>

theorem batch_claim_exact:
  assumes "reachable ch M ob" and "claim_next ch d at ob = (ob', Inr (Some (Batch b rs)))"
  shows "\<exists>ba. map_of (ob_batches ob) b = Some ba \<and> ba_gate ba = Waiting
    \<and> map_option ba_gate (map_of (ob_batches ob') b) = Some Open
    \<and> map wr_device rs = filter (is_ready_for ob b at) (ba_members ba)
    \<and> (\<forall>r \<in> set rs. wr_batch r = Some b \<and> wr_status r = InFlight \<and> wr_attempts r = 1
          \<and> write_of ob' (wr_id r) = Some r)
    \<and> (bp_on_timeout (ba_barrier ba) = FailBatch \<longrightarrow>
          (\<forall>i r. write_of ob i = Some r \<longrightarrow> wr_batch r = Some b \<longrightarrow> i \<in> wr_id ` set rs))"
proof -
  have ok: "outbox_ok ob" and bs: "batches_ok ob"
    using reachable_ok [OF assms(1)] reachable_batches_ok [OF assms(1)] by simp_all
  obtain ba members where ba: "map_of (ob_batches ob) b = Some ba" "ba_gate ba = Waiting"
      "members = filter (is_ready_for ob b at) (ba_members ba)"
      "bp_on_timeout (ba_barrier ba) = FailBatch \<longrightarrow> members = ba_members ba"
      and cl: "claim_members members at
         (ob\<lparr>ob_batches := oput b (ba\<lparr>ba_ready := members, ba_gate := Open\<rparr>) (ob_batches ob)\<rparr>) = (ob', Inr rs)"
    using batch_claimE [OF ok assms(2)] by metis
  note ready = waiting_ready_row [OF ok bs ba(1,2), of _ at, folded ba(3)]
  have dist: "distinct members" using batches_okD(3) [OF bs ba(1)] ba(3) by simp
  have rs: "rs = map (\<lambda>d. claimed at (the (map_of (ob_records ob) (the (queue_head ob d))))) members"
    using claim_members_rows [OF _ dist cl] ok ready by fastforce
  let ?ob1 = "ob\<lparr>ob_batches := oput b (ba\<lparr>ba_ready := members, ba_gate := Open\<rparr>) (ob_batches ob)\<rparr>"
  have eff: "ob_batches ob' = ob_batches ?ob1"
      "map_of (ob_records ob') = (\<lambda>i. if i \<in> heads ob members
         then map_option (claimed at) (map_of (ob_records ob) i) else map_of (ob_records ob) i)"
    using claim_members_effect(2,3) [of ?ob1 members at] ok dist cl by (simp_all cong: if_cong)
  have "map wr_device rs = members"
    unfolding rs map_map by (rule map_idI) (use ready in fastforce)
  moreover have "\<forall>r \<in> set rs. wr_batch r = Some b \<and> wr_status r = InFlight \<and> wr_attempts r = 1
      \<and> write_of ob' (wr_id r) = Some r"
  proof
    fix r assume "r \<in> set rs"
    then obtain m where m: "m \<in> set members"
        "r = claimed at (the (map_of (ob_records ob) (the (queue_head ob m))))" unfolding rs by auto
    with ready [of m] show "wr_batch r = Some b \<and> wr_status r = InFlight \<and> wr_attempts r = 1
        \<and> write_of ob' (wr_id r) = Some r"
      by (auto simp: write_of_def eff(2) heads_def)
  qed
  moreover have "i \<in> wr_id ` set rs"
    if "bp_on_timeout (ba_barrier ba) = FailBatch" "write_of ob i = Some r" "wr_batch r = Some b" for i r
  proof -
    have d: "wr_device r \<in> set members"
      using batches_okD(1) [OF bs ba(1), of i r] that ba(2,4) by (simp add: gate_ok_def write_of_def)
    with ready [of "wr_device r"] obtain j s where j: "queue_head ob (wr_device r) = Some j"
        "map_of (ob_records ob) j = Some s" "wr_batch s = Some b" "wr_device s = wr_device r" "wr_id s = j" by blast
    then have "i = j" using batches_okD(2) [OF bs] that by (auto simp: one_row_def write_of_def)
    with j have "wr_id (claimed at (the (map_of (ob_records ob) (the (queue_head ob (wr_device r)))))) = i" by simp
    with d show ?thesis unfolding rs by (force simp: image_iff)
  qed
  moreover have "map_option ba_gate (map_of (ob_batches ob') b) = Some Open"
    by (simp add: eff(1))
  ultimately show ?thesis using ba by blast
qed

theorem batch_claim_exact_witness:
  "\<exists>rs. claim_next tick_chrono ''x'' ''tt'' armed_box = (released_box, Inr (Some (Batch ''b'' rs)))
     \<and> map wr_device rs = [''x'', ''y''] \<and> (\<forall>r \<in> set rs. wr_attempts r = 1)"
proof -
  obtain rs where rs: "claim_next tick_chrono ''x'' ''tt'' armed_box = (released_box, Inr (Some (Batch ''b'' rs)))"
      "map wr_device rs = [''x'', ''y'']"
    unfolding released_box_def armed_box_def by (auto simp: example_defs)
  have "\<forall>r \<in> set rs. wr_attempts r = 1"
    using batch_claim_exact [OF reachable_armed_box rs(1)] by auto
  with rs show ?thesis by (intro exI [of _ rs] conjI)
qed


lemma step_batch_gate:
  "map_of (ob_batches ob) b' = Some ba \<Longrightarrow> ba_gate ba \<noteq> Waiting \<Longrightarrow>
     map_of (ob_batches (fst (step_batch ch b d at ob))) b' = Some ba"
  by (cases rule: step_batch_cases [of ob b ch d at]) auto

lemma fail_members_batches [simp]: "ob_batches (fail_members ds at ob) = ob_batches ob"
  by (induction ds arbitrary: ob) (simp_all add: expiries.take_batches)

lemma claim_members_batches [simp]: "ob_batches (fst (claim_members ds at ob)) = ob_batches ob"
proof (induction ds arbitrary: ob)
  case (Cons d ds)
  then show ?case
    by (simp only: claim_members_fst) (simp add: claims.take_batches split: sum.split)
qed simp

lemma claim_next_gate:
  "outbox_ok ob \<Longrightarrow> map_of (ob_batches ob) b = Some ba \<Longrightarrow> ba_gate ba \<noteq> Waiting \<Longrightarrow>
     map_of (ob_batches (fst (claim_next ch d at ob))) b = Some ba"
  by (cases rule: claim_next_cases [of ob ch d at])
     (simp_all add: claims.take_batches step_batch_gate)

text \<open>
  A resolved batch stays resolved: whatever is called next, a batch that was released or
  abandoned keeps that answer until the outbox forgets it. With C8 this makes a batch claim
  happen at most once per batch.
\<close>

theorem gate_final:
  assumes "reachable ch M ob" and "outbox_op ch M ob ob'"
    and "map_of (ob_batches ob) b = Some ba" and "ba_gate ba \<noteq> Waiting"
  shows "map_of (ob_batches ob') b = None \<or> map_option ba_gate (map_of (ob_batches ob') b) = Some (ba_gate ba)"
  using assms(2)
proof cases
  case (op_submit s)
  obtain res where sub: "submit s ob = (ob', res)" using op_submit by (cases "submit s ob") auto
  show ?thesis
  proof (cases res)
    case (Inl e)
    with submit_refused(4) [of s ob ob' e] sub assms(3) show ?thesis by simp
  next
    case (Inr acc)
    show ?thesis
    proof (cases "replay_of ob s")
      case None
      with submit_admitted(5) [of s ob ob' acc] sub Inr op_submit(2) assms(3) show ?thesis
        by (auto simp: arm_batch_def fresh_def split: option.split)
    next
      case (Some a)
      with submit_replayed [of s ob ob' acc a] sub Inr assms(3) show ?thesis by simp
    qed
  qed
next
  case (op_claim d at)
  with claim_next_gate [OF _ assms(3,4)] reachable_ok [OF assms(1)] show ?thesis by simp
next
  case (op_settle i out at)
  show ?thesis
  proof (cases "\<exists>r. map_of (ob_records ob) i = Some r \<and> wr_status r = InFlight")
    case False
    then have "ob' = ob" using op_settle by (auto simp: settle_def split: option.split)
    with assms(3) show ?thesis by simp
  next
    case True
    then obtain r where "map_of (ob_records ob) i = Some r" "wr_status r = InFlight" by blast
    then show ?thesis
      by (rule settle_effect [of ob i r ch out at]) (use op_settle assms(3) in \<open>auto split: option.split\<close>)
  qed
next
  case (op_cancel d reason)
  then show ?thesis
    using assms(3) cancel_batches_touched by (auto simp: cancel_queued_fst split: option.split)
qed (use assms(3) in \<open>simp_all add: observe_def forget_group_def set_max_attempts_def with_backoff_def\<close>)

theorem gate_final_witness:
  "map_option ba_gate (map_of (ob_batches released_box) ''b'') = Some Open
     \<and> map_option ba_gate (map_of (ob_batches settled_box) ''b'') = Some Open"
proof -
  have op: "outbox_op tick_chrono 2 released_box settled_box" unfolding settled_box_def by (rule op_settle)
  obtain ba where ba: "map_of (ob_batches released_box) ''b'' = Some ba" "ba_gate ba = Open"
    unfolding released_box_def armed_box_def by (auto simp: example_defs)
  have "map_of (ob_batches settled_box) ''b'' \<noteq> None"
    unfolding settled_box_def released_box_def armed_box_def by (simp add: example_defs)
  then show ?thesis
    using gate_final [OF reachable_released_box op ba(1)] ba by auto
qed

fun claim_rows :: "claim \<Rightarrow> write_record list" where
  "claim_rows (One r) = [r]"
| "claim_rows (Batch b rs) = rs"

lemma claim_alone_row:
  assumes "outbox_ok ob" and "claim_alone d at ob = (ob', Inr (Some c))" and "queue_head ob d = Some i"
    and "map_of (ob_records ob) i = Some r"
  shows "c = One (claimed at r)"
  using claim_head_result [OF assms(1), of d at] assms(2-4)
  by (auto simp: claim_alone_def split: prod.splits sum.splits)

text \<open>
  A row of a batch is handed out only through its gate: in the batch's one release while
  it waits, or alone once it is open. A row of an abandoned batch, or of a batch the outbox
  has forgotten, is never handed out.
\<close>

theorem claim_respects_gate:
  assumes "reachable ch M ob" and "claim_next ch d at ob = (ob', Inr (Some c))"
    and "r \<in> set (claim_rows c)" and "wr_batch r = Some b"
  shows "\<exists>ba. map_of (ob_batches ob) b = Some ba \<and>
    (case c of One s \<Rightarrow> ba_gate ba = Open | Batch b' rs \<Rightarrow> b' = b \<and> ba_gate ba = Waiting)"
proof -
  have ok: "outbox_ok ob" and bs: "batches_ok ob"
    using reachable_ok [OF assms(1)] reachable_batches_ok [OF assms(1)] by simp_all
  from ok show ?thesis
  proof (cases rule: claim_next_cases [of ob ch d at])
    case (alone i r0)
    with claim_alone_row [OF ok _ alone(1,2)] assms(2-4) show ?thesis by fastforce
  next
    case (straggler i r0 b0)
    then obtain ba where ba: "map_of (ob_batches ob) b0 = Some ba" "ba_gate ba = Open" "fst (step_batch ch b0 d at ob) = ob"
      by (cases rule: step_batch_cases [of ob b0 ch d at]) auto
    then have "c = One (claimed at r0)"
      using claim_alone_row [OF ok _ straggler(1,2), of at ob' c] straggler(5) assms(2) by simp
    with ba straggler(3) assms(3,4) show ?thesis by simp
  next
    case (release i r0 b0 members rs)
    then have c: "c = Batch b0 rs" using assms(2) by simp
    obtain ba mem where ba: "map_of (ob_batches ob) b0 = Some ba" "ba_gate ba = Waiting"
        "mem = filter (is_ready_for ob b0 at) (ba_members ba)"
        "claim_members mem at (ob\<lparr>ob_batches := oput b0 (ba\<lparr>ba_ready := mem, ba_gate := Open\<rparr>) (ob_batches ob)\<rparr>) = (ob', Inr rs)"
      using batch_claimE [OF ok] assms(2) c by metis
    note ready = waiting_ready_row [OF ok bs ba(1,2), of _ at, folded ba(3)]
    have "rs = map (\<lambda>d. claimed at (the (map_of (ob_records ob) (the (queue_head ob d))))) mem"
      using claim_members_rows [OF _ _ ba(4)] ok ready batches_okD(3) [OF bs ba(1)] ba(3) by fastforce
    then obtain m where "m \<in> set mem" "r = claimed at (the (map_of (ob_records ob) (the (queue_head ob m))))"
      using assms(3) c by auto
    with ready [of m] assms(4) ba c show ?thesis by auto
  qed (use assms(2) in simp_all)
qed

theorem claim_respects_gate_witness:
  "\<exists>rs ba. claim_next tick_chrono ''x'' ''tt'' armed_box = (released_box, Inr (Some (Batch ''b'' rs)))
     \<and> map_of (ob_batches armed_box) ''b'' = Some ba \<and> ba_gate ba = Waiting"
proof -
  obtain rs r where rs: "claim_next tick_chrono ''x'' ''tt'' armed_box = (released_box, Inr (Some (Batch ''b'' rs)))"
      "r = hd rs" "rs \<noteq> []" "wr_batch r = Some ''b''"
    unfolding released_box_def armed_box_def by (auto simp: example_defs)
  then have "\<exists>ba. map_of (ob_batches armed_box) ''b'' = Some ba \<and> ba_gate ba = Waiting"
    using claim_respects_gate [OF reachable_armed_box rs(1), of "hd rs" "''b''"] by simp
  with rs(1) show ?thesis by (elim exE) (rule exI [of _ rs], rule exI, rule conjI)
qed

end
