(* ===== verification/Sis_Outbox_Calls.thy ===== *)
theory Sis_Outbox_Calls
  imports Sis_Outbox_Spec
begin

text \<open>
  The correctness of single calls on the outbox: what a submission, a settlement, an
  observation and a cancellation do on each of their branches, the order claims follow, and
  the states in which the code does not do what its comments say.
\<close>

section \<open>Submission\<close>

text \<open>
  A refused submission changes nothing: the records, every device's desired state, epoch,
  queue, history and keys, the batches and the group expectations are what they were. When the
  refusal is a rejection it names the first target that refuses, with the state it refuses in.
\<close>

theorem refused_changes_nothing:
  assumes "submit s ob = (ob', Inl e)"
  shows "ob_records ob' = ob_records ob \<and> log_of ob' = log_of ob \<and> ob_batches ob' = ob_batches ob
    \<and> ob_groups ob' = ob_groups ob
    \<and> (\<forall>d rej desired. e = Rejected d rej desired \<longrightarrow>
          find (refuses ob (su_intent s)) (su_targets s) = Some d
          \<and> desired = dl_desired (log_of ob d) \<and> admit desired (verb_of (su_intent s)) = Inl rej)"
proof -
  have "find (refuses ob (su_intent s)) (su_targets s) = Some d
      \<and> desired = dl_desired (log_of ob d) \<and> admit desired (verb_of (su_intent s)) = Inl rej"
    if "e = Rejected d rej desired" for d rej desired
    using assms
  proof (cases rule: submit_cases [of s ob])
    case (refused ob1 e')
    then have "snd (admit_targets (su_intent s) (su_targets s) ob) = Inl (Rejected d rej desired)"
      using assms that by simp
    then have "\<exists>d'. find (refuses ob (su_intent s)) (su_targets s) = Some d' \<and> d' = d
        \<and> rej = projl (admit (dl_desired (log_of ob d)) (verb_of (su_intent s))) \<and> desired = dl_desired (log_of ob d)"
      by (auto simp: admit_targets_result split: option.splits)
    then show ?thesis
      by (auto simp: find_Some_iff refuses_def isl_def)
  qed (use that in auto)
  with submit_refused [OF assms] show ?thesis by blast
qed

definition recording_box :: outbox where
  "recording_box = fst (submit (write_to ''i'' ''x'' StartRecording) empty_box)"

theorem refused_changes_nothing_witness:
  "\<exists>ob'. submit (write_to ''j'' ''x'' (SetMetadata ''title'' ''v'')) recording_box
       = (ob', Inl (Rejected ''x'' MetadataFrozen Recording)) \<and> ob_records ob' = ob_records recording_box"
proof -
  obtain ob' where "submit (write_to ''j'' ''x'' (SetMetadata ''title'' ''v'')) recording_box
       = (ob', Inl (Rejected ''x'' MetadataFrozen Recording))"
    unfolding recording_box_def by (simp add: example_defs)
  with refused_changes_nothing show ?thesis by blast
qed

lemma submission_row:
  assumes "submit s ob = (ob', Inr acc)" and "replay_of ob s = None" and "fresh s ob"
    and "k < length (su_targets s)" and "d = su_targets s ! k" and "i = su_ids s ! k"
  defines "pre \<equiv> dl_desired (log_of ob d)" and "post \<equiv> dl_desired (log_of ob' d)"
  shows "admit pre (verb_of (su_intent s)) = Inr post
    \<and> write_of ob' i = Some (new_record s d i (epoch_of pre post (dl_epoch (log_of ob d))))
    \<and> dl_queue (log_of ob' d) = dl_queue (log_of ob d) @ [i]
    \<and> dl_history (log_of ob' d) = dl_history (log_of ob d) @ [i]
    \<and> dl_epoch (log_of ob' d) = (if opens_recording pre post then dl_epoch (log_of ob d) + 1 else dl_epoch (log_of ob d))"
proof -
  note eff = submit_admitted [OF assms(1-3)]
  have row: "write_of ob' i = Some (new_record s d i (snd (snd (admission ob (su_intent s) d))))"
    and log: "log_of ob' d = append_write s i (admission ob (su_intent s) d) (log_of ob d)"
    using eff(2) [OF assms(4), of d] assms(5,6) by (simp_all add: write_of_def)
  obtain t where t: "admit pre (verb_of (su_intent s)) = Inr t"
    using eff(1) [of d] assms(4,5) unfolding pre_def by (auto simp: refuses_def isl_def) (metis sum.exhaust)
  then have adm: "admission ob (su_intent s) d = (pre, t, epoch_of pre t (dl_epoch (log_of ob d)))"
    by (simp add: admission_def pre_def Let_def)
  then have "post = t" unfolding post_def by (simp add: log append_write_def)
  with t adm row log show ?thesis
    by (auto simp: append_write_def opens_recording_def epoch_of_def)
qed

text \<open>
  An admitted submission acts on every target and nothing else: each target's desired state
  and epoch move as the admission table says, its write joins the back of its queue and its
  history as a pending record of the next epoch, no other device's log and no other record
  changes, the batch is armed and waits, and the group's expectation is recorded.
\<close>

theorem submission_effect:
  assumes "submit s ob = (ob', Inr acc)" and "replay_of ob s = None" and "fresh s ob"
  shows "(\<forall>k < length (su_targets s). let d = su_targets s ! k; i = su_ids s ! k;
          pre = dl_desired (log_of ob d); post = dl_desired (log_of ob' d) in
        admit pre (verb_of (su_intent s)) = Inr post
        \<and> write_of ob' i = Some (new_record s d i (epoch_of pre post (dl_epoch (log_of ob d))))
        \<and> dl_queue (log_of ob' d) = dl_queue (log_of ob d) @ [i]
        \<and> dl_history (log_of ob' d) = dl_history (log_of ob d) @ [i]
        \<and> dl_epoch (log_of ob' d) =
            (if opens_recording pre post then dl_epoch (log_of ob d) + 1 else dl_epoch (log_of ob d)))
    \<and> (\<forall>j. j \<notin> set (su_ids s) \<longrightarrow> write_of ob' j = write_of ob j)
    \<and> (\<forall>d'. d' \<notin> set (su_targets s) \<longrightarrow> log_of ob' d' = log_of ob d')
    \<and> (\<forall>g. su_group s = Some g \<longrightarrow> map_option ge_value (expected ob' g (fst (expects (su_intent s))))
          = Some (snd (expects (su_intent s))))
    \<and> (\<forall>b. su_batch s = Some b \<longrightarrow> map_option ba_gate (map_of (ob_batches ob') b) = Some Waiting)"
  using submission_row [OF assms] submit_admitted(3,4) [OF assms]
  by (auto simp: Let_def write_of_def submit_admitted(5,6) [OF assms] arm_batch_def record_expectation_def
        expected_def split: option.splits prod.splits)

theorem submission_effect_witness:
  "\<exists>acc. submit (write_to ''i'' ''x'' StartRecording) empty_box = (recording_box, Inr acc)
     \<and> dl_desired (log_of recording_box ''x'') = Recording
     \<and> dl_queue (log_of recording_box ''x'') = dl_queue (log_of empty_box ''x'') @ [''i'']"
proof -
  obtain acc where acc: "submit (write_to ''i'' ''x'' StartRecording) empty_box = (recording_box, Inr acc)"
    unfolding recording_box_def by (simp add: example_defs)
  have "dl_queue (log_of recording_box ''x'') = dl_queue (log_of empty_box ''x'') @ [''i'']"
    using submission_effect [OF acc] by (simp add: example_defs)
  moreover have "dl_desired (log_of recording_box ''x'') = Recording"
    unfolding recording_box_def by (simp add: example_defs)
  ultimately show ?thesis using acc by blast
qed

text \<open>
  Metadata lands in the recording it was written for: a metadata write admitted for a device
  was written while the device was idle and carries the epoch the next start admitted for it
  opens.
\<close>

theorem metadata_epoch:
  assumes "su_targets m = [d]" and "su_targets s = [d]"
    and "su_intent m = SetMetadata f v" and "su_intent s = StartRecording"
    and "submit m ob = (ob1, Inr acc1)" and "replay_of ob m = None" and "fresh m ob"
    and "submit s ob1 = (ob2, Inr acc2)" and "replay_of ob1 s = None" and "fresh s ob1"
  shows "map_option wr_epoch (write_of ob2 (hd (su_ids m))) = map_option wr_epoch (write_of ob2 (hd (su_ids s)))
    \<and> dl_epoch (log_of ob2 d) = dl_epoch (log_of ob d) + 1 \<and> dl_desired (log_of ob d) = Idle"
proof -
  have "length (su_ids m) = 1" "length (su_ids s) = 1"
    using submit_admitted(7) [OF assms(5-7)] submit_admitted(7) [OF assms(8-10)] assms(1,2) by simp_all
  then obtain i j where ids: "su_ids m = [i]" "su_ids s = [j]"
    by (metis One_nat_def length_0_conv length_Suc_conv)
  have e1: "admit (dl_desired (log_of ob d)) WriteMetadata = Inr (dl_desired (log_of ob1 d))"
      "write_of ob1 i = Some (new_record m d i (epoch_of (dl_desired (log_of ob d)) (dl_desired (log_of ob1 d)) (dl_epoch (log_of ob d))))"
      "dl_epoch (log_of ob1 d) = (if opens_recording (dl_desired (log_of ob d)) (dl_desired (log_of ob1 d))
         then dl_epoch (log_of ob d) + 1 else dl_epoch (log_of ob d))"
    using submission_row [OF assms(5-7) _ refl refl, of 0] by (simp_all add: assms(1,3) ids(1))
  have e2: "admit (dl_desired (log_of ob1 d)) Start = Inr (dl_desired (log_of ob2 d))"
      "write_of ob2 j = Some (new_record s d j (epoch_of (dl_desired (log_of ob1 d)) (dl_desired (log_of ob2 d)) (dl_epoch (log_of ob1 d))))"
      "dl_epoch (log_of ob2 d) = (if opens_recording (dl_desired (log_of ob1 d)) (dl_desired (log_of ob2 d))
         then dl_epoch (log_of ob1 d) + 1 else dl_epoch (log_of ob1 d))"
    using submission_row [OF assms(8-10) _ refl refl, of 0] by (simp_all add: assms(2,4) ids(2))
  have idle: "dl_desired (log_of ob d) = Idle" "dl_desired (log_of ob1 d) = Idle"
    using e1(1) by (simp_all add: admit_metadata_iff)
  then have rec: "dl_desired (log_of ob2 d) = Recording" using e2(1) by simp
  have "i \<noteq> j" using assms(10) e1(2) ids(2) by (auto simp: fresh_def fresh_ids_def write_of_def)
  then have "write_of ob2 i = write_of ob1 i"
    using submit_admitted(3) [OF assms(8-10), of i] ids(2) by (simp add: write_of_def)
  with e1(2,3) e2(2,3) ids idle rec show ?thesis
    by (simp add: new_record_def epoch_of_def)
qed

theorem metadata_epoch_witness:
  "let m = write_to ''i'' ''x'' (SetMetadata ''title'' ''v''); s = write_to ''j'' ''x'' StartRecording;
       ob1 = fst (submit m empty_box); ob2 = fst (submit s ob1)
   in map_option wr_epoch (write_of ob2 ''i'') = Some 1 \<and> map_option wr_epoch (write_of ob2 ''j'') = Some 1"
proof -
  let ?m = "write_to ''i'' ''x'' (SetMetadata ''title'' ''v'')" and ?s = "write_to ''j'' ''x'' StartRecording"
  let ?ob1 = "fst (submit ?m empty_box)"
  let ?ob2 = "fst (submit ?s ?ob1)"
  obtain acc1 where a: "submit ?m empty_box = (?ob1, Inr acc1)" by (simp add: example_defs)
  obtain acc2 where b: "submit ?s ?ob1 = (?ob2, Inr acc2)" by (simp add: example_defs)
  have "map_option wr_epoch (write_of ?ob2 (hd (su_ids ?m))) = map_option wr_epoch (write_of ?ob2 (hd (su_ids ?s)))"
    using metadata_epoch [OF _ _ _ _ a _ _ b, of "''x''" "''title''" "''v''"] by (simp add: example_defs)
  moreover have "map_option wr_epoch (write_of ?ob2 ''j'') = Some 1" by (simp add: example_defs)
  moreover have "hd (su_ids ?m) = ''i''" "hd (su_ids ?s) = ''j''" by (simp_all add: write_to_def)
  ultimately show ?thesis by (simp only: Let_def)
qed

text \<open>
  An idempotency key is honoured: a single write submitted with a key, submitted again with
  the same key to the same device, under any ids and with any intent, changes nothing and is
  answered with the acceptance of the first.
\<close>

theorem idempotent_replay:
  assumes "submit s ob = (ob', Inr acc)" and "replay_of ob s = None" and "fresh s ob"
    and "su_targets s = [d]" and "su_batch s = None" and "su_key s = Some key"
    and "su_targets s' = [d]" and "length (su_ids s') = 1" and "su_key s' = Some key"
  shows "submit s' ob' = (ob', Inr acc)"
proof -
  obtain i where ids: "su_ids s = [i]"
    using submit_admitted(7) [OF assms(1-3)] assms(4) by (cases "su_ids s") auto
  note eff = submit_admitted(2) [OF assms(1-3) _ refl, of 0]
  have log: "log_of ob' d = append_write s i (admission ob (su_intent s) d) (log_of ob d)"
    and rec: "map_of (ob_records ob') i = Some (new_record s d i (snd (snd (admission ob (su_intent s) d))))"
    using eff by (simp_all add: assms(4) ids)
  have key: "map_of (dl_keys (log_of ob' d)) key = Some i"
    unfolding log by (simp add: append_write_def assms(6) split: prod.split)
  then obtain l where l: "map_of (ob_logs ob') d = Some l" "map_of (dl_keys l) key = Some i"
    by (cases "map_of (ob_logs ob') d") (auto simp: log_of_def default_log_def)
  have "acc = \<lparr>acc_batch = None, acc_writes =
      [\<lparr>ac_id = i, ac_device = d, ac_epoch = snd (snd (admission ob (su_intent s) d))\<rparr>]\<rparr>"
    using assms(1)
  proof (cases rule: submit_cases [of s ob])
    case (admitted ob1 adm ob2 writes)
    then have "adm = [admission ob (su_intent s) d]"
      using admit_targets_result [of "su_intent s" "su_targets s" ob] assms(4) by (auto split: option.splits if_splits)
    with admitted assms(1,4,5) ids show ?thesis by (auto simp: Let_def)
  qed (use assms(1,2) in auto)
  then have "replay_of ob' s' = Some acc"
    using l rec by (simp add: replay_of_def assms(5,7,9) new_record_def accepted_of_def)
  with assms(7,8) show ?thesis by (simp add: submit_def)
qed

theorem idempotent_replay_witness:
  "let s = (write_to ''i'' ''x'' StartRecording)\<lparr>su_key := Some ''k''\<rparr>;
       s' = (write_to ''j'' ''x'' StopRecording)\<lparr>su_key := Some ''k''\<rparr>
   in submit s' (fst (submit s empty_box)) = submit s empty_box \<and> isl (snd (submit s' empty_box))"
proof -
  let ?s = "(write_to ''i'' ''x'' StartRecording)\<lparr>su_key := Some ''k''\<rparr>"
  let ?s' = "(write_to ''j'' ''x'' StopRecording)\<lparr>su_key := Some ''k''\<rparr>"
  obtain acc where a: "submit ?s empty_box = (fst (submit ?s empty_box), Inr acc)" by (simp add: example_defs)
  have "submit ?s' (fst (submit ?s empty_box)) = (fst (submit ?s empty_box), Inr acc)"
    by (rule idempotent_replay [OF a]) (simp_all add: example_defs)
  with a have "submit ?s' (fst (submit ?s empty_box)) = submit ?s empty_box" by simp
  moreover have "isl (snd (submit ?s' empty_box))" by (simp add: example_defs)
  ultimately show ?thesis unfolding Let_def by (rule conjI)
qed


section \<open>Claims, in order\<close>

text \<open>A waiting write is not claimed before its time, and one that is due and stands alone is.\<close>

theorem claim_due:
  assumes "reachable ch M ob" and "queue_head ob d = Some i" and "write_of ob i = Some r" and "wr_batch r = None"
  shows "claim_next ch d at ob = (if at < wr_not_before r then (ob, Inr None)
     else (fst (claim_head d at ob), Inr (Some (One (claimed at r)))))"
proof -
  have ok: "outbox_ok ob" using reachable_ok [OF assms(1)] by simp
  have "snd (claim_head d at ob) = Inr (Some (claimed at r))"
    using claim_head_result [OF ok, of d at] assms(2,3) by (simp add: write_of_def)
  then have "claim_alone d at ob = (fst (claim_head d at ob), Inr (Some (One (claimed at r))))"
    by (auto simp: claim_alone_def split: prod.split sum.split)
  with assms(2-4) show ?thesis by (simp add: claim_next_def write_of_def)
qed

lemma reachable_recording_box: "reachable tick_chrono 2 recording_box"
  unfolding recording_box_def
  by (rule reachable.step [OF reachable_empty_box], rule op_submit) (simp add: example_defs)

theorem claim_due_witness:
  "snd (claim_next tick_chrono ''x'' [] recording_box) = Inr None
     \<and> (\<exists>r. snd (claim_next tick_chrono ''x'' ''tt'' recording_box) = Inr (Some (One r)) \<and> wr_attempts r = 1)"
proof -
  obtain r where r: "queue_head recording_box ''x'' = Some ''i''" "write_of recording_box ''i'' = Some r"
      "wr_batch r = None" "wr_not_before r = ''t''" "wr_attempts r = 0"
    unfolding recording_box_def by (auto simp: example_defs)
  with claim_due [OF reachable_recording_box r(1-3)] show ?thesis by simp
qed

text \<open>
  The discipline under which claims keep the order: a call of \<open>claim_next\<close> hands out rows only
  of devices with nothing in flight. One relay loop keeps it for the rows of its own device,
  since it settles what it claimed before it claims again. It does not keep it for the other
  members of a group write it releases: \<open>is_ready_for\<close> looks at a member's queue alone.
\<close>

definition claims_idle :: "chrono \<Rightarrow> device_id \<Rightarrow> timestamp \<Rightarrow> outbox \<Rightarrow> bool" where
  "claims_idle ch d at ob \<longleftrightarrow> (\<forall>c. snd (claim_next ch d at ob) = Inr (Some c) \<longrightarrow>
     (\<forall>r \<in> set (claim_rows c). in_flight ob (wr_device r) = []))"

inductive serial_op :: "chrono \<Rightarrow> nat \<Rightarrow> outbox \<Rightarrow> outbox \<Rightarrow> bool" for ch M where
  ser_submit: "fresh s ob \<Longrightarrow> serial_op ch M ob (fst (submit s ob))"
| ser_claim: "claims_idle ch d at ob \<Longrightarrow> serial_op ch M ob (fst (claim_next ch d at ob))"
| ser_settle: "serial_op ch M ob (fst (settle ch i out at ob))"
| ser_observe: "serial_op ch M ob (observe d obs ob)"
| ser_cancel: "serial_op ch M ob (fst (cancel_queued d reason ob))"
| ser_forget: "serial_op ch M ob (fst (forget_group g ob))"
| ser_budget: "max n 1 \<le> M \<Longrightarrow> serial_op ch M ob (set_max_attempts n ob)"
| ser_backoff: "serial_op ch M ob (with_backoff n ob)"

inductive serial :: "chrono \<Rightarrow> nat \<Rightarrow> outbox \<Rightarrow> bool" for ch M where
  ser_start: "max n 1 \<le> M \<Longrightarrow> serial ch M (with_max_attempts n)"
| ser_step: "serial ch M ob \<Longrightarrow> serial_op ch M ob ob' \<Longrightarrow> serial ch M ob'"

lemma serial_op_outbox_op: "serial_op ch M ob ob' \<Longrightarrow> outbox_op ch M ob ob'"
  by (induction rule: serial_op.induct) (auto intro: outbox_op.intros)

lemma serial_reachable: "serial ch M ob \<Longrightarrow> reachable ch M ob"
  by (induction rule: serial.induct) (auto intro: reachable.intros serial_op_outbox_op)

lemma in_flight_flying:
  assumes "outbox_ok ob"
  shows "in_flight ob d = [] \<longleftrightarrow> (\<forall>j. \<not> flying (view ob) d j)"
proof (cases "map_of (ob_logs ob) d")
  case None
  then have "\<not> flying (view ob) d j" for j
    using lines_okD(4) [OF assms [unfolded outbox_ok_def], of j d]
    by (auto simp: flying_def log_of_def default_log_def)
  with None show ?thesis by (simp add: in_flight_def)
next
  case (Some log)
  then show ?thesis
    using lines_okD(4) [OF assms [unfolded outbox_ok_def], of _ d] log_of_Some [OF Some]
    by (fastforce simp: in_flight_def flying_def filter_empty_conv List.map_filter_def)
qed

lemma touched_quiet: "touched X (map_of (ob_records ob)) (map_of (ob_records ob')) \<Longrightarrow> quiet (view ob) (view ob')"
proof -
  assume t: "touched X (map_of (ob_records ob)) (map_of (ob_records ob'))"
  have "wr_attempts r' = (case map_of (ob_records ob) i of None \<Rightarrow> 0 | Some r \<Rightarrow> wr_attempts r)"
    if "map_of (ob_records ob') i = Some r'" for i r'
    using t [unfolded touched_def, THEN spec, of i] that by (auto split: option.splits)
  then show ?thesis by (simp add: quiet_def)
qed

lemma submit_quiet:
  assumes "fresh s ob"
  shows "quiet (view ob) (view (fst (submit s ob)))"
proof (cases "submit s ob")
  case (Pair ob' res)
  show ?thesis
  proof (cases "\<exists>acc. res = Inr acc \<and> replay_of ob s = None")
    case False
    then have "ob_records ob' = ob_records ob"
      using Pair submit_refused [of s ob ob'] submit_replayed [of s ob ob'] by (cases res) auto
    with Pair show ?thesis by (auto simp: quiet_def)
  next
    case True
    then obtain acc where sub: "submit s ob = (ob', Inr acc)" "replay_of ob s = None" using Pair by auto
    have "wr_attempts r' = (case map_of (ob_records ob) i of None \<Rightarrow> 0 | Some r \<Rightarrow> wr_attempts r)"
      if "map_of (ob_records ob') i = Some r'" for i r'
      using that submit_row [OF sub assms, of i] submit_admitted(3) [OF sub assms, of i] assms
      by (cases "i \<in> set (su_ids s)") (auto simp: new_record_def fresh_def fresh_ids_def)
    with Pair show ?thesis by (simp add: quiet_def)
  qed
qed

lemma settle_quiet: "quiet (view ob) (view (fst (settle ch i out at ob)))"
proof (cases "\<exists>r. map_of (ob_records ob) i = Some r \<and> wr_status r = InFlight")
  case False
  then have "fst (settle ch i out at ob) = ob" by (auto simp: settle_def split: option.split)
  then show ?thesis by (simp add: quiet_def)
next
  case True
  then obtain r where r: "map_of (ob_records ob) i = Some r" "wr_status r = InFlight" by blast
  then show ?thesis
    by (rule settle_effect [of ob i r ch out at]) (use r in \<open>auto simp: quiet_def split: option.splits\<close>)
qed

text \<open>Claiming the head of an idle device keeps the order, and touches no other device.\<close>

lemma claim_head_fifo:
  assumes ok: "outbox_ok ob" and ff: "fifo (view ob)" and idle: "\<And>j. \<not> flying (view ob) d j"
  shows "fifo (view (fst (claim_head d at ob)))"
  using ok
proof (cases rule: claim_head_cases [of ob d at])
  case none
  with ff show ?thesis by simp
next
  case (claimed i q r r')
  have step: "line_step 0 (view ob) (view (fst (claim_head d at ob)))"
    unfolding claimed(9) by (rule line_step.claim) (use claimed in simp_all)
  have "orderly (view ob) (view (fst (claim_head d at ob)))"
    using idle claimed(2-7) unfolding claimed(9)
    by (auto simp: orderly_def flying_def same_write_def split: if_splits)
  with fifo_step [OF step] ok ff show ?thesis by (simp add: outbox_ok_def)
qed

lemma claim_head_flying:
  assumes "outbox_ok ob" and "d' \<noteq> d"
  shows "flying (view (fst (claim_head d at ob))) d' j \<longleftrightarrow> flying (view ob) d' j"
  using assms(1)
proof (cases rule: claim_head_cases [of ob d at])
  case (claimed i q r r')
  then show ?thesis
    using assms(2) unfolding claimed(9) by (auto simp: flying_def same_write_def)
qed simp

lemma claim_members_fifo:
  "outbox_ok ob \<Longrightarrow> fifo (view ob) \<Longrightarrow> distinct ds \<Longrightarrow> \<forall>m \<in> set ds. \<forall>j. \<not> flying (view ob) m j \<Longrightarrow>
     fifo (view (fst (claim_members ds at ob)))"
proof (induction ds arbitrary: ob)
  case (Cons d ds)
  let ?ob = "fst (claim_head d at ob)"
  have ff: "fifo (view ?ob)" using Cons.prems by (intro claim_head_fifo) simp_all
  have "\<not> flying (view ?ob) m j" if "m \<in> set ds" for m j
    using claim_head_flying [OF Cons.prems(1), of m d at j] Cons.prems(3,4) that by auto
  with ff Cons.IH [OF claims.take_ok [OF Cons.prems(1)]] Cons.prems(3)
  have "fifo (view (fst (claim_members ds at ?ob)))" by auto
  with ff show ?case by (simp only: claim_members_fst) (simp split: sum.split)
qed simp

text \<open>What a claim hands out: the heads of the lines of the devices it names.\<close>

lemma step_batch_alone:
  "snd (step_batch ch b d at ob) = Alone \<Longrightarrow> fst (step_batch ch b d at ob) = ob"
  by (cases rule: step_batch_cases [of ob b ch d at]) auto

lemma claim_alone_result:
  assumes ok: "outbox_ok ob" and i: "queue_head ob d = Some i" "map_of (ob_records ob) i = Some r"
  shows "snd (claim_alone d at ob) = Inr (Some (One (claimed at r)))" and "wr_device r = d"
    and "fst (claim_alone d at ob) = fst (claim_head d at ob)"
proof -
  show "snd (claim_alone d at ob) = Inr (Some (One (claimed at r)))"
    using claim_head_result [OF ok, of d at] i by (auto simp: claim_alone_def split: prod.split sum.split)
  have "i \<in> set (lv_queue (view ob) d)" using i(1) by (auto simp: queue_head_log split: list.splits)
  then show "wr_device r = d"
    using queue_unique [OF ok [unfolded outbox_ok_def], of i d r] i(2) by simp
  show "fst (claim_alone d at ob) = fst (claim_head d at ob)"
    by (simp add: claim_alone_def split: prod.split sum.split)
qed

lemma release_rows:
  assumes ok: "outbox_ok ob" and bs: "batches_ok ob"
    and c: "claim_next ch d at ob = (ob', Inr (Some (Batch b rs)))"
  obtains members B where "distinct members" "ob' = fst (claim_members members at (ob\<lparr>ob_batches := B\<rparr>))"
    "map wr_device rs = members"
    "\<And>r. r \<in> set rs \<Longrightarrow> \<exists>i s. queue_head ob (wr_device r) = Some i \<and> map_of (ob_records ob) i = Some s
       \<and> r = claimed at s"
proof -
  obtain ba members where ba: "map_of (ob_batches ob) b = Some ba" "ba_gate ba = Waiting"
      "members = filter (is_ready_for ob b at) (ba_members ba)"
      and cl: "claim_members members at
         (ob\<lparr>ob_batches := oput b (ba\<lparr>ba_ready := members, ba_gate := Open\<rparr>) (ob_batches ob)\<rparr>) = (ob', Inr rs)"
    using batch_claimE [OF ok c] by metis
  note ready = waiting_ready_row [OF ok bs ba(1,2), of _ at, folded ba(3)]
  have dist: "distinct members" using batches_okD(3) [OF bs ba(1)] ba(3) by simp
  have rs: "rs = map (\<lambda>d. claimed at (the (map_of (ob_records ob) (the (queue_head ob d))))) members"
    using claim_members_rows [OF _ dist cl] ok ready by fastforce
  have "map wr_device rs = members"
    unfolding rs map_map by (rule map_idI) (use ready in fastforce)
  moreover have "\<exists>i s. queue_head ob (wr_device r) = Some i \<and> map_of (ob_records ob) i = Some s \<and> r = claimed at s"
    if r: "r \<in> set rs" for r
  proof -
    obtain m where "m \<in> set members" "r = claimed at (the (map_of (ob_records ob) (the (queue_head ob m))))"
      using r unfolding rs by auto
    with ready [of m] show ?thesis by auto
  qed
  ultimately show ?thesis using that [OF dist] cl by (metis fst_conv)
qed

lemma claimed_rows:
  assumes ok: "outbox_ok ob" and bs: "batches_ok ob"
    and c: "claim_next ch d at ob = (ob', Inr (Some c))" and r: "r \<in> set (claim_rows c)"
  shows "\<exists>i s. queue_head ob (wr_device r) = Some i \<and> map_of (ob_records ob) i = Some s \<and> r = claimed at s"
proof (cases c)
  case (One x)
  then have res: "snd (claim_next ch d at ob) = Inr (Some (One x))" using c by simp
  have "\<exists>i s. queue_head ob d = Some i \<and> map_of (ob_records ob) i = Some s \<and> x = claimed at s \<and> wr_device s = d"
    using ok
  proof (cases rule: claim_next_cases [of ob ch d at])
    case (alone i s)
    then show ?thesis
      using claim_alone_result(1) [OF ok alone(1,2), of at] claim_alone_result(2) [OF ok alone(1,2)] alone res by auto
  next
    case (straggler i s b)
    then show ?thesis
      using claim_alone_result(1) [OF ok straggler(1,2), of at] claim_alone_result(2) [OF ok straggler(1,2)]
        straggler res step_batch_alone [OF straggler(4)] by auto
  qed (use c One in simp_all)
  with One r show ?thesis by auto
next
  case (Batch b rs)
  then show ?thesis
    using release_rows [OF ok bs, of ch d at ob' b rs] c r by auto
qed

lemma fail_members_quiet:
  assumes "outbox_ok ob" and "distinct ds"
  shows "quiet (view ob) (view (fail_members ds at ob))"
  by (auto simp: quiet_def fail_members_effect(3) [OF assms] split: if_splits option.splits)

lemma claim_fifo:
  assumes ok: "outbox_ok ob" and bs: "batches_ok ob" and ff: "fifo (view ob)" and idle: "claims_idle ch d at ob"
  shows "fifo (view (fst (claim_next ch d at ob)))"
  using ok
proof (cases rule: claim_next_cases [of ob ch d at])
  case (alone i r)
  note a = claim_alone_result [OF ok alone(1,2)]
  have "in_flight ob d = []" using idle a(1,2) alone(4) unfolding claims_idle_def by auto
  then show ?thesis
    using claim_head_fifo [OF ok ff] a(3) alone(4) in_flight_flying [OF ok] by simp
next
  case (straggler i r b)
  note a = claim_alone_result [OF ok straggler(1,2)]
  have eq: "claim_next ch d at ob = claim_alone d at ob"
    using straggler(5) step_batch_alone [OF straggler(4)] by simp
  have "in_flight ob d = []" using idle a(1,2) eq unfolding claims_idle_def by auto
  then show ?thesis
    using claim_head_fifo [OF ok ff] a(3) eq in_flight_flying [OF ok] by simp
next
  case (release i r b members rs)
  let ?ob' = "fst (claim_next ch d at ob)"
  have eq: "claim_next ch d at ob = (?ob', Inr (Some (Batch b rs)))" using release(6) by simp
  obtain mem B where m: "distinct mem" "?ob' = fst (claim_members mem at (ob\<lparr>ob_batches := B\<rparr>))"
      "map wr_device rs = mem"
    using release_rows [OF ok bs eq] by metis
  have "\<forall>r \<in> set rs. in_flight ob (wr_device r) = []"
    using idle eq unfolding claims_idle_def by (metis claim_rows.simps(2) snd_conv)
  then have "\<forall>d \<in> set mem. \<forall>j. \<not> flying (view ob) d j"
    unfolding m(3) [symmetric] using in_flight_flying [OF ok] by auto
  then have "fifo (view (fst (claim_members mem at (ob\<lparr>ob_batches := B\<rparr>))))"
    by (intro claim_members_fifo) (use ok ff m(1) in simp_all)
  with m(2) show ?thesis by simp
next
  case (expired i r b members)
  let ?ob1 = "fst (step_batch ch b d at ob)"
  have ok1: "outbox_ok ?ob1" using ok by (simp add: outbox_ok_def)
  have "distinct members"
    using expired(4) batches_okD(3) [OF bs] by (cases rule: step_batch_cases [of ob b ch d at]) auto
  have "quiet (view ?ob1) (view (fail_members members at ?ob1))"
    by (rule fail_members_quiet [OF ok1 \<open>distinct members\<close>])
  with fifo_quiet [OF fail_members_steps [OF ok1]] ok1 ff expired(5) show ?thesis
    by (auto simp: outbox_ok_def)
qed (use ff in simp_all)

lemma serial_fifo: "serial ch M ob \<Longrightarrow> fifo (view ob)"
proof (induction rule: serial.induct)
  case (ser_start n)
  show ?case
    by (simp add: fifo_def flying_def with_max_attempts_def log_of_def default_log_def)
next
  case (ser_step ob ob')
  have ok: "outbox_ok ob" "ob_max_attempts ob \<le> M" and bs: "batches_ok ob"
    using reachable_ok [OF serial_reachable [OF ser_step(1)]]
      reachable_batches_ok [OF serial_reachable [OF ser_step(1)]] by simp_all
  have steps: "line_steps M (view ob) (view ob')"
    using outbox_op_steps [OF serial_op_outbox_op [OF ser_step(2)] ok] by blast
  have quiet: "quiet (view ob) (view ob') \<Longrightarrow> fifo (view ob')"
    using fifo_quiet [OF steps] ok(1) ser_step(3) by (simp add: outbox_ok_def)
  from ser_step(2) show ?case
  proof cases
    case (ser_submit s)
    then show ?thesis using quiet submit_quiet by simp
  next
    case (ser_claim d at)
    then show ?thesis using claim_fifo [OF ok(1) bs] ser_step(3) by simp
  next
    case (ser_settle i out at)
    then show ?thesis using quiet settle_quiet by simp
  next
    case (ser_cancel d reason)
    then show ?thesis using quiet touched_quiet cancel_queued_touched by blast
  qed (use ser_step(3) in \<open>simp_all add: set_max_attempts_def with_backoff_def forget_group_def\<close>)
qed

text \<open>
  C18. Writes of a device leave in the order they were submitted, single and batched ones alike:
  in a history in which rows are only ever handed out for devices with nothing in flight
  (\<open>serial\<close>), a claim that does so hands out, for every device it names, a write before which
  every write ever submitted to that device has settled, retries included. A history in which a
  group write was released to a member while an earlier write of that member was in flight is
  outside: there the earlier write may be retried after the later one.
\<close>

theorem claims_in_submission_order:
  assumes "serial ch M ob" and "claim_next ch d at ob = (ob', Inr (Some c))"
    and "\<forall>r \<in> set (claim_rows c). in_flight ob (wr_device r) = []"
  shows "\<forall>r \<in> set (claim_rows c). \<exists>older newer. dl_history (log_of ob (wr_device r)) = older @ wr_id r # newer
    \<and> (\<forall>j \<in> set older. \<exists>s. write_of ob j = Some s \<and> settled (wr_status s))"
proof
  fix r assume r: "r \<in> set (claim_rows c)"
  let ?d = "wr_device r"
  have ok: "outbox_ok ob" and bs: "batches_ok ob"
    using reachable_ok [OF serial_reachable [OF assms(1)]]
      reachable_batches_ok [OF serial_reachable [OF assms(1)]] by simp_all
  have ff: "fifo (view ob)" using serial_fifo [OF assms(1)] .
  obtain i s where i: "queue_head ob ?d = Some i" "map_of (ob_records ob) i = Some s" "r = claimed at s"
    using claimed_rows [OF ok bs assms(2) r] by blast
  obtain q where q: "lv_queue (view ob) ?d = i # q"
    using i(1) by (auto simp: queue_head_log split: list.splits)
  then have "i \<in> set (lv_history (view ob) ?d)"
    using fifoD(1) [OF ff, of ?d] subseq_set by fastforce
  then obtain older newer where h: "lv_history (view ob) ?d = older @ i # newer"
    by (meson split_list)
  have "wr_id r = i" using lines_okD(1) [OF ok [unfolded outbox_ok_def], of i s] i(2,3) by simp
  moreover have "\<exists>s. write_of ob j = Some s \<and> settled (wr_status s)" if "j \<in> set older" for j
    using front_oldest [OF ok [unfolded outbox_ok_def] ff q _ h that] assms(3) r
    unfolding in_flight_flying [OF ok] by (auto simp: write_of_def)
  ultimately show "\<exists>older newer. dl_history (log_of ob ?d) = older @ wr_id r # newer
      \<and> (\<forall>j \<in> set older. \<exists>s. write_of ob j = Some s \<and> settled (wr_status s))"
    using h by (intro exI [of _ older] exI [of _ newer]) simp
qed

text \<open>A group start behind a setting that has been written on one member.\<close>

definition behind_box :: outbox where
  "behind_box =
     (let ob1 = fst (submit (write_to ''h'' ''x'' (SetMetadata ''title'' ''v'')) empty_box);
          ob2 = fst (submit (group_write FailBatch ''b'' [''i'', ''j''] [''x'', ''y''] StartRecording) ob1);
          ob3 = fst (claim_next tick_chrono ''x'' ''tt'' ob2)
      in fst (settle tick_chrono ''h'' (OSucceeded (Flag True)) ''tt'' ob3))"

lemma serial_behind_box: "serial tick_chrono 2 behind_box"
proof -
  have "serial tick_chrono 2 (with_max_attempts 2)" by (rule ser_start) simp
  then have start: "serial tick_chrono 2 empty_box" unfolding empty_box_def by (rule ser_step) (rule ser_backoff)
  show ?thesis
    unfolding behind_box_def Let_def
    by (rule ser_step [OF _ ser_settle], rule ser_step [OF _ ser_claim], rule ser_step [OF _ ser_submit],
        rule ser_step [OF start ser_submit])
       (simp_all add: example_defs claims_idle_def in_flight_def map_filter_simps)
qed

theorem claims_in_submission_order_witness:
  "\<exists>rs. snd (claim_next tick_chrono ''y'' ''tt'' behind_box) = Inr (Some (Batch ''b'' rs))
     \<and> map wr_id rs = [''i'', ''j''] \<and> map wr_device rs = [''x'', ''y'']
     \<and> dl_history (log_of behind_box ''x'') = [''h'', ''i'']
     \<and> (\<exists>s. write_of behind_box ''h'' = Some s \<and> settled (wr_status s))"
proof -
  obtain ob' rs where c: "claim_next tick_chrono ''y'' ''tt'' behind_box = (ob', Inr (Some (Batch ''b'' rs)))"
      "map wr_id rs = [''i'', ''j'']" "map wr_device rs = [''x'', ''y'']"
    unfolding behind_box_def by (auto simp: example_defs)
  have idle: "in_flight behind_box ''x'' = []" "in_flight behind_box ''y'' = []"
      and h: "dl_history (log_of behind_box ''x'') = [''h'', ''i'']"
    unfolding behind_box_def by (simp_all add: example_defs in_flight_def map_filter_simps)
  obtain r where r: "r \<in> set rs" "wr_device r = ''x''" "wr_id r = ''i''" and "\<forall>r \<in> set rs. wr_device r \<in> {''x'', ''y''}"
    using c(2,3) by (cases rs; cases "tl rs") auto
  then have "\<forall>r \<in> set (claim_rows (Batch ''b'' rs)). in_flight behind_box (wr_device r) = []"
    using idle by auto
  then obtain older newer where o: "dl_history (log_of behind_box ''x'') = older @ ''i'' # newer"
      "\<forall>j \<in> set older. \<exists>s. write_of behind_box j = Some s \<and> settled (wr_status s)"
    using claims_in_submission_order [OF serial_behind_box c(1)] r by (metis claim_rows.simps(2))
  then have "''h'' \<in> set older" using h by (cases older) auto
  with o(2) c h show ?thesis by (intro exI [of _ rs]) simp
qed

section \<open>Settlement\<close>

lemma settle_logs:
  assumes "map_of (ob_records ob) i = Some r" and "wr_status r = InFlight"
  shows "log_of (fst (settle ch i out at ob)) = (log_of ob)(wr_device r := (case out of
      OSucceeded v \<Rightarrow> log_of ob (wr_device r)
    | OFailed reason \<Rightarrow> if wr_attempts r < ob_max_attempts ob
        then (log_of ob (wr_device r))\<lparr>dl_queue := i # dl_queue (log_of ob (wr_device r))\<rparr>
        else (log_of ob (wr_device r))\<lparr>dl_desired :=
               rollback (dl_desired (log_of ob (wr_device r))) (verb_of (wr_intent r))\<rparr>))"
  using assms by (auto simp: settle_def Let_def log_of_def fun_eq_iff split: outcome.split)

lemma settle_result:
  assumes "settle ch i out at ob = (ob', res)"
  shows "case write_of ob i of
      None \<Rightarrow> ob' = ob \<and> isl res
    | Some r \<Rightarrow>
        if wr_status r \<noteq> InFlight then ob' = ob \<and> isl res
        else res = Inr () \<and> (\<forall>j. j \<noteq> i \<longrightarrow> write_of ob' j = write_of ob j)
          \<and> (\<forall>d'. d' \<noteq> wr_device r \<longrightarrow> log_of ob' d' = log_of ob d')
          \<and> (case out of
               OSucceeded v \<Rightarrow> write_of ob' i = Some (r\<lparr>wr_status := Succeeded v, wr_updated_at := at\<rparr>)
                 \<and> log_of ob' (wr_device r) = log_of ob (wr_device r)
             | OFailed reason \<Rightarrow>
                 if wr_attempts r < ob_max_attempts ob then
                   write_of ob' i = Some (r\<lparr>wr_status := Pending,
                     wr_not_before := delay_from ch at (ob_backoff ob * wr_attempts r), wr_updated_at := at\<rparr>)
                   \<and> dl_queue (log_of ob' (wr_device r)) = i # dl_queue (log_of ob (wr_device r))
                   \<and> dl_desired (log_of ob' (wr_device r)) = dl_desired (log_of ob (wr_device r))
                 else
                   write_of ob' i = Some (r\<lparr>wr_status := Failed reason, wr_updated_at := at\<rparr>)
                   \<and> dl_queue (log_of ob' (wr_device r)) = dl_queue (log_of ob (wr_device r))
                   \<and> dl_desired (log_of ob' (wr_device r))
                       = rollback (dl_desired (log_of ob (wr_device r))) (verb_of (wr_intent r)))"
proof (cases "write_of ob i")
  case None
  with assms show ?thesis by (auto simp: settle_def write_of_def)
next
  case (Some r)
  show ?thesis
  proof (cases "wr_status r = InFlight")
    case False
    with Some assms show ?thesis by (auto simp: settle_def write_of_def)
  next
    case True
    have ob': "ob' = fst (settle ch i out at ob)" using assms by simp
    have "map_of (ob_records ob') = (map_of (ob_records ob))(i \<mapsto> (case out of
        OSucceeded v \<Rightarrow> r\<lparr>wr_status := Succeeded v, wr_updated_at := at\<rparr>
      | OFailed reason \<Rightarrow> if wr_attempts r < ob_max_attempts ob then retry_record ch at ob r
          else r\<lparr>wr_status := Failed reason, wr_updated_at := at\<rparr>))"
      unfolding ob' using Some True by (simp add: settle_def Let_def write_of_def split: outcome.split)
    moreover have "res = Inr ()"
      using assms Some True by (auto simp: settle_def Let_def write_of_def split: outcome.splits if_splits)
    moreover note settle_logs [of ob i r ch out at, folded ob']
    ultimately show ?thesis
      using Some True by (simp add: write_of_def retry_record_def split: outcome.split)
  qed
qed

text \<open>
  Settling a write: unknown or not in flight, it is an error and nothing changes. Otherwise a
  success records the value; a failure with an attempt left puts the write back at the front of
  its device's queue, pending, with a delay of the backoff times the attempts made; a failure
  without one is recorded and rolls the desired state back. No other record, and no other
  device's log, is touched.
\<close>

theorem settle_outcomes:
  assumes "settle ch i out at ob = (ob', res)"
  shows "case write_of ob i of
      None \<Rightarrow> ob' = ob \<and> isl res
    | Some r \<Rightarrow>
        if wr_status r \<noteq> InFlight then ob' = ob \<and> isl res
        else res = Inr () \<and> (\<forall>j. j \<noteq> i \<longrightarrow> write_of ob' j = write_of ob j)
          \<and> (\<forall>d'. d' \<noteq> wr_device r \<longrightarrow> log_of ob' d' = log_of ob d')
          \<and> (case out of
               OSucceeded v \<Rightarrow> write_of ob' i = Some (r\<lparr>wr_status := Succeeded v, wr_updated_at := at\<rparr>)
                 \<and> log_of ob' (wr_device r) = log_of ob (wr_device r)
             | OFailed reason \<Rightarrow>
                 if wr_attempts r < ob_max_attempts ob then
                   write_of ob' i = Some (r\<lparr>wr_status := Pending,
                     wr_not_before := delay_from ch at (ob_backoff ob * wr_attempts r), wr_updated_at := at\<rparr>)
                   \<and> dl_queue (log_of ob' (wr_device r)) = i # dl_queue (log_of ob (wr_device r))
                   \<and> dl_desired (log_of ob' (wr_device r)) = dl_desired (log_of ob (wr_device r))
                 else
                   write_of ob' i = Some (r\<lparr>wr_status := Failed reason, wr_updated_at := at\<rparr>)
                   \<and> dl_queue (log_of ob' (wr_device r)) = dl_queue (log_of ob (wr_device r))
                   \<and> dl_desired (log_of ob' (wr_device r))
                       = rollback (dl_desired (log_of ob (wr_device r))) (verb_of (wr_intent r)))"
  using assms by (rule settle_result)

theorem settle_outcomes_witness:
  "\<exists>ob'. settle tick_chrono ''i'' (OFailed ''no route'') ''ttt'' released_box = (ob', Inr ())
     \<and> dl_queue (log_of ob' ''x'') = [''i''] \<and> (\<exists>r. write_of ob' ''i'' = Some r \<and> wr_status r = Pending)"
proof -
  obtain ob' where ob': "settle tick_chrono ''i'' (OFailed ''no route'') ''ttt'' released_box = (ob', Inr ())"
    unfolding released_box_def armed_box_def by (simp add: example_defs)
  obtain r where r: "write_of released_box ''i'' = Some r" "wr_status r = InFlight" "wr_device r = ''x''"
      "wr_attempts r < ob_max_attempts released_box" "dl_queue (log_of released_box ''x'') = []"
    unfolding released_box_def armed_box_def by (auto simp: example_defs)
  with settle_outcomes [OF ob'] ob' show ?thesis by simp
qed

text \<open>
  What a terminal failure undoes: a start from idle, a pause or a stop of a running recording
  that never reached the device leaves the desired state as it was before, so a start that fails
  for good does not keep the device's metadata frozen.
\<close>

theorem rollback_undoes_admission:
  "admit pre v = Inr post \<Longrightarrow> pre \<noteq> Paused \<Longrightarrow> rollback post v = pre"
  by (cases pre; cases v) auto

theorem rollback_undoes_admission_witness:
  "admit Idle Start = Inr Recording \<and> rollback Recording Start = Idle"
  using rollback_undoes_admission [of Idle Start Recording] by simp


section \<open>Leaving the fleet\<close>

lemma cancel_rows_keeps:
  "map_of recs i = Some r \<Longrightarrow> wr_status r \<noteq> Pending \<Longrightarrow> map_of (fst (cancel_rows reason is recs)) i = Some r"
proof (induction "is" arbitrary: recs)
  case (Cons j "is")
  show ?case
  proof (cases "\<exists>s. map_of recs j = Some s \<and> wr_status s = Pending")
    case True
    then obtain s where s: "map_of recs j = Some s" "wr_status s = Pending" by blast
    then have "map_of (fst (cancel_rows reason is (oput j (canceled_together reason s) recs))) i = Some r"
      using Cons.prems by (intro Cons.IH) auto
    with s show ?thesis by (auto split: prod.split)
  next
    case False
    with Cons show ?thesis by (auto split: option.split)
  qed
qed simp

text \<open>What cancelling a batch leaves alone: rows that do not wait, empty lines, desired states.\<close>

definition spares :: "outbox \<Rightarrow> outbox \<Rightarrow> bool" where
  "spares ob ob' \<longleftrightarrow>
     (\<forall>i r. map_of (ob_records ob) i = Some r \<longrightarrow> wr_status r \<noteq> Pending \<longrightarrow> map_of (ob_records ob') i = Some r)
     \<and> (\<forall>d. dl_queue (log_of ob d) = [] \<longrightarrow> dl_queue (log_of ob' d) = [])
     \<and> (\<forall>d. dl_desired (log_of ob' d) = dl_desired (log_of ob d))"

lemma spares_refl [simp]: "spares ob ob"
  by (simp add: spares_def)

lemma spares_trans: "spares ob ob1 \<Longrightarrow> spares ob1 ob2 \<Longrightarrow> spares ob ob2"
  by (simp add: spares_def)

lemma cancel_members_spares: "spares ob (fst (cancel_members b reason ds ob))"
proof (induction ds arbitrary: ob)
  case (Cons d ds)
  show ?case
  proof (cases "map_of (ob_logs ob) d")
    case None
    with Cons show ?thesis by (simp only: cancel_members_fst) simp
  next
    case (Some log)
    let ?ob = "ob\<lparr>ob_logs := oput d (log\<lparr>dl_queue := filter (\<lambda>i. \<not> of_batch ob b i) (dl_queue log)\<rparr>) (ob_logs ob),
      ob_records := fst (cancel_rows reason (filter (of_batch ob b) (dl_queue log)) (ob_records ob))\<rparr>"
    have "spares ob ?ob"
      using log_of_Some [OF Some] by (auto simp: spares_def cancel_rows_keeps)
    from spares_trans [OF this Cons.IH] Some show ?thesis by (simp only: cancel_members_fst) simp
  qed
qed simp

lemma cancel_batches_spares: "spares ob (fst (cancel_batches reason bs ob))"
proof (induction bs arbitrary: ob)
  case (Cons b bs)
  have "spares ob (fst (cancel_batch b reason ob))"
    using cancel_members_spares [of "ob\<lparr>ob_batches := odel b (ob_batches ob)\<rparr>" b reason]
    by (auto simp: cancel_batch_def spares_def split: option.split)
  from spares_trans [OF this Cons.IH] show ?case by (simp only: cancel_batches_fst)
qed simp

text \<open>
  Cancelling a device's queue empties it and marks every write that stood in it cancelled with
  the reason given. Only pending writes are touched: whatever is in flight or settled, on any
  device, stays as it is. The batches those writes belonged to are forgotten.
\<close>

theorem cancel_queued_effect:
  fixes reason :: string
  assumes "reachable ch M ob" and "i \<in> set (dl_queue (log_of ob d))" and "write_of ob i = Some r"
  defines "ob' \<equiv> fst (cancel_queued d reason ob)"
  shows "dl_queue (log_of ob' d) = []
    \<and> write_of ob' i = Some (r\<lparr>wr_status := Canceled reason\<rparr>)
    \<and> (\<forall>j s. write_of ob j = Some s \<longrightarrow> wr_status s \<noteq> Pending \<longrightarrow> write_of ob' j = Some s)
    \<and> (\<forall>b. wr_batch r = Some b \<longrightarrow> map_of (ob_batches ob') b = None)"
proof -
  have ok: "outbox_ok ob" using reachable_ok [OF assms(1)] by simp
  obtain log where log: "map_of (ob_logs ob) d = Some log" "i \<in> set (dl_queue log)"
    using assms(2) by (cases "map_of (ob_logs ob) d") (auto simp: log_of_def default_log_def)
  obtain recs doomed n where own: "cancel_own reason (dl_queue log) (ob_records ob) = (recs, doomed, n)"
    using prod_cases3 by blast
  let ?ob1 = "ob\<lparr>ob_logs := oput d (log\<lparr>dl_queue := []\<rparr>) (ob_logs ob), ob_records := recs\<rparr>"
  have ob': "ob' = fst (cancel_batches reason (oset doomed) ?ob1)"
    unfolding ob'_def using log own by (simp add: cancel_queued_fst)
  note view = cancel_own_steps(1) [OF ok log(1) own]
  have recs: "map_of recs j = (if j \<in> set (dl_queue log) then map_option (canceled reason) (map_of (ob_records ob) j)
      else map_of (ob_records ob) j)" for j
    using arg_cong [OF view, of "\<lambda>v. lv_records v j"] by (simp add: drop_rows_def)
  have sp: "spares ?ob1 ob'" unfolding ob' by (rule cancel_batches_spares)
  have "write_of ob' i = Some (canceled reason r)"
    using sp recs [of i] log(2) assms(3) unfolding spares_def by (simp add: write_of_def)
  moreover have "dl_queue (log_of ob' d) = []"
    using sp unfolding spares_def by simp
  moreover have "write_of ob' j = Some s" if "write_of ob j = Some s" "wr_status s \<noteq> Pending" for j s
  proof -
    have "j \<notin> set (dl_queue log)"
      using not_pending_not_queued [OF ok [unfolded outbox_ok_def], of j s d] that log_of_Some [OF log(1)]
      by (simp add: write_of_def)
    with sp recs [of j] that show ?thesis unfolding spares_def by (simp add: write_of_def)
  qed
  moreover have "map_of (ob_batches ob') b = None" if "wr_batch r = Some b" for b
  proof -
    have "touched (insert None (Some ` set doomed)) (map_of (ob_records ob)) (map_of recs)"
      using cancel_own_touched [of reason "dl_queue log" "ob_records ob"] own by simp
    then obtain r' where "map_of recs i = Some r'" "wr_batch r \<notin> insert None (Some ` set doomed) \<longrightarrow> r' = r"
      using assms(3) unfolding touched_def write_of_def
      by (elim allE [of _ i]) (auto split: option.splits)
    moreover have "canceled reason r \<noteq> r"
      using queue_unique [OF ok [unfolded outbox_ok_def], of i d r] assms(2,3)
      by (cases r) (simp add: write_of_def)
    ultimately have "wr_batch r \<in> insert None (Some ` set doomed)"
      using recs [of i] log(2) assms(3) by (auto simp: write_of_def)
    with that cancel_batches_touched [of "oset doomed" ?ob1 reason] show ?thesis unfolding ob' by auto
  qed
  ultimately show ?thesis by blast
qed

theorem cancel_queued_effect_witness:
  "\<exists>r. write_of armed_box ''i'' = Some r
     \<and> write_of (fst (cancel_queued ''x'' ''gone'' armed_box)) ''i'' = Some (r\<lparr>wr_status := Canceled ''gone''\<rparr>)"
proof -
  obtain r where r: "write_of armed_box ''i'' = Some r" and q: "''i'' \<in> set (dl_queue (log_of armed_box ''x''))"
    unfolding armed_box_def by (auto simp: example_defs)
  with cancel_queued_effect [OF reachable_armed_box q r] show ?thesis by blast
qed

section \<open>Where the code and its comments part\<close>

definition cancelled_box :: outbox where
  "cancelled_box = fst (cancel_queued ''x'' ''gone'' armed_box)"

text \<open>
  Cancelling does not roll a desired state back. A device that survives, and whose pending
  start is cancelled because a group sibling left, is left desired to record although nothing
  waits or flies for it, and refuses its metadata as frozen; a start that fails instead of being
  cancelled rolls back.
\<close>

theorem cancel_leaves_metadata_frozen:
  "reachable tick_chrono 2 cancelled_box
     \<and> map_option wr_status (write_of cancelled_box ''j'')
         = Some (Canceled ''gone (this write's device group could not act together)'')
     \<and> dl_queue (log_of cancelled_box ''y'') = [] \<and> in_flight cancelled_box ''y'' = []
     \<and> desired_state_of cancelled_box ''y'' = (Recording, 1)
     \<and> snd (submit (write_to ''k'' ''y'' (SetMetadata ''title'' ''v'')) cancelled_box)
         = Inl (Rejected ''y'' MetadataFrozen Recording)"
proof (intro conjI)
  show "reachable tick_chrono 2 cancelled_box"
    unfolding cancelled_box_def by (rule reachable.step [OF reachable_armed_box]) (rule op_cancel)
qed (simp_all add: cancelled_box_def armed_box_def example_defs in_flight_def map_filter_simps)

text \<open>
  A waiting write that nothing moves bars its line: what stands behind it, and what joins later,
  is never claimed. \<open>B\<close> is what may not pass, \<open>base\<close> the attempts it had.
\<close>

definition barred :: "device_id \<Rightarrow> write_id \<Rightarrow> write_id set \<Rightarrow> (write_id \<Rightarrow> nat) \<Rightarrow> line_view \<Rightarrow> bool" where
  "barred d i B base v \<longleftrightarrow> (\<exists>pre post. lv_queue v d = pre @ i # post \<and> set pre \<inter> B = {})
     \<and> (\<forall>j \<in> B. \<forall>s. lv_records v j = Some s \<longrightarrow> wr_device s = d \<longrightarrow>
          wr_attempts s = base j \<and> wr_status s \<noteq> InFlight)
     \<and> (\<forall>j. lv_records v j = None \<longrightarrow> base j = 0)"

lemma barredI:
  "lv_queue w d = pre @ i # post \<Longrightarrow> set pre \<inter> B = {} \<Longrightarrow>
   (\<And>j s. j \<in> B \<Longrightarrow> lv_records w j = Some s \<Longrightarrow> wr_device s = d \<Longrightarrow> wr_attempts s = base j \<and> wr_status s \<noteq> InFlight) \<Longrightarrow>
   (\<And>j. lv_records w j = None \<Longrightarrow> base j = 0) \<Longrightarrow> barred d i B base w"
  unfolding barred_def by blast

lemma barred_step:
  assumes "line_step M v w" and ok: "lines_ok v" and bar: "barred d i B base v"
    and r: "lv_records v i = Some r" "wr_status r = Pending" "lv_records w i = Some r"
  shows "barred d i B base w"
proof -
  obtain pre post where q: "lv_queue v d = pre @ i # post" "set pre \<inter> B = {}"
    using bar by (auto simp: barred_def)
  have att: "wr_attempts s = base j \<and> wr_status s \<noteq> InFlight"
    if "j \<in> B" "lv_records v j = Some s" "wr_device s = d" for j s
    using bar that by (simp add: barred_def)
  have zero: "base j = 0" if "lv_records v j = None" for j
    using bar that by (simp add: barred_def)
  from assms(1) show ?thesis
  proof cases
    case (admit j s d')
    show ?thesis
      by (rule barredI [of _ _ pre _ "post @ (if d' = d then [j] else [])"])
         (use admit q att zero in \<open>auto split: if_splits\<close>)
  next
    case (claim j s d' l s')
    have dev: "wr_device s = d'" using queue_unique [OF ok _ claim(2), of d'] claim(3) by simp
    have "j \<noteq> i" using claim r by auto
    with q claim(3) have pre: "d' = d \<Longrightarrow> j \<notin> B \<and> pre = j # tl pre" by (cases pre) auto
    have queue: "lv_queue w d = (if d' = d then tl pre else pre) @ i # post"
      using q(1) claim(1,3) pre by (cases pre) auto
    have clear: "set (if d' = d then tl pre else pre) \<inter> B = {}"
      using q(2) by (cases pre) auto
    show ?thesis
      by (rule barredI [OF queue clear])
         (use claim dev pre att zero in \<open>auto simp: same_write_def split: if_splits\<close>)
  next
    case (requeue j s s' d')
    have "d' = d \<Longrightarrow> j \<notin> B" using att [of j s] requeue by blast
    then show ?thesis
      by (intro barredI [of _ _ "if d' = d then j # pre else pre" _ post])
         (use requeue q att zero in \<open>auto simp: same_write_def split: if_splits\<close>)
  next
    case (finish j s s')
    have "wr_attempts s'' = base k \<and> wr_status s'' \<noteq> InFlight"
      if "k \<in> B" "lv_records w k = Some s''" "wr_device s'' = d" for k s''
      using finish that att [of k] by (cases "k = j") (auto simp: same_write_def)
    then show ?thesis
      by (intro barredI [of _ _ pre _ post]) (use finish q zero in \<open>auto split: if_splits\<close>)
  next
    case (drop j s d' s')
    have "j \<noteq> i" using drop r by auto
    then have queue: "lv_queue w d = (if d' = d then removeAll j pre else pre) @ i #
        (if d' = d then removeAll j post else post)"
      using q(1) drop(1) by auto
    have clear: "set (if d' = d then removeAll j pre else pre) \<inter> B = {}" using q(2) by auto
    have "wr_attempts s'' = base k \<and> wr_status s'' \<noteq> InFlight"
      if "k \<in> B" "lv_records w k = Some s''" "wr_device s'' = d" for k s''
      using drop that att [of k] by (cases "k = j") (auto simp: same_write_def)
    then show ?thesis
      by (intro barredI [OF queue clear]) (use drop zero in \<open>auto split: if_splits\<close>)
  qed
qed

text \<open>A write that waits unchanged before and after a sequence of steps was so throughout.\<close>

lemma waited:
  assumes "line_step M v y" and "line_steps M y w" and ok: "lines_ok v"
    and r: "lv_records v i = Some r" "wr_status r = Pending" "lv_records w i = Some r"
  shows "lv_records y i = Some r"
  using assms(1)
proof cases
  case (claim j s d q s')
  show ?thesis
  proof (cases "j = i")
    case True
    then have "lv_records y i = Some s'" "wr_attempts s' = wr_attempts r + 1" using claim r(1) by simp_all
    with line_steps_kept [OF assms(2), of i s'] r(3) show ?thesis by auto
  qed (use claim r in simp)
next
  case (drop j s d s')
  show ?thesis
  proof (cases "j = i")
    case True
    then have "lv_records y i = Some s'" "settled (wr_status s')" using drop by simp_all
    with line_steps_final [OF assms(2) line_step_ok [OF assms(1) ok], of i s'] r show ?thesis by auto
  qed (use drop r in simp)
qed (use r in auto)

lemma barred_steps:
  "line_steps M v w \<Longrightarrow> lines_ok v \<Longrightarrow> barred d i B base v \<Longrightarrow> lv_records v i = Some r \<Longrightarrow>
     wr_status r = Pending \<Longrightarrow> lv_records w i = Some r \<Longrightarrow> barred d i B base w"
proof (induction rule: converse_rtranclp_induct)
  case (step v y)
  have y: "lv_records y i = Some r" by (rule waited [OF step(1,2,4,6,7,8)])
  show ?case
    using step.IH line_step_ok [OF step(1,4)] barred_step [OF step(1,4,5,6,7) y] y step.prems by blast
qed

text \<open>
  A waiting row of a batch the outbox has forgotten: no call but the cancellation of its own
  device's queue moves it, and none brings the batch back.
\<close>

definition orphan :: "outbox \<Rightarrow> write_id \<Rightarrow> write_record \<Rightarrow> batch_id \<Rightarrow> bool" where
  "orphan ob i r b \<longleftrightarrow> write_of ob i = Some r \<and> wr_status r = Pending \<and> wr_batch r = Some b
     \<and> map_of (ob_batches ob) b = None"

definition stays :: "chrono \<Rightarrow> nat \<Rightarrow> device_id \<Rightarrow> outbox \<Rightarrow> outbox \<Rightarrow> bool" where
  "stays ch M d ob ob' \<longleftrightarrow> outbox_op ch M ob ob' \<and> (\<forall>reason. ob' \<noteq> fst (cancel_queued d reason ob))"

lemma orphan_submit:
  assumes "orphan ob i r b" and fr: "fresh s ob"
  shows "orphan (fst (submit s ob)) i r b"
proof -
  obtain ob' res where sub: "submit s ob = (ob', res)" by (cases "submit s ob")
  show ?thesis
  proof (cases "\<exists>acc. res = Inr acc \<and> replay_of ob s = None")
    case False
    then have "ob_records ob' = ob_records ob \<and> ob_batches ob' = ob_batches ob"
      using sub submit_refused [of s ob ob'] submit_replayed [of s ob ob'] by (cases res) auto
    with assms(1) sub show ?thesis by (simp add: orphan_def write_of_def)
  next
    case True
    then obtain acc where a: "submit s ob = (ob', Inr acc)" "replay_of ob s = None" using sub by auto
    have "i \<notin> set (su_ids s)" and "su_batch s \<noteq> Some b"
      using assms by (auto simp: orphan_def write_of_def fresh_def fresh_ids_def)
    with submit_admitted(3,5) [OF a fr] assms(1) sub show ?thesis
      by (auto simp: orphan_def write_of_def arm_batch_def split: option.split)
  qed
qed

lemma orphan_head:
  assumes "outbox_ok ob" and "orphan ob i r b"
    and "\<And>r'. queue_head ob d = Some i \<Longrightarrow> map_of (ob_records ob) i = Some r' \<Longrightarrow> wr_batch r' \<noteq> Some b"
  shows "orphan (fst (claim_head d at ob)) i r b"
  using assms by (auto simp: orphan_def write_of_def claims.take_records_eq claims.take_batches)

lemma orphan_members:
  assumes "orphan ob i r b" and "i \<notin> I" and "ob_batches ob' = ob_batches ob"
    and "map_of (ob_records ob') = (\<lambda>j. if j \<in> I then f j else map_of (ob_records ob) j)"
  shows "orphan ob' i r b"
  using assms by (simp add: orphan_def write_of_def)

lemma orphan_claim:
  assumes ok: "outbox_ok ob" and bs: "batches_ok ob" and o: "orphan ob i r b"
  shows "orphan (fst (claim_next ch d at ob)) i r b"
proof -
  have away: "orphan (fst (step_batch ch b0 d at ob)) i r b" for b0
    by (cases rule: step_batch_cases [of ob b0 ch d at]) (use o in \<open>auto simp: orphan_def write_of_def\<close>)
  have ok1: "outbox_ok (fst (step_batch ch b0 d at ob))" for b0
    using ok by (simp add: outbox_ok_def)
  have known: "b0 \<noteq> b" if "snd (step_batch ch b0 d at ob) \<noteq> Wait" for b0
    using that o by (auto simp: orphan_def step_batch_def)
  have group: "distinct members \<and> i \<notin> heads (fst (step_batch ch b0 d at ob)) members"
    if st: "snd (step_batch ch b0 d at ob) = Release members \<or> snd (step_batch ch b0 d at ob) = Fail members"
      and hd: "queue_head ob d = Some i0" "map_of (ob_records ob) i0 = Some r0" "wr_batch r0 = Some b0" for b0 members i0 r0
  proof -
    have b0: "b0 \<noteq> b" using known [of b0] st by auto
    show ?thesis
    proof (cases rule: step_batch_cases [of ob b0 ch d at])
      case (moved ba ready st')
      then have "members = ready" using st by auto
      moreover have "i \<notin> heads ob ready"
        unfolding moved(3) using ready_heads [OF ok batches_okD(2) [OF bs], of i r b0 at "ba_members ba"] o b0
        by (simp add: orphan_def write_of_def)
      ultimately show ?thesis using moved batches_okD(3) [OF bs moved(1)] by simp
    next
      case (abandoned ba)
      then have "members = [d]" using st by simp
      with abandoned hd o b0 show ?thesis by (auto simp: heads_def orphan_def write_of_def)
    qed (use st in simp_all)
  qed
  from ok show ?thesis
  proof (cases rule: claim_next_cases [of ob ch d at])
    case (alone i0 r0)
    have "orphan (fst (claim_head d at ob)) i r b"
      by (rule orphan_head [OF ok o]) (use alone in auto)
    with alone(4) show ?thesis by simp
  next
    case (straggler i0 r0 b0)
    have "orphan (fst (claim_head d at ob)) i r b"
      by (rule orphan_head [OF ok o]) (use straggler known [of b0] in auto)
    with straggler(5) step_batch_alone [OF straggler(4)] show ?thesis by simp
  next
    case (wait i0 r0 b0)
    then show ?thesis using away by simp
  next
    case (release i0 r0 b0 members rs)
    then have m: "distinct members" "i \<notin> heads (fst (step_batch ch b0 d at ob)) members"
      using group by blast+
    show ?thesis
      unfolding release(6) fst_conv
      by (rule orphan_members [OF away m(2) claim_members_effect(2,3) [OF ok1 m(1)]])
  next
    case (expired i0 r0 b0 members)
    then have m: "distinct members" "i \<notin> heads (fst (step_batch ch b0 d at ob)) members"
      using group by blast+
    show ?thesis
      unfolding expired(5) fst_conv
      by (rule orphan_members [OF away m(2) fail_members_effect(2,3) [OF ok1 m(1)]])
  qed (use o in simp)
qed

lemma orphan_settle:
  assumes "orphan ob i r b"
  shows "orphan (fst (settle ch j out at ob)) i r b"
proof (cases "\<exists>s. map_of (ob_records ob) j = Some s \<and> wr_status s = InFlight")
  case False
  then have "fst (settle ch j out at ob) = ob" by (auto simp: settle_def split: option.split)
  with assms show ?thesis by simp
next
  case True
  then obtain s where s: "map_of (ob_records ob) j = Some s" "wr_status s = InFlight" by blast
  then have "j \<noteq> i" using assms by (auto simp: orphan_def write_of_def)
  from s show ?thesis
    by (rule settle_effect [of ob j s ch out at])
       (use assms \<open>j \<noteq> i\<close> in \<open>auto simp: orphan_def write_of_def split: option.split\<close>)
qed

lemma orphan_cancel_batches:
  "orphan ob i r b \<Longrightarrow> orphan (fst (cancel_batches reason bs ob)) i r b"
proof (induction bs arbitrary: ob)
  case (Cons b0 bs)
  have "orphan (fst (cancel_batch b0 reason ob)) i r b"
  proof (cases "b0 = b")
    case True
    with Cons.prems show ?thesis by (simp add: cancel_batch_def orphan_def)
  next
    case False
    then have "write_of (fst (cancel_batch b0 reason ob)) i = Some r"
      using cancel_batch_touched [of b0 ob reason] Cons.prems
      by (auto simp: touched_def orphan_def write_of_def split: option.splits dest!: spec [of _ i])
    with cancel_batch_touched [of b0 ob reason] Cons.prems show ?thesis by (simp add: orphan_def)
  qed
  from Cons.IH [OF this] show ?case by (simp only: cancel_batches_fst)
qed simp

lemma orphan_cancel:
  assumes ok: "outbox_ok ob" and o: "orphan ob i r b" and d: "d \<noteq> wr_device r"
  shows "orphan (fst (cancel_queued d reason ob)) i r b"
proof (cases "map_of (ob_logs ob) d")
  case None
  with o show ?thesis by (simp add: cancel_queued_def)
next
  case (Some log)
  obtain recs doomed n where own: "cancel_own reason (dl_queue log) (ob_records ob) = (recs, doomed, n)"
    using prod_cases3 by blast
  have "i \<notin> set (lv_queue (view ob) d)"
    using queue_unique [OF ok [unfolded outbox_ok_def], of i d r] o d by (auto simp: orphan_def write_of_def)
  then have "map_of recs i = Some r"
    using arg_cong [OF cancel_own_steps(1) [OF ok Some own], of "\<lambda>v. lv_records v i"] log_of_Some [OF Some] o
    by (simp add: drop_rows_def orphan_def write_of_def)
  then have "orphan (ob\<lparr>ob_logs := oput d (log\<lparr>dl_queue := []\<rparr>) (ob_logs ob), ob_records := recs\<rparr>) i r b"
    using o by (simp add: orphan_def write_of_def)
  from orphan_cancel_batches [OF this] Some own show ?thesis by (simp add: cancel_queued_fst)
qed

lemma orphan_stays:
  assumes "stays ch M (wr_device r) ob ob'" and "reachable ch M ob" and o: "orphan ob i r b"
  shows "orphan ob' i r b"
proof -
  have ok: "outbox_ok ob" and bs: "batches_ok ob"
    using reachable_ok [OF assms(2)] reachable_batches_ok [OF assms(2)] by simp_all
  have "outbox_op ch M ob ob'" using assms(1) by (simp add: stays_def)
  then show ?thesis
  proof cases
    case (op_submit s)
    with orphan_submit [OF o] show ?thesis by simp
  next
    case (op_claim d at)
    with orphan_claim [OF ok bs o] show ?thesis by simp
  next
    case (op_settle j out at)
    with orphan_settle [OF o] show ?thesis by simp
  next
    case (op_cancel d reason)
    then have "d \<noteq> wr_device r" using assms(1) by (auto simp: stays_def)
    with orphan_cancel [OF ok o] op_cancel show ?thesis by simp
  qed (use o in \<open>simp_all add: orphan_def write_of_def observe_def forget_group_def set_max_attempts_def with_backoff_def\<close>)
qed

lemma orphan_bars:
  assumes "(stays ch M (wr_device r))\<^sup>*\<^sup>* ob ob'" and "reachable ch M ob" and "orphan ob i r b"
    and "barred (wr_device r) i B base (view ob)"
  shows "reachable ch M ob' \<and> orphan ob' i r b \<and> barred (wr_device r) i B base (view ob')"
  using assms
proof (induction rule: rtranclp_induct)
  case (step ob1 ob2)
  then have one: "reachable ch M ob1" "orphan ob1 i r b" "barred (wr_device r) i B base (view ob1)" by blast+
  have op: "outbox_op ch M ob1 ob2" using step(2) by (simp add: stays_def)
  have two: "orphan ob2 i r b" by (rule orphan_stays [OF step(2) one(1,2)])
  have "barred (wr_device r) i B base (view ob2)"
    using barred_steps [OF reachable_steps [OF one(1) op] _ one(3)] reachable_ok [OF one(1)] one(2) two
    by (simp add: orphan_def write_of_def outbox_ok_def)
  with one(1) op two show ?case by (blast intro: reachable.step)
qed simp

definition behind :: "outbox \<Rightarrow> device_id \<Rightarrow> write_id \<Rightarrow> write_id set" where
  "behind ob d i = set (tl (dropWhile (\<lambda>j. j \<noteq> i) (dl_queue (log_of ob d))))"

text \<open>
  C39. A pending write whose batch the outbox has forgotten stays pending for ever and bars its
  device: after any further calls, whoever makes them, save the cancellation of that device's
  own queue, its record is what it was, and neither a write that stood behind it nor any write
  the device is given later has been claimed (a claim counts an attempt). The example reaches such
  a state: the group start is released to both members and both fail with an attempt left; between
  the two retries the first member leaves the fleet and takes the batch with it.
\<close>

theorem orphaned_row_blocks:
  assumes "reachable ch M ob" and "write_of ob i = Some r" and "wr_status r = Pending"
    and "wr_batch r = Some b" and "map_of (ob_batches ob) b = None"
    and "(stays ch M (wr_device r))\<^sup>*\<^sup>* ob ob'"
  shows "write_of ob' i = Some r
    \<and> (\<forall>j s. write_of ob' j = Some s \<longrightarrow> wr_device s = wr_device r \<longrightarrow>
         j \<in> behind ob (wr_device r) i \<or> write_of ob j = None \<longrightarrow>
         wr_status s \<noteq> InFlight
         \<and> wr_attempts s = (case write_of ob j of None \<Rightarrow> 0 | Some s0 \<Rightarrow> wr_attempts s0))"
proof -
  let ?d = "wr_device r" and ?base = "\<lambda>j. case write_of ob j of None \<Rightarrow> 0 | Some s0 \<Rightarrow> wr_attempts s0"
  let ?B = "behind ob ?d i \<union> {j. write_of ob j = None}"
  have ok: "lines_ok (view ob)" using reachable_ok [OF assms(1)] by (simp add: outbox_ok_def)
  have o: "orphan ob i r b" using assms(2-5) by (simp add: orphan_def)
  have "i \<in> set (lv_queue (view ob) ?d)" using lines_okD(3) [OF ok, of i r] assms(2,3) by (simp add: write_of_def)
  then obtain pre post where q: "lv_queue (view ob) ?d = pre @ i # post" by (meson split_list)
  have dist: "distinct (pre @ i # post)" using lines_okD(5) [OF ok, of ?d] q by simp
  then have "dropWhile (\<lambda>j. j \<noteq> i) (pre @ i # post) = i # post" by (intro dropWhile_append3 [THEN trans]) auto
  then have post: "behind ob ?d i = set post" using q by (simp add: behind_def)
  have row: "\<exists>s. map_of (ob_records ob) j = Some s \<and> wr_status s = Pending" if "j \<in> set pre \<union> set post" for j
    using lines_okD(2) [OF ok, of j ?d] that q by auto
  have "barred ?d i ?B ?base (view ob)"
    unfolding barred_def
  proof (intro conjI)
    have "j \<notin> ?B" if "j \<in> set pre" for j
      using row [of j] dist post that by (auto simp: write_of_def)
    then have "set pre \<inter> ?B = {}" by blast
    with q show "\<exists>pre post. lv_queue (view ob) ?d = pre @ i # post \<and> set pre \<inter> ?B = {}" by blast
    have "wr_status s \<noteq> InFlight" if "j \<in> ?B" "map_of (ob_records ob) j = Some s" for j s
      using row [of j] post that by (auto simp: write_of_def)
    then show "\<forall>j \<in> ?B. \<forall>s. lv_records (view ob) j = Some s \<longrightarrow> wr_device s = ?d \<longrightarrow>
        wr_attempts s = ?base j \<and> wr_status s \<noteq> InFlight"
      by (auto simp: write_of_def)
  qed (simp add: write_of_def)
  from orphan_bars [OF assms(6,1) o this] show ?thesis
    unfolding barred_def orphan_def by (auto simp: write_of_def)
qed

definition orphaned_box :: outbox where
  "orphaned_box =
     (let ob1 = fst (settle tick_chrono ''i'' (OFailed ''no route'') ''ttt'' released_box);
          ob2 = fst (cancel_queued ''x'' ''gone'' ob1)
      in fst (settle tick_chrono ''j'' (OFailed ''no route'') ''ttt'' ob2))"

lemma reachable_orphaned_box: "reachable tick_chrono 2 orphaned_box"
  unfolding orphaned_box_def Let_def
  by (rule reachable.step [OF _ op_settle], rule reachable.step [OF _ op_cancel],
      rule reachable.step [OF _ op_settle], rule reachable_released_box)

lemma cancel_queued_empties: "dl_queue (log_of (fst (cancel_queued d reason ob)) d) = []"
proof (cases "map_of (ob_logs ob) d")
  case None
  then show ?thesis by (simp add: cancel_queued_fst log_of_def default_log_def)
next
  case (Some log)
  let ?ob1 = "ob\<lparr>ob_logs := oput d (log\<lparr>dl_queue := []\<rparr>) (ob_logs ob),
      ob_records := fst (cancel_own reason (dl_queue log) (ob_records ob))\<rparr>"
  from Some cancel_batches_spares [of ?ob1] show ?thesis
    by (simp add: cancel_queued_fst spares_def)
qed

lemma stays_queued: "outbox_op ch M ob ob' \<Longrightarrow> dl_queue (log_of ob' d) \<noteq> [] \<Longrightarrow> stays ch M d ob ob'"
  using cancel_queued_empties by (force simp: stays_def)

text \<open>The surviving member is given a stop, long after the retry was due, and claimed for.\<close>

definition barred_box :: outbox where
  "barred_box = fst (claim_next tick_chrono ''y'' (replicate 99 (CHR ''t''))
     (fst (submit (write_to ''k'' ''y'' StopRecording) orphaned_box)))"

theorem orphaned_row_blocks_witness:
  "reachable tick_chrono 2 orphaned_box
     \<and> (\<exists>r. write_of orphaned_box ''j'' = Some r \<and> wr_status r = Pending \<and> write_of barred_box ''j'' = Some r)
     \<and> (\<exists>s. write_of barred_box ''k'' = Some s \<and> wr_attempts s = 0)"
proof -
  let ?ob1 = "fst (submit (write_to ''k'' ''y'' StopRecording) orphaned_box)"
  obtain r where r: "write_of orphaned_box ''j'' = Some r" "wr_status r = Pending" "wr_batch r = Some ''b''"
      "wr_device r = ''y''" "map_of (ob_batches orphaned_box) ''b'' = None" "write_of orphaned_box ''k'' = None"
    unfolding orphaned_box_def released_box_def armed_box_def by (auto simp: example_defs)
  obtain s where s: "write_of barred_box ''k'' = Some s" "wr_device s = ''y''"
    unfolding barred_box_def orphaned_box_def released_box_def armed_box_def by (auto simp: example_defs)
  have "stays tick_chrono 2 ''y'' orphaned_box ?ob1"
    by (rule stays_queued, rule op_submit)
       (simp_all add: orphaned_box_def released_box_def armed_box_def example_defs)
  moreover have "stays tick_chrono 2 ''y'' ?ob1 barred_box"
    unfolding barred_box_def
    by (rule stays_queued, rule op_claim)
       (simp add: orphaned_box_def released_box_def armed_box_def example_defs)
  ultimately have "(stays tick_chrono 2 (wr_device r))\<^sup>*\<^sup>* orphaned_box barred_box"
    using r(4) by (simp add: rtranclp.rtrancl_into_rtrancl)
  from orphaned_row_blocks [OF reachable_orphaned_box r(1,2,3,5) this] r s reachable_orphaned_box
  show ?thesis by (auto simp: r(6))
qed

end
