(* ===== verification/Sis_Relay.thy ===== *)
theory Sis_Relay
  imports Sis_Keepalive Sis_Outbox_Calls
begin

text \<open>
  \<^verbatim>\<open>sismatic-intent-relay\<close> (\<^verbatim>\<open>translate.rs\<close>, \<^verbatim>\<open>relay.rs\<close>) and \<^verbatim>\<open>sismatic-sync/src/dto.rs\<close>: applying
  the queued writes of the outbox to the devices.

  The state is the registry, the outbox, one world per device handle (the scripts of the network)
  and the wall clock, a sequence of timestamps that \<open>now()\<close> reads one after the other. Every call
  on the outbox and every exchange is one transition, because the outbox takes its lock per call and a
  device runs one exchange at a time.
\<close>


section \<open>Values on their way out\<close>

fun state_to_dto :: "core_state \<Rightarrow> recording_state" where
  "state_to_dto CoreStopped = Stopped"
| "state_to_dto CoreStarted = Started"
| "state_to_dto CorePaused = PausedState"
| "state_to_dto CoreUnknown = Unknown"

fun to_dto :: "core_value \<Rightarrow> read_value" where
  "to_dto (VText s) = Text s"
| "to_dto (VVersion s) = Version s"
| "to_dto (VPort p) = Port p"
| "to_dto (VNumber n) = Number n"
| "to_dto (VFlag b) = Flag b"
| "to_dto (VMac m) = Mac (show_mac m)"
| "to_dto (VAck s) = Ack s"
| "to_dto (VState s) = State (state_to_dto s)"
| "to_dto (VAlarms alarms) = Alarms (map (\<lambda>(name, level). \<lparr>al_name = name, al_level = level\<rparr>) alarms)"


section \<open>Intents to instructions\<close>

datatype translate_error =
    UnknownRegister string
  | UnknownSetting string
  | MetadataThroughSettings string
  | TranslateValue value_error

fun show_translate_error :: "translate_error \<Rightarrow> string" where
  "show_translate_error (UnknownRegister name) = ''no metadata register named '' @ [CHR 0x27] @ name @ [CHR 0x27]"
| "show_translate_error (UnknownSetting name) = ''no device setting named '' @ [CHR 0x27] @ name @ [CHR 0x27]"
| "show_translate_error (MetadataThroughSettings name) = [CHR 0x27] @ name @ [CHR 0x27]
     @ '' is a metadata register; submit it to the metadata route, which enforces the recording freeze''"
| "show_translate_error (TranslateValue e) = show_value_error e"

fun to_instruction :: "winnow \<Rightarrow> intent \<Rightarrow> translate_error + instruction" where
  "to_instruction wn StartRecording = Inr (command_instruction wn Cmd_Start)"
| "to_instruction wn StopRecording = Inr (command_instruction wn Cmd_Stop)"
| "to_instruction wn PauseRecording = Inr (command_instruction wn Cmd_Pause)"
| "to_instruction wn (SetMetadata field value) =
     (case catalog_from_str register_catalog field of
        Inr register \<Rightarrow> Inr (register_instruction wn register value)
      | Inl e \<Rightarrow> Inl (UnknownRegister field))"
| "to_instruction wn (SetSetting field value) =
     (case catalog_from_str register_catalog field of
        Inr register \<Rightarrow> Inl (MetadataThroughSettings field)
      | Inl e \<Rightarrow>
          (case catalog_from_str setting_catalog field of
             Inl e \<Rightarrow> Inl (UnknownSetting field)
           | Inr setting \<Rightarrow>
               (case setting_instruction wn setting value of
                  Inl e \<Rightarrow> Inl (TranslateValue e)
                | Inr i \<Rightarrow> Inr i)))"


section \<open>Dispatch\<close>

record relay =
  rl_registry :: registry
  rl_outbox :: outbox
  rl_worlds :: "handle \<Rightarrow> world"
  rl_clock :: "nat \<Rightarrow> timestamp"
  rl_tick :: nat

definition now :: "relay \<Rightarrow> timestamp \<times> relay" where
  "now s = (rl_clock s (rl_tick s), s\<lparr>rl_tick := rl_tick s + 1\<rparr>)"

definition relay_id :: "relay \<Rightarrow> handle \<Rightarrow> string" where
  "relay_id s h = dc_id (handle_config (rl_registry s) h)"

text \<open>\<open>device.run(\<dots>)\<close> through a handle.\<close>

definition run_handle :: "handle \<Rightarrow> instruction \<Rightarrow> relay \<Rightarrow> (device_error + core_value) \<times> relay" where
  "run_handle h i s =
     (case run i (deref (rl_registry s) h) (rl_worlds s h) of
        (r, dev, w) \<Rightarrow> (r, s\<lparr>rl_registry := put_link h dev (rl_registry s), rl_worlds := (rl_worlds s)(h := w)\<rparr>))"

definition settle_now :: "chrono \<Rightarrow> write_id \<Rightarrow> outcome \<Rightarrow> relay \<Rightarrow> relay" where
  "settle_now ch i out s =
     (case now s of (at, s) \<Rightarrow> s\<lparr>rl_outbox := fst (settle ch i out at (rl_outbox s))\<rparr>)"

text \<open>\<open>report\<close>: the warnings aside, the outcome is settled and an error of \<open>settle\<close> is logged.\<close>

definition report :: "chrono \<Rightarrow> write_id \<Rightarrow> outcome \<Rightarrow> relay \<Rightarrow> relay" where
  "report ch i out s = settle_now ch i out s"

fun settle_all :: "chrono \<Rightarrow> write_record list \<Rightarrow> (write_record \<Rightarrow> outcome) \<Rightarrow> relay \<Rightarrow> relay" where
  "settle_all ch [] outcome_for s = s"
| "settle_all ch (r # rs) outcome_for s = settle_all ch rs outcome_for (report ch (wr_id r) (outcome_for r) s)"

definition observe_state :: "winnow \<Rightarrow> handle \<Rightarrow> relay \<Rightarrow> core_state option \<times> relay" where
  "observe_state wn h s =
     (case run_handle h (query_instruction wn Q_RunningState) s of
        (Inl e, s) \<Rightarrow> (None, s)
      | (Inr value, s) \<Rightarrow>
          (case as_state value of
             None \<Rightarrow> (None, s)
           | Some state \<Rightarrow>
               (Some state, s\<lparr>rl_outbox := observe (relay_id s h) (state_to_dto state) (rl_outbox s)\<rparr>)))"

fun is_metadata :: "intent \<Rightarrow> bool" where
  "is_metadata (SetMetadata f v) = True"
| "is_metadata i = False"

definition RECORDING_IN_PROGRESS :: string where
  "RECORDING_IN_PROGRESS = ''a recording was in progress when this write reached the device''"

definition perform :: "winnow \<Rightarrow> chrono \<Rightarrow> handle \<Rightarrow> write_record \<Rightarrow> relay \<Rightarrow> relay" where
  "perform wn ch h r s =
     (case to_instruction wn (wr_intent r) of
        Inl err \<Rightarrow> report ch (wr_id r) (OFailed (show_translate_error err)) s
      | Inr i \<Rightarrow>
          (case run_handle h i s of
             (Inr value, s) \<Rightarrow> report ch (wr_id r) (OSucceeded (to_dto value)) s
           | (Inl err, s) \<Rightarrow> report ch (wr_id r) (OFailed (show_device_error err)) s))"

definition dispatch_alone :: "winnow \<Rightarrow> chrono \<Rightarrow> handle \<Rightarrow> write_record \<Rightarrow> relay \<Rightarrow> relay" where
  "dispatch_alone wn ch h r s =
     (if is_metadata (wr_intent r) then
        (case observe_state wn h s of
           (Some state, s) \<Rightarrow>
             if is_recording state then settle_now ch (wr_id r) (OFailed RECORDING_IN_PROGRESS) s
             else perform wn ch h r s
         | (None, s) \<Rightarrow> perform wn ch h r s)
      else perform wn ch h r s)"

text \<open>
  \<open>DeviceGroup::run\<close> over handles: every member's exchange is spawned before any is awaited, each on
  its own device, so the order the model runs them in is not observable unless a handle repeats.
\<close>

fun run_members :: "instruction \<Rightarrow> handle list \<Rightarrow> relay \<Rightarrow> (string \<times> (device_error + core_value)) list \<times> relay" where
  "run_members i [] s = ([], s)"
| "run_members i (h # hs) s =
     (case run_handle h i s of
        (r, s1) \<Rightarrow> (case run_members i hs s1 of (rs, s2) \<Rightarrow> ((relay_id s h, r) # rs, s2)))"

fun lookup_members :: "relay \<Rightarrow> write_record list \<Rightarrow> string + handle list" where
  "lookup_members s [] = Inr []"
| "lookup_members s (r # rs) =
     (case registry_device (rl_registry s) (wr_device r) of
        None \<Rightarrow> Inl (wr_device r)
      | Some h \<Rightarrow> (case lookup_members s rs of Inl d \<Rightarrow> Inl d | Inr hs \<Rightarrow> Inr (h # hs)))"

definition not_registered :: "string \<Rightarrow> string" where
  "not_registered d = ''member '' @ [CHR 0x27] @ d @ [CHR 0x27] @ '' is not in the registry''"

definition accepted_in_batch :: "batch_id \<Rightarrow> string \<Rightarrow> read_value" where
  "accepted_in_batch b d = Ack (d @ '' accepted as part of batch '' @ b)"

definition dispatch_batch :: "winnow \<Rightarrow> chrono \<Rightarrow> batch_id \<Rightarrow> write_record list \<Rightarrow> relay \<Rightarrow> relay" where
  "dispatch_batch wn ch b records s =
     (case records of
        [] \<Rightarrow> s
      | first # _ \<Rightarrow>
          (case to_instruction wn (wr_intent first) of
             Inl err \<Rightarrow> settle_all ch records (\<lambda>r. OFailed (show_translate_error err)) s
           | Inr i \<Rightarrow>
               (case lookup_members s records of
                  Inl d \<Rightarrow> settle_all ch records (\<lambda>r. OFailed (not_registered d)) s
                | Inr hs \<Rightarrow>
                    (case run_members i hs s of
                       (outcomes, s) \<Rightarrow>
                         let failures = List.map_filter (\<lambda>(d, r). case r of Inl e \<Rightarrow> Some (d, show_device_error e)
                               | Inr v \<Rightarrow> None) outcomes;
                             vals = List.map_filter (\<lambda>(d, r). case r of Inl e \<Rightarrow> None | Inr v \<Rightarrow> Some (d, v)) outcomes
                         in if failures = []
                            then settle_all ch records (\<lambda>r. case map_of (ocollect vals) (wr_device r) of
                                   Some v \<Rightarrow> OSucceeded (to_dto v)
                                 | None \<Rightarrow> OFailed ''the group returned no value for this member'') s
                            else settle_all ch records (\<lambda>r. case map_of (ocollect failures) (wr_device r) of
                                   Some reason \<Rightarrow> OFailed reason
                                 | None \<Rightarrow> OSucceeded (accepted_in_batch b (wr_device r))) s))))"

definition dispatch_one :: "winnow \<Rightarrow> chrono \<Rightarrow> handle \<Rightarrow> relay \<Rightarrow> bool \<times> relay" where
  "dispatch_one wn ch h s =
     (case now s of
        (at, s) \<Rightarrow>
          (case claim_next ch (relay_id s h) at (rl_outbox s) of
             (ob, Inr (Some claim)) \<Rightarrow>
               let s = s\<lparr>rl_outbox := ob\<rparr>
               in (True, (case claim of
                            One r \<Rightarrow> dispatch_alone wn ch h r s
                          | Batch b records \<Rightarrow> dispatch_batch wn ch b records s))
           | (ob, _) \<Rightarrow> (False, s\<lparr>rl_outbox := ob\<rparr>)))"

text \<open>One tick: drain until a claim finds nothing; \<open>n\<close> bounds the dispatches.\<close>

fun drain_tick :: "winnow \<Rightarrow> chrono \<Rightarrow> handle \<Rightarrow> nat \<Rightarrow> relay \<Rightarrow> relay option" where
  "drain_tick wn ch h 0 s = None"
| "drain_tick wn ch h (Suc n) s =
     (case dispatch_one wn ch h s of
        (True, s) \<Rightarrow> drain_tick wn ch h n s
      | (False, s) \<Rightarrow> Some s)"


section \<open>Recovery at start\<close>

definition REPLAYED :: string where
  "REPLAYED = ''left in flight by a previous process; replayed, because writing the same value twice is the same as writing it once''"

definition NO_ANSWER :: string where
  "NO_ANSWER = ''left in flight by a previous process and the device did not answer''"

definition NO_EFFECT :: string where
  "NO_EFFECT = ''left in flight by a previous process; the device state does not show the command took effect''"

fun recovered :: "intent \<Rightarrow> core_state option \<Rightarrow> outcome" where
  "recovered (SetMetadata f v) observed = OFailed REPLAYED"
| "recovered (SetSetting f v) observed = OFailed REPLAYED"
| "recovered i None = OFailed NO_ANSWER"
| "recovered StartRecording (Some state) =
     (if is_recording state then OSucceeded (State (state_to_dto state)) else OFailed NO_EFFECT)"
| "recovered StopRecording (Some state) =
     (if state = CoreStopped then OSucceeded (State (state_to_dto state)) else OFailed NO_EFFECT)"
| "recovered PauseRecording (Some state) =
     (if state = CorePaused then OSucceeded (State (state_to_dto state)) else OFailed NO_EFFECT)"

fun settle_stranded :: "chrono \<Rightarrow> core_state option \<Rightarrow> write_record list \<Rightarrow> relay \<Rightarrow> relay" where
  "settle_stranded ch observed [] s = s"
| "settle_stranded ch observed (r # rs) s =
     settle_stranded ch observed rs (settle_now ch (wr_id r) (recovered (wr_intent r) observed) s)"

definition recover :: "winnow \<Rightarrow> chrono \<Rightarrow> handle \<Rightarrow> relay \<Rightarrow> relay" where
  "recover wn ch h s =
     (case in_flight (rl_outbox s) (relay_id s h) of
        [] \<Rightarrow> s
      | stranded \<Rightarrow>
          (case observe_state wn h s of (observed, s) \<Rightarrow> settle_stranded ch observed stranded s))"


section \<open>The relay tasks\<close>

record running =
  rn_device :: uuid
  rn_task :: nat

record relay_change =
  rlc_started :: nat
  rlc_stopped :: nat
  rlc_rebound :: nat
  rlc_unchanged :: nat

record relay_handle =
  rh_running :: "(string, running) omap"
  rh_tasks :: "task list"

definition relay_entry :: "relay_handle \<Rightarrow> string \<Rightarrow> (uuid \<times> nat) option" where
  "relay_entry rh i = map_option (\<lambda>w. (rn_device w, rn_task w)) (map_of (rh_running rh) i)"

definition relay_stop :: "string \<Rightarrow> relay_handle \<Rightarrow> relay_handle" where
  "relay_stop i rh =
     (case map_of (rh_running rh) i of
        Some w \<Rightarrow> rh\<lparr>rh_running := odel i (rh_running rh), rh_tasks := stop_task (rn_task w) (rh_tasks rh)\<rparr>
      | None \<Rightarrow> rh)"

definition relay_start :: "string \<Rightarrow> handle \<times> uuid \<Rightarrow> relay_handle \<Rightarrow> relay_handle" where
  "relay_start i w rh =
     rh\<lparr>rh_running := oput i \<lparr>rn_device = snd w, rn_task = length (rh_tasks rh)\<rparr> (rh_running rh),
        rh_tasks := rh_tasks rh @ [\<lparr>tk_handle = fst w, tk_stopped = False\<rparr>]\<rparr>"

definition all_devices :: "(handle \<times> device_config) list \<Rightarrow> (string, handle \<times> uuid) omap" where
  "all_devices devices = ocollect (map (\<lambda>(h, c). (dc_id c, h, dc_uuid c)) devices)"

text \<open>The devices are those of the registry; reaping ended tasks has no effect on the running ones.\<close>

definition relay_apply :: "(handle \<times> device_config) list \<Rightarrow> relay_handle \<Rightarrow> relay_handle \<times> relay_change" where
  "relay_apply devices rh =
     (let wanted = all_devices devices;
          stale = okeys (filter (\<lambda>(i, w). is_stale wanted (i, rn_device w)) (rh_running rh));
          (rh, rebound, stopped) = stop_pass relay_stop wanted stale (rh, 0, 0);
          (rh, unchanged, spawned) = start_pass relay_entry relay_start wanted (rh, 0, 0)
      in (rh, \<lparr>rlc_started = spawned - rebound, rlc_stopped = stopped, rlc_rebound = rebound,
               rlc_unchanged = unchanged\<rparr>))"

definition relay_spawn :: "(handle \<times> device_config) list \<Rightarrow> relay_handle" where
  "relay_spawn devices = fst (relay_apply devices \<lparr>rh_running = [], rh_tasks = []\<rparr>)"

text \<open>\<open>shutdown\<close> cancels the parent token of every task.\<close>

definition relay_shutdown :: "relay_handle \<Rightarrow> task list" where
  "relay_shutdown rh = map (\<lambda>t. t\<lparr>tk_stopped := True\<rparr>) (rh_tasks rh)"

interpretation rh: task_set relay_entry rh_tasks relay_stop relay_start
proof
  show "relay_entry (relay_stop i s) = (relay_entry s)(i := None)" for i s
    by (auto simp: relay_entry_def relay_stop_def fun_eq_iff split: option.split)
  show "rh_tasks (relay_stop i s) = (case relay_entry s i of None \<Rightarrow> rh_tasks s
      | Some (u, t) \<Rightarrow> stop_task t (rh_tasks s))" for i s
    by (simp add: relay_entry_def relay_stop_def split: option.split)
  show "relay_entry (relay_start i (h, u) s) = (relay_entry s)(i \<mapsto> (u, length (rh_tasks s)))" for i h u s
    by (auto simp: relay_entry_def relay_start_def fun_eq_iff)
  show "rh_tasks (relay_start i (h, u) s) = rh_tasks s @ [\<lparr>tk_handle = h, tk_stopped = False\<rparr>]" for i h u s
    by (simp add: relay_start_def)
qed

end
