(* ===== verification/Sis_Relay_Spec.thy ===== *)
theory Sis_Relay_Spec
  imports Sis_Relay
begin

text \<open>
  Properties of the intent relay: what reaches a device, what becomes of every claimed write, that
  a drain ends, and what recovery does with the writes a process left in flight.
\<close>


section \<open>What a call through a handle changes\<close>

lemma put_link_configs [simp]: "handle_config (put_link h dev rg) = handle_config rg"
  by (cases "h < length (ry_cells rg)")
     (auto simp: handle_config_def put_link_def fun_eq_iff nth_list_update list_update_beyond)

lemma put_link_frame [simp]:
  "ry_devices (put_link h dev rg) = ry_devices rg" "ry_groups (put_link h dev rg) = ry_groups rg"
  "ry_autos (put_link h dev rg) = ry_autos rg" "registry_device (put_link h dev rg) = registry_device rg"
  by (auto simp: put_link_def registry_device_def fun_eq_iff)

lemma run_handle_frame:
  assumes "run_handle h i s = (r, s')"
  shows "rl_outbox s' = rl_outbox s" and "relay_id s' = relay_id s"
    and "registry_device (rl_registry s') = registry_device (rl_registry s)"
    and "rl_clock s' = rl_clock s" and "rl_tick s' = rl_tick s"
    and "k \<noteq> h \<Longrightarrow> rl_worlds s' k = rl_worlds s k"
  using assms by (auto simp: run_handle_def relay_id_def fun_eq_iff split: prod.splits)

lemma run_members_frame:
  "run_members i hs s = (rs, s') \<Longrightarrow> rl_outbox s' = rl_outbox s \<and> relay_id s' = relay_id s
     \<and> map fst rs = map (relay_id s) hs"
proof (induction hs arbitrary: s rs s')
  case (Cons h hs)
  obtain r s1 where r: "run_handle h i s = (r, s1)" by (cases "run_handle h i s")
  obtain rs1 s2 where m: "run_members i hs s1 = (rs1, s2)" by (cases "run_members i hs s1")
  have "rs = (relay_id s h, r) # rs1" "s' = s2" using Cons.prems by (simp_all add: r m)
  with Cons.IH [OF m] run_handle_frame [OF r] show ?case by simp
qed simp


section \<open>How much work a queue can still cause\<close>

text \<open>How often a write may still be claimed, under a budget of \<open>M\<close> attempts.\<close>

definition weight :: "nat \<Rightarrow> write_record \<Rightarrow> nat" where
  "weight M r = (case wr_status r of Pending \<Rightarrow> max 1 (M - wr_attempts r) | InFlight \<Rightarrow> M - wr_attempts r | _ \<Rightarrow> 0)"

definition records_weight :: "nat \<Rightarrow> outbox \<Rightarrow> nat" where
  "records_weight M ob = (\<Sum>i \<in> dom (map_of (ob_records ob)). weight M (the (map_of (ob_records ob) i)))"

definition waiting_batches :: "outbox \<Rightarrow> nat" where
  "waiting_batches ob = card {b. map_option ba_gate (map_of (ob_batches ob) b) = Some Waiting}"

definition potential :: "nat \<Rightarrow> outbox \<Rightarrow> nat" where
  "potential M ob = records_weight M ob + waiting_batches ob"

lemma records_weight_upd:
  assumes "map_of (ob_records ob) i = Some r" and "map_of (ob_records ob') = (map_of (ob_records ob))(i \<mapsto> r')"
  shows "records_weight M ob' + weight M r = records_weight M ob + weight M r'"
proof -
  let ?S = "dom (map_of (ob_records ob))" and ?w = "\<lambda>j. weight M (the (map_of (ob_records ob) j))"
  have i: "i \<in> ?S" using assms(1) by blast
  then have "records_weight M ob = weight M r + sum ?w (?S - {i})"
    unfolding records_weight_def using assms(1) by (simp add: sum.remove finite_dom_map_of)
  moreover have "records_weight M ob' = weight M r' + sum ?w (?S - {i})"
    unfolding records_weight_def assms(2) using i by (simp add: insert_absorb sum.remove finite_dom_map_of)
  ultimately show ?thesis by simp
qed

lemma records_weight_cong: "map_of (ob_records ob') = map_of (ob_records ob) \<Longrightarrow> records_weight M ob' = records_weight M ob"
  by (simp add: records_weight_def)

lemma waiting_cong:
  assumes "\<And>b. map_option ba_gate (map_of (ob_batches ob') b) = map_option ba_gate (map_of (ob_batches ob) b)"
  shows "waiting_batches ob' = waiting_batches ob"
  using assms by (simp add: waiting_batches_def)

lemma settle_potential:
  assumes "ob_max_attempts ob \<le> M" and "0 < M"
  shows "potential M (fst (settle ch i out at ob)) \<le> potential M ob"
proof (cases "\<exists>r. map_of (ob_records ob) i = Some r \<and> wr_status r = InFlight")
  case False
  then show ?thesis by (auto simp: settle_def split: option.splits)
next
  case True
  then obtain r where r: "map_of (ob_records ob) i = Some r" "wr_status r = InFlight" by blast
  let ?ob = "fst (settle ch i out at ob)"
  define r' where "r' = (case out of
      OSucceeded v \<Rightarrow> r\<lparr>wr_status := Succeeded v, wr_updated_at := at\<rparr>
    | OFailed reason \<Rightarrow> if wr_attempts r < ob_max_attempts ob then retry_record ch at ob r
        else r\<lparr>wr_status := Failed reason, wr_updated_at := at\<rparr>)"
  have "ob_records ?ob = oput i r' (ob_records ob)"
    using r by (simp add: settle_def Let_def r'_def split: outcome.split)
  moreover have "weight M r' \<le> weight M r"
    using r(2) assms by (auto simp: r'_def weight_def retry_record_def split: outcome.split)
  ultimately have r': "ob_records ?ob = oput i r' (ob_records ob)" "weight M r' \<le> weight M r" by blast+
  have "map_option ba_gate (map_of (ob_batches ?ob) b) = map_option ba_gate (map_of (ob_batches ob) b)" for b
    using r by (simp add: settle_def Let_def settle_batch_def map_of_oadjust unready_def leave_def
        option.map_comp comp_def split: option.split outcome.split)
  then have "waiting_batches ?ob = waiting_batches ob" by (rule waiting_cong)
  with records_weight_upd [of ob i r ?ob r' M] r r' show ?thesis by (simp add: potential_def)
qed

lemma observe_potential [simp]: "potential M (observe d st ob) = potential M ob"
  by (simp add: potential_def records_weight_def waiting_batches_def observe_def)


lemma claim_head_weight:
  assumes "outbox_ok ob"
  shows "records_weight M (fst (claim_head d at ob)) \<le> records_weight M ob"
    and "snd (claim_head d at ob) = Inr (Some r) \<Longrightarrow> records_weight M (fst (claim_head d at ob)) < records_weight M ob"
proof -
  have "records_weight M (fst (claim_head d at ob)) \<le> records_weight M ob
    \<and> (snd (claim_head d at ob) = Inr (Some r) \<longrightarrow> records_weight M (fst (claim_head d at ob)) < records_weight M ob)"
    using assms
  proof (cases rule: claim_head_cases [of ob d at])
    case (claimed i q x x')
    have "map_of (ob_records (fst (claim_head d at ob))) = (map_of (ob_records ob))(i \<mapsto> x')"
      using arg_cong [OF claimed(9), of lv_records] by simp
    from records_weight_upd [OF claimed(2) this, of M] claimed(4,6,7)
    have "records_weight M (fst (claim_head d at ob)) + max 1 (M - wr_attempts x)
        = records_weight M ob + (M - (wr_attempts x + 1))"
      by (simp add: weight_def)
    then show ?thesis by linarith
  qed simp
  then show "records_weight M (fst (claim_head d at ob)) \<le> records_weight M ob"
    and "snd (claim_head d at ob) = Inr (Some r) \<Longrightarrow> records_weight M (fst (claim_head d at ob)) < records_weight M ob"
    by blast+
qed

lemma claim_members_weight:
  "outbox_ok ob \<Longrightarrow> records_weight M (fst (claim_members ds at ob)) \<le> records_weight M ob"
proof (induction ds arbitrary: ob)
  case (Cons d ds)
  obtain ob1 x where h: "claim_head d at ob = (ob1, x)" by (cases "claim_head d at ob")
  have "outbox_ok ob1"
    using outbox_ok_steps [OF Cons.prems claim_head_steps [OF Cons.prems, of _ d at]] h by simp
  from Cons.IH [OF this] claim_head_weight(1) [OF Cons.prems, of M d at] show ?case
    by (auto simp: h split: sum.split prod.split)
qed simp

lemma claim_head_batches [simp]: "ob_batches (fst (claim_head d at ob)) = ob_batches ob"
  by (simp add: claim_head_def Let_def split: option.split list.split)

lemma step_batch_records [simp]: "ob_records (fst (step_batch ch b d at ob)) = ob_records ob"
  by (auto simp: step_batch_def Let_def split: option.split gate.split)

lemma finite_waiting: "finite {b. map_option ba_gate (map_of (ob_batches ob) b) = Some Waiting}"
  by (rule finite_subset [of _ "dom (map_of (ob_batches ob))"]) (auto simp: finite_dom_map_of)

lemma step_batch_release:
  assumes "snd (step_batch ch b d at ob) = Release members"
  shows "waiting_batches (fst (step_batch ch b d at ob)) < waiting_batches ob"
proof -
  obtain ba where ba: "map_of (ob_batches ob) b = Some ba" "ba_gate ba = Waiting"
    using assms by (auto simp: step_batch_def split: option.splits gate.splits)
  have m: "map_of (ob_batches (fst (step_batch ch b d at ob))) = (map_of (ob_batches ob))(b \<mapsto>
      ba\<lparr>ba_ready := filter (is_ready_for ob b at) (ba_members ba), ba_gate := gate_after (Release members)\<rparr>)"
    using assms ba by (auto simp: step_batch_def Let_def simp del: gate_after.simps)
  let ?W = "\<lambda>ob. {b. map_option ba_gate (map_of (ob_batches ob) b) = Some Waiting}"
  have "?W (fst (step_batch ch b d at ob)) \<subset> ?W ob"
    using ba unfolding m by (auto split: if_splits)
  then show ?thesis unfolding waiting_batches_def by (rule psubset_card_mono [OF finite_waiting])
qed

lemma claim_alone_head:
  assumes "claim_alone d at ob = (ob', Inr (Some claim))"
  obtains r where "claim_head d at ob = (ob', Inr (Some r))" "claim = One r"
  using assms by (auto simp: claim_alone_def split: prod.splits sum.splits)

lemma claim_potential:
  assumes ok: "outbox_ok ob" and c: "claim_next ch d at ob = (ob', Inr (Some claim))"
  shows "potential M ob' < potential M ob"
  using ok
proof (cases rule: claim_next_cases [of ob ch d at])
  case (alone i r)
  then obtain x where "claim_head d at ob = (ob', Inr (Some x))"
    using c claim_alone_head by metis
  then show ?thesis
    using claim_head_weight(2) [OF ok, of d at x M] claim_head_batches [of d at ob]
    by (simp add: potential_def waiting_batches_def)
next
  case (straggler i r b)
  then obtain x where "claim_head d at ob = (ob', Inr (Some x))"
    using c step_batch_alone [of ch b d at ob] claim_alone_head by metis
  then show ?thesis
    using claim_head_weight(2) [OF ok, of d at x M] claim_head_batches [of d at ob]
    by (simp add: potential_def waiting_batches_def)
next
  case (release i r b members rs)
  let ?ob1 = "fst (step_batch ch b d at ob)"
  have ob': "ob' = fst (claim_members members at ?ob1)" using c release(6) by simp
  have "outbox_ok ?ob1" using ok by (simp add: outbox_ok_def)
  then have "records_weight M ob' \<le> records_weight M ?ob1" unfolding ob' by (rule claim_members_weight)
  moreover have "records_weight M ?ob1 = records_weight M ob" by (rule records_weight_cong) simp
  moreover have "waiting_batches ob' = waiting_batches ?ob1"
    unfolding ob' by (rule waiting_cong) simp
  ultimately show ?thesis using step_batch_release [OF release(4)] by (simp add: potential_def)
qed (use c in auto)



section \<open>Dispatching only settles and observes\<close>

definition work_step :: "chrono \<Rightarrow> outbox \<Rightarrow> outbox \<Rightarrow> bool" where
  "work_step ch ob ob' \<longleftrightarrow> (\<exists>i out at. ob' = fst (settle ch i out at ob)) \<or> (\<exists>d st. ob' = observe d st ob)"

abbreviation worked :: "chrono \<Rightarrow> outbox \<Rightarrow> outbox \<Rightarrow> bool" where
  "worked ch \<equiv> (work_step ch)\<^sup>*\<^sup>*"

lemma work_step_op: "work_step ch ob ob' \<Longrightarrow> outbox_op ch M ob ob'"
  by (auto simp: work_step_def intro: op_settle op_observe)

lemma work_step_potential:
  assumes "work_step ch ob ob'" and "reachable ch M ob"
  shows "potential M ob' \<le> potential M ob"
  using assms reachable_ok [OF assms(2)] settle_potential by (auto simp: work_step_def)

lemma worked_facts:
  assumes "worked ch ob ob'" and "reachable ch M ob"
  shows "reachable ch M ob' \<and> potential M ob' \<le> potential M ob"
  using assms
proof (induction rule: rtranclp_induct)
  case (step ob1 ob2)
  then show ?case
    using work_step_potential work_step_op reachable.step le_trans by blast
qed simp

lemma now_frame [simp]: "rl_outbox (snd (now s)) = rl_outbox s" "relay_id (snd (now s)) = relay_id s"
  by (simp_all add: now_def relay_id_def fun_eq_iff)

lemma settle_now_outbox:
  "rl_outbox (settle_now ch i out s) = fst (settle ch i out (rl_clock s (rl_tick s)) (rl_outbox s))"
  by (simp add: settle_now_def now_def)

lemma settle_now_worked: "worked ch (rl_outbox s) (rl_outbox (settle_now ch i out s))"
  by (rule r_into_rtranclp) (auto simp: work_step_def settle_now_outbox)

lemma observe_state_worked:
  assumes "observe_state wn h s = (st, s')"
  shows "worked ch (rl_outbox s) (rl_outbox s')" and "relay_id s' = relay_id s"
    and "map_of (ob_records (rl_outbox s')) = map_of (ob_records (rl_outbox s))"
proof -
  obtain r s1 where r: "run_handle h (query_instruction wn Q_RunningState) s = (r, s1)"
    by (cases "run_handle h (query_instruction wn Q_RunningState) s")
  note fr = run_handle_frame [OF r]
  have "s' = s1 \<or> (\<exists>d state. s' = s1\<lparr>rl_outbox := observe d state (rl_outbox s1)\<rparr>)"
    using assms by (auto simp: observe_state_def r split: sum.splits option.splits)
  then have "worked ch (rl_outbox s) (rl_outbox s') \<and> relay_id s' = relay_id s
    \<and> map_of (ob_records (rl_outbox s')) = map_of (ob_records (rl_outbox s))"
  proof (elim disjE exE)
    fix d state assume s': "s' = s1\<lparr>rl_outbox := observe d state (rl_outbox s1)\<rparr>"
    have "work_step ch (rl_outbox s) (rl_outbox s')" using s' fr(1) by (auto simp: work_step_def)
    moreover have "relay_id s' = relay_id s1" by (simp add: s' relay_id_def fun_eq_iff)
    moreover have "map_of (ob_records (rl_outbox s')) = map_of (ob_records (rl_outbox s))"
      by (simp add: s' fr(1) observe_def)
    ultimately show ?thesis using fr(2) by auto
  qed (use fr in simp)
  then show "worked ch (rl_outbox s) (rl_outbox s')" "relay_id s' = relay_id s"
    "map_of (ob_records (rl_outbox s')) = map_of (ob_records (rl_outbox s))" by blast+
qed

lemma perform_worked: "worked ch (rl_outbox s) (rl_outbox (perform wn ch h r s))"
proof (cases "to_instruction wn (wr_intent r)")
  case (Inl e)
  then show ?thesis using settle_now_worked by (simp add: perform_def report_def)
next
  case (Inr i)
  obtain x s1 where x: "run_handle h i s = (x, s1)" by (cases "run_handle h i s")
  show ?thesis
    using Inr x settle_now_worked [of ch s1] run_handle_frame(1) [OF x]
    by (cases x) (auto simp: perform_def report_def)
qed

lemma dispatch_alone_worked: "worked ch (rl_outbox s) (rl_outbox (dispatch_alone wn ch h r s))"
proof (cases "is_metadata (wr_intent r)")
  case True
  obtain st s1 where o: "observe_state wn h s = (st, s1)" by (cases "observe_state wn h s")
  have "worked ch (rl_outbox s1) (rl_outbox (dispatch_alone wn ch h r s))"
    using True o perform_worked settle_now_worked by (auto simp: dispatch_alone_def split: option.split)
  with observe_state_worked(1) [OF o] show ?thesis by (rule rtranclp_trans)
qed (simp add: dispatch_alone_def perform_worked)

lemma settle_all_worked: "worked ch (rl_outbox s) (rl_outbox (settle_all ch rs f s))"
proof (induction rs arbitrary: s)
  case (Cons r rs)
  show ?case using settle_now_worked [of ch s] Cons.IH by (auto simp: report_def intro: rtranclp_trans)
qed simp

text \<open>Every branch of a batch dispatch settles every row.\<close>

lemma dispatch_batch_settles:
  obtains (empty) "records = []" "dispatch_batch wn ch b records s = s"
  | (settled) f s1 where "rl_outbox s1 = rl_outbox s" "dispatch_batch wn ch b records s = settle_all ch records f s1"
proof (cases records)
  case Nil
  then show ?thesis using empty by (simp add: dispatch_batch_def)
next
  case (Cons first rest)
  show ?thesis
  proof (cases "to_instruction wn (wr_intent first)")
    case (Inl e)
    then show ?thesis using Cons by (intro settled [of s]) (simp_all add: dispatch_batch_def)
  next
    case i: (Inr i)
    show ?thesis
    proof (cases "lookup_members s records")
      case (Inl d)
      then show ?thesis using Cons i by (intro settled [of s]) (simp_all add: dispatch_batch_def)
    next
      case (Inr hs)
      obtain rs s1 where m: "run_members i hs s = (rs, s1)" by (cases "run_members i hs s")
      have "\<exists>f. dispatch_batch wn ch b records s = settle_all ch records f s1"
        unfolding dispatch_batch_def Let_def using Cons i Inr m
        by (simp del: settle_all.simps lookup_members.simps split: if_split) blast
      then show ?thesis using run_members_frame [OF m] settled [of s1] by blast
    qed
  qed
qed

lemma dispatch_batch_worked: "worked ch (rl_outbox s) (rl_outbox (dispatch_batch wn ch b records s))"
proof (cases rule: dispatch_batch_settles [of records wn ch b s])
  case (settled f s1)
  then show ?thesis using settle_all_worked [of ch s1 records f] by simp
qed simp

lemma dispatch_one_worked:
  assumes "dispatch_one wn ch h s = (True, s')"
  obtains at ob claim where "claim_next ch (relay_id s h) at (rl_outbox s) = (ob, Inr (Some claim))"
    "worked ch ob (rl_outbox s')"
proof -
  obtain at s0 where n: "now s = (at, s0)" by (cases "now s")
  then have s0: "rl_outbox s0 = rl_outbox s" "relay_id s0 = relay_id s" using now_frame [of s] by simp_all
  obtain ob x where c: "claim_next ch (relay_id s h) at (rl_outbox s) = (ob, x)"
    by (cases "claim_next ch (relay_id s h) at (rl_outbox s)")
  then obtain claim where x: "x = Inr (Some claim)"
    and s': "s' = (case claim of One r \<Rightarrow> dispatch_alone wn ch h r (s0\<lparr>rl_outbox := ob\<rparr>)
        | Batch b records \<Rightarrow> dispatch_batch wn ch b records (s0\<lparr>rl_outbox := ob\<rparr>))"
    using assms by (auto simp: dispatch_one_def n s0 Let_def split: sum.splits option.splits)
  have "worked ch ob (rl_outbox s')"
    using dispatch_alone_worked [of ch "s0\<lparr>rl_outbox := ob\<rparr>"] dispatch_batch_worked [of ch "s0\<lparr>rl_outbox := ob\<rparr>"]
    by (auto simp: s' split: claim.split)
  with c x that show ?thesis by blast
qed

lemma drain_ends:
  assumes "reachable ch M (rl_outbox s)" and "potential M (rl_outbox s) < n"
  shows "\<exists>s'. drain_tick wn ch h n s = Some s' \<and> reachable ch M (rl_outbox s')"
  using assms
proof (induction n arbitrary: s)
  case (Suc n)
  obtain more s1 where d: "dispatch_one wn ch h s = (more, s1)" by (cases "dispatch_one wn ch h s")
  show ?case
  proof (cases more)
    case True
    then obtain at ob claim where c: "claim_next ch (relay_id s h) at (rl_outbox s) = (ob, Inr (Some claim))"
      and w: "worked ch ob (rl_outbox s1)" using d dispatch_one_worked by metis
    have "reachable ch M ob"
      using reachable.step [OF Suc.prems(1) op_claim [of ch M "rl_outbox s" "relay_id s h" at]] c by simp
    note r1 = worked_facts [OF w this]
    have "potential M ob < potential M (rl_outbox s)"
      using claim_potential [OF _ c] reachable_ok [OF Suc.prems(1)] by blast
    with Suc.IH [of s1] Suc.prems(2) r1 show ?thesis by (auto simp: d True)
  next
    case False
    have "rl_outbox s1 = fst (claim_next ch (relay_id s h) (fst (now s)) (rl_outbox s))"
      using d False now_frame [of s]
      by (cases "now s") (auto simp: dispatch_one_def Let_def split: prod.splits sum.splits option.splits)
    then have "reachable ch M (rl_outbox s1)" using reachable.step [OF Suc.prems(1) op_claim] by simp
    then show ?thesis by (simp add: d False)
  qed
qed simp

text \<open>
  C35. A drain ends. From any reachable outbox, one tick of a relay loop makes only finitely many
  dispatches before a claim finds nothing to do: at most as many as the retry budgets of the
  unsettled writes and the batches still waiting allow.
\<close>

theorem drain_tick_ends:
  assumes "reachable ch M (rl_outbox s)" and "potential M (rl_outbox s) < n"
  shows "\<exists>s'. drain_tick wn ch h n s = Some s' \<and> reachable ch M (rl_outbox s')"
  by (rule drain_ends [OF assms])


section \<open>Every claimed write is settled\<close>

definition landed :: "outbox \<Rightarrow> write_id \<Rightarrow> bool" where
  "landed ob i \<longleftrightarrow> (\<exists>r. write_of ob i = Some r \<and> wr_status r \<noteq> InFlight)"

lemma settle_lands:
  assumes "write_of ob i \<noteq> None"
  shows "landed (fst (settle ch i out at ob)) i"
  using assms settle_result [of ch i out at ob "fst (settle ch i out at ob)" "snd (settle ch i out at ob)"]
  by (auto simp: landed_def split: option.splits if_splits outcome.splits)

lemma settle_keeps:
  assumes "j \<noteq> i"
  shows "write_of (fst (settle ch i out at ob)) j = write_of ob j"
  using assms settle_result [of ch i out at ob "fst (settle ch i out at ob)" "snd (settle ch i out at ob)"]
  by (auto split: option.splits if_splits)

lemma settle_stays_landed: "landed ob j \<Longrightarrow> landed (fst (settle ch i out at ob)) j"
  using settle_lands [of ob i ch out at] settle_keeps [of j i ch out at ob]
  by (cases "j = i") (auto simp: landed_def)

lemma settle_stays_known: "write_of ob j \<noteq> None \<Longrightarrow> write_of (fst (settle ch i out at ob)) j \<noteq> None"
  using settle_lands [of ob i ch out at] settle_keeps [of j i ch out at ob]
  by (cases "j = i") (auto simp: landed_def)

lemma settle_all_lands:
  assumes "\<forall>r \<in> set rs. write_of (rl_outbox s) (wr_id r) \<noteq> None"
  shows "(\<forall>r \<in> set rs. landed (rl_outbox (settle_all ch rs f s)) (wr_id r))
    \<and> (\<forall>i. landed (rl_outbox s) i \<longrightarrow> landed (rl_outbox (settle_all ch rs f s)) i)"
  using assms
proof (induction rs arbitrary: s)
  case (Cons r rs)
  let ?s = "report ch (wr_id r) (f r) s"
  have ob: "rl_outbox ?s = fst (settle ch (wr_id r) (f r) (rl_clock s (rl_tick s)) (rl_outbox s))"
    by (simp add: report_def settle_now_outbox)
  have "\<forall>x \<in> set rs. write_of (rl_outbox ?s) (wr_id x) \<noteq> None"
    using Cons.prems settle_stays_known unfolding ob by auto
  note IH = Cons.IH [OF this]
  have "landed (rl_outbox ?s) (wr_id r)" using Cons.prems settle_lands unfolding ob by auto
  moreover have "\<forall>i. landed (rl_outbox s) i \<longrightarrow> landed (rl_outbox ?s) i"
    using settle_stays_landed unfolding ob by blast
  ultimately show ?case using IH by simp
qed simp

lemma claim_head_rows:
  assumes "outbox_ok ob"
  shows "snd (claim_head d at ob) = Inr (Some r) \<Longrightarrow>
      write_of (fst (claim_head d at ob)) (wr_id r) = Some r \<and> wr_status r = InFlight"
    and "write_of ob i = Some x \<Longrightarrow> wr_status x = InFlight \<Longrightarrow> write_of (fst (claim_head d at ob)) i = Some x"
proof -
  have "(snd (claim_head d at ob) = Inr (Some r) \<longrightarrow>
      write_of (fst (claim_head d at ob)) (wr_id r) = Some r \<and> wr_status r = InFlight)
    \<and> (write_of ob i = Some x \<and> wr_status x = InFlight \<longrightarrow> write_of (fst (claim_head d at ob)) i = Some x)"
    using assms
  proof (cases rule: claim_head_cases [of ob d at])
    case (claimed j q y y')
    have "map_of (ob_records (fst (claim_head d at ob))) = (map_of (ob_records ob))(j \<mapsto> y')"
      using arg_cong [OF claimed(9), of lv_records] by simp
    moreover have "wr_id y' = j"
      using claimed(2,5) lines_okD(1) [OF assms [unfolded outbox_ok_def], of j y] by (simp add: same_write_def)
    ultimately show ?thesis using claimed by (auto simp: write_of_def)
  qed simp
  then show "snd (claim_head d at ob) = Inr (Some r) \<Longrightarrow>
      write_of (fst (claim_head d at ob)) (wr_id r) = Some r \<and> wr_status r = InFlight"
    and "write_of ob i = Some x \<Longrightarrow> wr_status x = InFlight \<Longrightarrow> write_of (fst (claim_head d at ob)) i = Some x"
    by blast+
qed

lemma claim_members_flying:
  "outbox_ok ob \<Longrightarrow> claim_members ds at ob = (ob', Inr rs) \<Longrightarrow>
     (\<forall>r \<in> set rs. write_of ob' (wr_id r) = Some r \<and> wr_status r = InFlight)
     \<and> (\<forall>i x. write_of ob i = Some x \<longrightarrow> wr_status x = InFlight \<longrightarrow> write_of ob' i = Some x)"
proof (induction ds arbitrary: ob rs)
  case (Cons d ds)
  obtain ob1 r where h: "claim_head d at ob = (ob1, Inr r)"
    using Cons.prems(2) by (auto split: prod.splits sum.splits)
  obtain rs1 where m: "claim_members ds at ob1 = (ob', Inr rs1)"
    and rs: "rs = (case r of None \<Rightarrow> rs1 | Some r' \<Rightarrow> r' # rs1)"
    using Cons.prems(2) h by (auto split: prod.splits sum.splits)
  have "outbox_ok ob1"
    using outbox_ok_steps [OF Cons.prems(1) claim_head_steps [OF Cons.prems(1), of _ d at]] h by simp
  note IH = Cons.IH [OF this m]
  show ?case using IH claim_head_rows [OF Cons.prems(1), where d = d and at = at] h
    by (auto simp: rs split: option.splits)
qed auto

lemma claimed_flying:
  assumes ok: "outbox_ok ob" and c: "claim_next ch d at ob = (ob', Inr (Some claim))"
  shows "\<forall>r \<in> set (claim_rows claim). write_of ob' (wr_id r) = Some r \<and> wr_status r = InFlight"
  using ok
proof (cases rule: claim_next_cases [of ob ch d at])
  case (alone i r)
  then obtain x where "claim_head d at ob = (ob', Inr (Some x))" "claim = One x"
    using c claim_alone_head by metis
  then show ?thesis using claim_head_rows(1) [OF ok, of d at x] by simp
next
  case (straggler i r b)
  then obtain x where "claim_head d at ob = (ob', Inr (Some x))" "claim = One x"
    using c step_batch_alone [of ch b d at ob] claim_alone_head by metis
  then show ?thesis using claim_head_rows(1) [OF ok, of d at x] by simp
next
  case (release i r b members rs)
  have "outbox_ok (fst (step_batch ch b d at ob))" using ok by (simp add: outbox_ok_def)
  moreover have "claim_members members at (fst (step_batch ch b d at ob)) = (ob', Inr rs)" "claim = Batch b rs"
    using c release(5,6) by (auto simp: prod_eq_iff)
  ultimately show ?thesis using claim_members_flying by simp
qed (use c in auto)

lemma perform_lands:
  assumes "write_of (rl_outbox s) (wr_id r) \<noteq> None"
  shows "landed (rl_outbox (perform wn ch h r s)) (wr_id r)"
proof (cases "to_instruction wn (wr_intent r)")
  case (Inl e)
  then show ?thesis using assms settle_lands by (simp add: perform_def report_def settle_now_outbox)
next
  case (Inr i)
  obtain x s1 where x: "run_handle h i s = (x, s1)" by (cases "run_handle h i s")
  show ?thesis
    using Inr x assms settle_lands run_handle_frame(1) [OF x]
    by (cases x) (simp_all add: perform_def report_def settle_now_outbox)
qed

lemma dispatch_alone_lands:
  assumes "write_of (rl_outbox s) (wr_id r) \<noteq> None"
  shows "landed (rl_outbox (dispatch_alone wn ch h r s)) (wr_id r)"
proof (cases "is_metadata (wr_intent r)")
  case True
  obtain st s1 where o: "observe_state wn h s = (st, s1)" by (cases "observe_state wn h s")
  have "write_of (rl_outbox s1) (wr_id r) \<noteq> None"
    using assms observe_state_worked(3) [OF o] by (simp add: write_of_def)
  then show ?thesis
    using True o perform_lands settle_lands
    by (simp add: dispatch_alone_def settle_now_outbox split: option.split)
qed (simp add: dispatch_alone_def perform_lands assms)

text \<open>
  C4. A dispatch never leaves a write in flight: whatever the relay claims, alone or as a batch,
  and however the dispatch goes (a value that cannot be translated, a member the registry does not
  know, a device that fails), every row it claimed has been settled or put back when it returns.
\<close>

theorem dispatch_settles_claims:
  assumes "reachable ch M (rl_outbox s)"
    and "claim_next ch (relay_id s h) (rl_clock s (rl_tick s)) (rl_outbox s) = (ob, Inr (Some claim))"
    and "dispatch_one wn ch h s = (again, s')"
  shows "again \<and> (\<forall>r \<in> set (claim_rows claim). \<exists>r'. write_of (rl_outbox s') (wr_id r) = Some r'
      \<and> wr_status r' \<noteq> InFlight)"
proof -
  let ?s = "s\<lparr>rl_tick := Suc (rl_tick s), rl_outbox := ob\<rparr>"
  have s': "s' = (case claim of One r \<Rightarrow> dispatch_alone wn ch h r ?s
      | Batch b records \<Rightarrow> dispatch_batch wn ch b records ?s)" and again: again
    using assms(2,3) now_frame(2) [of s] by (auto simp: dispatch_one_def now_def Let_def)
  have known: "\<forall>r \<in> set (claim_rows claim). write_of (rl_outbox ?s) (wr_id r) \<noteq> None"
    using claimed_flying [OF _ assms(2)] reachable_ok [OF assms(1)] by auto
  have "landed (rl_outbox s') (wr_id r)" if r: "r \<in> set (claim_rows claim)" for r
  proof (cases claim)
    case (One x)
    then show ?thesis using known r dispatch_alone_lands [of ?s r wn ch h] by (simp add: s')
  next
    case (Batch b records)
    show ?thesis
    proof (cases rule: dispatch_batch_settles [of records wn ch b ?s])
      case empty
      then show ?thesis using Batch r by simp
    next
      case (settled f s1)
      then show ?thesis using Batch r known settle_all_lands [of records s1 ch f] by (simp add: s')
    qed
  qed
  then show ?thesis using again by (auto simp: landed_def)
qed


text \<open>A relay over one unreachable device with a start waiting for it.\<close>

definition relay_example :: "outbox \<Rightarrow> relay" where
  "relay_example ob = \<lparr>rl_registry = registry_build [plain_device ''x'' ''10.0.0.7''] [],
     rl_outbox = ob, rl_worlds = (\<lambda>h. demo_world), rl_clock = (\<lambda>n. replicate (n + 2) (CHR ''t'')), rl_tick = 0\<rparr>"

lemma relay_example_id [simp]: "relay_id (relay_example ob) 0 = ''x''"
  by (simp add: relay_example_def relay_id_def handle_config_def registry_build_def rebuild_groups_def
      insert_new_def empty_registry_def plain_device_def)

lemma relay_example_outbox [simp]: "rl_outbox (relay_example ob) = ob"
  by (simp add: relay_example_def)

theorem drain_tick_ends_witness:
  "\<exists>s'. drain_tick plain_winnow tick_chrono 0 (Suc (potential 2 recording_box)) (relay_example recording_box) = Some s'"
  using drain_tick_ends [of tick_chrono 2 "relay_example recording_box" "Suc (potential 2 recording_box)" plain_winnow 0]
    reachable_recording_box by (auto simp: relay_example_def)

definition flying_box :: outbox where
  "flying_box = fst (claim_next tick_chrono ''x'' ''tt'' recording_box)"

lemma flying_claim:
  "\<exists>r. claim_next tick_chrono ''x'' ''tt'' recording_box = (flying_box, Inr (Some (One r)))
     \<and> in_flight flying_box ''x'' = [r] \<and> wr_intent r = StartRecording \<and> wr_attempts r = 1
     \<and> wr_device r = ''x'' \<and> ob_max_attempts flying_box = 2"
  unfolding flying_box_def recording_box_def by (simp add: example_defs in_flight_def List.map_filter_def)

theorem dispatch_settles_claims_witness:
  "\<exists>r again s'. claim_next tick_chrono ''x'' ''tt'' recording_box = (flying_box, Inr (Some (One r)))
     \<and> dispatch_one plain_winnow tick_chrono 0 (relay_example recording_box) = (again, s')
     \<and> (\<exists>r'. write_of (rl_outbox s') (wr_id r) = Some r' \<and> wr_status r' \<noteq> InFlight)"
proof -
  let ?s = "relay_example recording_box"
  obtain r where r: "claim_next tick_chrono ''x'' ''tt'' recording_box = (flying_box, Inr (Some (One r)))"
    using flying_claim by blast
  obtain again s' where d: "dispatch_one plain_winnow tick_chrono 0 ?s = (again, s')"
    by (cases "dispatch_one plain_winnow tick_chrono 0 ?s")
  have "rl_clock ?s (rl_tick ?s) = ''tt''" "rl_outbox ?s = recording_box"
    by (simp_all only: relay_example_outbox, simp add: relay_example_def numeral_2_eq_2)
  with dispatch_settles_claims [of tick_chrono 2 ?s 0 flying_box "One r" plain_winnow again s'] reachable_recording_box r d
  show ?thesis by (auto intro: exI [of _ r])
qed


section \<open>Recovery\<close>

lemma in_flight_rows:
  assumes "outbox_ok ob"
  shows "r \<in> set (in_flight ob d) \<Longrightarrow> write_of ob (wr_id r) = Some r \<and> wr_status r = InFlight \<and> wr_device r = d"
    and "distinct (map wr_id (in_flight ob d))"
proof -
  have rows: "write_of ob (wr_id r) = Some r \<and> wr_status r = InFlight \<and> wr_device r = d"
    if r: "r \<in> set (in_flight ob d)" for r
  proof -
    obtain log where log: "map_of (ob_logs ob) d = Some log" "wr_status r = InFlight"
      "r \<in> set (List.map_filter (map_of (ob_records ob)) (dl_history log))"
      using r by (cases "map_of (ob_logs ob) d") (auto simp: in_flight_def)
    then obtain i where i: "map_of (ob_logs ob) d = Some log" "i \<in> set (dl_history log)"
      "map_of (ob_records ob) i = Some r" "wr_status r = InFlight"
      by (auto simp: List.map_filter_def)
    then show ?thesis
      using lines_okD(1) [OF assms [unfolded outbox_ok_def], of i r]
        lines_okD(4) [OF assms [unfolded outbox_ok_def], of i d] log_of_Some [OF i(1)]
      by (auto simp: write_of_def)
  qed
  then show "r \<in> set (in_flight ob d) \<Longrightarrow> write_of ob (wr_id r) = Some r \<and> wr_status r = InFlight \<and> wr_device r = d"
    by blast
  have key: "map wr_id (List.map_filter (map_of (ob_records ob)) is) = filter (\<lambda>i. map_of (ob_records ob) i \<noteq> None) is" for "is"
    using lines_okD(1) [OF assms [unfolded outbox_ok_def]]
    by (induction "is") (auto simp: List.map_filter_def)
  have "distinct (map wr_id (filter P rs))" if "distinct (map wr_id rs)" for P and rs :: "write_record list"
    using that by (rule distinct_map_filter)
  then show "distinct (map wr_id (in_flight ob d))"
    using lines_okD(6) [OF assms [unfolded outbox_ok_def], of d] log_of_Some [of ob d]
    by (auto simp: in_flight_def key split: option.splits)
qed

text \<open>What a settled row looks like, given its outcome and the retry budget.\<close>

definition settles_as :: "nat \<Rightarrow> write_record \<Rightarrow> outcome \<Rightarrow> write_record \<Rightarrow> bool" where
  "settles_as budget r out r' \<longleftrightarrow> same_write r r' \<and> wr_attempts r' = wr_attempts r \<and>
     (case out of
        OSucceeded v \<Rightarrow> wr_status r' = Succeeded v
      | OFailed reason \<Rightarrow> wr_status r' = (if wr_attempts r < budget then Pending else Failed reason))"

lemma settle_as:
  assumes "write_of ob i = Some r" and "wr_status r = InFlight"
  shows "\<exists>r'. write_of (fst (settle ch i out at ob)) i = Some r' \<and> settles_as (ob_max_attempts ob) r out r'"
  using assms settle_result [of ch i out at ob "fst (settle ch i out at ob)" "snd (settle ch i out at ob)"]
  by (auto simp: settles_as_def same_write_def split: outcome.splits if_splits)

lemma settle_all_rows:
  assumes "distinct (map wr_id rs)"
    and "\<forall>r \<in> set rs. write_of (rl_outbox s) (wr_id r) = Some r \<and> wr_status r = InFlight"
  shows "(\<forall>r \<in> set rs. \<exists>r'. write_of (rl_outbox (settle_all ch rs f s)) (wr_id r) = Some r'
      \<and> settles_as (ob_max_attempts (rl_outbox s)) r (f r) r')
    \<and> (\<forall>i. i \<notin> set (map wr_id rs) \<longrightarrow> write_of (rl_outbox (settle_all ch rs f s)) i = write_of (rl_outbox s) i)"
  using assms
proof (induction rs arbitrary: s)
  case (Cons r rs)
  let ?s = "report ch (wr_id r) (f r) s"
  have ob: "rl_outbox ?s = fst (settle ch (wr_id r) (f r) (rl_clock s (rl_tick s)) (rl_outbox s))"
    by (simp add: report_def settle_now_outbox)
  have keep: "i \<noteq> wr_id r \<Longrightarrow> write_of (rl_outbox ?s) i = write_of (rl_outbox s) i" for i
    unfolding ob by (rule settle_keeps)
  have "\<forall>x \<in> set rs. wr_id x \<noteq> wr_id r" using Cons.prems(1) by (metis distinct.simps(2) image_eqI list.simps(9) set_map)
  then have "\<forall>x \<in> set rs. write_of (rl_outbox ?s) (wr_id x) = Some x \<and> wr_status x = InFlight"
    using Cons.prems(2) keep by simp
  note IH = Cons.IH [OF _ this]
  obtain r' where "write_of (rl_outbox ?s) (wr_id r) = Some r'" "settles_as (ob_max_attempts (rl_outbox s)) r (f r) r'"
    unfolding ob using settle_as [of "rl_outbox s" "wr_id r" r] Cons.prems(2) by (metis list.set_intros(1))
  moreover have "ob_max_attempts (rl_outbox ?s) = ob_max_attempts (rl_outbox s)" unfolding ob by simp
  ultimately show ?case using IH Cons.prems(1) keep by auto
qed simp

lemma settle_stranded_all:
  "settle_stranded ch observed rs s = settle_all ch rs (\<lambda>r. recovered (wr_intent r) observed) s"
  by (induction rs arbitrary: s) (simp_all add: report_def)

text \<open>
  What recovery does with the writes a previous process left in flight. None stays in flight.
  A lifecycle command whose effect the device shows is settled as done; every other write, also a
  lifecycle command the device did not answer about or shows no effect of, goes back to its
  device's queue for another attempt while its budget lasts, and fails for good after that.
\<close>

theorem recover_settles:
  assumes "reachable ch M (rl_outbox s)" and "observe_state wn h s = (observed, s1)"
    and "r \<in> set (in_flight (rl_outbox s) (relay_id s h))"
  shows "\<exists>r'. write_of (rl_outbox (recover wn ch h s)) (wr_id r) = Some r'
    \<and> (case recovered (wr_intent r) observed of
         OSucceeded v \<Rightarrow> wr_status r' = Succeeded v
       | OFailed reason \<Rightarrow>
           if wr_attempts r < ob_max_attempts (rl_outbox s)
           then wr_status r' = Pending
             \<and> wr_id r \<in> set (dl_queue (log_of (rl_outbox (recover wn ch h s)) (relay_id s h)))
           else wr_status r' = Failed reason)"
proof -
  let ?rs = "in_flight (rl_outbox s) (relay_id s h)"
  have ok: "outbox_ok (rl_outbox s)" using reachable_ok [OF assms(1)] by simp
  note o = observe_state_worked [OF assms(2)]
  let ?out = "\<lambda>r. recovered (wr_intent r) observed"
  have rec: "recover wn ch h s = settle_all ch ?rs ?out s1"
    using assms(2,3) by (cases ?rs) (auto simp: recover_def settle_stranded_all)
  have "\<forall>r \<in> set ?rs. write_of (rl_outbox s1) (wr_id r) = Some r \<and> wr_status r = InFlight"
    using in_flight_rows(1) [OF ok] o(3) by (simp add: write_of_def)
  note st = settle_all_rows [OF in_flight_rows(2) [OF ok] this, of ch ?out, folded rec]
  then obtain r' where r': "write_of (rl_outbox (recover wn ch h s)) (wr_id r) = Some r'"
    "settles_as (ob_max_attempts (rl_outbox s1)) r (recovered (wr_intent r) observed) r'"
    using assms(3) by blast
  have budget: "ob_max_attempts (rl_outbox s1) = ob_max_attempts (rl_outbox s)"
    using assms(2) run_handle_frame(1) by (fastforce simp: observe_state_def split: prod.splits sum.splits option.splits)
  have "reachable ch M (rl_outbox (recover wn ch h s))"
    using worked_facts [OF rtranclp_trans [OF o(1)] assms(1)] settle_all_worked [of ch s1 ?rs ?out] rec by simp
  then have "outbox_ok (rl_outbox (recover wn ch h s))" using reachable_ok by blast
  then have "wr_status r' = Pending \<Longrightarrow> wr_id r \<in> set (dl_queue (log_of (rl_outbox (recover wn ch h s)) (wr_device r')))"
    using lines_okD(3) r'(1) by (fastforce simp: outbox_ok_def write_of_def)
  moreover have "wr_device r' = relay_id s h"
    using r'(2) in_flight_rows(1) [OF ok assms(3)] by (simp add: settles_as_def same_write_def)
  ultimately show ?thesis
    using r' budget by (auto simp: settles_as_def split: outcome.splits)
qed


text \<open>The start of the example, left in flight; the device is still unreachable.\<close>

lemma relay_example_observe:
  "fst (observe_state plain_winnow 0 (relay_example ob)) = None"
  by (simp add: observe_state_def run_handle_def relay_example_def deref_def registry_build_def rebuild_groups_def
      insert_new_def empty_registry_def device_example_defs)

theorem recover_settles_witness:
  "\<exists>r r'. in_flight flying_box ''x'' = [r] \<and> wr_intent r = StartRecording
     \<and> write_of (rl_outbox (recover plain_winnow tick_chrono 0 (relay_example flying_box))) (wr_id r) = Some r'
     \<and> wr_status r' = Pending"
proof -
  let ?s = "relay_example flying_box"
  have "reachable tick_chrono 2 flying_box"
    unfolding flying_box_def by (rule reachable.step [OF reachable_recording_box]) (rule op_claim)
  then have reach: "reachable tick_chrono 2 (rl_outbox ?s)" by simp
  obtain r where r: "in_flight flying_box ''x'' = [r]" "wr_intent r = StartRecording" "wr_attempts r = 1"
      "ob_max_attempts flying_box = 2"
    using flying_claim by blast
  obtain s1 where "observe_state plain_winnow 0 ?s = (None, s1)"
    using relay_example_observe [of flying_box] by (metis prod.collapse)
  from recover_settles [OF reach this, of r] r show ?thesis
    by auto
qed


section \<open>What a setting can smuggle\<close>

text \<open>A unit name that ends the request early and carries a whole register write behind it.\<close>

definition smuggled :: "winnow \<Rightarrow> register \<Rightarrow> string \<Rightarrow> string" where
  "smuggled wn r v = ''x'' @ setting_verb S_UnitName @ [CR] @ in_payload (register_instruction wn r v)"

text \<open>
  The recording freeze can be written around. A setting write is admitted while a device
  records, where a metadata write is refused; and free-text settings are sent as they are, carriage
  returns included. So setting the unit name to a text with a carriage return in it sends the
  device, byte for byte, a complete write of any metadata register (within the 63 characters of
  a unit name).
\<close>

theorem setting_smuggles_metadata:
  assumes "chars_count (smuggled wn r v) \<le> 63"
  shows "\<exists>i u. to_instruction wn (SetSetting ''UNIT_NAME'' (smuggled wn r v)) = Inr i
    \<and> setting_instruction wn S_UnitName ''x'' = Inr u
    \<and> in_payload i = in_payload u @ in_payload (register_instruction wn r v) @ setting_verb S_UnitName @ [CR]
    \<and> admit Recording (verb_of (SetSetting ''UNIT_NAME'' (smuggled wn r v))) = Inr Recording
    \<and> admit Recording (verb_of (SetMetadata f v)) = Inl MetadataFrozen"
proof -
  have "catalog_from_str register_catalog ''UNIT_NAME'' = Inl (UnknownInstruction ''UNIT_NAME'')" by code_simp
  moreover have "catalog_from_str setting_catalog ''UNIT_NAME'' = Inr S_UnitName" by code_simp
  moreover have "chars_count ''x'' \<le> 63" by code_simp
  ultimately show ?thesis using assms by (simp add: setting_instruction_def smuggled_def Let_def)
qed

theorem setting_smuggles_metadata_witness:
  "\<exists>i u. to_instruction plain_winnow (SetSetting ''UNIT_NAME'' (smuggled plain_winnow R_Title ''taken'')) = Inr i
     \<and> setting_instruction plain_winnow S_UnitName ''x'' = Inr u
     \<and> in_payload i = in_payload u @ in_payload (register_instruction plain_winnow R_Title ''taken'')
         @ setting_verb S_UnitName @ [CR]"
proof -
  have "chars_count (smuggled plain_winnow R_Title ''taken'') \<le> 63" by code_simp
  from setting_smuggles_metadata [OF this] show ?thesis by blast
qed



section \<open>Group dispatch\<close>

lemma deref_put_link: "k \<noteq> h \<Longrightarrow> deref (put_link h dev rg) k = deref rg k"
  by (simp add: deref_def put_link_def Let_def)

lemma run_members_each:
  assumes "distinct hs" and "run_members i hs s = (rs, s')"
  shows "rs = map (\<lambda>h. (relay_id s h, fst (run i (deref (rl_registry s) h) (rl_worlds s h)))) hs"
  using assms
proof (induction hs arbitrary: s rs s')
  case (Cons h hs)
  obtain r s1 where r: "run_handle h i s = (r, s1)" by (cases "run_handle h i s")
  obtain rs1 s2 where m: "run_members i hs s1 = (rs1, s2)" by (cases "run_members i hs s1")
  have rs: "rs = (relay_id s h, r) # rs1" using Cons.prems(2) by (simp add: r m)
  have fst_r: "r = fst (run i (deref (rl_registry s) h) (rl_worlds s h))"
    using r by (auto simp: run_handle_def split: prod.splits)
  have "run i (deref (rl_registry s1) k) (rl_worlds s1 k) = run i (deref (rl_registry s) k) (rl_worlds s k)"
    if "k \<in> set hs" for k
  proof -
    have "k \<noteq> h" using that Cons.prems(1) by auto
    then show ?thesis using r by (auto simp: run_handle_def deref_put_link split: prod.splits)
  qed
  then show ?case
    using Cons.IH [OF _ m] Cons.prems(1) run_handle_frame(2) [OF r] fst_r by (simp add: rs)
qed simp

lemma lookup_members_all:
  assumes "\<forall>r \<in> set rs. registry_device (rl_registry s) (wr_device r) = Some (h (wr_device r))"
  shows "lookup_members s rs = Inr (map (\<lambda>r. h (wr_device r)) rs)"
  using assms by (induction rs) simp_all


text \<open>The results of one kind, by device, as the dispatch collects them.\<close>

lemma picked:
  "List.map_filter (\<lambda>(d, x). map_option (Pair d) (g x)) (map (\<lambda>r. (k r, out r)) rs)
     = map (\<lambda>r. (k r, the (g (out r)))) (filter (\<lambda>r. g (out r) \<noteq> None) rs)"
  by (induction rs) (auto simp: List.map_filter_simps split: option.split)

lemma map_of_picked:
  assumes "distinct (map k rs)" and "r \<in> set rs"
  shows "map_of (ocollect (List.map_filter (\<lambda>(d, x). map_option (Pair d) (g x)) (map (\<lambda>r. (k r, out r)) rs))) (k r)
      = g (out r)"
proof -
  let ?ys = "filter (\<lambda>r. g (out r) \<noteq> None) rs"
  have d: "distinct (map k ?ys)" using assms(1) by (rule distinct_map_filter)
  then have "map_of (ocollect (map (\<lambda>r. (k r, the (g (out r)))) ?ys)) = map_of (map (\<lambda>r. (k r, the (g (out r)))) ?ys)"
    by (intro map_of_ocollect_distinct) (simp add: comp_def)
  moreover have "map_of (map (\<lambda>r. (k r, the (g (out r)))) ?ys) (k r) = g (out r)"
  proof (cases "g (out r)")
    case None
    have "k r \<notin> k ` set ?ys"
      using assms None by (auto simp: distinct_map inj_on_def)
    then show ?thesis using None by (simp add: map_of_eq_None_iff image_image)
  next
    case (Some w)
    then have "(k r, w) \<in> set (map (\<lambda>r. (k r, the (g (out r)))) ?ys)" using assms(2) by force
    moreover have "distinct (map fst (map (\<lambda>r. (k r, the (g (out r)))) ?ys))" using d by (simp add: comp_def)
    ultimately show ?thesis using Some by (metis map_of_is_SomeI)
  qed
  ultimately show ?thesis by (simp add: picked)
qed

lemma failures_empty:
  "List.map_filter (\<lambda>(d, x). map_option (Pair d) (g x)) (map (\<lambda>r. (k r, out r)) rs) = []
     \<longleftrightarrow> (\<forall>r \<in> set rs. g (out r) = None)"
  by (auto simp: picked filter_empty_conv)

text \<open>What one member's exchange gave, seen from the state the batch found.\<close>

definition member_run :: "instruction \<Rightarrow> relay \<Rightarrow> string \<Rightarrow> device_error + core_value" where
  "member_run i s d = (let h = the (registry_device (rl_registry s) d)
     in fst (run i (deref (rl_registry s) h) (rl_worlds s h)))"

definition member_outcome :: "instruction \<Rightarrow> relay \<Rightarrow> batch_id \<Rightarrow> write_record list \<Rightarrow> write_record \<Rightarrow> outcome" where
  "member_outcome i s b rs r = (case member_run i s (wr_device r) of
     Inl e \<Rightarrow> OFailed (show_device_error e)
   | Inr v \<Rightarrow> OSucceeded (if \<forall>x \<in> set rs. \<not> isl (member_run i s (wr_device x)) then to_dto v
                          else accepted_in_batch b (wr_device r)))"

lemma dispatch_batch_registered:
  assumes reg: "registry_ok (rl_registry s)" and devs: "distinct (map wr_device rs)" and ne: "rs \<noteq> []"
    and ins: "to_instruction wn (wr_intent (hd rs)) = Inr i"
    and known: "\<forall>r \<in> set rs. registry_device (rl_registry s) (wr_device r) \<noteq> None"
  obtains f :: "write_record \<Rightarrow> outcome" and s1 where "dispatch_batch wn ch b rs s = settle_all ch rs f s1" "rl_outbox s1 = rl_outbox s"
    "\<forall>r \<in> set rs. f r = member_outcome i s b rs r"
proof -
  let ?h = "\<lambda>d. the (registry_device (rl_registry s) d)"
  let ?hs = "map (\<lambda>r. ?h (wr_device r)) rs"
  have look: "lookup_members s rs = Inr ?hs"
    using known by (intro lookup_members_all) auto
  have ids: "relay_id s (?h (wr_device r)) = wr_device r" if "r \<in> set rs" for r
    using known that reg by (auto simp: registry_ok_def registry_device_def relay_id_def)
  then have "distinct ?hs"
    using devs by (auto simp: distinct_map inj_on_def) metis
  moreover obtain out s1 where m: "run_members i ?hs s = (out, s1)" by (cases "run_members i ?hs s")
  ultimately have out: "out = map (\<lambda>r. (wr_device r, member_run i s (wr_device r))) rs"
    using run_members_each [of ?hs i s out s1] ids by (simp add: member_run_def Let_def)
  let ?fail = "\<lambda>x. case x of Inl e \<Rightarrow> Some (show_device_error e) | Inr v \<Rightarrow> None"
  let ?val = "\<lambda>x. case x of Inl e \<Rightarrow> None | Inr v \<Rightarrow> Some v"
  have shape: "(\<lambda>(d, x). case x of Inl e \<Rightarrow> Some (d, show_device_error e) | Inr v \<Rightarrow> None)
      = (\<lambda>(d :: string, x). map_option (Pair d) (?fail x))"
    "(\<lambda>(d, x). case x of Inl e \<Rightarrow> None | Inr v \<Rightarrow> Some (d, v)) = (\<lambda>(d :: string, x). map_option (Pair d) (?val x))"
    by (auto simp: fun_eq_iff split: sum.split)
  let ?failures = "List.map_filter (\<lambda>(d, x). map_option (Pair d) (?fail x)) out"
  define f :: "write_record \<Rightarrow> outcome" where "f = (if ?failures = []
    then (\<lambda>r. case map_of (ocollect (List.map_filter (\<lambda>(d, x). map_option (Pair d) (?val x)) out)) (wr_device r) of
            Some v \<Rightarrow> OSucceeded (to_dto v) | None \<Rightarrow> OFailed ''the group returned no value for this member'')
    else (\<lambda>r. case map_of (ocollect ?failures) (wr_device r) of
            Some reason \<Rightarrow> OFailed reason | None \<Rightarrow> OSucceeded (accepted_in_batch b (wr_device r))))"
  have "dispatch_batch wn ch b rs s = settle_all ch rs f s1"
    using ne ins look m unfolding dispatch_batch_def Let_def shape
    by (cases rs) (simp_all add: f_def del: settle_all.simps lookup_members.simps run_members.simps list.map)
  moreover have "f r = member_outcome i s b rs r" if r: "r \<in> set rs" for r
  proof -
    have none: "?failures = [] \<longleftrightarrow> (\<forall>x \<in> set rs. \<not> isl (member_run i s (wr_device x)))"
      unfolding out failures_empty by (auto simp: isl_def split: sum.splits)
    show ?thesis
      unfolding f_def none unfolding out
      using r map_of_picked [OF devs r, where g = ?fail and out = "\<lambda>r. member_run i s (wr_device r)"]
        map_of_picked [OF devs r, where g = ?val and out = "\<lambda>r. member_run i s (wr_device r)"]
      by (cases "member_run i s (wr_device r)") (auto simp: member_outcome_def split: if_splits)
  qed
  ultimately show ?thesis using that run_members_frame [OF m] by blast
qed

text \<open>
  A group dispatch treats every member by its own device's answer. When the members of a
  claimed batch are all registered, every row is settled by what its own device said, from the state
  the batch found: a failure carries that device's reason (and goes back to the queue while its budget
  lasts), a success is a success whatever the others did, with the decoded value when all of
  them succeeded and an acknowledgement naming the batch when some did not.
\<close>

theorem batch_outcomes:
  assumes "registry_ok (rl_registry s)" and "distinct (map wr_device rs)" and "rs \<noteq> []"
    and "to_instruction wn (wr_intent (hd rs)) = Inr i"
    and "\<forall>r \<in> set rs. registry_device (rl_registry s) (wr_device r) \<noteq> None"
    and "\<forall>r \<in> set rs. write_of (rl_outbox s) (wr_id r) = Some r \<and> wr_status r = InFlight"
  shows "\<forall>r \<in> set rs. \<exists>r'. write_of (rl_outbox (dispatch_batch wn ch b rs s)) (wr_id r) = Some r'
    \<and> settles_as (ob_max_attempts (rl_outbox s)) r (member_outcome i s b rs r) r'"
proof -
  obtain f s1 where f: "dispatch_batch wn ch b rs s = settle_all ch rs f s1" "rl_outbox s1 = rl_outbox s"
    "\<forall>r \<in> set rs. f r = member_outcome i s b rs r"
    using dispatch_batch_registered [OF assms(1-5)] by metis
  have "inj_on wr_id (set rs)" using assms(6) by (intro inj_onI) (metis option.inject)
  then have "distinct (map wr_id rs)" using assms(2) by (simp add: distinct_map)
  from settle_all_rows [OF this, of s1 ch f] assms(6) f show ?thesis by auto
qed

theorem batch_outcomes_witness:
  "\<exists>r r'. in_flight flying_box ''x'' = [r]
     \<and> write_of (rl_outbox (dispatch_batch plain_winnow tick_chrono ''b'' [r] (relay_example flying_box))) (wr_id r) = Some r'
     \<and> wr_status r' = Pending"
proof -
  let ?s = "relay_example flying_box"
  obtain r where r: "in_flight flying_box ''x'' = [r]" "wr_intent r = StartRecording" "wr_attempts r = 1"
      "wr_device r = ''x''" "ob_max_attempts flying_box = 2"
    using flying_claim by blast
  have "reachable tick_chrono 2 flying_box"
    unfolding flying_box_def by (rule reachable.step [OF reachable_recording_box]) (rule op_claim)
  then have "write_of (rl_outbox ?s) (wr_id r) = Some r \<and> wr_status r = InFlight"
    using in_flight_rows(1) [of flying_box r "''x''"] reachable_ok r(1) by auto
  moreover have "registry_ok (rl_registry ?s)" "registry_device (rl_registry ?s) (wr_device r) \<noteq> None"
    using r(4) by (simp_all add: relay_example_def registry_ok_def cells_ok_def registry_build_def rebuild_groups_def
        insert_new_def empty_registry_def handle_config_def owf_def plain_device_def registry_device_def)
  ultimately obtain r' where "write_of (rl_outbox (dispatch_batch plain_winnow tick_chrono ''b'' [r] ?s)) (wr_id r) = Some r'"
      "settles_as 2 r (member_outcome (command_instruction plain_winnow Cmd_Start) ?s ''b'' [r] r) r'"
    using batch_outcomes [of ?s "[r]" plain_winnow "command_instruction plain_winnow Cmd_Start" tick_chrono "''b''"] r
    by auto
  moreover have "isl (member_run (command_instruction plain_winnow Cmd_Start) ?s ''x'')"
    by (simp add: member_run_def relay_example_def registry_device_def deref_def registry_build_def rebuild_groups_def
        insert_new_def empty_registry_def device_example_defs)
  ultimately show ?thesis
    using r by (auto simp: settles_as_def member_outcome_def isl_def)
qed

end
