(* ===== verification/Sis_Relay_Loop.thy ===== *)
theory Sis_Relay_Loop
  imports Sis_Relay_Spec
begin

text \<open>
  \<open>relay_loop\<close> of \<^verbatim>\<open>sismatic-intent-relay/src/relay.rs\<close>: recovery, then a \<open>select!\<close>
  over the cancellation, the drain rate and the ticker, against an outbox other tasks use too.

  A turn is what the \<open>select!\<close> delivered. The timers are left out: a tick comes when it comes, and the
  rate is only what the ticker was built from.
\<close>


section \<open>The loop\<close>

record pace =
  pc_period :: duration
  pc_watching :: bool
  pc_stopped :: bool

text \<open>
  A tick drains until a claim finds nothing, or until the cancellation is seen between two dispatches:
  \<open>Ticked (Some k)\<close> is a tick in which it comes before dispatch \<open>k\<close> counted from 0.
\<close>

datatype turn =
    Repaced "duration option"
  | Ticked "nat option"
  | CancelTaken

fun drain_cut :: "winnow \<Rightarrow> chrono \<Rightarrow> handle \<Rightarrow> nat \<Rightarrow> relay \<Rightarrow> relay" where
  "drain_cut wn ch h 0 s = s"
| "drain_cut wn ch h (Suc k) s =
     (case dispatch_one wn ch h s of
        (True, s) \<Rightarrow> drain_cut wn ch h k s
      | (False, s) \<Rightarrow> s)"

definition relay_begin :: "winnow \<Rightarrow> chrono \<Rightarrow> handle \<Rightarrow> duration \<Rightarrow> relay \<Rightarrow> pace \<times> relay" where
  "relay_begin wn ch h period s = (\<lparr>pc_period = period, pc_watching = True, pc_stopped = False\<rparr>, recover wn ch h s)"

text \<open>One turn; \<open>n\<close> bounds the dispatches of a tick that is not cut short.\<close>

fun relay_turn :: "winnow \<Rightarrow> chrono \<Rightarrow> handle \<Rightarrow> nat \<Rightarrow> turn \<Rightarrow> pace \<times> relay \<Rightarrow> (pace \<times> relay) option" where
  "relay_turn wn ch h n w (pc, s) =
     (if pc_stopped pc then Some (pc, s)
      else case w of
             CancelTaken \<Rightarrow> Some (pc\<lparr>pc_stopped := True\<rparr>, s)
           | Repaced (Some period) \<Rightarrow> Some (if pc_watching pc then pc\<lparr>pc_period := period\<rparr> else pc, s)
           | Repaced None \<Rightarrow> Some (pc\<lparr>pc_watching := False\<rparr>, s)
           | Ticked (Some k) \<Rightarrow> Some (pc, drain_cut wn ch h k s)
           | Ticked None \<Rightarrow> map_option (Pair pc) (drain_tick wn ch h n s))"


section \<open>What is in flight\<close>

definition in_air :: "outbox \<Rightarrow> write_id set" where
  "in_air ob = {i. \<exists>r. write_of ob i = Some r \<and> wr_status r = InFlight}"

lemma in_air_cong: "map_of (ob_records ob') = map_of (ob_records ob) \<Longrightarrow> in_air ob' = in_air ob"
  by (simp add: in_air_def write_of_def)

lemma in_air_observe [simp]: "in_air (observe d obs ob) = in_air ob"
  by (rule in_air_cong) (simp add: observe_def)

lemma in_air_settle: "in_air (fst (settle ch i out at ob)) \<subseteq> in_air ob - {i}"
proof
  fix j assume "j \<in> in_air (fst (settle ch i out at ob))"
  then obtain r where r: "write_of (fst (settle ch i out at ob)) j = Some r" "wr_status r = InFlight"
    by (auto simp: in_air_def)
  have "j \<noteq> i"
  proof
    assume "j = i"
    then show False
      using r settle_lands [of ob i ch out at]
        settle_result [of ch i out at ob "fst (settle ch i out at ob)" "snd (settle ch i out at ob)"]
      by (cases "write_of ob i") (auto simp: landed_def)
  qed
  then show "j \<in> in_air ob - {i}" using r settle_keeps [of j i ch out at ob] by (auto simp: in_air_def)
qed

lemma in_air_claim_head:
  assumes "outbox_ok ob"
  shows "in_air (fst (claim_head d at ob))
    \<subseteq> in_air ob \<union> (case snd (claim_head d at ob) of Inr (Some r) \<Rightarrow> {wr_id r} | _ \<Rightarrow> {})"
  using assms
proof (cases rule: claim_head_cases [of ob d at])
  case (claimed j q y y')
  have "map_of (ob_records (fst (claim_head d at ob))) = (map_of (ob_records ob))(j \<mapsto> y')"
    using arg_cong [OF claimed(9), of lv_records] by simp
  moreover have "wr_id y' = j"
    using claimed(2,5) lines_okD(1) [OF assms [unfolded outbox_ok_def], of j y] by (simp add: same_write_def)
  ultimately show ?thesis using claimed(8) by (auto simp: in_air_def write_of_def split: if_splits)
qed simp

lemma in_air_claim_members:
  "outbox_ok ob \<Longrightarrow> claim_members ds at ob = (ob', Inr rs) \<Longrightarrow> in_air ob' \<subseteq> in_air ob \<union> wr_id ` set rs"
proof (induction ds arbitrary: ob rs)
  case (Cons d ds)
  obtain ob1 r where h: "claim_head d at ob = (ob1, Inr r)"
    using Cons.prems(2) by (auto split: prod.splits sum.splits)
  obtain rs1 where m: "claim_members ds at ob1 = (ob', Inr rs1)"
    and rs: "rs = (case r of None \<Rightarrow> rs1 | Some r' \<Rightarrow> r' # rs1)"
    using Cons.prems(2) h by (auto split: prod.splits sum.splits)
  have "outbox_ok ob1"
    using outbox_ok_steps [OF Cons.prems(1) claim_head_steps [OF Cons.prems(1), of _ d at]] h by simp
  from Cons.IH [OF this m] in_air_claim_head [OF Cons.prems(1), of d at] show ?case
    by (auto simp: rs h split: option.splits)
qed auto

lemma in_air_fail_head: "in_air (fail_head d at ob) \<subseteq> in_air ob"
  by (auto simp: in_air_def fail_head_def write_of_def split: option.splits list.splits if_splits)

lemma in_air_fail_members: "in_air (fail_members ds at ob) \<subseteq> in_air ob"
proof (induction ds arbitrary: ob)
  case (Cons d ds)
  then show ?case using in_air_fail_head [of d at ob] by fastforce
qed simp

text \<open>A claim puts in flight the rows it answers with and no other.\<close>

lemma in_air_claim_alone:
  assumes "outbox_ok ob"
  shows "in_air (fst (claim_alone d at ob))
    \<subseteq> in_air ob \<union> (case snd (claim_alone d at ob) of Inr (Some c) \<Rightarrow> wr_id ` set (claim_rows c) | _ \<Rightarrow> {})"
  using in_air_claim_head [OF assms, of d at]
  by (auto simp: claim_alone_def split: prod.splits sum.splits option.splits)

lemma in_air_claim:
  assumes ok: "outbox_ok ob"
  shows "in_air (fst (claim_next ch d at ob))
    \<subseteq> in_air ob \<union> (case snd (claim_next ch d at ob) of Inr (Some c) \<Rightarrow> wr_id ` set (claim_rows c) | _ \<Rightarrow> {})"
  using ok
proof (cases rule: claim_next_cases [of ob ch d at])
  case (alone i r)
  then show ?thesis using in_air_claim_alone [OF ok, of d at] by simp
next
  case (straggler i r b)
  then show ?thesis using in_air_claim_alone [OF ok, of d at] step_batch_alone [of ch b d at ob] by simp
next
  case (wait i r b)
  then show ?thesis using in_air_cong [of "fst (step_batch ch b d at ob)" ob] by simp
next
  case (release i r b members rs)
  let ?ob = "fst (step_batch ch b d at ob)"
  have "outbox_ok ?ob" using ok by (simp add: outbox_ok_def)
  moreover have "claim_members members at ?ob = (fst (claim_members members at ?ob), Inr rs)"
    using release(5) by (simp add: prod_eq_iff)
  ultimately have "in_air (fst (claim_members members at ?ob)) \<subseteq> in_air ?ob \<union> wr_id ` set rs"
    by (rule in_air_claim_members)
  then show ?thesis using release(6) in_air_cong [of ?ob ob] by simp
next
  case (expired i r b members)
  then show ?thesis
    using in_air_fail_members [of members at "fst (step_batch ch b d at ob)"] in_air_cong [of "fst (step_batch ch b d at ob)" ob]
    by auto
qed simp

text \<open>A dispatch leaves in flight only what others put there.\<close>

lemma in_air_settle_now: "in_air (rl_outbox (settle_now ch i out s)) \<subseteq> in_air (rl_outbox s) - {i}"
  using in_air_settle by (simp add: settle_now_outbox)

lemma in_air_settle_all: "in_air (rl_outbox (settle_all ch rs f s)) \<subseteq> in_air (rl_outbox s) - wr_id ` set rs"
proof (induction rs arbitrary: s)
  case (Cons r rs)
  show ?case using Cons.IH [of "report ch (wr_id r) (f r) s"] in_air_settle_now [of ch "wr_id r" "f r" s]
    by (auto simp: report_def)
qed simp

lemma in_air_observe_state: "observe_state wn h s = (st, s') \<Longrightarrow> in_air (rl_outbox s') = in_air (rl_outbox s)"
  using observe_state_worked(3) in_air_cong by blast

lemma in_air_perform: "in_air (rl_outbox (perform wn ch h r s)) \<subseteq> in_air (rl_outbox s) - {wr_id r}"
proof (cases "to_instruction wn (wr_intent r)")
  case (Inl e)
  then show ?thesis using in_air_settle_now by (simp add: perform_def report_def)
next
  case (Inr i)
  obtain x s1 where x: "run_handle h i s = (x, s1)" by (cases "run_handle h i s")
  show ?thesis
    using Inr x in_air_settle_now [of ch _ _ s1] run_handle_frame(1) [OF x]
    by (cases x) (simp_all add: perform_def report_def)
qed

lemma in_air_dispatch_alone: "in_air (rl_outbox (dispatch_alone wn ch h r s)) \<subseteq> in_air (rl_outbox s) - {wr_id r}"
proof (cases "is_metadata (wr_intent r)")
  case True
  obtain st s1 where o: "observe_state wn h s = (st, s1)" by (cases "observe_state wn h s")
  show ?thesis
    using True o in_air_perform [of wn ch h r s1] in_air_settle_now [of ch "wr_id r" _ s1] in_air_observe_state [OF o]
    by (auto simp: dispatch_alone_def split: option.split)
qed (simp add: dispatch_alone_def in_air_perform)

lemma in_air_dispatch_batch:
  "in_air (rl_outbox (dispatch_batch wn ch b records s)) \<subseteq> in_air (rl_outbox s) - wr_id ` set records"
proof (cases rule: dispatch_batch_settles [of records wn ch b s])
  case (settled f s1)
  then show ?thesis using in_air_settle_all [of ch records f s1] by simp
qed simp

lemma dispatch_one_facts:
  assumes "reachable ch M (rl_outbox s)" and "dispatch_one wn ch h s = (again, s')"
  shows "reachable ch M (rl_outbox s')" and "in_air (rl_outbox s') \<subseteq> in_air (rl_outbox s)"
proof -
  let ?at = "rl_clock s (rl_tick s)" and ?d = "relay_id s h"
  obtain ob x where c: "claim_next ch ?d ?at (rl_outbox s) = (ob, x)" by (cases "claim_next ch ?d ?at (rl_outbox s)")
  have reach: "reachable ch M ob" using reachable.step [OF assms(1) op_claim [of ch M "rl_outbox s" ?d ?at]] c by simp
  have "outbox_ok (rl_outbox s)" using reachable_ok [OF assms(1)] by blast
  note fc = in_air_claim [OF this, of ch ?d ?at, unfolded c fst_conv snd_conv]
  let ?s = "s\<lparr>rl_tick := Suc (rl_tick s), rl_outbox := ob\<rparr>"
  have res: "(again, s') = (case x of Inr (Some claim) \<Rightarrow>
        (True, (case claim of One r \<Rightarrow> dispatch_alone wn ch h r ?s | Batch b records \<Rightarrow> dispatch_batch wn ch b records ?s))
      | _ \<Rightarrow> (False, ?s))"
    using assms(2) c now_frame(2) [of s] by (simp add: dispatch_one_def now_def Let_def split: sum.splits option.splits)
  have "reachable ch M (rl_outbox s') \<and> in_air (rl_outbox s') \<subseteq> in_air (rl_outbox s)"
  proof (cases "\<exists>claim. x = Inr (Some claim)")
    case True
    then obtain claim where x: "x = Inr (Some claim)" by blast
    show ?thesis
    proof (cases claim)
      case (One r)
      then show ?thesis
        using res x fc in_air_dispatch_alone [of wn ch h r ?s] worked_facts [OF dispatch_alone_worked [of ch ?s wn h r]] reach
        by auto
    next
      case (Batch b records)
      then show ?thesis
        using res x fc in_air_dispatch_batch [of wn ch b records ?s]
          worked_facts [OF dispatch_batch_worked [of ch ?s wn b records]] reach by auto
    qed
  next
    case False
    then show ?thesis using res fc reach by (auto split: sum.splits option.splits)
  qed
  then show "reachable ch M (rl_outbox s')" "in_air (rl_outbox s') \<subseteq> in_air (rl_outbox s)" by blast+
qed


section \<open>The loop among other tasks\<close>

lemma drain_cut_facts:
  "reachable ch M (rl_outbox s) \<Longrightarrow>
     reachable ch M (rl_outbox (drain_cut wn ch h k s)) \<and> in_air (rl_outbox (drain_cut wn ch h k s)) \<subseteq> in_air (rl_outbox s)"
proof (induction k arbitrary: s)
  case (Suc k)
  obtain again s1 where d: "dispatch_one wn ch h s = (again, s1)" by (cases "dispatch_one wn ch h s")
  show ?case using dispatch_one_facts [OF Suc.prems d] Suc.IH [of s1] by (cases again) (auto simp: d)
qed simp

lemma drain_tick_air:
  "reachable ch M (rl_outbox s) \<Longrightarrow> drain_tick wn ch h n s = Some s' \<Longrightarrow>
     reachable ch M (rl_outbox s') \<and> in_air (rl_outbox s') \<subseteq> in_air (rl_outbox s)"
proof (induction n arbitrary: s)
  case (Suc n)
  obtain again s1 where d: "dispatch_one wn ch h s = (again, s1)" by (cases "dispatch_one wn ch h s")
  show ?case
    using dispatch_one_facts [OF Suc.prems(1) d] Suc.IH [of s1] Suc.prems(2) by (cases again) (auto simp: d)
qed simp

lemma relay_turn_facts:
  assumes "reachable ch M (rl_outbox s)" and "relay_turn wn ch h n w (pc, s) = Some (pc', s')"
  shows "reachable ch M (rl_outbox s') \<and> in_air (rl_outbox s') \<subseteq> in_air (rl_outbox s)"
  using assms drain_cut_facts [OF assms(1)] drain_tick_air [OF assms(1), of wn h n]
  by (auto split: if_splits turn.splits option.splits)

lemma recover_facts:
  assumes "reachable ch M (rl_outbox s)"
  shows "reachable ch M (rl_outbox (recover wn ch h s))"
    and "in_air (rl_outbox (recover wn ch h s))
      \<subseteq> in_air (rl_outbox s) - wr_id ` set (in_flight (rl_outbox s) (relay_id s h))"
proof -
  let ?rs = "in_flight (rl_outbox s) (relay_id s h)"
  obtain observed s1 where o: "observe_state wn h s = (observed, s1)" by (metis surj_pair)
  let ?s = "settle_all ch ?rs (\<lambda>r. recovered (wr_intent r) observed) s1"
  have rec: "recover wn ch h s = (if ?rs = [] then s else ?s)"
    by (simp add: recover_def o settle_stranded_all split: list.split)
  have "reachable ch M (rl_outbox ?s)"
    using worked_facts [OF rtranclp_trans [OF observe_state_worked(1) [OF o, of ch] settle_all_worked] assms] by blast
  then show "reachable ch M (rl_outbox (recover wn ch h s))" using assms by (simp add: rec)
  show "in_air (rl_outbox (recover wn ch h s)) \<subseteq> in_air (rl_outbox s) - wr_id ` set ?rs"
    using in_air_settle_all [of ch ?rs "\<lambda>r. recovered (wr_intent r) observed" s1] in_air_observe_state [OF o]
    by (auto simp: rec)
qed

text \<open>
  The loop's turns with anything other tasks do in between: any operation on the outbox, another device's
  relay loop among them, and any change of registry, devices and clock. The set holds the writes the
  loop is not answerable for: those in flight for other devices at its start, and those others claim, until they land.
\<close>

inductive relay_history :: "winnow \<Rightarrow> chrono \<Rightarrow> nat \<Rightarrow> handle \<Rightarrow> duration \<Rightarrow> relay \<Rightarrow> pace \<Rightarrow> relay \<Rightarrow> write_id set \<Rightarrow> bool"
  for wn ch M h period s0 where
  begun: "relay_begin wn ch h period s0 = (pc, s) \<Longrightarrow>
     relay_history wn ch M h period s0 pc s
       (in_air (rl_outbox s0) - wr_id ` set (in_flight (rl_outbox s0) (relay_id s0 h)))"
| turned: "relay_history wn ch M h period s0 pc s others \<Longrightarrow> relay_turn wn ch h n w (pc, s) = Some (pc', s') \<Longrightarrow>
     relay_history wn ch M h period s0 pc' s' others"
| elsewhere: "relay_history wn ch M h period s0 pc s others \<Longrightarrow>
     outbox_op ch M (rl_outbox s) (rl_outbox s') \<or> rl_outbox s' = rl_outbox s \<Longrightarrow>
     relay_history wn ch M h period s0 pc s' (others \<inter> in_air (rl_outbox s') \<union> (in_air (rl_outbox s') - in_air (rl_outbox s)))"

lemma relay_history_facts:
  assumes "relay_history wn ch M h period s0 pc s others" and "reachable ch M (rl_outbox s0)"
  shows "reachable ch M (rl_outbox s) \<and> in_air (rl_outbox s) \<subseteq> others"
  using assms
proof (induction rule: relay_history.induct)
  case (begun pc s)
  then show ?case using recover_facts [OF begun.prems, of wn h] by (simp add: relay_begin_def)
next
  case (turned pc s others n w pc' s')
  then show ?case using relay_turn_facts [of ch M s wn h n w pc pc' s'] by blast
next
  case (elsewhere pc s others s')
  then have "reachable ch M (rl_outbox s')" using reachable.step by metis
  then show ?case using elsewhere by blast
qed

lemma relay_turn_total:
  assumes "reachable ch M (rl_outbox s)" and "potential M (rl_outbox s) < n"
  shows "\<exists>pc' s'. relay_turn wn ch h n w (pc, s) = Some (pc', s')"
  using drain_ends [OF assms, of wn h] by (auto split: turn.split option.split)

text \<open>
  C5. A relay loop strands nothing. From recovery on, whatever its turns deliver and whatever other tasks
  do to the outbox in between, between two turns no write is in flight that the loop put there or found there
  for its device: every such write has been settled or put back. So a cancellation, taken in the \<open>select!\<close>
  or seen between two dispatches of a drain, abandons no claimed write. And every turn ends.
\<close>

theorem relay_strands_nothing:
  assumes "reachable ch M (rl_outbox s0)" and "relay_history wn ch M h period s0 pc s others"
  shows "in_air (rl_outbox s) \<subseteq> others
    \<and> (\<forall>w. \<exists>pc' s'. relay_turn wn ch h (Suc (potential M (rl_outbox s))) w (pc, s) = Some (pc', s')
         \<and> in_air (rl_outbox s') \<subseteq> others)"
proof -
  note F = relay_history_facts [OF assms(2,1)]
  have "\<exists>pc' s'. relay_turn wn ch h (Suc (potential M (rl_outbox s))) w (pc, s) = Some (pc', s')
      \<and> in_air (rl_outbox s') \<subseteq> others" for w
    using relay_turn_total [of ch M s "Suc (potential M (rl_outbox s))" wn h w pc] F
      relay_turn_facts [of ch M s wn h "Suc (potential M (rl_outbox s))" w pc] by fastforce
  then show ?thesis using F by blast
qed

text \<open>A start left in flight by the last process; the device is unreachable, and the loop is cancelled inside a drain.\<close>

lemma recording_box_air: "in_air recording_box = {}"
  unfolding recording_box_def by (simp add: in_air_def write_of_def example_defs)

theorem relay_strands_nothing_witness:
  "\<exists>pc s. relay_history plain_winnow tick_chrono 2 0 5 (relay_example flying_box) pc s {}
     \<and> in_flight flying_box ''x'' \<noteq> [] \<and> in_air (rl_outbox s) = {}"
proof -
  let ?s0 = "relay_example flying_box"
  have "reachable tick_chrono 2 flying_box"
    unfolding flying_box_def by (rule reachable.step [OF reachable_recording_box]) (rule op_claim)
  then have reach: "reachable tick_chrono 2 (rl_outbox ?s0)" by simp
  obtain r where r: "claim_next tick_chrono ''x'' ''tt'' recording_box = (flying_box, Inr (Some (One r)))"
      "in_flight flying_box ''x'' = [r]"
    using flying_claim by blast
  have "in_air flying_box \<subseteq> {wr_id r}"
    using in_air_claim [of recording_box tick_chrono "''x''" "''tt''"] r reachable_ok [OF reachable_recording_box]
    by (simp add: recording_box_air)
  then have none: "in_air (rl_outbox ?s0) - wr_id ` set (in_flight (rl_outbox ?s0) (relay_id ?s0 0)) = {}"
    using r(2) by auto
  obtain pc1 s1 where b: "relay_begin plain_winnow tick_chrono 0 5 ?s0 = (pc1, s1)" by (metis surj_pair)
  obtain pc s where t: "relay_turn plain_winnow tick_chrono 0 0 (Ticked (Some 1)) (pc1, s1) = Some (pc, s)"
    using b by (cases "pc_stopped pc1") auto
  have "relay_history plain_winnow tick_chrono 2 0 5 ?s0 pc s {}"
    using turned [OF begun [OF b] t] unfolding none by blast
  with relay_strands_nothing [OF reach this] r(2) show ?thesis by auto
qed

end
