(* ===== verification/Sis_Sync.thy ===== *)
theory Sis_Sync
  imports Sis_Relay Sis_Store "HOL-Library.Product_Lexorder"
begin

text \<open>
  \<^verbatim>\<open>sismatic-sync/src/driver.rs\<close>: the poll loops that keep the read store current, one per field and
  device, and the supervisor that holds them to the schedule and the fleet.

  The state is the relay's (registry, outbox, one world per device handle, wall clock) with the read
  store and the lines logged. A log line is its level and its message; the fields attached to it
  are left out. A tick of a loop is one transition. The loops run concurrently, each on its own
  ticker, so what they do together is a sequence of ticks in some order.
\<close>


section \<open>Health\<close>

datatype health = Up | Down

datatype contact = Reached | Refused | FailedContact | GatedContact | Vetoed

datatype poll_report = Silent | Onset | Ongoing | Recovery | Refusal

fun contact_of :: "device_error + core_value \<Rightarrow> contact" where
  "contact_of (Inr v) = Reached"
| "contact_of (Inl (DCold retry_in)) = GatedContact"
| "contact_of (Inl (DDisabled f source retry_in)) = Vetoed"
| "contact_of (Inl err) = (if is_refusal err then Refused else FailedContact)"

fun health_step :: "health \<Rightarrow> contact \<Rightarrow> health \<times> poll_report" where
  "health_step Up Reached = (Up, Silent)"
| "health_step Up FailedContact = (Down, Onset)"
| "health_step Up GatedContact = (Down, Ongoing)"
| "health_step Down Reached = (Up, Recovery)"
| "health_step Down FailedContact = (Down, Ongoing)"
| "health_step Down GatedContact = (Down, Ongoing)"
| "health_step h Refused = (h, Refusal)"
| "health_step h Vetoed = (h, Silent)"

datatype level = Debug | Info | Warn

type_synonym log_line = "level \<times> string"

fun announce :: "poll_report \<Rightarrow> log_line list" where
  "announce Silent = []"
| "announce Onset = [(Warn, ''polling this field started failing'')]"
| "announce Ongoing = [(Debug, ''polling this field is still failing'')]"
| "announce Recovery = [(Info, ''polling this field recovered'')]"
| "announce Refusal = [(Debug, ''the device refused this field'')]"


section \<open>The state\<close>

record sync =
  sy_relay :: relay
  sy_store :: store
  sy_log :: "log_line list"

definition say :: "log_line list \<Rightarrow> sync \<Rightarrow> sync" where
  "say ls s = s\<lparr>sy_log := sy_log s @ ls\<rparr>"

abbreviation sy_registry :: "sync \<Rightarrow> registry" where
  "sy_registry s \<equiv> rl_registry (sy_relay s)"

abbreviation sy_outbox :: "sync \<Rightarrow> outbox" where
  "sy_outbox s \<equiv> rl_outbox (sy_relay s)"

definition on_registry :: "(registry \<Rightarrow> registry) \<Rightarrow> sync \<Rightarrow> sync" where
  "on_registry f s = s\<lparr>sy_relay := (sy_relay s)\<lparr>rl_registry := f (sy_registry s)\<rparr>\<rparr>"

definition instant_of :: "sync \<Rightarrow> handle \<Rightarrow> instant" where
  "instant_of s h = wd_now (rl_worlds (sy_relay s) h)"

definition veto_of :: "sync \<Rightarrow> handle \<Rightarrow> field_name \<Rightarrow> duration option option" where
  "veto_of s h field = veto (dv_auto_disabled (deref (sy_registry s) h)) (instant_of s h) field"

text \<open>Whether a deployment wires the outbox in as the reconciler of observed recording states.\<close>

type_synonym wired = bool


section \<open>One poll loop\<close>

definition is_running_state :: "field_name \<Rightarrow> bool" where
  "is_running_state field \<longleftrightarrow> field = catalog_name query_catalog Q_RunningState"

record poll =
  po_device :: handle
  po_field :: field_name
  po_interval :: duration
  po_health :: health
  po_cancelled :: bool
  po_ended :: bool

definition poll_query :: "poll \<Rightarrow> unknown_instruction + query" where
  "poll_query p = catalog_from_str query_catalog (po_field p)"

text \<open>The refusals are counted first: \<open>refused\<close> or \<open>answered\<close>, and what each of them says.\<close>

definition account :: "handle \<Rightarrow> field_name \<Rightarrow> device_error + core_value \<Rightarrow> sync \<Rightarrow> sync" where
  "account h field outcome s =
     (let auto = dv_auto_disabled (deref (sy_registry s) h);
          config = handle_config (sy_registry s) h
      in case outcome of
           Inl err \<Rightarrow>
             if is_refusal err then
               say (case fst (refused auto (instant_of s h) field (dc_auto_disable_after config) (dc_self_heal config)) of
                      Counted n \<Rightarrow> [(Debug, ''the device refused this field'')]
                    | Disabled n \<Rightarrow>
                        (case dc_self_heal config of
                           Some wait \<Rightarrow> [(Info, ''auto-disabling this field after consecutive refusals; it will be tried again'')]
                         | None \<Rightarrow> [(Info, ''auto-disabling this field after consecutive refusals; add it to this device's `disabled_fields` to make it permanent, or set `self_heal_secs` to retry it'')])
                    | Still \<Rightarrow> [])
                 (on_registry (note_refused h (instant_of s h) field) s)
             else s
         | Inr v \<Rightarrow>
             say (if fst (answered auto field)
                  then [(Info, ''an auto-disabled field answered again and is no longer disabled'')] else [])
               (on_registry (note_answered h field) s))"

text \<open>A recording state goes to the outbox, when one is wired, and every value to the store.\<close>

definition observed_state :: "wired \<Rightarrow> field_name \<Rightarrow> device_error + core_value \<Rightarrow> core_state option" where
  "observed_state reconciler field outcome =
     (if reconciler \<and> is_running_state field
      then (case outcome of Inr v \<Rightarrow> as_state v | Inl e \<Rightarrow> None) else None)"

definition read_of :: "device_id \<Rightarrow> field_name \<Rightarrow> core_value \<Rightarrow> timestamp \<Rightarrow> read" where
  "read_of d field v at = \<lparr>rd_device = d, rd_field = field, rd_value = to_dto v, rd_at = at\<rparr>"

definition hand_over :: "layout \<Rightarrow> wired \<Rightarrow> handle \<Rightarrow> field_name \<Rightarrow> device_error + core_value \<Rightarrow> sync \<Rightarrow> sync" where
  "hand_over l reconciler h field outcome s =
     (let d = relay_id (sy_relay s) h;
          s = (case observed_state reconciler field outcome of
                 Some state \<Rightarrow> s\<lparr>sy_relay := (sy_relay s)\<lparr>rl_outbox := observe d (state_to_dto state) (sy_outbox s)\<rparr>\<rparr>
               | None \<Rightarrow> s)
      in case outcome of
           Inl err \<Rightarrow> s
         | Inr v \<Rightarrow>
             (case now (sy_relay s) of (at, rl) \<Rightarrow>
                s\<lparr>sy_relay := rl, sy_store := upsert_latest l (read_of d field v at) (sy_store s)\<rparr>))"

text \<open>The body of \<open>ticker.tick()\<close>.\<close>

definition poll_tick :: "winnow \<Rightarrow> layout \<Rightarrow> wired \<Rightarrow> query \<Rightarrow> poll \<Rightarrow> sync \<Rightarrow> poll \<times> sync" where
  "poll_tick wn l reconciler q p s =
     (let h = po_device p; field = po_field p;
          self_heal = dc_self_heal (handle_config (sy_registry s) h)
      in case veto_of s h field of
           Some (Some retry_in) \<Rightarrow> (p, say [(Debug, ''skipping a poll of an auto-disabled field'')] s)
         | Some None \<Rightarrow> (p, say [(Debug, ''skipping a poll of a permanently disabled field'')] s)
         | None \<Rightarrow>
             (case run_handle h (query_instruction wn q) (sy_relay s) of
                (outcome, rl) \<Rightarrow>
                  let s = account h field outcome (s\<lparr>sy_relay := rl\<rparr>);
                      (next_health, rep) = health_step (po_health p) (contact_of outcome);
                      p = p\<lparr>po_health := next_health\<rparr>;
                      s = say (announce rep) s
                  in if self_heal = None \<and> veto_of s h field \<noteq> None
                     then (p\<lparr>po_ended := True\<rparr>,
                           say [(Info, ''poll loop stopped: this field is auto-disabled with no retry'')] s)
                     else (p, hand_over l reconciler h field outcome s)))"

text \<open>
  The loop meets its cancellation or its next tick; a loop that ended does neither. This turn prefers the
  cancellation; the free choice \<open>select!\<close> has between the two is in \<^verbatim>\<open>Sis_Supervise\<close>. A field that is no
  query ends the loop before its first tick.
\<close>

definition poll_turn :: "winnow \<Rightarrow> layout \<Rightarrow> wired \<Rightarrow> poll \<Rightarrow> sync \<Rightarrow> poll \<times> sync" where
  "poll_turn wn l reconciler p s =
     (if po_ended p then (p, s)
      else case poll_query p of
             Inl e \<Rightarrow> (p\<lparr>po_ended := True\<rparr>, say [(Warn, ''unknown query field; poll loop not started'')] s)
           | Inr q \<Rightarrow>
               if po_cancelled p then (p\<lparr>po_ended := True\<rparr>, say [(Info, ''poll loop stopped'')] s)
               else poll_tick wn l reconciler q p s)"

definition new_poll :: "handle \<Rightarrow> field_name \<Rightarrow> duration \<Rightarrow> poll" where
  "new_poll h field interval =
     \<lparr>po_device = h, po_field = field, po_interval = interval, po_health = Up, po_cancelled = False,
      po_ended = False\<rparr>"


section \<open>The loops that run\<close>

record field_schedule =
  fs_name :: field_name
  fs_interval :: "duration option"

type_synonym pair_key = "field_name \<times> device_id"

record wanted =
  wa_interval :: duration
  wa_device :: uuid

record running_loop =
  ru_interval :: duration
  ru_device :: uuid
  ru_task :: nat

record loop_change =
  lc_started :: nat
  lc_stopped :: nat
  lc_retimed :: nat
  lc_rebound :: nat
  lc_declined :: nat

definition change_is_nothing :: "loop_change \<Rightarrow> bool" where
  "change_is_nothing ch \<longleftrightarrow> lc_started ch = 0 \<and> lc_stopped ch = 0 \<and> lc_retimed ch = 0 \<and> lc_rebound ch = 0"

record loops =
  lo_running :: "(pair_key, running_loop) omap"
  lo_tasks :: "poll list"

definition fleet_of :: "registry \<Rightarrow> (device_id, handle) omap" where
  "fleet_of rg = ocollect (map (\<lambda>h. (dc_id (handle_config rg h), h)) (registry_devices rg))"

fun want_field :: "registry \<Rightarrow> field_name \<Rightarrow> duration \<Rightarrow> (device_id, handle) omap
    \<Rightarrow> (pair_key, wanted) omap \<times> nat \<Rightarrow> (pair_key, wanted) omap \<times> nat" where
  "want_field rg name interval [] acc = acc"
| "want_field rg name interval ((i, h) # fleet) (wanted, declined) =
     want_field rg name interval fleet
       (if name \<in> set (dc_disabled_fields (handle_config rg h)) then (wanted, declined + 1)
        else (oput (name, i) \<lparr>wa_interval = interval, wa_device = dc_uuid (handle_config rg h)\<rparr> wanted, declined))"

fun wanted_from :: "registry \<Rightarrow> field_schedule list \<Rightarrow> (device_id, handle) omap
    \<Rightarrow> (pair_key, wanted) omap \<times> nat \<Rightarrow> (pair_key, wanted) omap \<times> nat" where
  "wanted_from rg [] fleet acc = acc"
| "wanted_from rg (e # schedule) fleet acc =
     wanted_from rg schedule fleet
       (case fs_interval e of None \<Rightarrow> acc | Some interval \<Rightarrow> want_field rg (fs_name e) interval fleet acc)"

definition wanted_loops :: "registry \<Rightarrow> field_schedule list \<Rightarrow> (device_id, handle) omap
    \<Rightarrow> (pair_key, wanted) omap \<times> nat" where
  "wanted_loops rg schedule fleet = wanted_from rg schedule fleet ([], 0)"

datatype loop_action = Leave | Start | Stop | Retime | Rebind

fun act :: "wanted option \<Rightarrow> wanted option \<Rightarrow> loop_action" where
  "act None None = Leave"
| "act None (Some w) = Start"
| "act (Some r) None = Stop"
| "act (Some r) (Some w) =
     (if wa_device r \<noteq> wa_device w then Rebind
      else if wa_interval r = wa_interval w then Leave else Retime)"

definition start_loop :: "pair_key \<Rightarrow> handle \<Rightarrow> wanted \<Rightarrow> loops \<Rightarrow> loops" where
  "start_loop k h w lo =
     lo\<lparr>lo_tasks := lo_tasks lo @ [new_poll h (fst k) (wa_interval w)],
        lo_running := oput k \<lparr>ru_interval = wa_interval w, ru_device = wa_device w,
                              ru_task = length (lo_tasks lo)\<rparr> (lo_running lo)\<rparr>"

definition stop_loop :: "pair_key \<Rightarrow> loops \<Rightarrow> loops" where
  "stop_loop k lo =
     (case map_of (lo_running lo) k of
        None \<Rightarrow> lo
      | Some r \<Rightarrow>
          lo\<lparr>lo_running := odel k (lo_running lo),
             lo_tasks := (lo_tasks lo)[ru_task r := (lo_tasks lo ! ru_task r)\<lparr>po_cancelled := True\<rparr>]\<rparr>)"

definition is_wanted :: "running_loop \<Rightarrow> wanted" where
  "is_wanted r = \<lparr>wa_interval = ru_interval r, wa_device = ru_device r\<rparr>"

definition reconcile_pair :: "(pair_key, wanted) omap \<Rightarrow> (device_id, handle) omap \<Rightarrow> pair_key
    \<Rightarrow> loops \<times> loop_change \<Rightarrow> loops \<times> loop_change" where
  "reconcile_pair wanted fleet k s =
     (let (lo, ch) = s; want = map_of wanted k; device = map_of fleet (snd k)
      in case act (map_option is_wanted (map_of (lo_running lo) k)) want of
           Leave \<Rightarrow> (lo, ch)
         | Stop \<Rightarrow> (stop_loop k lo, ch\<lparr>lc_stopped := lc_stopped ch + 1\<rparr>)
         | Start \<Rightarrow>
             (case (want, device) of
                (Some w, Some h) \<Rightarrow> (start_loop k h w lo, ch\<lparr>lc_started := lc_started ch + 1\<rparr>)
              | _ \<Rightarrow> (lo, ch))
         | Retime \<Rightarrow>
             (case (want, device) of
                (Some w, Some h) \<Rightarrow> (start_loop k h w (stop_loop k lo), ch\<lparr>lc_retimed := lc_retimed ch + 1\<rparr>)
              | _ \<Rightarrow> (lo, ch))
         | Rebind \<Rightarrow>
             (case (want, device) of
                (Some w, Some h) \<Rightarrow> (start_loop k h w (stop_loop k lo), ch\<lparr>lc_rebound := lc_rebound ch + 1\<rparr>)
              | _ \<Rightarrow> (lo, ch)))"

definition reconcile_loops :: "registry \<Rightarrow> field_schedule list \<Rightarrow> loops \<Rightarrow> loops \<times> loop_change" where
  "reconcile_loops rg schedule lo =
     (let fleet = fleet_of rg;
          (wanted, declined) = wanted_loops rg schedule fleet;
          named = oset (okeys wanted @ okeys (lo_running lo))
      in foldl (\<lambda>s k. reconcile_pair wanted fleet k s)
           (lo, \<lparr>lc_started = 0, lc_stopped = 0, lc_retimed = 0, lc_rebound = 0, lc_declined = declined\<rparr>) named)"

definition no_loops :: loops where
  "no_loops = \<lparr>lo_running = [], lo_tasks = []\<rparr>"

end
