(* ===== verification/Sis_Poll_Spec.thy ===== *)
theory Sis_Poll_Spec
  imports Sis_Sync Sis_Relay_Spec
begin

text \<open>
  What one poll loop of \<^verbatim>\<open>sismatic-sync/src/driver.rs\<close> does, however the rest of the program interleaves
  with its ticks: the read store holds its last answer, the learned veto is its trailing refusals, the
  log is the changes of its health, and the loop ends where a field will never be asked again.
\<close>


section \<open>The health machine by its history\<close>

fun reports :: "health \<Rightarrow> contact list \<Rightarrow> poll_report list" where
  "reports h [] = []"
| "reports h (c # cs) = snd (health_step h c) # reports (fst (health_step h c)) cs"

definition telling :: "contact \<Rightarrow> bool" where
  "telling c \<longleftrightarrow> c \<noteq> Refused \<and> c \<noteq> Vetoed"

text \<open>The last contact that says anything about the connection.\<close>

definition last_telling :: "contact list \<Rightarrow> contact option" where
  "last_telling cs = (case rev (filter telling cs) of [] \<Rightarrow> None | c # _ \<Rightarrow> Some c)"

definition health_after :: "contact list \<Rightarrow> health" where
  "health_after cs = (case last_telling cs of None \<Rightarrow> Up | Some c \<Rightarrow> if c = Reached then Up else Down)"

lemma last_telling_simps [simp]:
  "last_telling [] = None"
  "last_telling (cs @ [c]) = (if telling c then Some c else last_telling cs)"
  by (simp_all add: last_telling_def)

lemma health_after_snoc: "health_after (cs @ [c]) = fst (health_step (health_after cs) c)"
  by (cases c; cases "health_after cs") (auto simp: health_after_def telling_def split: option.splits if_splits)

lemma health_after_fold: "foldl (\<lambda>h c. fst (health_step h c)) Up cs = health_after cs"
proof (induction cs rule: rev_induct)
  case Nil
  show ?case by (simp add: health_after_def)
next
  case (snoc c cs)
  then show ?case by (simp add: health_after_snoc)
qed

lemma reports_append: "reports h (cs @ ds) = reports h cs @ reports (foldl (\<lambda>h c. fst (health_step h c)) h cs) ds"
  by (induction cs arbitrary: h) simp_all

lemma reports_snoc: "reports Up (cs @ [c]) = reports Up cs @ [snd (health_step (health_after cs) c)]"
  by (simp add: reports_append health_after_fold)

lemma onset_recovery_balance:
  "count_list (reports Up cs) Onset \<le> count_list (reports Up cs) Recovery + (if health_after cs = Down then 1 else 0)"
proof (induction cs rule: rev_induct)
  case (snoc c cs)
  then show ?case
    by (cases c; cases "health_after cs") (simp_all add: reports_snoc health_after_snoc)
qed (simp add: health_after_def)


section \<open>What a tick leaves alone\<close>

text \<open>The veto record of a field of the device behind a handle, and what the calls do to it.\<close>

definition record_of :: "registry \<Rightarrow> handle \<Rightarrow> field_name \<Rightarrow> veto_record option" where
  "record_of rg h f = map_of (ry_autos rg ! cl_auto (ry_cells rg ! h)) f"

definition live :: "registry \<Rightarrow> handle \<Rightarrow> bool" where
  "live rg h \<longleftrightarrow> h < length (ry_cells rg) \<and> cl_auto (ry_cells rg ! h) < length (ry_autos rg)"

lemma auto_of_deref: "dv_auto_disabled (deref rg h) = ry_autos rg ! cl_auto (ry_cells rg ! h)"
  by (simp add: deref_def Let_def)

lemma put_link_cells [simp]: "length (ry_cells (put_link h dev rg)) = length (ry_cells rg)"
  by (simp add: put_link_def)

lemma put_link_auto [simp]: "cl_auto (ry_cells (put_link h dev rg) ! g) = cl_auto (ry_cells rg ! g)"
  by (cases "h < length (ry_cells rg)") (auto simp: put_link_def nth_list_update list_update_beyond)

lemma note_facts [simp]:
  "ry_cells (note_refused h t f rg) = ry_cells rg" "ry_cells (note_answered h f rg) = ry_cells rg"
  "ry_devices (note_refused h t f rg) = ry_devices rg" "ry_devices (note_answered h f rg) = ry_devices rg"
  "length (ry_autos (note_refused h t f rg)) = length (ry_autos rg)"
  "length (ry_autos (note_answered h f rg)) = length (ry_autos rg)"
  by (simp_all add: note_refused_def note_answered_def Let_def)

lemma handle_config_cells: "ry_cells rg' = ry_cells rg \<Longrightarrow> handle_config rg' h = handle_config rg h"
  by (simp add: handle_config_def)

lemma run_handle_registry:
  assumes "run_handle h i s = (out, s')"
  obtains dev where "rl_registry s' = put_link h dev (rl_registry s)"
  using assms by (auto simp: run_handle_def split: prod.splits)

lemma record_of_put_link [simp]: "record_of (put_link h dev rg) g f = record_of rg g f"
  by (simp add: record_of_def)

lemma record_of_refused:
  assumes "live rg h"
  shows "record_of (note_refused h t f rg) h f
    = map_of (snd (refused (ry_autos rg ! cl_auto (ry_cells rg ! h)) t f
        (dc_auto_disable_after (handle_config rg h)) (dc_self_heal (handle_config rg h)))) f"
  using assms by (simp add: record_of_def note_refused_def live_def handle_config_def Let_def)

lemma record_of_answered:
  assumes "live rg h"
  shows "record_of (note_answered h f rg) h f = None"
  using assms by (simp add: record_of_def note_answered_def live_def answered_def Let_def split: option.split)


section \<open>A loop among the others\<close>

text \<open>
  One exchange of a loop: its outcome, the instant it ended and the wall clock's reading then. Between
  two ticks of the loop anything else may run that leaves the configuration behind the loop's handle and
  the veto record of its field alone. \<open>Sis_Poll_System\<close> shows that every other task of the program does,
  save another loop on the same pair.
\<close>

type_synonym exchange_event = "(device_error + core_value) \<times> instant \<times> timestamp"

definition exchanges_of :: "winnow \<Rightarrow> query \<Rightarrow> poll \<Rightarrow> sync \<Rightarrow> exchange_event list" where
  "exchanges_of wn q p s =
     (if veto_of s (po_device p) (po_field p) \<noteq> None then []
      else case run_handle (po_device p) (query_instruction wn q) (sy_relay s) of
             (outcome, rl) \<Rightarrow> [(outcome, wd_now (rl_worlds rl (po_device p)), fst (now rl))])"

definition elsewhere :: "handle \<Rightarrow> field_name \<Rightarrow> sync \<Rightarrow> sync \<Rightarrow> bool" where
  "elsewhere h f s s' \<longleftrightarrow>
     (live (sy_registry s) h \<longrightarrow> live (sy_registry s') h)
     \<and> handle_config (sy_registry s') h = handle_config (sy_registry s) h
     \<and> record_of (sy_registry s') h f = record_of (sy_registry s) h f"

inductive poll_history :: "winnow \<Rightarrow> layout \<Rightarrow> wired \<Rightarrow> query \<Rightarrow> poll \<Rightarrow> sync \<Rightarrow> exchange_event list \<Rightarrow> poll \<Rightarrow> sync \<Rightarrow> bool"
  for wn l reconciler q p s where
  ph_start: "poll_history wn l reconciler q p s [] p s"
| ph_tick: "poll_history wn l reconciler q p s xs p1 s1 \<Longrightarrow> \<not> po_ended p1
    \<Longrightarrow> poll_tick wn l reconciler q p1 s1 = (p2, s2)
    \<Longrightarrow> poll_history wn l reconciler q p s (xs @ exchanges_of wn q p1 s1) p2 s2"
| ph_other: "poll_history wn l reconciler q p s xs p1 s1 \<Longrightarrow> elsewhere (po_device p1) (po_field p1) s1 s2
    \<Longrightarrow> poll_history wn l reconciler q p s xs p1 s2"

inductive_cases poll_history_cases: "poll_history wn l reconciler q p s xs p' s'"

text \<open>What the exchanges say of the field, and the last answer among them.\<close>

definition sightings :: "field_name \<Rightarrow> exchange_event list \<Rightarrow> observation list" where
  "sightings f xs = List.map_filter (\<lambda>(outcome, t, at). case outcome of
      Inr v \<Rightarrow> Some (SawAnswer f)
    | Inl e \<Rightarrow> if is_refusal e then Some (SawRefusal f t) else None) xs"

definition contacts :: "exchange_event list \<Rightarrow> contact list" where
  "contacts xs = map (\<lambda>(outcome, t, at). contact_of outcome) xs"

definition last_answer :: "exchange_event list \<Rightarrow> (core_value \<times> timestamp) option" where
  "last_answer xs = foldl (\<lambda>a (outcome, t, at). case outcome of Inr v \<Rightarrow> Some (v, at) | Inl e \<Rightarrow> a) None xs"

lemma sightings_simps [simp]:
  "sightings f [] = []"
  "sightings f (xs @ [(outcome, t, at)]) = sightings f xs @
     (case outcome of Inr v \<Rightarrow> [SawAnswer f] | Inl e \<Rightarrow> if is_refusal e then [SawRefusal f t] else [])"
  by (simp_all add: sightings_def List.map_filter_def split: sum.split)

lemma contacts_simps [simp]:
  "contacts [] = []" "contacts (xs @ [(outcome, t, at)]) = contacts xs @ [contact_of outcome]"
  by (simp_all add: contacts_def)

lemma last_answer_simps [simp]:
  "last_answer [] = None"
  "last_answer (xs @ [(outcome, t, at)]) = (case outcome of Inr v \<Rightarrow> Some (v, at) | Inl e \<Rightarrow> last_answer xs)"
  by (cases outcome; simp add: last_answer_def)+



section \<open>One tick\<close>

lemma say_frame [simp]: "sy_relay (say ls s) = sy_relay s" "sy_store (say ls s) = sy_store s"
  by (simp_all add: say_def)

lemma on_registry_frame [simp]:
  "sy_store (on_registry g s) = sy_store s" "sy_registry (on_registry g s) = g (sy_registry s)"
  "rl_worlds (sy_relay (on_registry g s)) = rl_worlds (sy_relay s)"
  "rl_clock (sy_relay (on_registry g s)) = rl_clock (sy_relay s)"
  "rl_tick (sy_relay (on_registry g s)) = rl_tick (sy_relay s)"
  "rl_outbox (sy_relay (on_registry g s)) = rl_outbox (sy_relay s)"
  by (simp_all add: on_registry_def)

text \<open>The veto record of the field after an exchange.\<close>

definition counted_record :: "device_config \<Rightarrow> field_name \<Rightarrow> device_error + core_value \<Rightarrow> instant \<Rightarrow> auto_disabled \<Rightarrow> veto_record option" where
  "counted_record c f outcome t auto =
     (case outcome of
        Inr v \<Rightarrow> None
      | Inl e \<Rightarrow> if is_refusal e
                 then map_of (snd (refused auto t f (dc_auto_disable_after c) (dc_self_heal c))) f
                 else map_of auto f)"

lemma account_facts:
  assumes "live (sy_registry s) h" and "s' = account h f outcome s"
  shows "live (sy_registry s') h" and "handle_config (sy_registry s') g = handle_config (sy_registry s) g"
    and "record_of (sy_registry s') h f = counted_record (handle_config (sy_registry s) h) f outcome
          (instant_of s h) (ry_autos (sy_registry s) ! cl_auto (ry_cells (sy_registry s) ! h))"
    and "sy_store s' = sy_store s" and "rl_worlds (sy_relay s') = rl_worlds (sy_relay s)"
    and "now (sy_relay s') = (fst (now (sy_relay s)), snd (now (sy_relay s'))) \<and> rl_outbox (sy_relay s') = rl_outbox (sy_relay s)"
    and "relay_id (sy_relay s') g = relay_id (sy_relay s) g"
proof -
  have cells: "ry_cells (sy_registry s') = ry_cells (sy_registry s)"
    unfolding assms(2) account_def Let_def by (simp split: sum.split)
  have autos: "length (ry_autos (sy_registry s')) = length (ry_autos (sy_registry s))"
    unfolding assms(2) account_def Let_def by (simp split: sum.split)
  show "live (sy_registry s') h" using assms(1) by (simp add: live_def cells autos)
  show conf: "handle_config (sy_registry s') g = handle_config (sy_registry s) g" for g
    by (rule handle_config_cells [OF cells])
  show "relay_id (sy_relay s') g = relay_id (sy_relay s) g" by (simp add: relay_id_def conf)
  show "record_of (sy_registry s') h f = counted_record (handle_config (sy_registry s) h) f outcome
          (instant_of s h) (ry_autos (sy_registry s) ! cl_auto (ry_cells (sy_registry s) ! h))"
    unfolding assms(2) account_def counted_record_def Let_def
    by (simp add: record_of_refused [OF assms(1)] record_of_answered [OF assms(1)] record_of_def [symmetric]
        split: sum.split)
  show "sy_store s' = sy_store s" "rl_worlds (sy_relay s') = rl_worlds (sy_relay s)"
    "now (sy_relay s') = (fst (now (sy_relay s)), snd (now (sy_relay s'))) \<and> rl_outbox (sy_relay s') = rl_outbox (sy_relay s)"
    unfolding assms(2) account_def Let_def now_def by (simp_all split: sum.split)
qed

lemma hand_over_facts:
  assumes "s' = hand_over l reconciler h f outcome s"
  shows "sy_registry s' = sy_registry s" and "rl_worlds (sy_relay s') = rl_worlds (sy_relay s)"
    and "relay_id (sy_relay s') g = relay_id (sy_relay s) g"
    and "sy_store s' = (case outcome of Inl e \<Rightarrow> sy_store s
        | Inr v \<Rightarrow> upsert_latest l (read_of (relay_id (sy_relay s) h) f v (fst (now (sy_relay s)))) (sy_store s))"
    and "sy_outbox s' = (case observed_state reconciler f outcome of None \<Rightarrow> sy_outbox s
        | Some st \<Rightarrow> observe (relay_id (sy_relay s) h) (state_to_dto st) (sy_outbox s))"
  unfolding assms hand_over_def Let_def now_def relay_id_def by (simp_all split: sum.split option.split)

lemma veto_record:
  "veto_of s h f = (case record_of (sy_registry s) h f of
      None \<Rightarrow> None
    | Some r \<Rightarrow> (case vr_vetoed_until r of
        None \<Rightarrow> None
      | Some None \<Rightarrow> Some None
      | Some (Some until) \<Rightarrow> if instant_of s h < until then Some (Some (until - instant_of s h)) else None))"
  by (simp add: veto_of_def veto_def record_of_def auto_of_deref)

lemma poll_tick_asked:
  assumes "live (sy_registry s) h" and "h = po_device p" and "f = po_field p"
    and "veto_of s h f = None"
    and run: "run_handle h (query_instruction wn q) (sy_relay s) = (outcome, rl)"
    and tick: "poll_tick wn l reconciler q p s = (p', s')"
  defines "c \<equiv> handle_config (sy_registry s) h"
  shows "live (sy_registry s') h" and "handle_config (sy_registry s') h = c"
    and "relay_id (sy_relay s') h = relay_id (sy_relay s) h"
    and "record_of (sy_registry s') h f = counted_record c f outcome (wd_now (rl_worlds rl h))
          (ry_autos (sy_registry s) ! cl_auto (ry_cells (sy_registry s) ! h))"
    and "p' = p\<lparr>po_health := fst (health_step (po_health p) (contact_of outcome)),
                po_ended := po_ended p \<or> dc_self_heal c = None \<and> veto_of s' h f \<noteq> None\<rparr>"
    and "sy_store s' = (if dc_self_heal c = None \<and> veto_of s' h f \<noteq> None then sy_store s
          else case outcome of Inl e \<Rightarrow> sy_store s
           | Inr v \<Rightarrow> upsert_latest l (read_of (relay_id (sy_relay s) h) f v (fst (now rl))) (sy_store s))"
proof -
  define s0 where "s0 = s\<lparr>sy_relay := rl\<rparr>"
  obtain dev where rg: "rl_registry rl = put_link h dev (sy_registry s)" by (rule run_handle_registry [OF run])
  have s0: "live (sy_registry s0) h" "handle_config (sy_registry s0) h = c"
    "relay_id (sy_relay s0) h = relay_id (sy_relay s) h"
    using assms(1) run_handle_frame(2) [OF run] by (simp_all add: s0_def rg live_def c_def)
  define s1 where "s1 = account h f outcome s0"
  note acc = account_facts [OF s0(1) s1_def]
  define s2 where "s2 = say (announce (snd (health_step (po_health p) (contact_of outcome)))) s1"
  have res: "(p', s') =
      (if dc_self_heal c = None \<and> veto_of s2 h f \<noteq> None
       then (p\<lparr>po_health := fst (health_step (po_health p) (contact_of outcome)), po_ended := True\<rparr>,
             say [(Info, ''poll loop stopped: this field is auto-disabled with no retry'')] s2)
       else (p\<lparr>po_health := fst (health_step (po_health p) (contact_of outcome))\<rparr>,
             hand_over l reconciler h f outcome s2))"
    unfolding tick [symmetric] poll_tick_def Let_def s2_def s1_def s0_def c_def
    using assms(4) run by (simp add: case_prod_beta assms(2,3))
  have rel: "sy_relay s2 = sy_relay s1" "sy_store s2 = sy_store s1" by (simp_all add: s2_def)
  note over = hand_over_facts [OF refl, of l reconciler h f outcome s2]
  have s': "sy_registry s' = sy_registry s1" "rl_worlds (sy_relay s') = rl_worlds (sy_relay s1)"
    "relay_id (sy_relay s') h = relay_id (sy_relay s1) h"
    using res over by (auto simp: rel split: if_splits)
  have veto: "veto_of s2 h f = veto_of s' h f"
    unfolding veto_record instant_of_def s' rel ..
  show "live (sy_registry s') h" "handle_config (sy_registry s') h = c" "relay_id (sy_relay s') h = relay_id (sy_relay s) h"
    using acc(1,2,7) s0 by (simp_all add: s')
  have "ry_autos (sy_registry s0) ! cl_auto (ry_cells (sy_registry s0) ! h) = ry_autos (sy_registry s) ! cl_auto (ry_cells (sy_registry s) ! h)"
    by (simp add: s0_def rg)
  then show "record_of (sy_registry s') h f = counted_record c f outcome (wd_now (rl_worlds rl h))
          (ry_autos (sy_registry s) ! cl_auto (ry_cells (sy_registry s) ! h))"
    unfolding s' acc(3) s0(2) by (simp add: s0_def instant_of_def)
  show "p' = p\<lparr>po_health := fst (health_step (po_health p) (contact_of outcome)),
                po_ended := po_ended p \<or> dc_self_heal c = None \<and> veto_of s' h f \<noteq> None\<rparr>"
    using res by (auto simp: veto split: if_splits)
  have at: "fst (now (sy_relay s1)) = fst (now rl)" using acc(6) by (simp add: s0_def prod_eq_iff)
  show "sy_store s' = (if dc_self_heal c = None \<and> veto_of s' h f \<noteq> None then sy_store s
          else case outcome of Inl e \<Rightarrow> sy_store s
           | Inr v \<Rightarrow> upsert_latest l (read_of (relay_id (sy_relay s) h) f v (fst (now rl))) (sy_store s))"
    using res acc(4,7) s0(3) at by (auto simp: veto over rel s0_def split: if_splits sum.split)
qed



section \<open>The loop's history\<close>

lemma poll_tick_skips:
  assumes "veto_of s (po_device p) (po_field p) = Some r"
  shows "\<exists>line. poll_tick wn l reconciler q p s = (p, say [(Debug, line)] s)"
  using assms by (cases r) (auto simp: poll_tick_def Let_def)

lemmas trailing_past_snoc = trailing_snoc [of f "past @ os" for f past os, simplified]

lemma counted_verdict:
  assumes "map_of auto f = verdict (dc_auto_disable_after c) (dc_self_heal c) (trailing f (past @ sightings f xs))"
  shows "counted_record c f outcome t auto
    = verdict (dc_auto_disable_after c) (dc_self_heal c) (trailing f (past @ sightings f (xs @ [(outcome, t, at)])))"
proof (cases outcome)
  case (Inl e)
  show ?thesis
  proof (cases "dc_auto_disable_after c = 0")
    case True
    with Inl assms show ?thesis by (simp add: counted_record_def trailing_past_snoc refused_def verdict_def)
  next
    case False
    with Inl assms show ?thesis by (simp add: counted_record_def trailing_past_snoc refused_lookup)
  qed
next
  case (Inr v)
  then show ?thesis by (simp add: counted_record_def trailing_past_snoc verdict_def)
qed

text \<open>The field is off for good: the device does not heal and refused it often enough.\<close>

definition off_for_good :: "device_config \<Rightarrow> field_name \<Rightarrow> observation list \<Rightarrow> exchange_event list \<Rightarrow> bool" where
  "off_for_good c f past xs \<longleftrightarrow> dc_self_heal c = None \<and> dc_auto_disable_after c \<noteq> 0
     \<and> unat (dc_auto_disable_after c) \<le> length (trailing f (past @ sightings f xs))"

definition tracks :: "observation list \<Rightarrow> poll \<Rightarrow> sync \<Rightarrow> exchange_event list \<Rightarrow> poll \<Rightarrow> sync \<Rightarrow> bool" where
  "tracks past p s xs p' s' \<longleftrightarrow>
     (let h = po_device p; f = po_field p; c = handle_config (sy_registry s) h
      in live (sy_registry s') h \<and> handle_config (sy_registry s') h = c
         \<and> record_of (sy_registry s') h f
             = verdict (dc_auto_disable_after c) (dc_self_heal c) (trailing f (past @ sightings f xs))
         \<and> p' = p\<lparr>po_health := health_after (contacts xs), po_ended := xs \<noteq> [] \<and> off_for_good c f past xs\<rparr>)"

lemma veto_verdict:
  assumes "record_of (sy_registry s) h f = verdict n None ts"
  shows "veto_of s h f \<noteq> None \<longleftrightarrow> n \<noteq> 0 \<and> ts \<noteq> [] \<and> unat n \<le> length ts"
  using assms by (auto simp: veto_record verdict_def)

lemma tracks_tick:
  assumes "tracks past p s xs p1 s1" and "\<not> po_ended p1" and "poll_tick wn l reconciler q p1 s1 = (p2, s2)"
  shows "tracks past p s (xs @ exchanges_of wn q p1 s1) p2 s2"
proof -
  define h f c where defs: "h = po_device p" "f = po_field p" "c = handle_config (sy_registry s) h"
  have inv: "live (sy_registry s1) h" "handle_config (sy_registry s1) h = c"
    "record_of (sy_registry s1) h f
       = verdict (dc_auto_disable_after c) (dc_self_heal c) (trailing f (past @ sightings f xs))"
    "p1 = p\<lparr>po_health := health_after (contacts xs), po_ended := xs \<noteq> [] \<and> off_for_good c f past xs\<rparr>"
    using assms(1) unfolding tracks_def Let_def defs by blast+
  have p1: "po_device p1 = h" "po_field p1 = f" "\<not> po_ended p1"
    using assms(2) by (simp_all add: inv(4) defs)
  show ?thesis
  proof (cases "veto_of s1 h f")
    case (Some r)
    then obtain line where "p2 = p1" "s2 = say [(Debug, line)] s1"
      using poll_tick_skips [of s1 p1 r wn l reconciler q] assms(3) p1 by auto
    then show ?thesis using assms(1) Some p1 by (simp add: exchanges_of_def tracks_def)
  next
    case None
    obtain outcome rl where run: "run_handle h (query_instruction wn q) (sy_relay s1) = (outcome, rl)"
      by (cases "run_handle h (query_instruction wn q) (sy_relay s1)")
    define t at where tdefs: "t = wd_now (rl_worlds rl h)" "at = fst (now rl)"
    have xs: "xs @ exchanges_of wn q p1 s1 = xs @ [(outcome, t, at)]"
      using None run by (simp add: exchanges_of_def p1 tdefs)
    note T = poll_tick_asked [OF inv(1) p1(1,2) [symmetric] None run assms(3), unfolded inv(2), folded tdefs]
    let ?xs = "xs @ [(outcome, t, at)]"
    have rec: "record_of (sy_registry s2) h f
        = verdict (dc_auto_disable_after c) (dc_self_heal c) (trailing f (past @ sightings f ?xs))"
      unfolding T(4) using inv(3) by (intro counted_verdict) (simp add: record_of_def)
    have ended: "dc_self_heal c = None \<and> veto_of s2 h f \<noteq> None \<longleftrightarrow> off_for_good c f past ?xs"
      using veto_verdict [of s2 h f "dc_auto_disable_after c" "trailing f (past @ sightings f ?xs)"] rec
      by (auto simp: off_for_good_def unat_eq_0)
    have "p2 = p\<lparr>po_health := health_after (contacts ?xs), po_ended := ?xs \<noteq> [] \<and> off_for_good c f past ?xs\<rparr>"
      using T(5) [unfolded ended] p1(3) by (auto simp: inv(4) health_after_snoc)
    then show ?thesis unfolding xs tracks_def Let_def defs [symmetric]
      using T(1,2) rec by simp
  qed
qed

lemma tracks_elsewhere:
  assumes "tracks past p s xs p1 s1" and "elsewhere (po_device p1) (po_field p1) s1 s2"
  shows "tracks past p s xs p1 s2"
proof -
  have "po_device p1 = po_device p" "po_field p1 = po_field p"
    using assms(1) by (auto simp: tracks_def Let_def)
  then show ?thesis using assms by (auto simp: tracks_def elsewhere_def Let_def)
qed

lemma poll_history_tracks:
  assumes "poll_history wn l reconciler q p s xs p' s'" and "tracks past p s [] p s"
  shows "tracks past p s xs p' s'"
  using assms by (induction rule: poll_history.induct) (auto intro: tracks_tick tracks_elsewhere)

lemma tracks_start:
  assumes "live (sy_registry s) h"
    and "record_of (sy_registry s) h f = verdict (dc_auto_disable_after (handle_config (sy_registry s) h))
      (dc_self_heal (handle_config (sy_registry s) h)) (trailing f past)"
  shows "tracks past (new_poll h f interval) s [] (new_poll h f interval) s"
  using assms by (simp add: tracks_def new_poll_def health_after_def)

lemma tracks_fresh:
  assumes "live (sy_registry s) h" and "record_of (sy_registry s) h f = None"
  shows "tracks [] (new_poll h f interval) s [] (new_poll h f interval) s"
  using assms by (intro tracks_start) (simp_all add: trailing_def verdict_def)

definition poll_example :: sync where
  "poll_example = \<lparr>sy_relay = \<lparr>rl_registry = demo_registry, rl_outbox = with_max_attempts 2,
      rl_worlds = (\<lambda>h. demo_world), rl_clock = (\<lambda>n. ''1''), rl_tick = 0\<rparr>,
    sy_store = with_budget None, sy_log = []\<rparr>"

lemma poll_example_facts:
  "live (sy_registry poll_example) 0" "record_of (sy_registry poll_example) 0 f = None"
  "dc_auto_disable_after (handle_config (sy_registry poll_example) 0) = 2"
  "dc_self_heal (handle_config (sy_registry poll_example) 0) = None"
  "relay_id (sy_relay poll_example) 0 = ''a''"
  by (simp_all add: poll_example_def live_def record_of_def relay_id_def handle_config_def demo_registry_def
      demo_document_def registry_build_def rebuild_groups_def insert_new_def empty_registry_def plain_device_def)

lemma poll_example_exchange:
  "exchanges_of plain_winnow Q_SnmpState (new_poll 0 ''SNMP_STATE'' 5) poll_example
     = [(Inl (DConnect (ConnectTimeout (seconds 5))), seconds 5, ''1'')]"
  by (simp add: exchanges_of_def veto_of_def new_poll_def run_handle_def poll_example_def now_def instant_of_def
      demo_registry_def demo_document_def registry_build_def rebuild_groups_def insert_new_def
      empty_registry_def deref_def device_example_defs flip: demo_query_def)

lemma refusals_below:
  assumes "poll_history wn l reconciler q p s xs p' s'" and "tracks [] p s [] p s"
    and "dc_self_heal (handle_config (sy_registry s) (po_device p)) = None"
    and "dc_auto_disable_after (handle_config (sy_registry s) (po_device p)) \<noteq> 0"
  shows "length (trailing (po_field p) (sightings (po_field p) xs))
    \<le> unat (dc_auto_disable_after (handle_config (sy_registry s) (po_device p)))"
  using assms
proof (induction rule: poll_history.induct)
  case ph_start
  then show ?case by (simp add: trailing_def)
next
  case (ph_tick xs p1 s1 p2 s2)
  let ?n = "unat (dc_auto_disable_after (handle_config (sy_registry s) (po_device p)))"
  have "tracks [] p s xs p1 s1" by (rule poll_history_tracks) (fact ph_tick)+
  then have "length (trailing (po_field p) (sightings (po_field p) xs)) < ?n"
    using ph_tick.hyps(2) ph_tick.prems(2,3)
    by (cases "xs = []") (auto simp: tracks_def Let_def off_for_good_def trailing_def unat_gt_0)
  then show ?case
    by (auto simp: exchanges_of_def trailing_snoc split: prod.splits sum.splits)
next
  case (ph_other xs p1 s1 s2)
  then show ?case by simp
qed

text \<open>
  C26. A device that does not heal is not worn out by a field it will not answer: whatever runs between
  its ticks that leaves the configuration and the field's veto record alone (\<open>elsewhere\<close>; every other task
  but a second loop on the pair does, \<open>task_elsewhere\<close> in \<open>Sis_Poll_System\<close>), the loop never sends the query again once it was refused as often in a row as the threshold says, so no
  run of refusals is longer than the threshold; and it never warns of the same outage twice, an onset
  being followed by a recovery before the next one.
\<close>

theorem refusals_stop_at_threshold:
  assumes "live (sy_registry s) h" and "record_of (sy_registry s) h f = None"
    and "poll_history wn l reconciler q (new_poll h f interval) s xs p' s'"
  defines "c \<equiv> handle_config (sy_registry s) h"
  shows "(dc_self_heal c = None \<longrightarrow> dc_auto_disable_after c \<noteq> 0
      \<longrightarrow> length (trailing f (sightings f xs)) \<le> unat (dc_auto_disable_after c))
    \<and> count_list (reports Up (contacts xs)) Onset \<le> count_list (reports Up (contacts xs)) Recovery
        + (if po_health p' = Down then 1 else 0)"
proof -
  let ?p = "new_poll h f interval"
  have t: "tracks [] ?p s [] ?p s" by (rule tracks_fresh [OF assms(1,2)])
  have p: "po_device ?p = h" "po_field ?p = f" by (simp_all add: new_poll_def)
  have "po_health p' = health_after (contacts xs)"
    using poll_history_tracks [OF assms(3) t] by (simp add: tracks_def Let_def)
  then show ?thesis
    using refusals_below [OF assms(3) t] onset_recovery_balance [of "contacts xs"] by (simp add: p c_def)
qed

theorem refusals_stop_at_threshold_witness:
  "\<exists>p' s'. poll_tick plain_winnow tiny_layout True Q_SnmpState (new_poll 0 ''SNMP_STATE'' 5) poll_example = (p', s')
     \<and> count_list (reports Up [FailedContact]) Onset
         \<le> count_list (reports Up [FailedContact]) Recovery + (if po_health p' = Down then 1 else 0)"
proof -
  let ?p = "new_poll 0 ''SNMP_STATE'' 5"
  obtain p' s' where tick: "poll_tick plain_winnow tiny_layout True Q_SnmpState ?p poll_example = (p', s')"
    by (metis surj_pair)
  have "\<not> po_ended ?p" by (simp add: new_poll_def)
  then have "poll_history plain_winnow tiny_layout True Q_SnmpState ?p poll_example
      ([] @ [(Inl (DConnect (ConnectTimeout (seconds 5))), seconds 5, ''1'')]) p' s'"
    using ph_tick [OF ph_start _ tick] poll_example_exchange by simp
  from refusals_stop_at_threshold [OF poll_example_facts(1,2) this] show ?thesis
    using tick by (simp add: contacts_def)
qed

end
