(* ===== verification/Sis_Schedule.thy ===== *)
theory Sis_Schedule
  imports Sis_Poll_Spec
begin

text \<open>
  How the supervisor of \<^verbatim>\<open>sismatic-sync/src/driver.rs\<close> holds the running poll loops to the schedule and
  the fleet: what runs after a pass, what a pass reports, and where a rebound loop inherits a veto it can
  never shed.
\<close>


section \<open>What a schedule asks for\<close>

text \<open>
  The last entry of a field decides among those that name an interval; a pair is wanted when its device
  is registered and does not decline the field.
\<close>

definition interval_for :: "field_schedule list \<Rightarrow> field_name \<Rightarrow> duration option" where
  "interval_for schedule f = map_of (rev (List.map_filter (\<lambda>e. map_option (Pair (fs_name e)) (fs_interval e)) schedule)) f"

definition wanted_pair :: "registry \<Rightarrow> field_schedule list \<Rightarrow> pair_key \<Rightarrow> wanted option" where
  "wanted_pair rg schedule k =
     (case (interval_for schedule (fst k), registry_device rg (snd k)) of
        (Some interval, Some h) \<Rightarrow>
          if fst k \<in> set (dc_disabled_fields (handle_config rg h)) then None
          else Some \<lparr>wa_interval = interval, wa_device = dc_uuid (handle_config rg h)\<rparr>
      | _ \<Rightarrow> None)"

lemma interval_for_Nil [simp]: "interval_for [] f = None"
  by (simp add: interval_for_def List.map_filter_def)

lemma interval_for_snoc:
  "interval_for (schedule @ [e]) f =
     (if fs_name e = f \<and> fs_interval e \<noteq> None then fs_interval e else interval_for schedule f)"
  by (auto simp: interval_for_def List.map_filter_def)

lemma want_field_pairs:
  assumes "distinct (okeys fleet)" and "want_field rg name interval fleet (w, n) = (w', n')"
  shows "map_of w' k = (case map_of fleet (snd k) of
      Some h \<Rightarrow> if fst k = name \<and> name \<notin> set (dc_disabled_fields (handle_config rg h))
                then Some \<lparr>wa_interval = interval, wa_device = dc_uuid (handle_config rg h)\<rparr> else map_of w k
    | None \<Rightarrow> map_of w k)"
  using assms
proof (induction fleet arbitrary: w n)
  case (Cons e fleet)
  obtain i h where e: "e = (i, h)" by (cases e)
  define w1 n1 where "w1 = (if name \<in> set (dc_disabled_fields (handle_config rg h)) then w
      else oput (name, i) \<lparr>wa_interval = interval, wa_device = dc_uuid (handle_config rg h)\<rparr> w)"
    and "n1 = (if name \<in> set (dc_disabled_fields (handle_config rg h)) then n + 1 else n)"
  have "want_field rg name interval fleet (w1, n1) = (w', n')"
    using Cons.prems(2) by (simp add: e w1_def n1_def split: if_splits)
  note IH = Cons.IH [OF _ this]
  have i: "map_of fleet i = None" using Cons.prems(1) by (simp add: e map_of_eq_None_iff)
  have w1: "map_of w1 k = (if k = (name, i) \<and> name \<notin> set (dc_disabled_fields (handle_config rg h))
      then Some \<lparr>wa_interval = interval, wa_device = dc_uuid (handle_config rg h)\<rparr> else map_of w k)"
    by (simp add: w1_def)
  show ?case
  proof (cases "snd k = i")
    case True
    then show ?thesis using IH Cons.prems(1) i by (auto simp: e w1 prod_eq_iff)
  next
    case False
    then show ?thesis using IH Cons.prems(1) by (auto simp: e w1 prod_eq_iff split: option.split)
  qed
qed simp

lemma owf_want_field: "owf w \<Longrightarrow> want_field rg name interval fleet (w, n) = (w', n') \<Longrightarrow> owf w'"
proof (induction fleet arbitrary: w n)
  case (Cons e fleet)
  obtain i h where e: "e = (i, h)" by (cases e)
  show ?case
  proof (cases "name \<in> set (dc_disabled_fields (handle_config rg h))")
    case True
    then show ?thesis using Cons.IH [of w "n + 1"] Cons.prems by (simp add: e)
  next
    case False
    show ?thesis by (rule Cons.IH [OF owf_oput [OF Cons.prems(1)]]) (use Cons.prems(2) False e in simp)
  qed
qed simp

lemma fleet_of_registered: "registry_ok rg \<Longrightarrow> map_of (fleet_of rg) i = registry_device rg i"
  using map_of_by_id [of rg id] by (simp add: fleet_of_def option.map_id)

lemma fleet_of_distinct: "distinct (okeys (fleet_of rg))"
  by (simp add: fleet_of_def owf_distinct owf_ocollect)

lemma wanted_from_append:
  "wanted_from rg (xs @ ys) fleet acc = wanted_from rg ys fleet (wanted_from rg xs fleet acc)"
  by (induction xs arbitrary: acc) simp_all

lemma wanted_from_pairs:
  assumes "registry_ok rg" and "wanted_from rg schedule (fleet_of rg) ([], 0) = (w, n)"
  shows "owf w" and "map_of w k = wanted_pair rg schedule k"
proof -
  have "owf w \<and> map_of w = wanted_pair rg schedule"
    using assms(2)
  proof (induction schedule arbitrary: w n rule: rev_induct)
    case Nil
    then show ?case by (auto simp: wanted_pair_def fun_eq_iff)
  next
    case (snoc e schedule)
    obtain w1 n1 where p1: "wanted_from rg schedule (fleet_of rg) ([], 0) = (w1, n1)"
      by (cases "wanted_from rg schedule (fleet_of rg) ([], 0)")
    have IH: "owf w1" "map_of w1 k = wanted_pair rg schedule k" for k using snoc.IH [OF p1] by simp_all
    show ?case
    proof (cases "fs_interval e")
      case None
      then have "w = w1" using snoc.prems p1 by (simp add: wanted_from_append)
      then show ?thesis using IH None by (simp add: fun_eq_iff wanted_pair_def interval_for_snoc)
    next
      case (Some interval)
      then have p2: "want_field rg (fs_name e) interval (fleet_of rg) (w1, n1) = (w, n)"
        using snoc.prems p1 by (simp add: wanted_from_append)
      have "map_of w k = wanted_pair rg (schedule @ [e]) k" for k
        unfolding want_field_pairs [OF fleet_of_distinct p2] fleet_of_registered [OF assms(1)] IH(2)
        using Some by (auto simp: wanted_pair_def interval_for_snoc split: option.split)
      then show ?thesis using owf_want_field [OF IH(1) p2] by blast
    qed
  qed
  then show "owf w" "map_of w k = wanted_pair rg schedule k" by simp_all
qed



section \<open>One pair\<close>

text \<open>What runs under a pair: what it was started against, and its task.\<close>

definition loop_at :: "loops \<Rightarrow> pair_key \<Rightarrow> (wanted \<times> poll) option" where
  "loop_at lo k = map_option (\<lambda>r. (is_wanted r, lo_tasks lo ! ru_task r)) (map_of (lo_running lo) k)"

definition wanted_at :: "loops \<Rightarrow> pair_key \<Rightarrow> wanted option" where
  "wanted_at lo k = map_option is_wanted (map_of (lo_running lo) k)"

text \<open>The tasks not told to stop are the ones the map names, each under one pair and on its field and interval.\<close>

definition loops_ok :: "loops \<Rightarrow> bool" where
  "loops_ok lo \<longleftrightarrow> owf (lo_running lo)
     \<and> (\<forall>k r. map_of (lo_running lo) k = Some r \<longrightarrow> ru_task r < length (lo_tasks lo)
          \<and> \<not> po_cancelled (lo_tasks lo ! ru_task r) \<and> po_field (lo_tasks lo ! ru_task r) = fst k
          \<and> po_interval (lo_tasks lo ! ru_task r) = ru_interval r)
     \<and> (\<forall>t < length (lo_tasks lo). \<not> po_cancelled (lo_tasks lo ! t)
          \<longrightarrow> (\<exists>k r. map_of (lo_running lo) k = Some r \<and> ru_task r = t))
     \<and> (\<forall>j k r r'. map_of (lo_running lo) j = Some r \<longrightarrow> map_of (lo_running lo) k = Some r'
          \<longrightarrow> ru_task r = ru_task r' \<longrightarrow> j = k)"

lemma loops_okD:
  assumes "loops_ok lo"
  shows "owf (lo_running lo)"
    and "map_of (lo_running lo) k = Some r \<Longrightarrow> ru_task r < length (lo_tasks lo)"
    and "map_of (lo_running lo) k = Some r \<Longrightarrow> \<not> po_cancelled (lo_tasks lo ! ru_task r)
      \<and> po_field (lo_tasks lo ! ru_task r) = fst k \<and> po_interval (lo_tasks lo ! ru_task r) = ru_interval r"
    and "t < length (lo_tasks lo) \<Longrightarrow> \<not> po_cancelled (lo_tasks lo ! t)
      \<Longrightarrow> \<exists>k r. map_of (lo_running lo) k = Some r \<and> ru_task r = t"
    and "map_of (lo_running lo) j = Some r \<Longrightarrow> map_of (lo_running lo) k = Some r'
      \<Longrightarrow> ru_task r = ru_task r' \<Longrightarrow> j = k"
  using assms unfolding loops_ok_def by blast+

lemma no_loops_ok: "loops_ok no_loops"
  by (simp add: loops_ok_def no_loops_def)

lemma stop_loop_ok:
  assumes "loops_ok lo"
  shows "loops_ok (stop_loop k lo)" and "loop_at (stop_loop k lo) = (loop_at lo)(k := None)"
proof -
  note ok = loops_okD [OF assms]
  have "loops_ok (stop_loop k lo) \<and> loop_at (stop_loop k lo) = (loop_at lo)(k := None)"
  proof (cases "map_of (lo_running lo) k")
    case None
    then show ?thesis using assms by (auto simp: stop_loop_def loop_at_def)
  next
    case (Some r)
    let ?t = "ru_task r"
    have others: "ru_task r' \<noteq> ?t" if "map_of (lo_running lo) j = Some r'" "j \<noteq> k" for j r'
      using ok(5) [OF that(1) Some] that(2) by blast
    have stop: "stop_loop k lo = lo\<lparr>lo_running := odel k (lo_running lo),
        lo_tasks := (lo_tasks lo)[?t := (lo_tasks lo ! ?t)\<lparr>po_cancelled := True\<rparr>]\<rparr>"
      using Some by (simp add: stop_loop_def)
    let ?ts = "(lo_tasks lo)[?t := (lo_tasks lo ! ?t)\<lparr>po_cancelled := True\<rparr>]"
    have parts: "lo_running (stop_loop k lo) = odel k (lo_running lo)" "lo_tasks (stop_loop k lo) = ?ts"
      by (simp_all add: stop)
    have run: "map_of (odel k (lo_running lo)) j = Some r' \<longleftrightarrow> j \<noteq> k \<and> map_of (lo_running lo) j = Some r'" for j r'
      by auto
    have "loops_ok (stop_loop k lo)"
      unfolding loops_ok_def parts run
    proof (intro conjI allI impI)
      show "owf (odel k (lo_running lo))" by (rule owf_odel [OF ok(1)])
      fix j r' assume "j \<noteq> k \<and> map_of (lo_running lo) j = Some r'"
      then have j: "j \<noteq> k" and r': "map_of (lo_running lo) j = Some r'" by blast+
      show "ru_task r' < length ?ts" using ok(2) [OF r'] by simp
      show "\<not> po_cancelled (?ts ! ru_task r')" "po_field (?ts ! ru_task r') = fst j"
        "po_interval (?ts ! ru_task r') = ru_interval r'"
        using ok(3) [OF r'] others [OF r' j] by simp_all
    next
      fix t assume t: "t < length ?ts" "\<not> po_cancelled (?ts ! t)"
      then have "t \<noteq> ?t" by auto
      then obtain j r' where r': "map_of (lo_running lo) j = Some r'" "ru_task r' = t"
        using ok(4) [of t] t by (metis length_list_update nth_list_update_neq)
      then have "j \<noteq> k" using Some \<open>t \<noteq> ?t\<close> by auto
      with r' show "\<exists>j r'. (j \<noteq> k \<and> map_of (lo_running lo) j = Some r') \<and> ru_task r' = t" by blast
    next
      fix j r1 j' r2
      assume "j \<noteq> k \<and> map_of (lo_running lo) j = Some r1" "j' \<noteq> k \<and> map_of (lo_running lo) j' = Some r2"
        "ru_task r1 = ru_task r2"
      then show "j = j'" using ok(5) by blast
    qed
    moreover have "loop_at (stop_loop k lo) = (loop_at lo)(k := None)"
    proof
      fix j show "loop_at (stop_loop k lo) j = ((loop_at lo)(k := None)) j"
        using others [of j] unfolding loop_at_def parts by (cases "map_of (lo_running lo) j") auto
    qed
    ultimately show ?thesis by blast
  qed
  then show "loops_ok (stop_loop k lo)" "loop_at (stop_loop k lo) = (loop_at lo)(k := None)" by blast+
qed

lemma start_loop_ok:
  assumes "loops_ok lo" and "map_of (lo_running lo) k = None"
  shows "loops_ok (start_loop k h w lo)"
    and "loop_at (start_loop k h w lo) = (loop_at lo)(k \<mapsto> (w, new_poll h (fst k) (wa_interval w)))"
proof -
  note ok = loops_okD [OF assms(1)]
  let ?new = "new_poll h (fst k) (wa_interval w)" and ?n = "length (lo_tasks lo)"
  define r0 where "r0 = \<lparr>ru_interval = wa_interval w, ru_device = wa_device w, ru_task = ?n\<rparr>"
  let ?ts = "lo_tasks lo @ [?new]"
  have start: "start_loop k h w lo = lo\<lparr>lo_tasks := ?ts, lo_running := oput k r0 (lo_running lo)\<rparr>"
    by (simp add: start_loop_def r0_def)
  have parts: "lo_running (start_loop k h w lo) = oput k r0 (lo_running lo)" "lo_tasks (start_loop k h w lo) = ?ts"
    by (simp_all add: start)
  have run: "map_of (oput k r0 (lo_running lo)) j = Some r
      \<longleftrightarrow> j = k \<and> r = r0 \<or> j \<noteq> k \<and> map_of (lo_running lo) j = Some r" for j r
    by auto
  show "loops_ok (start_loop k h w lo)"
    unfolding loops_ok_def parts run
  proof (intro conjI allI impI)
    show "owf (oput k r0 (lo_running lo))" by (rule owf_oput [OF ok(1)])
    fix j r assume c: "j = k \<and> r = r0 \<or> j \<noteq> k \<and> map_of (lo_running lo) j = Some r"
    show "ru_task r < length ?ts" using c ok(2) [of j r] by (auto simp: r0_def)
    show "\<not> po_cancelled (?ts ! ru_task r)" "po_field (?ts ! ru_task r) = fst j"
      "po_interval (?ts ! ru_task r) = ru_interval r"
      using c ok(2) [of j r] ok(3) [of j r] by (auto simp: r0_def nth_append new_poll_def)
  next
    fix t assume t: "t < length ?ts" "\<not> po_cancelled (?ts ! t)"
    show "\<exists>j r. (j = k \<and> r = r0 \<or> j \<noteq> k \<and> map_of (lo_running lo) j = Some r) \<and> ru_task r = t"
    proof (cases "t = ?n")
      case True
      then show ?thesis by (intro exI [of _ k] exI [of _ r0]) (simp add: r0_def)
    next
      case False
      then have "t < ?n" "\<not> po_cancelled (lo_tasks lo ! t)" using t by (simp_all add: nth_append)
      then obtain j r where "map_of (lo_running lo) j = Some r" "ru_task r = t" using ok(4) by blast
      then show ?thesis using assms(2) by (intro exI [of _ j] exI [of _ r]) auto
    qed
  next
    fix j r1 j' r2
    assume "j = k \<and> r1 = r0 \<or> j \<noteq> k \<and> map_of (lo_running lo) j = Some r1"
      and "j' = k \<and> r2 = r0 \<or> j' \<noteq> k \<and> map_of (lo_running lo) j' = Some r2" and "ru_task r1 = ru_task r2"
    then show "j = j'" using ok(2) [of j r1] ok(2) [of j' r2] ok(5) [of j r1 j' r2] by (auto simp: r0_def)
  qed
  show "loop_at (start_loop k h w lo) = (loop_at lo)(k \<mapsto> (w, ?new))"
    unfolding loop_at_def start using ok(2)
    by (auto simp: fun_eq_iff nth_append is_wanted_def r0_def intro!: option.map_cong0)
qed



section \<open>One pass\<close>

abbreviation fleet_wants :: "(pair_key, wanted) omap \<Rightarrow> (device_id, handle) omap \<Rightarrow> bool" where
  "fleet_wants wanted fleet \<equiv> \<forall>k. map_of wanted k \<noteq> None \<longrightarrow> map_of fleet (snd k) \<noteq> None"

definition pair_after :: "(pair_key, wanted) omap \<Rightarrow> (device_id, handle) omap \<Rightarrow> (pair_key \<Rightarrow> (wanted \<times> poll) option)
    \<Rightarrow> pair_key \<Rightarrow> (wanted \<times> poll) option" where
  "pair_after wanted fleet at k =
     (case map_of wanted k of
        None \<Rightarrow> None
      | Some w \<Rightarrow> if map_option fst (at k) = Some w then at k
                  else Some (w, new_poll (the (map_of fleet (snd k))) (fst k) (wa_interval w)))"

definition counted_change :: "loop_action \<Rightarrow> loop_change \<Rightarrow> loop_change" where
  "counted_change a ch =
     (case a of
        Leave \<Rightarrow> ch
      | Start \<Rightarrow> ch\<lparr>lc_started := lc_started ch + 1\<rparr>
      | Stop \<Rightarrow> ch\<lparr>lc_stopped := lc_stopped ch + 1\<rparr>
      | Retime \<Rightarrow> ch\<lparr>lc_retimed := lc_retimed ch + 1\<rparr>
      | Rebind \<Rightarrow> ch\<lparr>lc_rebound := lc_rebound ch + 1\<rparr>)"

definition action_at :: "(pair_key, wanted) omap \<Rightarrow> (pair_key \<Rightarrow> (wanted \<times> poll) option) \<Rightarrow> pair_key \<Rightarrow> loop_action" where
  "action_at wanted at k = act (map_option fst (at k)) (map_of wanted k)"

lemma act_leave: "act r w = Leave \<longleftrightarrow> r = w"
  by (cases r; cases w) auto

lemma fst_loop_at: "map_option is_wanted (map_of (lo_running lo) k) = map_option fst (loop_at lo k)"
  by (simp add: loop_at_def option.map_comp comp_def)

lemma reconcile_pair_step:
  assumes "loops_ok lo" and "fleet_wants wanted fleet" and "reconcile_pair wanted fleet k (lo, ch) = (lo', ch')"
  shows "loops_ok lo' \<and> loop_at lo' = (loop_at lo)(k := pair_after wanted fleet (loop_at lo) k)
    \<and> ch' = counted_change (action_at wanted (loop_at lo) k) ch
    \<and> (action_at wanted (loop_at lo) k = Leave \<longrightarrow> lo' = lo)"
proof -
  note stop = stop_loop_ok [OF assms(1), of k]
  have gone: "map_of (lo_running (stop_loop k lo)) k = None"
    by (auto simp: stop_loop_def split: option.split)
  note restart = start_loop_ok [OF stop(1) gone]
  note run = assms(3) [unfolded reconcile_pair_def Let_def prod.case fst_loop_at]
  show ?thesis
  proof (cases "map_of wanted k")
    case None
    show ?thesis
    proof (cases "loop_at lo k")
      case None
      with \<open>map_of wanted k = None\<close> show ?thesis
        using run assms(1) by (auto simp: action_at_def pair_after_def counted_change_def)
    next
      case (Some e)
      with None show ?thesis
        using run stop by (auto simp: action_at_def pair_after_def counted_change_def)
    qed
  next
    case (Some w)
    then obtain h where h: "map_of fleet (snd k) = Some h" using assms(2) by blast
    show ?thesis
    proof (cases "loop_at lo k")
      case None
      then have "map_of (lo_running lo) k = None" by (simp add: loop_at_def)
      from start_loop_ok [OF assms(1) this, of h w] show ?thesis
        using run None Some h by (auto simp: action_at_def pair_after_def counted_change_def)
    next
      case (Some e)
      with \<open>map_of wanted k = Some w\<close> h show ?thesis
        using run restart [of h w] stop(2) assms(1)
        by (auto simp: action_at_def pair_after_def counted_change_def split: if_splits)
    qed
  qed
qed

text \<open>How often a pass takes each action.\<close>

definition tallied :: "loop_action list \<Rightarrow> loop_change \<Rightarrow> loop_change" where
  "tallied as ch = ch\<lparr>
     lc_started := lc_started ch + count_list as Start,
     lc_stopped := lc_stopped ch + count_list as Stop,
     lc_retimed := lc_retimed ch + count_list as Retime,
     lc_rebound := lc_rebound ch + count_list as Rebind\<rparr>"

lemma tallied_Cons: "tallied (a # as) ch = tallied as (counted_change a ch)"
  by (cases a) (simp_all add: tallied_def counted_change_def)

lemma reconcile_pairs:
  assumes "loops_ok lo" and "fleet_wants wanted fleet" and "distinct ks"
    and "foldl (\<lambda>s k. reconcile_pair wanted fleet k s) (lo, ch) ks = (lo', ch')"
  shows "loops_ok lo' \<and> loop_at lo' = (\<lambda>k. if k \<in> set ks then pair_after wanted fleet (loop_at lo) k else loop_at lo k)
    \<and> ch' = tallied (map (action_at wanted (loop_at lo)) ks) ch
    \<and> ((\<forall>k \<in> set ks. action_at wanted (loop_at lo) k = Leave) \<longrightarrow> lo' = lo)"
  using assms
proof (induction ks arbitrary: lo ch)
  case Nil
  then show ?case by (simp add: tallied_def)
next
  case (Cons k ks)
  obtain lo1 ch1 where s: "reconcile_pair wanted fleet k (lo, ch) = (lo1, ch1)"
    by (cases "reconcile_pair wanted fleet k (lo, ch)")
  note step = reconcile_pair_step [OF Cons.prems(1,2) s]
  have rest: "foldl (\<lambda>s k. reconcile_pair wanted fleet k s) (lo1, ch1) ks = (lo', ch')"
    using Cons.prems(4) s by simp
  have ks: "k \<notin> set ks" "distinct ks" using Cons.prems(3) by simp_all
  note IH = Cons.IH [OF conjunct1 [OF step] Cons.prems(2) ks(2) rest]
  have at1: "loop_at lo1 j = loop_at lo j" if "j \<noteq> k" for j using step that by simp
  have same: "pair_after wanted fleet (loop_at lo1) j = pair_after wanted fleet (loop_at lo) j"
    "action_at wanted (loop_at lo1) j = action_at wanted (loop_at lo) j" if "j \<in> set ks" for j
  proof -
    have "loop_at lo1 j = loop_at lo j" by (rule at1) (use that ks(1) in auto)
    then show "pair_after wanted fleet (loop_at lo1) j = pair_after wanted fleet (loop_at lo) j"
      "action_at wanted (loop_at lo1) j = action_at wanted (loop_at lo) j"
      by (auto simp: pair_after_def action_at_def split: option.split)
  qed
  have "loop_at lo' = (\<lambda>j. if j \<in> set (k # ks) then pair_after wanted fleet (loop_at lo) j else loop_at lo j)"
  proof
    fix j
    have "loop_at lo1 k = pair_after wanted fleet (loop_at lo) k" using step by simp
    moreover have "loop_at lo' j = (if j \<in> set ks then pair_after wanted fleet (loop_at lo1) j else loop_at lo1 j)"
      using IH by simp
    ultimately show "loop_at lo' j = (if j \<in> set (k # ks) then pair_after wanted fleet (loop_at lo) j else loop_at lo j)"
      using ks(1) same(1) at1 by (cases "j = k") auto
  qed
  moreover have "ch' = tallied (map (action_at wanted (loop_at lo)) (k # ks)) ch"
  proof -
    have "map (action_at wanted (loop_at lo1)) ks = map (action_at wanted (loop_at lo)) ks"
      using same(2) by (intro map_cong refl)
    moreover have "ch' = tallied (map (action_at wanted (loop_at lo1)) ks) ch1" using IH by blast
    moreover have "ch1 = counted_change (action_at wanted (loop_at lo) k) ch" using step by blast
    ultimately show ?thesis by (simp only: list.map tallied_Cons)
  qed
  moreover have "(\<forall>j \<in> set (k # ks). action_at wanted (loop_at lo) j = Leave) \<longrightarrow> lo' = lo"
  proof
    assume leave: "\<forall>j \<in> set (k # ks). action_at wanted (loop_at lo) j = Leave"
    then have "\<forall>j \<in> set ks. action_at wanted (loop_at lo1) j = Leave" using same(2) by simp
    then have "lo' = lo1" using IH by blast
    moreover have "lo1 = lo" using step leave by simp
    ultimately show "lo' = lo" by simp
  qed
  ultimately show ?case using conjunct1 [OF IH] by blast
qed



section \<open>The running loops are the schedule's\<close>

text \<open>The pairs a registry and a schedule leave each action to.\<close>

definition pairs_taking :: "registry \<Rightarrow> field_schedule list \<Rightarrow> loops \<Rightarrow> loop_action \<Rightarrow> pair_key set" where
  "pairs_taking rg schedule lo a = {k. act (map_option fst (loop_at lo k)) (wanted_pair rg schedule k) = a}"

lemma count_map_distinct: "distinct ks \<Longrightarrow> count_list (map g ks) a = card {k \<in> set ks. g k = a}"
proof (induction ks)
  case (Cons k ks)
  have "{x \<in> set (k # ks). g x = a} = (if g k = a then insert k {x \<in> set ks. g x = a} else {x \<in> set ks. g x = a})"
    by auto
  then show ?case using Cons by simp
qed simp

lemma reconcile_loops_facts:
  assumes "registry_ok rg" and "loops_ok lo" and "reconcile_loops rg schedule lo = (lo', ch)"
  shows "loops_ok lo'"
    and "loop_at lo' k = (case wanted_pair rg schedule k of
        None \<Rightarrow> None
      | Some w \<Rightarrow> if map_option fst (loop_at lo k) = Some w then loop_at lo k
                  else Some (w, new_poll (the (registry_device rg (snd k))) (fst k) (wa_interval w)))"
    and "lc_started ch = card (pairs_taking rg schedule lo Start) \<and> lc_stopped ch = card (pairs_taking rg schedule lo Stop)
      \<and> lc_retimed ch = card (pairs_taking rg schedule lo Retime)
      \<and> lc_rebound ch = card (pairs_taking rg schedule lo Rebind)"
    and "change_is_nothing ch \<Longrightarrow> lo' = lo"
proof -
  let ?fleet = "fleet_of rg"
  obtain wanted declined where w: "wanted_loops rg schedule ?fleet = (wanted, declined)"
    by (cases "wanted_loops rg schedule ?fleet")
  note wp = wanted_from_pairs [OF assms(1) w [unfolded wanted_loops_def]]
  define named where "named = oset (okeys wanted @ okeys (lo_running lo))"
  define ch0 where "ch0 = \<lparr>lc_started = 0, lc_stopped = 0, lc_retimed = 0, lc_rebound = 0, lc_declined = declined\<rparr>"
  have run: "foldl (\<lambda>s k. reconcile_pair wanted ?fleet k s) (lo, ch0) named = (lo', ch)"
    using assms(3) by (simp add: reconcile_loops_def w named_def ch0_def)
  have reg: "map_of ?fleet (snd k) = registry_device rg (snd k)" for k by (rule fleet_of_registered [OF assms(1)])
  have fw: "fleet_wants wanted ?fleet"
    unfolding wp(2) reg by (auto simp: wanted_pair_def split: option.splits)
  have "distinct named" by (simp add: named_def)
  note R = reconcile_pairs [OF assms(2) fw this run]
  show "loops_ok lo'" using R by blast
  have outside: "map_of wanted k = None \<and> loop_at lo k = None" if "k \<notin> set named" for k
    using that by (simp add: named_def loop_at_def map_of_eq_None_iff)
  show "loop_at lo' k = (case wanted_pair rg schedule k of
        None \<Rightarrow> None
      | Some w \<Rightarrow> if map_option fst (loop_at lo k) = Some w then loop_at lo k
                  else Some (w, new_poll (the (registry_device rg (snd k))) (fst k) (wa_interval w)))"
    using R outside [of k] by (auto simp: pair_after_def wp(2) reg split: option.split)
  have acts: "count_list (map (action_at wanted (loop_at lo)) named) a = card (pairs_taking rg schedule lo a)"
    if "a \<noteq> Leave" for a
  proof -
    have "k \<in> set named" if "action_at wanted (loop_at lo) k \<noteq> Leave" for k
      using outside [of k] that by (cases "k \<in> set named") (simp_all add: action_at_def)
    then have "{k \<in> set named. action_at wanted (loop_at lo) k = a} = {k. action_at wanted (loop_at lo) k = a}"
      using that by blast
    also have "\<dots> = pairs_taking rg schedule lo a" by (simp add: pairs_taking_def action_at_def wp(2))
    finally have "{k \<in> set named. action_at wanted (loop_at lo) k = a} = pairs_taking rg schedule lo a" .
    then show ?thesis by (simp add: count_map_distinct \<open>distinct named\<close>)
  qed
  then show "lc_started ch = card (pairs_taking rg schedule lo Start) \<and> lc_stopped ch = card (pairs_taking rg schedule lo Stop)
      \<and> lc_retimed ch = card (pairs_taking rg schedule lo Retime)
      \<and> lc_rebound ch = card (pairs_taking rg schedule lo Rebind)"
    using R by (simp add: tallied_def ch0_def)
  assume "change_is_nothing ch"
  then have zero: "count_list (map (action_at wanted (loop_at lo)) named) a = 0" if "a \<noteq> Leave" for a
    using R that by (cases a) (simp_all add: tallied_def ch0_def change_is_nothing_def)
  have "action_at wanted (loop_at lo) k = Leave" if mem: "k \<in> set named" for k
  proof (rule ccontr)
    assume "action_at wanted (loop_at lo) k \<noteq> Leave"
    from zero [OF this] have "action_at wanted (loop_at lo) k \<notin> set (map (action_at wanted (loop_at lo)) named)"
      unfolding count_list_0_iff .
    then show False using mem by simp
  qed
  then show "lo' = lo" using R by blast
qed


text \<open>
  C9. A pass over the schedule leaves exactly the loops the schedule asks for. Afterwards a pair has a
  running loop if and only if the schedule gives its field an interval, its device is registered and does
  not decline the field; the loop runs at that interval against a device of the registered identity; a loop
  that was right already is the same task as before, undisturbed, and every other loop is a new task on the
  device the registry hands out now; every task that lost its place was told to stop; and the counts
  reported are the numbers of pairs each action was taken for. A pass that reports nothing changed nothing.
\<close>

theorem loops_follow_schedule:
  assumes "registry_ok rg" and "loops_ok lo" and "reconcile_loops rg schedule lo = (lo', ch)"
  shows "loops_ok lo'
    \<and> (\<forall>k. loop_at lo' k = (case wanted_pair rg schedule k of
          None \<Rightarrow> None
        | Some w \<Rightarrow> if map_option fst (loop_at lo k) = Some w then loop_at lo k
                    else Some (w, new_poll (the (registry_device rg (snd k))) (fst k) (wa_interval w))))
    \<and> lc_started ch = card (pairs_taking rg schedule lo Start) \<and> lc_stopped ch = card (pairs_taking rg schedule lo Stop)
    \<and> lc_retimed ch = card (pairs_taking rg schedule lo Retime)
    \<and> lc_rebound ch = card (pairs_taking rg schedule lo Rebind)
    \<and> (change_is_nothing ch \<longrightarrow> lo' = lo)"
  using reconcile_loops_facts [OF assms] by blast

text \<open>Two fields on a device that declines one of them, started from nothing.\<close>

theorem loops_follow_schedule_witness:
  "\<exists>lo ch. reconcile_loops demo_registry [\<lparr>fs_name = ''TITLE'', fs_interval = Some 5\<rparr>,
        \<lparr>fs_name = ''FORMAT'', fs_interval = None\<rparr>] no_loops = (lo, ch)
     \<and> loop_at lo (''TITLE'', ''a'') = Some (\<lparr>wa_interval = 5, wa_device = 1\<rparr>, new_poll 0 ''TITLE'' 5)
     \<and> loop_at lo (''FORMAT'', ''a'') = None"
proof -
  let ?s = "[\<lparr>fs_name = ''TITLE'', fs_interval = Some 5\<rparr>, \<lparr>fs_name = ''FORMAT'', fs_interval = None\<rparr>]"
  obtain lo ch where run: "reconcile_loops demo_registry ?s no_loops = (lo, ch)" by (metis surj_pair)
  note at = loops_follow_schedule [OF demo_registry_ok no_loops_ok run, THEN conjunct2, THEN conjunct1, THEN spec]
  have "wanted_pair demo_registry ?s (''TITLE'', ''a'') = Some \<lparr>wa_interval = 5, wa_device = 1\<rparr>"
    "wanted_pair demo_registry ?s (''FORMAT'', ''a'') = None" "registry_device demo_registry ''a'' = Some 0"
    by (simp_all add: wanted_pair_def interval_for_def List.map_filter_def demo_registry_def demo_document_def
        registry_build_def rebuild_groups_def insert_new_def empty_registry_def registry_device_def
        handle_config_def plain_device_def)
  moreover have "loop_at no_loops k = None" for k by (simp add: loop_at_def no_loops_def)
  ultimately show ?thesis
    using run at [of "(''TITLE'', ''a'')"] at [of "(''FORMAT'', ''a'')"] by simp
qed


section \<open>A veto that outlives its device\<close>

text \<open>
  The learned vetoes belong to the device's name: a replacement shares them. A veto without an end is
  taken off by an answer alone, and a loop that finds one does not ask.
\<close>

fun poll_turns :: "winnow \<Rightarrow> layout \<Rightarrow> wired \<Rightarrow> nat \<Rightarrow> poll \<Rightarrow> sync \<Rightarrow> poll \<times> sync" where
  "poll_turns wn l reconciler 0 p s = (p, s)"
| "poll_turns wn l reconciler (Suc n) p s =
     (case poll_turn wn l reconciler p s of (p', s') \<Rightarrow> poll_turns wn l reconciler n p' s')"

definition vetoed_for_good :: "registry \<Rightarrow> handle \<Rightarrow> field_name \<Rightarrow> bool" where
  "vetoed_for_good rg h f \<longleftrightarrow> map_option vr_vetoed_until (record_of rg h f) = Some (Some None)"

lemma permanent_veto: "vetoed_for_good (sy_registry s) h f \<Longrightarrow> veto_of s h f = Some None"
  by (auto simp: vetoed_for_good_def veto_record)

lemma stranded_turns:
  assumes "vetoed_for_good (sy_registry s) (po_device p) (po_field p)" and "\<not> po_ended p" and "\<not> po_cancelled p"
    and "catalog_from_str query_catalog (po_field p) = Inr q"
  shows "\<exists>lines. poll_turns wn l reconciler n p s = (p, say lines s) \<and> length lines = n"
  using assms(1)
proof (induction n arbitrary: s)
  case 0
  have "say [] s = s" by (simp add: say_def)
  then show ?case by (intro exI [of _ "[]"]) simp
next
  case (Suc n)
  obtain line where turn: "poll_turn wn l reconciler p s = (p, say [(Debug, line)] s)"
    using poll_tick_skips [OF permanent_veto [OF Suc.prems], of wn l reconciler q] assms(2-4)
    by (auto simp: poll_turn_def poll_query_def)
  have "vetoed_for_good (sy_registry (say [(Debug, line)] s)) (po_device p) (po_field p)" using Suc.prems by simp
  from Suc.IH [OF this] obtain lines where
    "poll_turns wn l reconciler n p (say [(Debug, line)] s) = (p, say lines (say [(Debug, line)] s))" "length lines = n"
    by blast
  then show ?case using turn by (intro exI [of _ "(Debug, line) # lines"]) (simp add: say_def)
qed

lemma replacement_inherits:
  assumes "registry_ok rg" and "distinct (map dc_id (rs_devices r))" and "registry_apply r rg = (rg', ch)"
    and "registry_device rg i = Some h" and "registry_device rg' i = Some h'" and "vetoed_for_good rg h f"
  shows "vetoed_for_good rg' h' f"
proof -
  note x = registry_apply_facts [OF assms(1-3)]
  have bound: "h < length (ry_cells rg)" "cl_auto (ry_cells rg ! h) < length (ry_autos rg)"
    using assms(1,4) by (auto simp: registry_ok_def cells_ok_def registry_device_def)
  have ext: "extends rg rg'" using x(1) by blast
  obtain c where "find (\<lambda>c. dc_id c = i) (rs_devices r) = Some c" "settled_on rg rg' i c h'"
    using spec [OF x(2), of i] assms(5) by (auto split: option.splits)
  then have "cl_auto (ry_cells rg' ! h') = cl_auto (ry_cells rg ! h)"
    using assms(4) extends_cell [OF ext bound(1)]
    by (auto simp: settled_on_def registry_device_def split: if_splits)
  then show ?thesis
    using assms(6) extends_auto [OF ext bound(2)] by (simp add: vetoed_for_good_def record_of_def)
qed

text \<open>
  C36. A field switched off for good stays off through every edit of its device, and the loop that should
  have ended runs on. When a device with such a veto is edited, the pass rebinds the field's
  loop to the replacement; the replacement shares the veto, whatever heal interval or threshold the edit
  gave it; and the new loop then turns for ever without asking the device once and without ending:
  nothing but the log moves. Only an answer takes the veto off, and no loop asks for one.
\<close>

theorem edited_device_keeps_stranded_loop:
  assumes "registry_ok rg" and "distinct (map dc_id (rs_devices r))" and "registry_apply r rg = (rg', ch)"
    and "registry_device rg i = Some h" and "registry_device rg' i = Some h'" and "vetoed_for_good rg h f"
    and "loops_ok lo" and "loop_at lo (f, i) = Some (old, p)"
    and "wanted_pair rg' schedule (f, i) = Some w" and "wa_device old \<noteq> wa_device w"
    and "reconcile_loops rg' schedule lo = (lo', lc)"
    and "sy_registry s = rg'" and "catalog_from_str query_catalog f = Inr q"
  shows "\<exists>p'. loop_at lo' (f, i) = Some (w, p')
    \<and> (\<forall>n. \<exists>lines. poll_turns wn l reconciler n p' s = (p', say lines s)) \<and> \<not> po_ended p'"
proof -
  let ?p = "new_poll h' f (wa_interval w)"
  have ok: "registry_ok rg'" using registry_apply_facts(1) [OF assms(1-3)] by blast
  have "loop_at lo' (f, i) = Some (w, ?p)"
    using reconcile_loops_facts(2) [OF ok assms(7,11), of "(f, i)"] assms(5,8-10) by auto
  moreover have "vetoed_for_good (sy_registry s) h' f"
    unfolding assms(12) by (rule replacement_inherits [OF assms(1-6)])
  then have "\<exists>lines. poll_turns wn l reconciler n ?p s = (?p, say lines s)" for n
    using stranded_turns [of s ?p q wn l reconciler n] assms(13) by (auto simp: new_poll_def)
  moreover have "\<not> po_ended ?p" by (simp add: new_poll_def)
  ultimately show ?thesis by blast
qed

text \<open>Two refusals of a title, then an edit that gives the device a heal interval.\<close>

definition off_registry :: registry where
  "off_registry = note_refused 0 0 ''TITLE'' (note_refused 0 0 ''TITLE'' demo_registry)"

definition healing_document :: resolved where
  "healing_document =
     \<lparr>rs_devices = [(plain_device ''a'' ''10.0.0.7'')\<lparr>dc_uuid := 2, dc_self_heal := Some (seconds 60)\<rparr>], rs_groups = []\<rparr>"

lemmas off_example_defs = off_registry_def note_refused_def demo_registry_def demo_document_def
  registry_build_def rebuild_groups_def insert_new_def empty_registry_def plain_device_def Let_def

lemma off_registry_facts:
  "registry_ok off_registry" "registry_device off_registry ''a'' = Some 0" "vetoed_for_good off_registry 0 ''TITLE''"
  by (simp_all add: registry_ok_def cells_ok_def handle_config_def owf_def registry_device_def vetoed_for_good_def
      record_of_def refused_def saturating_add_def off_example_defs ocollect_def)

theorem edited_device_keeps_stranded_loop_witness:
  "\<exists>rg' ch lo lc p'. registry_apply healing_document off_registry = (rg', ch)
     \<and> dc_self_heal (handle_config rg' 1) = Some (seconds 60)
     \<and> loop_at lo (''TITLE'', ''a'') = Some (\<lparr>wa_interval = 5, wa_device = 2\<rparr>, p')
     \<and> fst (poll_turns plain_winnow tiny_layout True 7 p' lc) = p' \<and> \<not> po_ended p'"
proof -
  let ?s = "[\<lparr>fs_name = ''TITLE'', fs_interval = Some 5\<rparr>]" and ?k = "(''TITLE'', ''a'')"
  obtain rg' ch where run: "registry_apply healing_document off_registry = (rg', ch)" by (metis surj_pair)
  obtain lo ch0 where lo: "reconcile_loops off_registry ?s no_loops = (lo, ch0)" by (metis surj_pair)
  obtain lo' lc where lo': "reconcile_loops rg' ?s lo = (lo', lc)" by (metis surj_pair)
  have rg': "rg' = fst (registry_apply healing_document off_registry)" by (simp add: run)
  have new: "registry_device rg' ''a'' = Some 1" "wanted_pair rg' ?s ?k = Some \<lparr>wa_interval = 5, wa_device = 2\<rparr>"
      "dc_self_heal (handle_config rg' 1) = Some (seconds 60)"
    unfolding rg'
    by (simp_all add: registry_apply_def desired_of_def ocollect_def healing_document_def apply_device_def
        insert_replacement_def wanted_pair_def interval_for_def List.map_filter_def registry_device_def
        handle_config_def off_example_defs no_change_def)
  have old: "wanted_pair off_registry ?s ?k = Some \<lparr>wa_interval = 5, wa_device = 1\<rparr>"
    by (simp add: wanted_pair_def interval_for_def List.map_filter_def registry_device_def handle_config_def off_example_defs)
  note F = reconcile_loops_facts [OF off_registry_facts(1) no_loops_ok lo]
  have at: "loop_at lo ?k = Some (\<lparr>wa_interval = 5, wa_device = 1\<rparr>, new_poll 0 ''TITLE'' 5)"
    using F(2) [of ?k] old off_registry_facts(2) by (simp add: loop_at_def no_loops_def)
  have distinct: "distinct (map dc_id (rs_devices healing_document))" by (simp add: healing_document_def)
  define s where "s = poll_example\<lparr>sy_relay := (sy_relay poll_example)\<lparr>rl_registry := rg'\<rparr>\<rparr>"
  have q: "catalog_from_str query_catalog ''TITLE'' = Inr Q_Title"
    using queries.from_str_name [of Q_Title]
    by (simp add: catalog_name_def arm_def query_catalog_def entry_def)
  obtain p' where p': "loop_at lo' ?k = Some (\<lparr>wa_interval = 5, wa_device = 2\<rparr>, p')"
    "\<forall>n. \<exists>lines. poll_turns plain_winnow tiny_layout True n p' s = (p', say lines s)" "\<not> po_ended p'"
    using edited_device_keeps_stranded_loop [OF off_registry_facts(1) distinct run off_registry_facts(2) new(1)
        off_registry_facts(3) F(1) at new(2) _ lo' _ q, of s plain_winnow tiny_layout True] by (auto simp: s_def)
  obtain lines where "poll_turns plain_winnow tiny_layout True 7 p' s = (p', say lines s)" using p'(2) by blast
  then show ?thesis using run new(3) p'(1,3) by (metis fst_conv)
qed

end
