(* ===== verification/Sis_Supervise.thy ===== *)
theory Sis_Supervise
  imports Sis_Schedule
begin

text \<open>
  The supervisor task of \<^verbatim>\<open>sismatic-sync/src/driver.rs\<close> and its shutdown, with the poll loops it
  owns and the edits of the fleet as one system.

  \<open>select!\<close> takes any branch that is ready, so which branch a task takes is part of the move: a wake
  of the supervisor is what its channels and its token delivered, a turn of a loop says whether it took its
  cancellation or its tick. Every sequence of moves is a run of the system. The log lines of the
  supervisor are left out.
\<close>


section \<open>The supervisor\<close>

record supervisor =
  su_loops :: loops
  su_schedule :: "field_schedule list"
  su_watching_fields :: bool
  su_watching_fleet :: bool
  su_cancelled :: bool
  su_draining :: bool

text \<open>
  What a wake delivers: a published schedule or a closed channel, an announced fleet or a closed channel,
  the cancellation.
\<close>

datatype wake =
    WakeFields "field_schedule list option"
  | WakeFleet bool
  | WakeCancelled

text \<open>Every loop holds a child of the driver's token: it is cancelled with it, and born cancelled after it.\<close>

definition cancel_all :: "loops \<Rightarrow> loops" where
  "cancel_all lo = lo\<lparr>lo_tasks := map (\<lambda>p. p\<lparr>po_cancelled := True\<rparr>) (lo_tasks lo)\<rparr>"

definition su_reconcile :: "registry \<Rightarrow> supervisor \<Rightarrow> supervisor" where
  "su_reconcile rg su =
     (let lo = fst (reconcile_loops rg (su_schedule su) (su_loops su))
      in su\<lparr>su_loops := if su_cancelled su then cancel_all lo else lo\<rparr>)"

definition supervise :: "registry \<Rightarrow> field_schedule list \<Rightarrow> supervisor" where
  "supervise rg schedule =
     su_reconcile rg \<lparr>su_loops = no_loops, su_schedule = schedule, su_watching_fields = True,
       su_watching_fleet = True, su_cancelled = False, su_draining = False\<rparr>"

text \<open>One turn of the supervisor's loop; a branch whose channel closed is no longer asked.\<close>

fun wake_up :: "registry \<Rightarrow> wake \<Rightarrow> supervisor \<Rightarrow> supervisor" where
  "wake_up rg (WakeFields (Some published)) su =
     (if su_watching_fields su then su_reconcile rg (su\<lparr>su_schedule := published\<rparr>) else su)"
| "wake_up rg (WakeFields None) su = su\<lparr>su_watching_fields := False\<rparr>"
| "wake_up rg (WakeFleet True) su = (if su_watching_fleet su then su_reconcile rg su else su)"
| "wake_up rg (WakeFleet False) su = su\<lparr>su_watching_fleet := False\<rparr>"
| "wake_up rg WakeCancelled su = (if su_cancelled su then su\<lparr>su_draining := True\<rparr> else su)"

definition supervise_turn :: "registry \<Rightarrow> wake \<Rightarrow> supervisor \<Rightarrow> supervisor" where
  "supervise_turn rg w su = (if su_draining su then su else wake_up rg w su)"

text \<open>\<open>SyncHandle::shutdown\<close> cancels and waits until the supervisor has left its loop and joined every task.\<close>

definition sync_shutdown :: "supervisor \<Rightarrow> supervisor" where
  "sync_shutdown su = su\<lparr>su_cancelled := True, su_loops := cancel_all (su_loops su)\<rparr>"

definition supervisor_done :: "supervisor \<Rightarrow> bool" where
  "supervisor_done su \<longleftrightarrow> su_draining su \<and> (\<forall>p \<in> set (lo_tasks (su_loops su)). po_ended p)"


section \<open>The system\<close>

datatype select_arm = CancelArm | TickArm

text \<open>The \<open>select!\<close> of a poll loop: the cancellation is ready once cancelled, a tick whenever it is due.\<close>

definition poll_select :: "winnow \<Rightarrow> layout \<Rightarrow> wired \<Rightarrow> select_arm \<Rightarrow> poll \<Rightarrow> sync \<Rightarrow> poll \<times> sync" where
  "poll_select wn l reconciler a p s =
     (if po_ended p then (p, s)
      else case poll_query p of
             Inl e \<Rightarrow> (p\<lparr>po_ended := True\<rparr>, say [(Warn, ''unknown query field; poll loop not started'')] s)
           | Inr q \<Rightarrow>
               (case a of
                  TickArm \<Rightarrow> poll_tick wn l reconciler q p s
                | CancelArm \<Rightarrow>
                    if po_cancelled p then (p\<lparr>po_ended := True\<rparr>, say [(Info, ''poll loop stopped'')] s) else (p, s)))"

datatype move =
    Wake wake
  | Turn nat select_arm
  | Shutdown
  | Amend resolved

type_synonym system = "supervisor \<times> sync"

definition turn_task :: "winnow \<Rightarrow> layout \<Rightarrow> wired \<Rightarrow> nat \<Rightarrow> select_arm \<Rightarrow> system \<Rightarrow> system" where
  "turn_task wn l reconciler t a sys =
     (let (su, s) = sys; lo = su_loops su
      in if t < length (lo_tasks lo)
         then (case poll_select wn l reconciler a (lo_tasks lo ! t) s of
                 (p, s) \<Rightarrow> (su\<lparr>su_loops := lo\<lparr>lo_tasks := (lo_tasks lo)[t := p]\<rparr>\<rparr>, s))
         else (su, s))"

fun driver_move :: "winnow \<Rightarrow> layout \<Rightarrow> wired \<Rightarrow> move \<Rightarrow> system \<Rightarrow> system" where
  "driver_move wn l reconciler (Wake w) (su, s) = (supervise_turn (sy_registry s) w su, s)"
| "driver_move wn l reconciler (Turn t a) sys = turn_task wn l reconciler t a sys"
| "driver_move wn l reconciler Shutdown (su, s) = (sync_shutdown su, s)"
| "driver_move wn l reconciler (Amend r) (su, s) = (su, on_registry (\<lambda>rg. fst (registry_apply r rg)) s)"

definition driver_moves :: "winnow \<Rightarrow> layout \<Rightarrow> wired \<Rightarrow> move list \<Rightarrow> system \<Rightarrow> system" where
  "driver_moves wn l reconciler ms sys = foldl (\<lambda>sys m. driver_move wn l reconciler m sys) sys ms"

lemma driver_moves_simps [simp]:
  "driver_moves wn l reconciler [] sys = sys"
  "driver_moves wn l reconciler (m # ms) sys = driver_moves wn l reconciler ms (driver_move wn l reconciler m sys)"
  "driver_moves wn l reconciler (ms @ ns) sys = driver_moves wn l reconciler ns (driver_moves wn l reconciler ms sys)"
  by (simp_all add: driver_moves_def)

text \<open>The turn of the loop model is the select that prefers the cancellation.\<close>

lemma poll_turn_select:
  "poll_turn wn l reconciler p s = poll_select wn l reconciler (if po_cancelled p then CancelArm else TickArm) p s"
  by (simp add: poll_turn_def poll_select_def split: sum.split)


section \<open>What a turn leaves alone\<close>

definition same_fleet :: "registry \<Rightarrow> registry \<Rightarrow> bool" where
  "same_fleet rg rg' \<longleftrightarrow> ry_devices rg' = ry_devices rg \<and> (\<forall>h. handle_config rg' h = handle_config rg h)
     \<and> map cl_auto (ry_cells rg') = map cl_auto (ry_cells rg) \<and> length (ry_autos rg') = length (ry_autos rg)"

lemma same_fleet_refl [simp]: "same_fleet rg rg"
  by (simp add: same_fleet_def)

lemma same_fleet_trans: "same_fleet a b \<Longrightarrow> same_fleet b c \<Longrightarrow> same_fleet a c"
  by (simp add: same_fleet_def)

lemma same_fleet_put_link: "same_fleet rg (put_link h dev rg)"
proof -
  have "map cl_auto (ry_cells (put_link h dev rg)) = map cl_auto (ry_cells rg)"
    by (rule nth_equalityI) simp_all
  moreover have "length (ry_autos (put_link h dev rg)) = length (ry_autos rg)" by (simp add: put_link_def)
  ultimately show ?thesis by (simp add: same_fleet_def)
qed

lemma same_fleet_note:
  "same_fleet rg (note_refused h t f rg)" "same_fleet rg (note_answered h f rg)"
  by (simp_all add: same_fleet_def handle_config_def)

lemma same_fleet_ok:
  assumes "same_fleet rg rg'" and "registry_ok rg"
  shows "registry_ok rg'"
proof -
  have "length (ry_cells rg') = length (ry_cells rg)"
    using assms(1) map_eq_imp_length_eq by (fastforce simp: same_fleet_def)
  moreover have "(\<forall>a \<in> set (map cl_auto (ry_cells rg')). a < length (ry_autos rg'))
      = (\<forall>a \<in> set (map cl_auto (ry_cells rg)). a < length (ry_autos rg))"
    using assms(1) by (simp only: same_fleet_def)
  then have "cells_ok rg' = cells_ok rg" by (simp add: cells_ok_def)
  ultimately show ?thesis using assms by (simp add: registry_ok_def same_fleet_def)
qed

lemma same_fleet_wanted: "same_fleet rg rg' \<Longrightarrow> wanted_pair rg' schedule k = wanted_pair rg schedule k"
  by (simp add: wanted_pair_def same_fleet_def registry_device_def split: option.split)

lemma account_fleet: "same_fleet (sy_registry s) (sy_registry (account h f outcome s))"
  by (simp add: account_def Let_def same_fleet_note split: sum.split)

definition same_place :: "poll \<Rightarrow> poll \<Rightarrow> bool" where
  "same_place p p' \<longleftrightarrow> po_field p' = po_field p \<and> po_interval p' = po_interval p \<and> po_device p' = po_device p
     \<and> po_cancelled p' = po_cancelled p"

lemma poll_tick_frame:
  assumes "poll_tick wn l reconciler q p s = (p', s')"
  shows "same_fleet (sy_registry s) (sy_registry s') \<and> same_place p p'"
proof (cases "veto_of s (po_device p) (po_field p)")
  case None
  let ?h = "po_device p" and ?f = "po_field p"
  obtain outcome rl where run: "run_handle ?h (query_instruction wn q) (sy_relay s) = (outcome, rl)" by (metis surj_pair)
  obtain dev where rg: "rl_registry rl = put_link ?h dev (sy_registry s)" by (rule run_handle_registry [OF run])
  define s1 where "s1 = account ?h ?f outcome (s\<lparr>sy_relay := rl\<rparr>)"
  have "same_fleet (sy_registry s) (sy_registry s1)"
    using same_fleet_trans [OF same_fleet_put_link [of "sy_registry s" ?h dev]]
      account_fleet [of "s\<lparr>sy_relay := rl\<rparr>" ?h ?f outcome] by (simp add: s1_def rg)
  moreover have "sy_registry s' = sy_registry s1"
    using assms None run hand_over_facts(1) [OF refl]
    by (auto simp: poll_tick_def Let_def s1_def split: prod.splits if_splits)
  moreover have "same_place p p'"
    using assms None run by (auto simp: poll_tick_def Let_def same_place_def split: prod.splits if_splits)
  ultimately show ?thesis by simp
next
  case (Some r)
  then show ?thesis
    using poll_tick_skips [OF Some, of wn l reconciler q] assms by (auto simp: same_place_def)
qed

lemma poll_select_frame:
  assumes "poll_select wn l reconciler a p s = (p', s')"
  shows "same_fleet (sy_registry s) (sy_registry s') \<and> same_place p p' \<and> (po_ended p \<longrightarrow> (p', s') = (p, s))"
proof -
  have "same_fleet (sy_registry s) (sy_registry s') \<and> same_place p p'"
    using assms poll_tick_frame [of wn l reconciler _ p s p' s']
    by (auto simp: poll_select_def split: if_splits sum.splits select_arm.splits) (simp_all add: same_place_def)
  then show ?thesis using assms by (auto simp: poll_select_def)
qed

text \<open>A cancellation reaches no device and stores nothing.\<close>

definition idle :: "sync \<Rightarrow> sync \<Rightarrow> bool" where
  "idle s s' \<longleftrightarrow> sy_store s' = sy_store s \<and> sy_outbox s' = sy_outbox s \<and> rl_worlds (sy_relay s') = rl_worlds (sy_relay s)"

lemma idle_refl [simp]: "idle s s" and idle_say [simp]: "idle s (say ls s)"
  and idle_on_registry [simp]: "idle s (on_registry f s)"
  by (simp_all add: idle_def)

lemma idle_trans: "idle a b \<Longrightarrow> idle b c \<Longrightarrow> idle a c"
  by (simp add: idle_def)

lemma cancel_arm_idle: "poll_select wn l reconciler CancelArm p s = (p', s') \<Longrightarrow> idle s s'"
  by (auto simp: poll_select_def split: if_splits sum.splits)

lemma cancel_arm_ends:
  "poll_select wn l reconciler CancelArm p s = (p', s') \<Longrightarrow> po_cancelled p \<Longrightarrow> po_ended p'"
  by (auto simp: poll_select_def split: if_splits sum.splits)


section \<open>The invariant of the system\<close>

text \<open>What runs is what the schedule in force asks of the registry.\<close>

definition loops_in_step :: "registry \<Rightarrow> supervisor \<Rightarrow> bool" where
  "loops_in_step rg su \<longleftrightarrow> (\<forall>k. wanted_at (su_loops su) k = wanted_pair rg (su_schedule su) k)"

definition system_ok :: "system \<Rightarrow> bool" where
  "system_ok sys \<longleftrightarrow> registry_ok (sy_registry (snd sys)) \<and> loops_ok (su_loops (fst sys))
     \<and> \<not> su_cancelled (fst sys) \<and> \<not> su_draining (fst sys)"

lemma wanted_at_loop: "wanted_at lo k = map_option fst (loop_at lo k)"
  by (simp add: wanted_at_def fst_loop_at)

lemma loops_in_step_flags [simp]:
  "loops_in_step rg (su\<lparr>su_watching_fields := b\<rparr>) = loops_in_step rg su"
  "loops_in_step rg (su\<lparr>su_watching_fleet := b\<rparr>) = loops_in_step rg su"
  "loops_in_step rg (su\<lparr>su_draining := b\<rparr>) = loops_in_step rg su"
  by (simp_all add: loops_in_step_def)

lemma loops_in_step_fleet: "same_fleet rg rg' \<Longrightarrow> loops_in_step rg' su = loops_in_step rg su"
  by (simp add: loops_in_step_def same_fleet_wanted)

lemma su_reconcile_simps [simp]:
  "su_cancelled (su_reconcile rg su) = su_cancelled su" "su_draining (su_reconcile rg su) = su_draining su"
  "su_watching_fields (su_reconcile rg su) = su_watching_fields su"
  "su_watching_fleet (su_reconcile rg su) = su_watching_fleet su" "su_schedule (su_reconcile rg su) = su_schedule su"
  by (simp_all add: su_reconcile_def Let_def)

lemma su_reconcile_facts:
  assumes "registry_ok rg" and "loops_ok (su_loops su)" and "\<not> su_cancelled su"
  shows "loops_ok (su_loops (su_reconcile rg su))" and "loops_in_step rg (su_reconcile rg su)"
proof -
  obtain lo ch where pass: "reconcile_loops rg (su_schedule su) (su_loops su) = (lo, ch)" by (metis surj_pair)
  note F = reconcile_loops_facts [OF assms(1,2) pass]
  have su: "su_reconcile rg su = su\<lparr>su_loops := lo\<rparr>" using assms(3) by (simp add: su_reconcile_def pass)
  show "loops_ok (su_loops (su_reconcile rg su))" using F(1) by (simp add: su)
  show "loops_in_step rg (su_reconcile rg su)"
    unfolding loops_in_step_def by (auto simp: su wanted_at_loop F(2) split: option.split)
qed

text \<open>A task that takes a turn keeps its place.\<close>

lemma loops_ok_turn:
  assumes "loops_ok lo" and "same_place (lo_tasks lo ! t) p"
  shows "loops_ok (lo\<lparr>lo_tasks := (lo_tasks lo)[t := p]\<rparr>)"
proof -
  have same: "po_cancelled ((lo_tasks lo)[t := p] ! i) = po_cancelled (lo_tasks lo ! i)"
    "po_field ((lo_tasks lo)[t := p] ! i) = po_field (lo_tasks lo ! i)"
    "po_interval ((lo_tasks lo)[t := p] ! i) = po_interval (lo_tasks lo ! i)" for i
    using assms(2) by (cases "i = t"; cases "t < length (lo_tasks lo)"; simp add: same_place_def list_update_beyond)+
  show ?thesis using assms(1) by (simp add: loops_ok_def same)
qed

lemma turn_task_facts:
  assumes "turn_task wn l reconciler t a (su, s) = (su', s')"
  shows "same_fleet (sy_registry s) (sy_registry s')"
    and "\<exists>ps. su' = su\<lparr>su_loops := (su_loops su)\<lparr>lo_tasks := ps\<rparr>\<rparr> \<and> length ps = length (lo_tasks (su_loops su))
      \<and> (\<forall>i < length ps. same_place (lo_tasks (su_loops su) ! i) (ps ! i)
           \<and> (po_ended (lo_tasks (su_loops su) ! i) \<longrightarrow> ps ! i = lo_tasks (su_loops su) ! i))"
    and "loops_ok (su_loops su) \<Longrightarrow> loops_ok (su_loops su')"
    and "t < length (lo_tasks (su_loops su)) \<Longrightarrow> po_ended (lo_tasks (su_loops su) ! t) \<Longrightarrow> s' = s"
    and "a = CancelArm \<Longrightarrow> idle s s'"
    and "a = CancelArm \<Longrightarrow> t < length (lo_tasks (su_loops su)) \<Longrightarrow> po_cancelled (lo_tasks (su_loops su) ! t)
      \<Longrightarrow> po_ended (lo_tasks (su_loops su') ! t)"
    and "\<not> t < length (lo_tasks (su_loops su)) \<Longrightarrow> s' = s"
proof -
  let ?lo = "su_loops su"
  obtain p s1 where sel: "poll_select wn l reconciler a (lo_tasks ?lo ! t) s = (p, s1)" by (metis surj_pair)
  note F = poll_select_frame [OF sel]
  have res: "(su', s') = (if t < length (lo_tasks ?lo)
      then (su\<lparr>su_loops := ?lo\<lparr>lo_tasks := (lo_tasks ?lo)[t := p]\<rparr>\<rparr>, s1) else (su, s))"
    using assms by (simp add: turn_task_def Let_def sel split: if_splits)
  have su': "su' = su\<lparr>su_loops := ?lo\<lparr>lo_tasks := (lo_tasks ?lo)[t := p]\<rparr>\<rparr>"
    using res by (auto simp: list_update_beyond split: if_splits)
  show "same_fleet (sy_registry s) (sy_registry s')" using res F by (auto split: if_splits)
  show "loops_ok ?lo \<Longrightarrow> loops_ok (su_loops su')" using F loops_ok_turn by (simp add: su')
  show "\<exists>ps. su' = su\<lparr>su_loops := ?lo\<lparr>lo_tasks := ps\<rparr>\<rparr> \<and> length ps = length (lo_tasks ?lo)
      \<and> (\<forall>i < length ps. same_place (lo_tasks ?lo ! i) (ps ! i)
           \<and> (po_ended (lo_tasks ?lo ! i) \<longrightarrow> ps ! i = lo_tasks ?lo ! i))"
  proof (intro exI [of _ "(lo_tasks ?lo)[t := p]"] conjI allI impI)
    fix i assume "i < length ((lo_tasks ?lo)[t := p])"
    then show "same_place (lo_tasks ?lo ! i) ((lo_tasks ?lo)[t := p] ! i)"
      using F by (cases "i = t") (auto simp: same_place_def)
    assume "po_ended (lo_tasks ?lo ! i)"
    with \<open>i < _\<close> show "(lo_tasks ?lo)[t := p] ! i = lo_tasks ?lo ! i" using F by (cases "i = t") auto
  qed (simp_all add: su')
  show "t < length (lo_tasks ?lo) \<Longrightarrow> po_ended (lo_tasks ?lo ! t) \<Longrightarrow> s' = s" using res F by simp
  show "a = CancelArm \<Longrightarrow> idle s s'" using res cancel_arm_idle [of wn l reconciler _ s p s1] sel by (auto split: if_splits)
  show "a = CancelArm \<Longrightarrow> t < length (lo_tasks ?lo) \<Longrightarrow> po_cancelled (lo_tasks ?lo ! t) \<Longrightarrow> po_ended (lo_tasks (su_loops su') ! t)"
    using cancel_arm_ends sel by (simp add: su')
  show "\<not> t < length (lo_tasks ?lo) \<Longrightarrow> s' = s" using res by simp
qed

text \<open>Which wakes make the supervisor look, and what schedule is in force after a run.\<close>

definition hears :: "move list \<Rightarrow> move \<Rightarrow> bool" where
  "hears before m \<longleftrightarrow> m = Wake (WakeFleet True) \<and> Wake (WakeFleet False) \<notin> set before
     \<or> (\<exists>published. m = Wake (WakeFields (Some published)) \<and> Wake (WakeFields None) \<notin> set before)"

fun schedule_after :: "field_schedule list \<Rightarrow> move list \<Rightarrow> field_schedule list" where
  "schedule_after schedule [] = schedule"
| "schedule_after schedule (Wake (WakeFields (Some published)) # ms) = schedule_after published ms"
| "schedule_after schedule (Wake (WakeFields None) # ms) = schedule"
| "schedule_after schedule (m # ms) = schedule_after schedule ms"

abbreviation well_edited :: "move list \<Rightarrow> bool" where
  "well_edited ms \<equiv> \<forall>r. Amend r \<in> set ms \<longrightarrow> distinct (map dc_id (rs_devices r))"

lemma driver_move_ok:
  assumes "system_ok (su, s)" and "m \<noteq> Shutdown" and "well_edited [m]"
    and "driver_move wn l reconciler m (su, s) = (su', s')"
  shows "system_ok (su', s')"
proof (cases m)
  case (Wake w)
  then show ?thesis
    using assms
    by (cases "(sy_registry s, w, su)" rule: wake_up.cases)
       (auto simp: system_ok_def supervise_turn_def intro!: su_reconcile_facts(1) split: if_splits)
next
  case (Turn t a)
  note F = turn_task_facts [OF assms(4) [unfolded Turn driver_move.simps]]
  show ?thesis using assms(1) F(2,3) same_fleet_ok [OF F(1)] by (auto simp: system_ok_def)
next
  case (Amend r)
  obtain rg' ch where ap: "registry_apply r (sy_registry s) = (rg', ch)" by (metis surj_pair)
  have "distinct (map dc_id (rs_devices r))" using assms(3) Amend by simp
  then show ?thesis
    using assms(1,4) registry_apply_facts(1) [OF _ _ ap] Amend ap by (auto simp: system_ok_def)
qed (use assms(2) in simp)

lemma driver_moves_ok:
  "system_ok sys \<Longrightarrow> Shutdown \<notin> set ms \<Longrightarrow> well_edited ms \<Longrightarrow> system_ok (driver_moves wn l reconciler ms sys)"
proof (induction ms arbitrary: sys)
  case (Cons m ms)
  obtain su s su' s' where m: "sys = (su, s)" "driver_move wn l reconciler m (su, s) = (su', s')" by (metis surj_pair)
  have "system_ok (su', s')"
    by (rule driver_move_ok [OF _ _ _ m(2)]) (use Cons.prems m(1) in auto)
  then show ?case using Cons.IH [of "(su', s')"] Cons.prems m by simp
qed simp


text \<open>Once in step, only an edit of the fleet takes the system out of it.\<close>

lemma driver_move_in_step:
  assumes "system_ok (su, s)" and "m \<noteq> Shutdown" and "\<forall>r. m \<noteq> Amend r" and "loops_in_step (sy_registry s) su"
    and "driver_move wn l reconciler m (su, s) = (su', s')"
  shows "loops_in_step (sy_registry s') su'"
proof (cases m)
  case (Wake w)
  then show ?thesis
    using assms
    by (cases "(sy_registry s, w, su)" rule: wake_up.cases)
       (auto simp: system_ok_def supervise_turn_def intro!: su_reconcile_facts(2) split: if_splits)
next
  case (Turn t a)
  note F = turn_task_facts [OF assms(5) [unfolded Turn driver_move.simps]]
  obtain ps where "su' = su\<lparr>su_loops := (su_loops su)\<lparr>lo_tasks := ps\<rparr>\<rparr>" using F(2) by blast
  then have "loops_in_step (sy_registry s) su'" using assms(4) by (simp add: loops_in_step_def wanted_at_def)
  then show ?thesis by (simp add: loops_in_step_fleet [OF F(1)])
qed (use assms(2,3) in simp_all)

lemma driver_moves_in_step:
  "system_ok sys \<Longrightarrow> Shutdown \<notin> set ms \<Longrightarrow> \<forall>r. Amend r \<notin> set ms \<Longrightarrow> loops_in_step (sy_registry (snd sys)) (fst sys)
     \<Longrightarrow> loops_in_step (sy_registry (snd (driver_moves wn l reconciler ms sys))) (fst (driver_moves wn l reconciler ms sys))"
proof (induction ms arbitrary: sys)
  case (Cons m ms)
  obtain su s su' s' where m: "sys = (su, s)" "driver_move wn l reconciler m (su, s) = (su', s')" by (metis surj_pair)
  have "system_ok (su', s')" by (rule driver_move_ok [OF _ _ _ m(2)]) (use Cons.prems m(1) in auto)
  moreover have "loops_in_step (sy_registry s') su'"
    by (rule driver_move_in_step [OF _ _ _ _ m(2)]) (use Cons.prems m(1) in auto)
  ultimately show ?case using Cons.IH [of "(su', s')"] Cons.prems m by simp
qed simp

text \<open>What the supervisor knows of its channels.\<close>

lemma driver_move_channels:
  assumes "system_ok (su, s)" and "m \<noteq> Shutdown" and "driver_move wn l reconciler m (su, s) = (su', s')"
  shows "su_watching_fleet su' \<longleftrightarrow> su_watching_fleet su \<and> m \<noteq> Wake (WakeFleet False)"
    and "su_watching_fields su' \<longleftrightarrow> su_watching_fields su \<and> m \<noteq> Wake (WakeFields None)"
    and "su_schedule su' = (case m of Wake (WakeFields (Some published)) \<Rightarrow>
        if su_watching_fields su then published else su_schedule su | _ \<Rightarrow> su_schedule su)"
proof -
  have "(su_watching_fleet su' \<longleftrightarrow> su_watching_fleet su \<and> m \<noteq> Wake (WakeFleet False))
      \<and> (su_watching_fields su' \<longleftrightarrow> su_watching_fields su \<and> m \<noteq> Wake (WakeFields None))
      \<and> su_schedule su' = (case m of Wake (WakeFields (Some published)) \<Rightarrow>
        if su_watching_fields su then published else su_schedule su | _ \<Rightarrow> su_schedule su)"
  proof (cases m)
    case (Wake w)
    then show ?thesis
      using assms by (cases "(sy_registry s, w, su)" rule: wake_up.cases)
        (auto simp: system_ok_def supervise_turn_def split: if_splits)
  next
    case (Turn t a)
    show ?thesis using turn_task_facts(2) [OF assms(3) [unfolded Turn driver_move.simps]] Turn by auto
  qed (use assms(2,3) in auto)
  then show "su_watching_fleet su' \<longleftrightarrow> su_watching_fleet su \<and> m \<noteq> Wake (WakeFleet False)"
    and "su_watching_fields su' \<longleftrightarrow> su_watching_fields su \<and> m \<noteq> Wake (WakeFields None)"
    and "su_schedule su' = (case m of Wake (WakeFields (Some published)) \<Rightarrow>
        if su_watching_fields su then published else su_schedule su | _ \<Rightarrow> su_schedule su)" by blast+
qed

lemma driver_moves_channels:
  assumes "system_ok (su, s)" and "Shutdown \<notin> set ms" and "well_edited ms"
    and "driver_moves wn l reconciler ms (su, s) = (su', s')"
  shows "su_watching_fleet su' \<longleftrightarrow> su_watching_fleet su \<and> Wake (WakeFleet False) \<notin> set ms"
    and "su_watching_fields su' \<longleftrightarrow> su_watching_fields su \<and> Wake (WakeFields None) \<notin> set ms"
    and "su_schedule su' = (if su_watching_fields su then schedule_after (su_schedule su) ms else su_schedule su)"
proof -
  have "(su_watching_fleet su' \<longleftrightarrow> su_watching_fleet su \<and> Wake (WakeFleet False) \<notin> set ms)
      \<and> (su_watching_fields su' \<longleftrightarrow> su_watching_fields su \<and> Wake (WakeFields None) \<notin> set ms)
      \<and> su_schedule su' = (if su_watching_fields su then schedule_after (su_schedule su) ms else su_schedule su)"
    using assms
  proof (induction ms arbitrary: su s)
    case (Cons m ms)
    obtain su1 s1 where m: "driver_move wn l reconciler m (su, s) = (su1, s1)" by (metis surj_pair)
    have ok: "system_ok (su1, s1)" by (rule driver_move_ok [OF _ _ _ m]) (use Cons.prems in auto)
    have ch: "m \<noteq> Shutdown" using Cons.prems(2) by auto
    note C = driver_move_channels [OF Cons.prems(1) ch m]
    note IH = Cons.IH [OF ok]
    show ?case
      using IH Cons.prems m C by (cases "(su_schedule su, m # ms)" rule: schedule_after.cases) auto
  qed simp
  then show "su_watching_fleet su' \<longleftrightarrow> su_watching_fleet su \<and> Wake (WakeFleet False) \<notin> set ms"
    and "su_watching_fields su' \<longleftrightarrow> su_watching_fields su \<and> Wake (WakeFields None) \<notin> set ms"
    and "su_schedule su' = (if su_watching_fields su then schedule_after (su_schedule su) ms else su_schedule su)" by blast+
qed

lemma supervise_ok:
  assumes "registry_ok (sy_registry s)"
  shows "system_ok (supervise (sy_registry s) schedule, s)" and "loops_in_step (sy_registry s) (supervise (sy_registry s) schedule)"
    and "su_schedule (supervise (sy_registry s) schedule) = schedule"
      "su_watching_fields (supervise (sy_registry s) schedule)" "su_watching_fleet (supervise (sy_registry s) schedule)"
  using su_reconcile_facts [OF assms] no_loops_ok assms by (simp_all add: supervise_def system_ok_def)

lemma heard_in_step:
  assumes "system_ok (su, s)" and "hears [] e" and "su_watching_fleet su \<or> e \<noteq> Wake (WakeFleet True)"
    and "su_watching_fields su \<or> e = Wake (WakeFleet True)" and "driver_move wn l reconciler e (su, s) = (su', s')"
  shows "loops_in_step (sy_registry s') su'"
  using assms by (auto simp: hears_def system_ok_def supervise_turn_def intro!: su_reconcile_facts(2))


text \<open>
  What stands behind the supervisor's map: the task of a pair polls a device that has the pair's name and
  the wanted identity, and it has ended only if it ended itself, for a field no query knows or on a device
  that does not heal.
\<close>

definition polls_for :: "registry \<Rightarrow> pair_key \<Rightarrow> wanted \<Rightarrow> poll \<Rightarrow> bool" where
  "polls_for rg k w p \<longleftrightarrow>
     (let c = handle_config rg (po_device p)
      in po_device p < length (ry_cells rg) \<and> dc_id c = snd k \<and> dc_uuid c = wa_device w
         \<and> (po_ended p \<longrightarrow> isl (poll_query p) \<or> dc_self_heal c = None))"

definition tasks_ok :: "registry \<Rightarrow> loops \<Rightarrow> bool" where
  "tasks_ok rg lo \<longleftrightarrow> (\<forall>k w p. loop_at lo k = Some (w, p) \<longrightarrow> polls_for rg k w p)"

lemma tasks_okD: "tasks_ok rg lo \<Longrightarrow> loop_at lo k = Some (w, p) \<Longrightarrow> polls_for rg k w p"
  unfolding tasks_ok_def by blast

lemma polls_for_fleet: "same_fleet rg rg' \<Longrightarrow> polls_for rg' k w p = polls_for rg k w p"
  using map_eq_imp_length_eq [of cl_auto "ry_cells rg'" cl_auto "ry_cells rg"] by (simp add: polls_for_def same_fleet_def)

lemma polls_for_extends: "extends rg rg' \<Longrightarrow> polls_for rg k w p \<Longrightarrow> polls_for rg' k w p"
  using extends_length [of rg rg'] by (auto simp: polls_for_def Let_def extends_config)

lemma su_reconcile_tasks:
  assumes "registry_ok rg" and "loops_ok (su_loops su)" and "\<not> su_cancelled su" and "tasks_ok rg (su_loops su)"
  shows "tasks_ok rg (su_loops (su_reconcile rg su))"
proof -
  obtain lo ch where pass: "reconcile_loops rg (su_schedule su) (su_loops su) = (lo, ch)" by (metis surj_pair)
  note F = reconcile_loops_facts(2) [OF assms(1,2) pass]
  have "polls_for rg k w p" if "loop_at lo k = Some (w, p)" for k w p
  proof (cases "loop_at (su_loops su) k = Some (w, p)")
    case True
    then show ?thesis by (rule tasks_okD [OF assms(4)])
  next
    case False
    then have w: "wanted_pair rg (su_schedule su) k = Some w"
      and p: "p = new_poll (the (registry_device rg (snd k))) (fst k) (wa_interval w)"
      using that F [of k] by (auto split: option.splits if_splits)
    then obtain h where h: "registry_device rg (snd k) = Some h" "wa_device w = dc_uuid (handle_config rg h)"
      by (auto simp: wanted_pair_def split: option.splits if_splits)
    then show ?thesis
      using assms(1) by (auto simp: p polls_for_def new_poll_def registry_ok_def registry_device_def)
  qed
  then show ?thesis using assms(3) by (simp add: tasks_ok_def su_reconcile_def pass)
qed

text \<open>A turn that ends a task which was not told to stop.\<close>

lemma poll_select_ends:
  assumes "poll_select wn l reconciler a p s = (p', s')" and "po_ended p'" and "\<not> po_cancelled p"
  shows "po_ended p \<or> isl (poll_query p) \<or> dc_self_heal (handle_config (sy_registry s) (po_device p)) = None"
proof (cases "veto_of s (po_device p) (po_field p)")
  case None
  then show ?thesis
    using assms by (auto simp: poll_select_def poll_tick_def Let_def split: if_splits sum.splits select_arm.splits prod.splits)
next
  case (Some r)
  have "po_ended q = po_ended p" if "poll_tick wn l reconciler y p s = (q, s'')" for y q s''
    using poll_tick_skips [OF Some, of wn l reconciler y] that by auto
  then show ?thesis
    using assms by (auto simp: poll_select_def split: if_splits sum.splits select_arm.splits)
qed

lemma turn_task_tasks:
  assumes "turn_task wn l reconciler t a (su, s) = (su', s')" and "loops_ok (su_loops su)"
    and "tasks_ok (sy_registry s) (su_loops su)"
  shows "tasks_ok (sy_registry s') (su_loops su')"
  unfolding tasks_ok_def
proof (intro allI impI)
  let ?lo = "su_loops su"
  fix k w p' assume at: "loop_at (su_loops su') k = Some (w, p')"
  obtain q s1 where sel: "poll_select wn l reconciler a (lo_tasks ?lo ! t) s = (q, s1)" by (metis surj_pair)
  have res: "(su', s') = (if t < length (lo_tasks ?lo)
      then (su\<lparr>su_loops := ?lo\<lparr>lo_tasks := (lo_tasks ?lo)[t := q]\<rparr>\<rparr>, s1) else (su, s))"
    using assms(1) by (simp add: turn_task_def Let_def sel split: if_splits)
  have running: "lo_running (su_loops su') = lo_running ?lo" using res by (auto split: if_splits)
  obtain r where r: "map_of (lo_running ?lo) k = Some r" "w = is_wanted r" "p' = lo_tasks (su_loops su') ! ru_task r"
    using at by (auto simp: loop_at_def running)
  have old: "polls_for (sy_registry s) k w (lo_tasks ?lo ! ru_task r)"
    by (rule tasks_okD [OF assms(3)]) (simp add: r loop_at_def)
  have "polls_for (sy_registry s) k w p'"
  proof (cases "t < length (lo_tasks ?lo) \<and> ru_task r = t")
    case True
    then have p': "p' = q" using res r(3) by simp
    have "\<not> po_cancelled (lo_tasks ?lo ! t)" using loops_okD(3) [OF assms(2) r(1)] True by simp
    then show ?thesis
      using old poll_select_frame [OF sel] poll_select_ends [OF sel] True
      by (auto simp: p' polls_for_def Let_def same_place_def poll_query_def)
  next
    case False
    then have "p' = lo_tasks ?lo ! ru_task r" using res r(3) by (auto split: if_splits)
    then show ?thesis using old by simp
  qed
  then show "polls_for (sy_registry s') k w p'"
    using polls_for_fleet [OF turn_task_facts(1) [OF assms(1)]] by simp
qed

lemma driver_move_tasks:
  assumes "system_ok (su, s)" and "m \<noteq> Shutdown" and "well_edited [m]"
    and "tasks_ok (sy_registry s) (su_loops su)" and "driver_move wn l reconciler m (su, s) = (su', s')"
  shows "tasks_ok (sy_registry s') (su_loops su')"
proof (cases m)
  case (Wake w)
  then show ?thesis
    using assms
    by (cases "(sy_registry s, w, su)" rule: wake_up.cases)
       (auto simp: system_ok_def supervise_turn_def intro!: su_reconcile_tasks split: if_splits)
next
  case (Turn t a)
  show ?thesis
    by (rule turn_task_tasks [OF assms(5) [unfolded Turn driver_move.simps]]) (use assms(1,4) in \<open>simp_all add: system_ok_def\<close>)
next
  case (Amend r)
  obtain rg' ch where ap: "registry_apply r (sy_registry s) = (rg', ch)" by (metis surj_pair)
  have "distinct (map dc_id (rs_devices r))" using assms(3) Amend by simp
  then have "extends (sy_registry s) rg'"
    using assms(1) registry_apply_facts(1) [OF _ _ ap] by (simp add: system_ok_def)
  then show ?thesis using assms(4,5) Amend ap polls_for_extends by (auto simp: tasks_ok_def)
qed (use assms(2) in simp)

lemma driver_moves_tasks:
  "system_ok sys \<Longrightarrow> Shutdown \<notin> set ms \<Longrightarrow> well_edited ms \<Longrightarrow> tasks_ok (sy_registry (snd sys)) (su_loops (fst sys))
     \<Longrightarrow> tasks_ok (sy_registry (snd (driver_moves wn l reconciler ms sys))) (su_loops (fst (driver_moves wn l reconciler ms sys)))"
proof (induction ms arbitrary: sys)
  case (Cons m ms)
  obtain su s su' s' where m: "sys = (su, s)" "driver_move wn l reconciler m (su, s) = (su', s')" by (metis surj_pair)
  have ok: "system_ok (su, s)" "m \<noteq> Shutdown" "well_edited [m]" "tasks_ok (sy_registry s) (su_loops su)"
    using Cons.prems m(1) by auto
  from Cons.IH [of "(su', s')"] driver_move_ok [OF ok(1-3) m(2)] driver_move_tasks [OF ok m(2)] Cons.prems m
  show ?case by simp
qed simp

lemma supervise_tasks:
  assumes "registry_ok rg"
  shows "tasks_ok rg (su_loops (supervise rg schedule))"
  unfolding supervise_def
  by (rule su_reconcile_tasks) (simp_all add: assms no_loops_ok, simp add: tasks_ok_def loop_at_def no_loops_def)

text \<open>A pair in step has the task the map names.\<close>

lemma held_task:
  assumes "loops_ok lo" and "tasks_ok rg lo" and "wanted_at lo k = Some w"
  shows "\<exists>p. loop_at lo k = Some (w, p) \<and> \<not> po_cancelled p \<and> po_field p = fst k \<and> po_interval p = wa_interval w
    \<and> polls_for rg k w p"
proof -
  obtain r where r: "map_of (lo_running lo) k = Some r" "w = is_wanted r" using assms(3) by (auto simp: wanted_at_def)
  then have at: "loop_at lo k = Some (w, lo_tasks lo ! ru_task r)" by (simp add: loop_at_def)
  then show ?thesis
    using loops_okD(3) [OF assms(1) r(1)] tasks_okD [OF assms(2) at] r(2) by (simp add: is_wanted_def)
qed

lemma one_pair:
  assumes "loops_ok lo" and "t < length (lo_tasks lo)" and "\<not> po_cancelled (lo_tasks lo ! t)"
  shows "\<exists>!k. \<exists>r. map_of (lo_running lo) k = Some r \<and> ru_task r = t"
  using loops_okD(4) [OF assms] loops_okD(5) [OF assms(1)] by blast

text \<open>
  C10. The driver holds its poll tasks to what it is told to poll. Start the supervisor and let anything
  interleave: polls, edits of the fleet, published schedules, wakes, channels that close. After any wake the
  supervisor hears, and until the next edit, look at the pairs the schedule last published, while that channel was
  open, gives an interval, of devices the registry has now that do not decline the field. Each of them has one
  task, not told to stop, that polls this field at this interval through a device of this name and of
  the identity the registry has now; that task has ended only if it ended itself, because no query has the
  field's name or because the device does not heal. A pair outside has none, and every task not told to
  stop is that of exactly one pair. The device polled may be an earlier one of the same identity. Several edits
  may share one wake; a wake after its channel closed is not heard.
\<close>

theorem driver_holds_schedule:
  assumes "registry_ok (sy_registry s)" and "well_edited (before @ e # after)"
    and "Shutdown \<notin> set (before @ e # after)" and "hears before e" and "\<forall>r. Amend r \<notin> set after"
    and "driver_moves wn l reconciler (before @ e # after) (supervise (sy_registry s) schedule, s) = (su, s')"
  shows "su_schedule su = schedule_after schedule (before @ e # after)
    \<and> (\<forall>k. case wanted_pair (sy_registry s') (schedule_after schedule (before @ e # after)) k of
          None \<Rightarrow> loop_at (su_loops su) k = None
        | Some w \<Rightarrow> \<exists>p. loop_at (su_loops su) k = Some (w, p) \<and> \<not> po_cancelled p
            \<and> po_field p = fst k \<and> po_interval p = wa_interval w \<and> polls_for (sy_registry s') k w p)
    \<and> (\<forall>t < length (lo_tasks (su_loops su)). \<not> po_cancelled (lo_tasks (su_loops su) ! t)
          \<longrightarrow> (\<exists>!k. \<exists>r. map_of (lo_running (su_loops su)) k = Some r \<and> ru_task r = t))"
proof -
  let ?start = "(supervise (sy_registry s) schedule, s)" and ?sched = "schedule_after schedule (before @ e # after)"
  note init = supervise_ok [OF assms(1), of schedule]
  obtain su1 s1 where b: "driver_moves wn l reconciler before ?start = (su1, s1)" by (metis surj_pair)
  obtain su2 s2 where e: "driver_move wn l reconciler e (su1, s1) = (su2, s2)" by (metis surj_pair)
  have before: "Shutdown \<notin> set before" "well_edited before" using assms(2,3) by auto
  have ok1: "system_ok (su1, s1)" using driver_moves_ok [OF init(1) before, of wn l reconciler] by (simp add: b)
  have ok2: "system_ok (su2, s2)" by (rule driver_move_ok [OF ok1 _ _ e]) (use assms(2,3) in auto)
  note ch = driver_moves_channels [OF init(1) before b]
  have "loops_in_step (sy_registry s2) su2"
    by (rule heard_in_step [OF ok1 _ _ _ e]) (use assms(4) ch init in \<open>auto simp: hears_def\<close>)
  moreover have "driver_moves wn l reconciler after (su2, s2) = (su, s')" using assms(6) by (simp add: b e)
  ultimately have "loops_in_step (sy_registry s') su" and ok: "loops_ok (su_loops su)"
    using driver_moves_in_step [of "(su2, s2)" after wn l reconciler] driver_moves_ok [of "(su2, s2)" after wn l reconciler]
      ok2 assms(2,3,5) by (auto simp: system_ok_def)
  moreover have sched: "su_schedule su = ?sched"
    using driver_moves_channels(3) [OF init(1) assms(3,2,6)] init by simp
  ultimately have step: "wanted_at (su_loops su) k = wanted_pair (sy_registry s') ?sched k" for k
    unfolding loops_in_step_def by metis
  have "tasks_ok (sy_registry s') (su_loops su)"
    using driver_moves_tasks [OF init(1) assms(3,2), of wn l reconciler] supervise_tasks [OF assms(1)] assms(6) by simp
  note held = held_task [OF ok this]
  have "case wanted_pair (sy_registry s') ?sched k of
      None \<Rightarrow> loop_at (su_loops su) k = None
    | Some w \<Rightarrow> \<exists>p. loop_at (su_loops su) k = Some (w, p) \<and> \<not> po_cancelled p
        \<and> po_field p = fst k \<and> po_interval p = wa_interval w \<and> polls_for (sy_registry s') k w p" for k
    using held [of k] step [of k] by (auto simp: wanted_at_loop split: option.split)
  then show ?thesis using one_pair [OF ok] sched by blast
qed

text \<open>A title at five seconds, then at nine, then an announcement after which nothing moves.\<close>

theorem driver_holds_schedule_witness:
  "\<exists>su s'. driver_moves plain_winnow tiny_layout True
        [Wake (WakeFields (Some [\<lparr>fs_name = ''TITLE'', fs_interval = Some 9\<rparr>])), Wake (WakeFleet True)]
        (supervise (sy_registry poll_example) [\<lparr>fs_name = ''TITLE'', fs_interval = Some 5\<rparr>], poll_example) = (su, s')
     \<and> su_schedule su = [\<lparr>fs_name = ''TITLE'', fs_interval = Some 9\<rparr>]
     \<and> (\<exists>p. loop_at (su_loops su) (''TITLE'', ''a'') = Some (\<lparr>wa_interval = 9, wa_device = 1\<rparr>, p) \<and> po_interval p = 9)
     \<and> loop_at (su_loops su) (''FORMAT'', ''a'') = None"
proof -
  let ?e = "Wake (WakeFields (Some [\<lparr>fs_name = ''TITLE'', fs_interval = Some 9\<rparr>]))"
  obtain su s' where run: "driver_moves plain_winnow tiny_layout True ([] @ ?e # [Wake (WakeFleet True)])
      (supervise (sy_registry poll_example) [\<lparr>fs_name = ''TITLE'', fs_interval = Some 5\<rparr>], poll_example) = (su, s')"
    by (metis surj_pair)
  have ok: "registry_ok (sy_registry poll_example)" by (simp add: poll_example_def demo_registry_ok)
  have "sy_registry s' = demo_registry" using run by (auto simp: poll_example_def)
  moreover have "hears [] ?e" by (simp add: hears_def)
  ultimately have D: "su_schedule su = [\<lparr>fs_name = ''TITLE'', fs_interval = Some 9\<rparr>]"
      "case wanted_pair demo_registry [\<lparr>fs_name = ''TITLE'', fs_interval = Some 9\<rparr>] k of
          None \<Rightarrow> loop_at (su_loops su) k = None
        | Some w \<Rightarrow> \<exists>p. loop_at (su_loops su) k = Some (w, p) \<and> \<not> po_cancelled p
            \<and> po_field p = fst k \<and> po_interval p = wa_interval w \<and> polls_for demo_registry k w p" for k
    using driver_holds_schedule [OF ok _ _ _ _ run, THEN conjunct1]
      driver_holds_schedule [OF ok _ _ _ _ run, THEN conjunct2, THEN conjunct1, THEN spec, of k]
    by (simp_all cong: option.case_cong)
  have w: "wanted_pair demo_registry [\<lparr>fs_name = ''TITLE'', fs_interval = Some 9\<rparr>] (''TITLE'', ''a'')
        = Some \<lparr>wa_interval = 9, wa_device = 1\<rparr>"
    "wanted_pair demo_registry [\<lparr>fs_name = ''TITLE'', fs_interval = Some 9\<rparr>] (''FORMAT'', ''a'') = None"
    by (simp_all add: wanted_pair_def interval_for_def List.map_filter_def demo_registry_def demo_document_def
        registry_build_def rebuild_groups_def insert_new_def empty_registry_def registry_device_def
        handle_config_def plain_device_def)
  show ?thesis
    using run D(1) D(2) [of "(''TITLE'', ''a'')"] D(2) [of "(''FORMAT'', ''a'')"] w by auto
qed


section \<open>Shutdown\<close>

definition stopping :: "supervisor \<Rightarrow> bool" where
  "stopping su \<longleftrightarrow> su_cancelled su \<and> (\<forall>p \<in> set (lo_tasks (su_loops su)). po_cancelled p)"

lemma stopping_shutdown: "stopping (sync_shutdown su)" "su_draining (sync_shutdown su) = su_draining su"
  by (auto simp: stopping_def sync_shutdown_def cancel_all_def)

lemma turn_tasks_same:
  assumes "turn_task wn l reconciler t a (su, s) = (su', s')"
  shows "stopping su \<Longrightarrow> stopping su'" and "su_draining su' = su_draining su"
    and "length (lo_tasks (su_loops su')) = length (lo_tasks (su_loops su))"
    and "i < length (lo_tasks (su_loops su)) \<Longrightarrow> po_ended (lo_tasks (su_loops su) ! i) \<Longrightarrow> po_ended (lo_tasks (su_loops su') ! i)"
proof -
  obtain ps where ps: "su' = su\<lparr>su_loops := (su_loops su)\<lparr>lo_tasks := ps\<rparr>\<rparr>" "length ps = length (lo_tasks (su_loops su))"
    "\<forall>i < length ps. same_place (lo_tasks (su_loops su) ! i) (ps ! i)
       \<and> (po_ended (lo_tasks (su_loops su) ! i) \<longrightarrow> ps ! i = lo_tasks (su_loops su) ! i)"
    using turn_task_facts(2) [OF assms] by blast
  then show "stopping su \<Longrightarrow> stopping su'" by (auto simp: stopping_def same_place_def all_set_conv_all_nth)
  show "su_draining su' = su_draining su"
    "length (lo_tasks (su_loops su')) = length (lo_tasks (su_loops su))"
    "i < length (lo_tasks (su_loops su)) \<Longrightarrow> po_ended (lo_tasks (su_loops su) ! i) \<Longrightarrow> po_ended (lo_tasks (su_loops su') ! i)"
    using ps by simp_all
qed

lemma su_reconcile_stopping: "stopping su \<Longrightarrow> stopping (su_reconcile rg su)"
  by (auto simp: stopping_def su_reconcile_def cancel_all_def Let_def)

lemma stopping_flags [simp]:
  "stopping (su\<lparr>su_schedule := x\<rparr>) = stopping su" "stopping (su\<lparr>su_watching_fields := b\<rparr>) = stopping su"
  "stopping (su\<lparr>su_watching_fleet := b\<rparr>) = stopping su" "stopping (su\<lparr>su_draining := b\<rparr>) = stopping su"
  by (simp_all add: stopping_def)

text \<open>A cancelled driver stays cancelled, and only a tick that was due reaches a device or the stores.\<close>

lemma stopping_move:
  assumes "stopping su" and "driver_move wn l reconciler m (su, s) = (su', s')"
  shows "stopping su'" and "su_draining su \<Longrightarrow> su_draining su'" and "\<forall>t. m \<noteq> Turn t TickArm \<Longrightarrow> idle s s'"
proof -
  have "stopping su' \<and> (su_draining su \<longrightarrow> su_draining su') \<and> ((\<forall>t. m \<noteq> Turn t TickArm) \<longrightarrow> idle s s')"
  proof (cases m)
    case (Wake w)
    then show ?thesis
      using assms by (cases "(sy_registry s, w, su)" rule: wake_up.cases)
        (auto simp: supervise_turn_def intro!: su_reconcile_stopping split: if_splits)
  next
    case (Turn t a)
    note run = assms(2) [unfolded Turn driver_move.simps]
    show ?thesis
      using turn_tasks_same(1,2) [OF run] turn_task_facts(5) [OF run] assms(1) Turn by (cases a) auto
  next
    case Shutdown
    then show ?thesis using assms(2) stopping_shutdown by auto
  next
    case (Amend r)
    then show ?thesis using assms by auto
  qed
  then show "stopping su'" "su_draining su \<Longrightarrow> su_draining su'" "\<forall>t. m \<noteq> Turn t TickArm \<Longrightarrow> idle s s'" by blast+
qed

lemma stopping_moves:
  "stopping su \<Longrightarrow> driver_moves wn l reconciler ms (su, s) = (su', s')
     \<Longrightarrow> stopping su' \<and> (su_draining su \<longrightarrow> su_draining su') \<and> ((\<forall>t. Turn t TickArm \<notin> set ms) \<longrightarrow> idle s s')"
proof (induction ms arbitrary: su s)
  case (Cons m ms)
  obtain su1 s1 where m: "driver_move wn l reconciler m (su, s) = (su1, s1)" by (metis surj_pair)
  note M = stopping_move [OF Cons.prems(1) m]
  have "driver_moves wn l reconciler ms (su1, s1) = (su', s')" using Cons.prems(2) by (simp add: m)
  from Cons.IH [OF M(1) this] M show ?case by (auto intro: idle_trans)
qed simp

text \<open>Once the supervisor drains, no task is started, an ended one stays ended, and a cancelled one ends at its turn.\<close>

lemma draining_move:
  assumes "stopping su" and "su_draining su" and "driver_move wn l reconciler m (su, s) = (su', s')"
  shows "length (lo_tasks (su_loops su')) = length (lo_tasks (su_loops su))"
    and "i < length (lo_tasks (su_loops su)) \<Longrightarrow> po_ended (lo_tasks (su_loops su) ! i) \<or> m = Turn i CancelArm
      \<Longrightarrow> po_ended (lo_tasks (su_loops su') ! i)"
proof -
  have "length (lo_tasks (su_loops su')) = length (lo_tasks (su_loops su))
    \<and> (i < length (lo_tasks (su_loops su)) \<longrightarrow> po_ended (lo_tasks (su_loops su) ! i) \<or> m = Turn i CancelArm
      \<longrightarrow> po_ended (lo_tasks (su_loops su') ! i))"
  proof (cases m)
    case (Turn t a)
    note run = assms(3) [unfolded Turn driver_move.simps]
    have "po_cancelled (lo_tasks (su_loops su) ! i)" if "i < length (lo_tasks (su_loops su))"
      using assms(1) that by (simp add: stopping_def)
    then show ?thesis using turn_tasks_same(3,4) [OF run] turn_task_facts(6) [OF run] Turn by auto
  qed (use assms in \<open>auto simp: supervise_turn_def sync_shutdown_def cancel_all_def\<close>)
  then show "length (lo_tasks (su_loops su')) = length (lo_tasks (su_loops su))"
    and "i < length (lo_tasks (su_loops su)) \<Longrightarrow> po_ended (lo_tasks (su_loops su) ! i) \<or> m = Turn i CancelArm
      \<Longrightarrow> po_ended (lo_tasks (su_loops su') ! i)" by blast+
qed

lemma draining_moves:
  "stopping su \<Longrightarrow> su_draining su \<Longrightarrow> driver_moves wn l reconciler ms (su, s) = (su', s')
     \<Longrightarrow> length (lo_tasks (su_loops su')) = length (lo_tasks (su_loops su))
       \<and> (\<forall>i < length (lo_tasks (su_loops su)). po_ended (lo_tasks (su_loops su) ! i) \<or> Turn i CancelArm \<in> set ms
            \<longrightarrow> po_ended (lo_tasks (su_loops su') ! i))"
proof (induction ms arbitrary: su s)
  case (Cons m ms)
  obtain su1 s1 where m: "driver_move wn l reconciler m (su, s) = (su1, s1)" by (metis surj_pair)
  note S = stopping_move [OF Cons.prems(1) m] and D = draining_move [OF Cons.prems(1,2) m]
  have "driver_moves wn l reconciler ms (su1, s1) = (su', s')" using Cons.prems(3) by (simp add: m)
  from Cons.IH [OF S(1) S(2) [OF Cons.prems(2)] this] D show ?case by auto
qed simp

text \<open>When every task has ended, nothing the driver can still do reaches a device or a store.\<close>

lemma done_move:
  assumes "stopping su" and "supervisor_done su" and "driver_move wn l reconciler m (su, s) = (su', s')"
  shows "supervisor_done su'" and "idle s s'"
proof -
  note D = draining_move [OF assms(1) _ assms(3)]
  have "supervisor_done su' \<and> idle s s'"
  proof (cases "\<exists>t. m = Turn t TickArm")
    case True
    then obtain t where t: "turn_task wn l reconciler t TickArm (su, s) = (su', s')" using assms(3) by auto
    have "s' = s"
      using turn_task_facts(4,7) [OF t] assms(2) by (cases "t < length (lo_tasks (su_loops su))") (auto simp: supervisor_done_def)
    then show ?thesis
      using turn_tasks_same [OF t] assms(2) by (auto simp: supervisor_done_def all_set_conv_all_nth)
  next
    case False
    then show ?thesis
      using D stopping_move(2,3) [OF assms(1,3)] assms(2) by (auto simp: supervisor_done_def all_set_conv_all_nth)
  qed
  then show "supervisor_done su'" "idle s s'" by blast+
qed

lemma done_moves:
  "stopping su \<Longrightarrow> supervisor_done su \<Longrightarrow> driver_moves wn l reconciler ms (su, s) = (su', s') \<Longrightarrow> idle s s'"
proof (induction ms arbitrary: su s)
  case (Cons m ms)
  obtain su1 s1 where m: "driver_move wn l reconciler m (su, s) = (su1, s1)" by (metis surj_pair)
  note D = done_move [OF Cons.prems(1,2) m]
  have "driver_moves wn l reconciler ms (su1, s1) = (su', s')" using Cons.prems(3) by (simp add: m)
  from Cons.IH [OF stopping_move(1) [OF Cons.prems(1) m] D(1) this] D(2) show ?case by (rule idle_trans [rotated])
qed simp

text \<open>
  C22. Shutdown stops the polling and comes to an end. Once the token is cancelled, whatever wakes, edits and
  schedules still arrive, an exchange can only come from a tick that was due and won its \<open>select!\<close>; with
  none, no device, read or write changes again. Once the supervisor has met the cancellation it starts no
  task, and when each task it holds has taken its own cancellation the shutdown returns; after that nothing the
  driver owns can reach a device or a store, whatever moves.
\<close>

theorem shutdown_drains:
  assumes "driver_moves wn l reconciler (Shutdown # pre @ Wake WakeCancelled # post) (su, s) = (su', s')"
    and "\<forall>t < length (lo_tasks (su_loops su')). Turn t CancelArm \<in> set post"
  shows "supervisor_done su'
    \<and> ((\<forall>t. Turn t TickArm \<notin> set (pre @ post)) \<longrightarrow> idle s s')
    \<and> (\<forall>later. idle s' (snd (driver_moves wn l reconciler later (su', s'))))"
proof -
  obtain su1 s1 where pre: "driver_moves wn l reconciler pre (sync_shutdown su, s) = (su1, s1)" by (metis surj_pair)
  define su2 where "su2 = supervise_turn (sy_registry s1) WakeCancelled su1"
  have post: "driver_moves wn l reconciler post (su2, s1) = (su', s')" using assms(1) by (simp add: pre su2_def)
  note P = stopping_moves [OF stopping_shutdown(1) pre]
  have su2: "stopping su2" "su_draining su2" using P by (auto simp: su2_def supervise_turn_def stopping_def)
  note Q = stopping_moves [OF su2(1) post] and D = draining_moves [OF su2 post]
  have fin: "supervisor_done su'"
    using D Q su2(2) assms(2) by (auto simp: supervisor_done_def all_set_conv_all_nth)
  have "idle s s'" if "\<forall>t. Turn t TickArm \<notin> set (pre @ post)"
    using P Q that by (auto intro: idle_trans)
  moreover have "idle s' (snd (driver_moves wn l reconciler later (su', s')))" for later
    using done_moves [of su' wn l reconciler later s'] Q fin by (metis prod.collapse)
  ultimately show ?thesis using fin by blast
qed

text \<open>One loop on a title; the fleet is announced again after the cancellation, and changes nothing.\<close>

definition title_loops :: loops where
  "title_loops = \<lparr>lo_running = [((''TITLE'', ''a''), \<lparr>ru_interval = 5, ru_device = 1, ru_task = 0\<rparr>)],
     lo_tasks = [new_poll 0 ''TITLE'' 5]\<rparr>"

lemmas title_loops_defs = title_loops_def reconcile_loops_def fleet_of_def registry_devices_def wanted_loops_def
  reconcile_pair_def start_loop_def is_wanted_def no_loops_def ocollect_def oset_def demo_registry_def demo_document_def
  registry_build_def rebuild_groups_def insert_new_def empty_registry_def handle_config_def plain_device_def Let_def

lemma title_loops_eval:
  "fst (reconcile_loops demo_registry [\<lparr>fs_name = ''TITLE'', fs_interval = Some 5\<rparr>] no_loops) = title_loops"
  by (simp add: title_loops_defs)

lemma title_loops_again:
  "length (lo_tasks (fst (reconcile_loops demo_registry [\<lparr>fs_name = ''TITLE'', fs_interval = Some 5\<rparr>]
      (cancel_all title_loops)))) = 1"
  by (simp add: title_loops_defs cancel_all_def)

theorem shutdown_drains_witness:
  "\<exists>su' s'. driver_moves plain_winnow tiny_layout True
        [Shutdown, Wake (WakeFleet True), Wake WakeCancelled, Turn 0 CancelArm]
        (supervise (sy_registry poll_example) [\<lparr>fs_name = ''TITLE'', fs_interval = Some 5\<rparr>], poll_example) = (su', s')
     \<and> length (lo_tasks (su_loops su')) = 1 \<and> supervisor_done su' \<and> idle poll_example s'"
proof -
  let ?s = "[\<lparr>fs_name = ''TITLE'', fs_interval = Some 5\<rparr>]"
  let ?su = "supervise (sy_registry poll_example) ?s" and ?pre = "[Wake (WakeFleet True)]"
  obtain su' s' where run: "driver_moves plain_winnow tiny_layout True
      (Shutdown # ?pre @ Wake WakeCancelled # [Turn 0 CancelArm]) (?su, poll_example) = (su', s')"
    by (metis surj_pair)
  have rg: "sy_registry poll_example = demo_registry" by (simp add: poll_example_def)
  have su: "supervise demo_registry ?s = \<lparr>su_loops = title_loops, su_schedule = ?s, su_watching_fields = True,
      su_watching_fleet = True, su_cancelled = False, su_draining = False\<rparr>"
    by (simp add: supervise_def su_reconcile_def title_loops_eval)
  obtain su2 where t: "turn_task plain_winnow tiny_layout True 0 CancelArm (su2, poll_example) = (su', s')"
    and su2: "lo_tasks (su_loops su2) = lo_tasks (cancel_all (fst (reconcile_loops demo_registry ?s (cancel_all title_loops))))"
    using run by (auto simp: su sync_shutdown_def supervise_turn_def su_reconcile_def rg)
  have len: "length (lo_tasks (su_loops su')) = 1"
    using turn_tasks_same(3) [OF t] title_loops_again by (simp add: su2 cancel_all_def)
  then show ?thesis using shutdown_drains [OF run] run by auto
qed

end
