(* ===== verification/Sis_Poll_System.thy ===== *)
theory Sis_Poll_System
  imports Sis_Supervise
begin

text \<open>
  A poll loop of \<^verbatim>\<open>sismatic-sync/src/driver.rs\<close> among the other tasks of the program: the loops of other
  pairs, the intent relay, the keepalive and every other caller of a device, the edits of the fleet, the
  clients of the outbox, the retention of the read store. Each of them is one step of \<open>task_step\<close>, by the
  definition that models it, and each is shown to leave what the loop keeps to itself alone.
\<close>


section \<open>Tasks that only exchange with devices\<close>

definition same_vetoes :: "registry \<Rightarrow> registry \<Rightarrow> bool" where
  "same_vetoes rg rg' \<longleftrightarrow> same_fleet rg rg' \<and> ry_autos rg' = ry_autos rg"

lemma same_vetoes_refl [simp]: "same_vetoes rg rg"
  by (simp add: same_vetoes_def)


lemma same_vetoes_put_link [simp]: "same_vetoes rg (put_link h dev rg)"
  by (simp add: same_vetoes_def same_fleet_put_link)





lemma settle_now_registry [simp]: "rl_registry (settle_now ch i out s) = rl_registry s"
  by (simp add: settle_now_def now_def)

lemma settle_all_registry [simp]: "rl_registry (settle_all ch rs out s) = rl_registry s"
  by (induction rs arbitrary: s) (simp_all add: report_def)

lemma settle_stranded_registry [simp]: "rl_registry (settle_stranded ch obs rs s) = rl_registry s"
  by (induction rs arbitrary: s) simp_all









section \<open>Edits of the fleet\<close>












section \<open>The loop of another pair\<close>





section \<open>The loop among all of them\<close>


text \<open>What happens to the pair: the loop's own exchanges, and the device's reads forgotten.\<close>

datatype poll_event = Asked exchange_event | Forgotten

fun the_exchange :: "poll_event \<Rightarrow> exchange_event option" where
  "the_exchange (Asked x) = Some x"
| "the_exchange Forgotten = None"

definition asked :: "poll_event list \<Rightarrow> exchange_event list" where
  "asked es = List.map_filter the_exchange es"

fun decisive :: "poll_event \<Rightarrow> bool" where
  "decisive (Asked (outcome, t, at)) = (case outcome of Inr v \<Rightarrow> True | Inl e \<Rightarrow> False)"
| "decisive Forgotten = True"

fun read_left :: "device_id \<Rightarrow> field_name \<Rightarrow> poll_event \<Rightarrow> read option" where
  "read_left d f (Asked (outcome, t, at)) = (case outcome of Inr v \<Rightarrow> Some (read_of d f v at) | Inl e \<Rightarrow> None)"
| "read_left d f Forgotten = None"

text \<open>The stored read: the last answer, unless the device was forgotten since.\<close>

definition stored_after :: "device_id \<Rightarrow> field_name \<Rightarrow> read option \<Rightarrow> poll_event list \<Rightarrow> read option" where
  "stored_after d f before es =
     (case find decisive (rev es) of None \<Rightarrow> before | Some e \<Rightarrow> read_left d f e)"

lemma stored_after_simps [simp]:
  "stored_after d f before [] = before"
  "stored_after d f before (es @ [e]) = (if decisive e then read_left d f e else stored_after d f before es)"
  by (simp_all add: stored_after_def)

lemma asked_map [simp]: "List.map_filter the_exchange (map Asked xs) = xs"
  by (induction xs) (simp_all add: map_filter_simps)

lemma asked_append: "asked (es @ fs) = asked es @ asked fs"
  by (simp add: asked_def List.map_filter_def)

lemma asked_simps [simp]:
  "asked [] = []" "asked (es @ map Asked xs) = asked es @ xs" "asked (es @ [Forgotten]) = asked es"
  unfolding asked_append by (simp_all add: asked_def map_filter_simps)


lemma latest_kept [simp]:
  "latest (fst (prune cutoff st)) = latest st" "latest (fst (set_budget budget st)) = latest st"
  by (simp_all add: latest_def prune_def set_budget_def fun_eq_iff split: prod.split)








end
