(* ===== verification/Sis_Fleet.thy ===== *)
theory Sis_Fleet
  imports Sis_Relay_Spec Sis_Store
begin

text \<open>
  \<^verbatim>\<open>sismatic-server/src/fleet.rs\<close> with the catalog adapter of \<^verbatim>\<open>sismatic-store-memory/src/catalog.rs\<close>:
  the running fleet and the verbs that change it, the export of the devices document, and the
  reconciler that holds the relay and the keepalive to the registry.

  The verbs run under the document lock, so each is one transition. The reconciler is another task:
  it is woken through a watch channel, which keeps only the latest generation, so several
  changes may pass before it looks once. \<open>fleet_event\<close> and \<open>fleet_step\<close> are its interleavings.
  Serialising a document, reading the devices file and hashing are parameters.
\<close>


section \<open>The catalog\<close>

datatype connection_status = StatusWarm | StatusBusy | StatusCold | StatusGated | StatusUnknown

record auto_disabled_dto =
  af_name :: string
  af_refusals :: "32 word"
  af_disabled :: bool
  af_retry_in_secs :: "nat option"

record device_summary =
  ds_id :: string
  ds_uuid :: uuid
  ds_host :: string
  ds_port :: "16 word"
  ds_eager :: bool
  ds_status :: connection_status
  ds_disabled_fields :: "string list"
  ds_auto_disabled_fields :: "auto_disabled_dto list"

record group_summary =
  gs_id :: string
  gs_members :: "string list"
  gs_barrier_timeout_secs :: nat
  gs_barrier :: barrier

definition as_secs :: "duration \<Rightarrow> nat" where
  "as_secs d = d div 1000000000"

definition summarize :: "device_config \<Rightarrow> device_summary" where
  "summarize c = \<lparr>ds_id = dc_id c, ds_uuid = dc_uuid c, ds_host = dc_host c, ds_port = dc_port c,
     ds_eager = dc_eager c, ds_status = StatusUnknown, ds_disabled_fields = dc_disabled_fields c,
     ds_auto_disabled_fields = []\<rparr>"

definition summarize_group :: "group_config \<Rightarrow> group_summary" where
  "summarize_group g = \<lparr>gs_id = gc_id g, gs_members = gc_device_ids g,
     gs_barrier_timeout_secs = as_secs (gc_barrier_timeout g), gs_barrier = gc_barrier g\<rparr>"

record memory_catalog =
  mc_devices :: "device_summary list"
  mc_groups :: "group_summary list"

definition catalog_replace :: "device_summary list \<Rightarrow> group_summary list \<Rightarrow> memory_catalog" where
  "catalog_replace ds gs = \<lparr>mc_devices = sort_key ds_id ds, mc_groups = sort_key gs_id gs\<rparr>"

definition catalog_device :: "memory_catalog \<Rightarrow> string \<Rightarrow> device_summary option" where
  "catalog_device cat i = find (\<lambda>d. ds_id d = i) (mc_devices cat)"

definition catalog_group :: "memory_catalog \<Rightarrow> string \<Rightarrow> group_summary option" where
  "catalog_group cat i = find (\<lambda>g. gs_id g = i) (mc_groups cat)"


section \<open>What a caller states\<close>

record device_write =
  dw_id :: "string option"
  dw_host :: string
  dw_port :: "16 word option"
  dw_username :: "string option"
  dw_password :: "string option"
  dw_connect_secs :: "64 word option"
  dw_exchange_secs :: "64 word option"
  dw_eager :: "bool option"
  dw_sis_keepalive_secs :: "64 word option"
  dw_eager_retry_secs :: "64 word option"
  dw_cold_backoff_secs :: "64 word option"
  dw_disabled_fields :: "string list option"
  dw_auto_disable_after :: "32 word option"
  dw_self_heal_secs :: "64 word option"

record group_write_body =
  gw_id :: "string option"
  gw_devices :: "string list"
  gw_barrier_timeout_secs :: "64 word option"
  gw_barrier :: "barrier option"

datatype inventory_refusal =
    IMalformed string
  | IDuplicate string
  | IUnknown string
  | IBlocked string
  | ISource string

fun show_inventory_refusal :: "inventory_refusal \<Rightarrow> string" where
  "show_inventory_refusal (IMalformed m) = m"
| "show_inventory_refusal (IDuplicate m) = m"
| "show_inventory_refusal (IUnknown m) = m"
| "show_inventory_refusal (IBlocked m) = m"
| "show_inventory_refusal (ISource m) = m"

abbreviation quoted :: "string \<Rightarrow> string" where
  "quoted s \<equiv> [CHR 0x27] @ s @ [CHR 0x27]"

fun refusal_of :: "config_error \<Rightarrow> inventory_refusal" where
  "refusal_of (CDuplicateId i) = IDuplicate (quoted i
     @ '' already names a device or group; use PUT /v1/inventory/devices/'' @ i @ '' to replace it'')"
| "refusal_of (CUnknownGroupMember g d) = IBlocked (''group '' @ quoted g @ '' still names device ''
     @ quoted d @ ''; remove it from the group first'')"
| "refusal_of e = IMalformed (show_config_error e)"

text \<open>\<open>as_secs\<close> gives a \<open>u64\<close>.\<close>

definition secs_word :: "duration \<Rightarrow> 64 word" where
  "secs_word d = of_nat (as_secs d)"

definition opt_secs :: "duration option \<Rightarrow> 64 word" where
  "opt_secs d = (case d of None \<Rightarrow> 0 | Some d \<Rightarrow> secs_word d)"

definition raw_of :: "device_config \<Rightarrow> defaults \<Rightarrow> raw_device" where
  "raw_of c d = \<lparr>rw_id = dc_id c, rw_host = dc_host c, rw_port = Some (dc_port c),
     rw_username = Some (dc_username c), rw_password = Some (dc_password c),
     rw_connect_secs = Some (secs_word (dc_connect_timeout c)),
     rw_exchange_secs = Some (secs_word (dc_exchange_timeout c)), rw_eager = Some (dc_eager c),
     rw_sis_keepalive_secs = Some (opt_secs (dc_sis_keepalive c)),
     rw_eager_retry_secs = Some (opt_secs (dc_eager_retry c)),
     rw_cold_backoff_secs = Some (opt_secs (dc_cold_backoff c)),
     rw_disabled_fields = Some (dc_disabled_fields c),
     rw_auto_disable_after = Some (dc_auto_disable_after c),
     rw_self_heal_secs = Some (opt_secs (dc_self_heal c))\<rparr>"

fun raw_barrier_of :: "barrier \<Rightarrow> raw_barrier" where
  "raw_barrier_of FailBatch = RawFailBatch"
| "raw_barrier_of DispatchReady = RawDispatchReady"

definition raw_of_group_write :: "string \<Rightarrow> group_write_body \<Rightarrow> raw_group" where
  "raw_of_group_write i w = \<lparr>rg_id = i, rg_devices = gw_devices w,
     rg_barrier_timeout_secs = gw_barrier_timeout_secs w, rg_barrier = map_option raw_barrier_of (gw_barrier w)\<rparr>"

definition raw_of_write :: "string \<Rightarrow> device_write \<Rightarrow> raw_device" where
  "raw_of_write i w = \<lparr>rw_id = i, rw_host = dw_host w, rw_port = dw_port w, rw_username = dw_username w,
     rw_password = dw_password w, rw_connect_secs = dw_connect_secs w, rw_exchange_secs = dw_exchange_secs w,
     rw_eager = dw_eager w, rw_sis_keepalive_secs = dw_sis_keepalive_secs w,
     rw_eager_retry_secs = dw_eager_retry_secs w, rw_cold_backoff_secs = dw_cold_backoff_secs w,
     rw_disabled_fields = dw_disabled_fields w, rw_auto_disable_after = dw_auto_disable_after w,
     rw_self_heal_secs = dw_self_heal_secs w\<rparr>"


section \<open>The exported document\<close>

record export_defaults =
  ef_username :: "string option"
  ef_password :: "string option"

record export_device =
  ed_id :: string
  ed_host :: string
  ed_port :: "16 word"
  ed_username :: string
  ed_password :: "string option"
  ed_connect_secs :: "64 word"
  ed_exchange_secs :: "64 word"
  ed_eager :: bool
  ed_sis_keepalive_secs :: "64 word"
  ed_eager_retry_secs :: "64 word"
  ed_cold_backoff_secs :: "64 word"
  ed_disabled_fields :: "string list"
  ed_auto_disable_after :: "32 word"
  ed_self_heal_secs :: "64 word"

record export_group =
  eg_id :: string
  eg_devices :: "string list"
  eg_barrier_timeout_secs :: "64 word"
  eg_barrier :: string

record export_document =
  ex_defaults :: export_defaults
  ex_devices :: "export_device list"
  ex_groups :: "export_group list"

datatype export_format = FToml | FYaml | FJson

record export_query =
  eq_format :: export_format
  eq_promote :: bool
  eq_include_secrets :: bool

text \<open>
  What the development takes from outside: the hash of identities, the layout of a read's size,
  the three serialisers, and writing a file, which gives what the file holds afterwards and
  whether the write succeeded.
\<close>

record fleet_env =
  fe_new_v5 :: "string \<Rightarrow> string \<Rightarrow> uuid"
  fe_layout :: layout
  fe_ser :: "export_format \<Rightarrow> export_document \<Rightarrow> string + string"
  fe_write :: "string \<Rightarrow> string \<Rightarrow> string option \<times> (string + unit)"

definition export_device_of :: "(string, string list) omap \<Rightarrow> export_query \<Rightarrow> device_config \<Rightarrow> export_device" where
  "export_device_of promoted q c =
     (let disabled = (case map_of promoted (dc_id c) of
            Some inferred \<Rightarrow> if eq_promote q then oset (dc_disabled_fields c @ inferred) else oset (dc_disabled_fields c)
          | None \<Rightarrow> oset (dc_disabled_fields c))
      in \<lparr>ed_id = dc_id c, ed_host = dc_host c, ed_port = dc_port c, ed_username = dc_username c,
          ed_password = (if eq_include_secrets q then Some (dc_password c) else None),
          ed_connect_secs = secs_word (dc_connect_timeout c), ed_exchange_secs = secs_word (dc_exchange_timeout c),
          ed_eager = dc_eager c, ed_sis_keepalive_secs = opt_secs (dc_sis_keepalive c),
          ed_eager_retry_secs = opt_secs (dc_eager_retry c), ed_cold_backoff_secs = opt_secs (dc_cold_backoff c),
          ed_disabled_fields = disabled, ed_auto_disable_after = dc_auto_disable_after c,
          ed_self_heal_secs = opt_secs (dc_self_heal c)\<rparr>)"

fun barrier_name :: "barrier \<Rightarrow> string" where
  "barrier_name FailBatch = ''fail_batch''"
| "barrier_name DispatchReady = ''dispatch_ready''"

definition export_group_of :: "group_config \<Rightarrow> export_group" where
  "export_group_of g = \<lparr>eg_id = gc_id g, eg_devices = gc_device_ids g,
     eg_barrier_timeout_secs = secs_word (gc_barrier_timeout g), eg_barrier = barrier_name (gc_barrier g)\<rparr>"

definition export_document_of :: "device_config list \<Rightarrow> group_config list \<Rightarrow> (string, string list) omap
    \<Rightarrow> export_query \<Rightarrow> export_document" where
  "export_document_of devices groups promoted q =
     \<lparr>ex_defaults = \<lparr>ef_username = None, ef_password = None\<rparr>,
      ex_devices = map (export_device_of promoted q) devices, ex_groups = map export_group_of groups\<rparr>"

definition render :: "fleet_env \<Rightarrow> device_config list \<Rightarrow> group_config list \<Rightarrow> (string, string list) omap
    \<Rightarrow> export_query \<Rightarrow> inventory_refusal + string" where
  "render E devices groups promoted q =
     (case fe_ser E (eq_format q) (export_document_of devices groups promoted q) of
        Inl e \<Rightarrow> Inl (ISource (''rendering the devices document: '' @ e))
      | Inr body \<Rightarrow> Inr body)"

text \<open>\<open>Path::extension\<close>: what follows the last dot of the file name, if something precedes it.\<close>

definition path_file_name :: "string \<Rightarrow> string" where
  "path_file_name p = rev (takeWhile (\<lambda>c. c \<noteq> CHR ''/'') (rev p))"

definition path_extension :: "string \<Rightarrow> string option" where
  "path_extension p =
     (let name = rev (path_file_name p); ext = takeWhile (\<lambda>c. c \<noteq> CHR ''.'') name; stem = drop (length ext) name
      in if length stem \<le> 1 \<or> name = ''..'' then None else Some (rev ext))"

definition format_of :: "string \<Rightarrow> export_format" where
  "format_of path =
     (case path_extension path of
        Some e \<Rightarrow> if e = ''json'' then FJson else if e = ''yaml'' \<or> e = ''yml'' then FYaml else FToml
      | None \<Rightarrow> FToml)"


section \<open>The running fleet\<close>

record live_fleet =
  lf_registry :: registry
  lf_generation :: "64 word"
  lf_document :: raw_config
  lf_catalog :: memory_catalog
  lf_outbox :: outbox
  lf_store :: store
  lf_cleanup_on_remove :: bool
  lf_config_path :: string
  lf_runtime_config_path :: "string option"
  lf_runtime_file :: "string option"

definition fleet_apply :: "resolved \<Rightarrow> live_fleet \<Rightarrow> live_fleet \<times> registry_change" where
  "fleet_apply r fl =
     (case registry_apply r (lf_registry fl) of
        (rg, ch) \<Rightarrow> (fl\<lparr>lf_registry := rg, lf_generation := lf_generation fl + 1\<rparr>, ch))"

definition adopt_catalog :: "resolved \<Rightarrow> memory_catalog" where
  "adopt_catalog r = catalog_replace (map summarize (rs_devices r)) (map summarize_group (rs_groups r))"

text \<open>
  \<open>persist\<close> writes the resolved fleet, secrets included, to the runtime path; \<open>lf_runtime_file\<close> is
  what that file holds. A failure is logged only.
\<close>

definition persist :: "fleet_env \<Rightarrow> resolved \<Rightarrow> live_fleet \<Rightarrow> live_fleet" where
  "persist E r fl =
     (case lf_runtime_config_path fl of
        None \<Rightarrow> fl
      | Some path \<Rightarrow>
          (case render E (rs_devices r) (rs_groups r) []
                  \<lparr>eq_format = format_of path, eq_promote = False, eq_include_secrets = True\<rparr> of
             Inl e \<Rightarrow> fl
           | Inr body \<Rightarrow> fl\<lparr>lf_runtime_file := fst (fe_write E path body)\<rparr>))"

text \<open>
  \<open>amend\<close>, with the panic of \<open>resolve_config\<close> as \<open>None\<close>.
\<close>

definition amend :: "fleet_env \<Rightarrow> (raw_config \<Rightarrow> inventory_refusal + raw_config) \<Rightarrow> live_fleet
    \<Rightarrow> live_fleet \<times> (inventory_refusal + resolved) option" where
  "amend E edit fl =
     (case edit (lf_document fl) of
        Inl e \<Rightarrow> (fl, Some (Inl e))
      | Inr amended \<Rightarrow>
          (case resolve_config (fe_new_v5 E) amended of
             None \<Rightarrow> (fl, None)
           | Some (Inl e) \<Rightarrow> (fl, Some (Inl (refusal_of e)))
           | Some (Inr r) \<Rightarrow>
               let doc = lf_document fl;
                   fl = fl\<lparr>lf_document := doc\<lparr>rc_devices := map (\<lambda>c. raw_of c (rc_defaults doc)) (rs_devices r),
                              rc_groups := rc_groups amended\<rparr>,
                           lf_catalog := adopt_catalog r\<rparr>
               in (persist E r (fst (fleet_apply r fl)), Some (Inr r))))"

definition summary_of :: "resolved \<Rightarrow> string \<Rightarrow> inventory_refusal + device_summary" where
  "summary_of r i = (case find (\<lambda>c. dc_id c = i) (rs_devices r) of
     Some c \<Rightarrow> Inr (summarize c)
   | None \<Rightarrow> Inl (IMalformed (''device '' @ quoted i @ '' was not in the applied fleet'')))"

definition group_summary_of :: "resolved \<Rightarrow> string \<Rightarrow> inventory_refusal + group_summary" where
  "group_summary_of r i = (case find (\<lambda>g. gc_id g = i) (rs_groups r) of
     Some g \<Rightarrow> Inr (summarize_group g)
   | None \<Rightarrow> Inl (IMalformed (''group '' @ quoted i @ '' was not in the applied fleet'')))"

text \<open>The tail of a verb that answers with a summary.\<close>

definition answer :: "(resolved \<Rightarrow> inventory_refusal + 'a) \<Rightarrow> live_fleet \<times> (inventory_refusal + resolved) option
    \<Rightarrow> live_fleet \<times> (inventory_refusal + 'a) option" where
  "answer summary x = (case x of (fl, res) \<Rightarrow>
     (fl, map_option (\<lambda>y. case y of Inl e \<Rightarrow> Inl e | Inr r \<Rightarrow> summary r) res))"

definition unknown_device :: "string \<Rightarrow> inventory_refusal" where
  "unknown_device i = IUnknown (''no device '' @ quoted i @ '' is configured'')"

definition unknown_group :: "string \<Rightarrow> inventory_refusal" where
  "unknown_group i = IUnknown (''no group '' @ quoted i @ '' is configured'')"

definition fleet_add :: "fleet_env \<Rightarrow> device_write \<Rightarrow> live_fleet
    \<Rightarrow> live_fleet \<times> (inventory_refusal + device_summary) option" where
  "fleet_add E w fl =
     (case dw_id w of
        None \<Rightarrow> (fl, Some (Inl (IMalformed
          (''an added device must state an '' @ ticked ''id'' @ ''; the URL does not name one''))))
      | Some i \<Rightarrow>
          answer (\<lambda>r. summary_of r i)
            (amend E (\<lambda>doc. Inr (doc\<lparr>rc_devices := rc_devices doc @ [raw_of_write i w]\<rparr>)) fl))"

text \<open>\<open>iter_mut().find(\<dots>)\<close> and the assignment to the slot found.\<close>

fun put_first :: "('a \<Rightarrow> bool) \<Rightarrow> 'a \<Rightarrow> 'a list \<Rightarrow> 'a list option" where
  "put_first P y [] = None"
| "put_first P y (x # xs) = (if P x then Some (y # xs) else map_option (Cons x) (put_first P y xs))"

definition fleet_replace :: "fleet_env \<Rightarrow> string \<Rightarrow> device_write \<Rightarrow> live_fleet
    \<Rightarrow> live_fleet \<times> (inventory_refusal + device_summary) option" where
  "fleet_replace E i w fl =
     (if (case dw_id w of Some stated \<Rightarrow> stated \<noteq> i | None \<Rightarrow> False)
      then (fl, Some (Inl (IMalformed (''the body names device '' @ quoted (the (dw_id w)) @ '' and the path names ''
              @ quoted i @ ''; a replace states the id once''))))
      else answer (\<lambda>r. summary_of r i)
        (amend E (\<lambda>doc. case put_first (\<lambda>d. rw_id d = i) (raw_of_write i w) (rc_devices doc) of
             None \<Rightarrow> Inl (unknown_device i)
           | Some ds \<Rightarrow> Inr (doc\<lparr>rc_devices := ds\<rparr>)) fl))"

record removed =
  rm_device :: string
  rm_writes_canceled :: nat
  rm_reads_dropped :: "nat option"

definition REMOVED_FROM_FLEET :: string where
  "REMOVED_FROM_FLEET = ''the device was removed from the fleet''"

definition fleet_remove :: "fleet_env \<Rightarrow> string \<Rightarrow> live_fleet
    \<Rightarrow> live_fleet \<times> (inventory_refusal + removed) option" where
  "fleet_remove E i fl =
     (case amend E (\<lambda>doc. let kept = filter (\<lambda>d. rw_id d \<noteq> i) (rc_devices doc)
             in if length kept = length (rc_devices doc) then Inl (unknown_device i)
                else Inr (doc\<lparr>rc_devices := kept\<rparr>)) fl of
        (fl, None) \<Rightarrow> (fl, None)
      | (fl, Some (Inl e)) \<Rightarrow> (fl, Some (Inl e))
      | (fl, Some (Inr r)) \<Rightarrow>
          let (ob, canceled) = cancel_queued i REMOVED_FROM_FLEET (lf_outbox fl);
              (st, dropped) = (if lf_cleanup_on_remove fl
                 then (case forget_device (fe_layout E) i (lf_store fl) of (st, n) \<Rightarrow> (st, Some n))
                 else (lf_store fl, None))
          in (fl\<lparr>lf_outbox := ob, lf_store := st\<rparr>,
              Some (Inr \<lparr>rm_device = i, rm_writes_canceled = canceled, rm_reads_dropped = dropped\<rparr>)))"

definition fleet_add_group :: "fleet_env \<Rightarrow> group_write_body \<Rightarrow> live_fleet
    \<Rightarrow> live_fleet \<times> (inventory_refusal + group_summary) option" where
  "fleet_add_group E w fl =
     (case gw_id w of
        None \<Rightarrow> (fl, Some (Inl (IMalformed
          (''an added group must state an '' @ ticked ''id'' @ ''; the URL does not name one''))))
      | Some i \<Rightarrow>
          answer (\<lambda>r. group_summary_of r i)
            (amend E (\<lambda>doc. Inr (doc\<lparr>rc_groups := rc_groups doc @ [raw_of_group_write i w]\<rparr>)) fl))"

definition fleet_replace_group :: "fleet_env \<Rightarrow> string \<Rightarrow> group_write_body \<Rightarrow> live_fleet
    \<Rightarrow> live_fleet \<times> (inventory_refusal + group_summary) option" where
  "fleet_replace_group E i w fl =
     (if (case gw_id w of Some stated \<Rightarrow> stated \<noteq> i | None \<Rightarrow> False)
      then (fl, Some (Inl (IMalformed (''the body names group '' @ quoted (the (gw_id w)) @ '' and the path names ''
              @ quoted i @ ''; a replace states the id once''))))
      else answer (\<lambda>r. group_summary_of r i)
        (amend E (\<lambda>doc. case put_first (\<lambda>g. rg_id g = i) (raw_of_group_write i w) (rc_groups doc) of
             None \<Rightarrow> Inl (unknown_group i)
           | Some gs \<Rightarrow> Inr (doc\<lparr>rc_groups := gs\<rparr>)) fl))"

definition fleet_remove_group :: "fleet_env \<Rightarrow> string \<Rightarrow> live_fleet
    \<Rightarrow> live_fleet \<times> (inventory_refusal + unit) option" where
  "fleet_remove_group E i fl =
     (case amend E (\<lambda>doc. let kept = filter (\<lambda>g. rg_id g \<noteq> i) (rc_groups doc)
             in if length kept = length (rc_groups doc) then Inl (unknown_group i)
                else Inr (doc\<lparr>rc_groups := kept\<rparr>)) fl of
        (fl, None) \<Rightarrow> (fl, None)
      | (fl, Some (Inl e)) \<Rightarrow> (fl, Some (Inl e))
      | (fl, Some (Inr r)) \<Rightarrow> (fl\<lparr>lf_outbox := fst (forget_group i (lf_outbox fl))\<rparr>, Some (Inr ())))"

text \<open>\<open>reset\<close>: \<open>loaded\<close> is what reading the devices file gives.\<close>

definition REMOVED_BY_RESET :: string where
  "REMOVED_BY_RESET = ''the device was removed by an inventory reset''"

fun drop_removed :: "fleet_env \<Rightarrow> string list \<Rightarrow> live_fleet \<Rightarrow> live_fleet" where
  "drop_removed E [] fl = fl"
| "drop_removed E (i # ids) fl =
     (let fl = fl\<lparr>lf_outbox := fst (cancel_queued i REMOVED_BY_RESET (lf_outbox fl))\<rparr>;
          fl = (if lf_cleanup_on_remove fl then fl\<lparr>lf_store := fst (forget_device (fe_layout E) i (lf_store fl))\<rparr> else fl)
      in drop_removed E ids fl)"

definition fleet_reset :: "fleet_env \<Rightarrow> config_error + raw_config \<Rightarrow> live_fleet
    \<Rightarrow> live_fleet \<times> (inventory_refusal + device_summary list) option" where
  "fleet_reset E loaded fl =
     (case loaded of
        Inl e \<Rightarrow> (fl, Some (Inl (ISource (''reading '' @ lf_config_path fl @ '': '' @ show_config_error e))))
      | Inr reloaded \<Rightarrow>
          (case resolve_config (fe_new_v5 E) reloaded of
             None \<Rightarrow> (fl, None)
           | Some (Inl e) \<Rightarrow> (fl, Some (Inl (refusal_of e)))
           | Some (Inr r) \<Rightarrow>
               (case fleet_apply r (fl\<lparr>lf_document := reloaded, lf_catalog := adopt_catalog r\<rparr>) of
                  (fl, ch) \<Rightarrow> (persist E r (drop_removed E (rx_removed ch) fl), Some (Inr (map summarize (rs_devices r)))))))"


section \<open>Export\<close>

text \<open>The vetoes in force are learned per device; \<open>at\<close> is the instant of the snapshot.\<close>

definition inferred_vetoes :: "registry \<Rightarrow> instant \<Rightarrow> (string, string list) omap" where
  "inferred_vetoes rg at = ocollect (map (\<lambda>h. (dc_id (handle_config rg h),
     map ad_name (filter ad_disabled (snapshot (dv_auto_disabled (deref rg h)) at)))) (registry_devices rg))"

definition fleet_export :: "fleet_env \<Rightarrow> instant \<Rightarrow> export_query \<Rightarrow> live_fleet \<Rightarrow> (inventory_refusal + string) option" where
  "fleet_export E at q fl =
     (let rg = lf_registry fl; devices = sort_key dc_id (map (handle_config rg) (registry_devices rg))
      in case resolve_config (fe_new_v5 E) (lf_document fl) of
           None \<Rightarrow> None
         | Some (Inl e) \<Rightarrow> Some (Inl (refusal_of e))
         | Some (Inr r) \<Rightarrow> Some (render E devices (rs_groups r) (inferred_vetoes rg at) q))"

text \<open>
  Start: the persisted file where there is one, otherwise the devices file, given by what reading
  it gives. \<open>None\<close> is the panic at start.
\<close>

definition load_device_set :: "formats \<Rightarrow> string option \<Rightarrow> string option \<Rightarrow> string \<Rightarrow> string + string
    \<Rightarrow> raw_config option" where
  "load_device_set fmts runtime_path runtime_file path contents =
     (case (case (runtime_path, runtime_file) of
              (Some state, Some body) \<Rightarrow> load_raw fmts (Inr body) (path_extension state)
            | _ \<Rightarrow> load_raw fmts contents (path_extension path)) of
        Inl e \<Rightarrow> None
      | Inr raw \<Rightarrow> Some raw)"


section \<open>The reconciler\<close>

record fleet_tasks =
  ft_relay :: relay_handle
  ft_keepalive :: sis_keepalive
  ft_seen :: "64 word"

definition registered :: "registry \<Rightarrow> (handle \<times> device_config) list" where
  "registered rg = map (\<lambda>h. (h, handle_config rg h)) (registry_devices rg)"

text \<open>One turn of \<open>reconcile\<close>: it runs if the generation moved since it was last read.\<close>

definition reconcile_tasks :: "live_fleet \<Rightarrow> fleet_tasks \<Rightarrow> fleet_tasks" where
  "reconcile_tasks fl ft =
     (if lf_generation fl = ft_seen ft then ft
      else let devices = registered (lf_registry fl)
           in \<lparr>ft_relay = fst (relay_apply devices (ft_relay ft)),
               ft_keepalive = fst (keepalive_apply devices (ft_keepalive ft)),
               ft_seen = lf_generation fl\<rparr>)"

definition fleet_spawn :: "live_fleet \<Rightarrow> fleet_tasks" where
  "fleet_spawn fl = (let devices = registered (lf_registry fl)
     in \<lparr>ft_relay = relay_spawn devices, ft_keepalive = keepalive_spawn devices, ft_seen = lf_generation fl\<rparr>)"

text \<open>Shutdown: the keepalive is dropped first, then the relay is drained.\<close>

definition fleet_shutdown :: "fleet_tasks \<Rightarrow> task list \<times> task list" where
  "fleet_shutdown ft = (keepalive_drop (ft_keepalive ft), relay_shutdown (ft_relay ft))"

end
