(* ===== verification/Sis_Reconcile.thy ===== *)
theory Sis_Reconcile
  imports Sis_Fleet
begin

text \<open>
  How the reconciler of \<^verbatim>\<open>sismatic-server/src/fleet.rs\<close> holds the tasks of the relay and of the keepalive
  to the registry: in step when it looks after every change, and where it loses a device when
  changes coalesce.
\<close>


section \<open>The relay's task set\<close>

definition relay_ok :: "relay_handle \<Rightarrow> bool" where
  "relay_ok rh \<longleftrightarrow> owf (rh_running rh) \<and> tasks_ok (relay_entry rh) (rh_tasks rh)"

text \<open>The device and identity the relay task of an id runs on.\<close>

definition relayed :: "relay_handle \<Rightarrow> string \<Rightarrow> (handle \<times> uuid) option" where
  "relayed rh = captured (relay_entry rh) (rh_tasks rh)"

lemma owf_relay_stop: "owf (rh_running rh) \<Longrightarrow> owf (rh_running (relay_stop i rh))"
  by (auto simp: relay_stop_def intro: owf_intros split: option.split)

lemma owf_relay_start: "owf (rh_running rh) \<Longrightarrow> owf (rh_running (relay_start i w rh))"
  by (auto simp: relay_start_def intro: owf_intros)

lemma relay_apply_facts:
  assumes "relay_ok rh" and "relay_apply devices rh = (rh', ch)"
  shows "relay_ok rh'"
    and "relayed rh' i = (case map_of (all_devices devices) i of
        None \<Rightarrow> None
      | Some (h, u) \<Rightarrow> (case relayed rh i of
            Some (h', u') \<Rightarrow> if u' = u then Some (h', u) else Some (h, u)
          | None \<Rightarrow> Some (h, u)))"
proof -
  let ?w = "all_devices devices"
  define stale where "stale = okeys (filter (\<lambda>(i, w). is_stale ?w (i, rn_device w)) (rh_running rh))"
  obtain s1 rebound stopped where p1: "stop_pass relay_stop ?w stale (rh, 0, 0) = (s1, rebound, stopped)"
    by (metis prod_cases3)
  obtain s2 unchanged spawned where p2: "start_pass relay_entry relay_start ?w (s1, 0, 0) = (s2, unchanged, spawned)"
    by (metis prod_cases3)
  have res: "rh' = s2"
    using assms(2) p1 p2 unfolding relay_apply_def Let_def stale_def [symmetric] by auto
  have wf: "owf (rh_running rh)" and inv: "tasks_ok (relay_entry rh) (rh_tasks rh)"
    using assms(1) by (simp_all add: relay_ok_def)
  have dw: "distinct (okeys ?w)" by (simp add: all_devices_def owf_distinct owf_intros)
  note st = stale_ids [OF wf relay_entry_def, where P = "\<lambda>i u. is_stale ?w (i, u)", unfolded fst_conv,
      folded stale_def]
  note rec = rh.reconciled [OF inv dw st p1 p2]
  have "owf (rh_running s2)"
    using start_pass_keeps [where P = "\<lambda>s. owf (rh_running s)" and start = relay_start and s = s1
          and table = relay_entry and ws = ?w and a = 0 and b = 0, OF owf_relay_start]
      stop_pass_keeps [where P = "\<lambda>s. owf (rh_running s)" and stop = relay_stop and wanted = ?w
          and ids = stale and a = 0 and b = 0, OF owf_relay_stop wf]
    by (simp add: p1 p2)
  then show "relay_ok rh'" using rec(1) by (simp add: relay_ok_def res)
  show "relayed rh' i = (case map_of ?w i of
        None \<Rightarrow> None
      | Some (h, u) \<Rightarrow> (case relayed rh i of
            Some (h', u') \<Rightarrow> if u' = u then Some (h', u) else Some (h, u)
          | None \<Rightarrow> Some (h, u)))"
    using rec(2) [of i] unfolding relayed_def res(1) .
qed


section \<open>In step\<close>

text \<open>The tasks a registry asks for: one per device of the relay, one per eager device of the keepalive.\<close>

definition tasks_for :: "registry \<Rightarrow> string \<Rightarrow> (handle \<times> uuid) option" where
  "tasks_for rg i = map_option (\<lambda>h. (h, dc_uuid (handle_config rg h))) (registry_device rg i)"

definition eager_for :: "registry \<Rightarrow> string \<Rightarrow> (handle \<times> uuid) option" where
  "eager_for rg i = (case registry_device rg i of
     None \<Rightarrow> None
   | Some h \<Rightarrow> if dc_eager (handle_config rg h) then Some (h, dc_uuid (handle_config rg h)) else None)"

definition tasks_in_step :: "registry \<Rightarrow> fleet_tasks \<Rightarrow> bool" where
  "tasks_in_step rg ft \<longleftrightarrow> relay_ok (ft_relay ft) \<and> keepalive_ok (ft_keepalive ft)
     \<and> relayed (ft_relay ft) = tasks_for rg \<and> kept_warm (ft_keepalive ft) = eager_for rg"

lemma map_of_filter_value:
  "distinct (map fst xs) \<Longrightarrow> map_of (filter (\<lambda>(i, h). P h) xs) i
    = (case map_of xs i of None \<Rightarrow> None | Some h \<Rightarrow> if P h then Some h else None)"
proof (induction xs)
  case (Cons e xs)
  have "i \<notin> fst ` set xs \<Longrightarrow> map_of (filter (\<lambda>(i, h). P h) xs) i = None"
    by (auto simp: map_of_eq_None_iff)
  then show ?case using Cons by (cases e) auto
qed simp

lemma map_of_by_id_if:
  assumes "registry_ok rg"
  shows "map_of (ocollect (map (\<lambda>h. (dc_id (handle_config rg h), f h)) (filter P (registry_devices rg)))) i
    = (case registry_device rg i of None \<Rightarrow> None | Some h \<Rightarrow> if P h then Some (f h) else None)"
proof -
  have ids: "map (\<lambda>h. (dc_id (handle_config rg h), f h)) (filter P (registry_devices rg))
      = map (\<lambda>(i, h). (i, f h)) (filter (\<lambda>(i, h). P h) (ry_devices rg))"
    using assms by (auto simp: registry_ok_def owf_mem_iff registry_devices_def filter_map comp_def case_prod_unfold)
  have wf: "owf (filter (\<lambda>(i, h). P h) (ry_devices rg))" using assms by (intro owf_filter) (simp add: registry_ok_def)
  have "distinct (map fst (map (\<lambda>(i, h). (i, f h)) (filter (\<lambda>(i, h). P h) (ry_devices rg))))"
    using owf_distinct [OF wf] by (simp add: comp_def case_prod_beta)
  then have "map_of (ocollect (map (\<lambda>(i, h). (i, f h)) (filter (\<lambda>(i, h). P h) (ry_devices rg)))) i
      = map_of (map (\<lambda>(i, h). (i, f h)) (filter (\<lambda>(i, h). P h) (ry_devices rg))) i"
    by (rule map_of_ocollect_distinct [THEN fun_cong])
  moreover have "map_of (filter (\<lambda>(i, h). P h) (ry_devices rg)) i
      = (case registry_device rg i of None \<Rightarrow> None | Some h \<Rightarrow> if P h then Some h else None)"
    using map_of_filter_value [OF owf_distinct, of "ry_devices rg" P i] assms
    by (simp add: registry_ok_def registry_device_def)
  ultimately show ?thesis unfolding ids by (simp add: map_of_map split: option.split)
qed

lemma all_devices_registered: "registry_ok rg \<Longrightarrow> map_of (all_devices (registered rg)) = tasks_for rg"
  using map_of_by_id [of rg "\<lambda>h. (h, dc_uuid (handle_config rg h))"]
  by (auto simp: all_devices_def registered_def tasks_for_def comp_def)

lemma eager_devices_registered: "registry_ok rg \<Longrightarrow> map_of (eager_devices (registered rg)) = eager_for rg"
  using map_of_by_id_if [of rg "\<lambda>h. (h, dc_uuid (handle_config rg h))" "\<lambda>h. dc_eager (handle_config rg h)"]
  by (auto simp: eager_devices_def registered_def eager_for_def comp_def filter_map fun_eq_iff split: option.split)

text \<open>Within one \<open>apply\<close> a device that keeps its identity keeps its handle.\<close>

lemma same_identity_same_handle:
  assumes "registry_ok rg" and "distinct (map dc_id (rs_devices r))" and "registry_apply r rg = (rg', ch)"
    and "registry_device rg i = Some h" and "registry_device rg' i = Some h'"
    and "dc_uuid (handle_config rg' h') = dc_uuid (handle_config rg h)"
  shows "h' = h"
proof -
  note f = registry_apply_facts [OF assms(1-3)]
  obtain c where c: "find (\<lambda>c. dc_id c = i) (rs_devices r) = Some c" "settled_on rg rg' i c h'"
    using f(2) assms(5) by (auto dest!: spec [of _ i] split: option.splits)
  then show ?thesis using assms(4,6) by (auto simp: settled_on_def registry_device_def handle_config_def split: if_splits)
qed

lemma apply_in_step:
  assumes "registry_ok rg" and "distinct (map dc_id (rs_devices r))" and "registry_apply r rg = (rg', ch)"
    and "tasks_in_step rg ft" and "registry_ok rg'"
    and "lf_registry fl = rg'" and "lf_generation fl \<noteq> ft_seen ft"
  shows "tasks_in_step rg' (reconcile_tasks fl ft)"
proof -
  have inv: "relay_ok (ft_relay ft)" "keepalive_ok (ft_keepalive ft)" "relayed (ft_relay ft) = tasks_for rg"
    "kept_warm (ft_keepalive ft) = eager_for rg"
    using assms(4) by (simp_all add: tasks_in_step_def)
  obtain rh' c1 where rh: "relay_apply (registered rg') (ft_relay ft) = (rh', c1)" by (metis surj_pair)
  obtain ka' c2 where ka: "keepalive_apply (registered rg') (ft_keepalive ft) = (ka', c2)" by (metis surj_pair)
  note same = same_identity_same_handle [OF assms(1-3)]
  have "relayed rh' = tasks_for rg'"
    unfolding all_devices_registered [OF assms(5), symmetric] relayed_def
  proof (rule rh.in_step [OF relay_apply_facts(2) [OF inv(1) rh, unfolded relayed_def]])
    fix i h h' u
    assume "captured (relay_entry (ft_relay ft)) (rh_tasks (ft_relay ft)) i = Some (h', u)"
      and "map_of (all_devices (registered rg')) i = Some (h, u)"
    then have "tasks_for rg i = Some (h', u)" "tasks_for rg' i = Some (h, u)"
      using inv(3) all_devices_registered [OF assms(5)] by (simp_all add: relayed_def fun_eq_iff)
    then show "h' = h" using same [of i h' h] by (auto simp: tasks_for_def)
  qed
  moreover have "kept_warm ka' = eager_for rg'"
    unfolding eager_devices_registered [OF assms(5), symmetric] kept_warm_def
  proof (rule ka.in_step [OF keepalive_apply_facts(2) [OF inv(2) ka, unfolded kept_warm_def]])
    fix i h h' u
    assume "captured (keepalive_entry (ft_keepalive ft)) (ka_tasks (ft_keepalive ft)) i = Some (h', u)"
      and "map_of (eager_devices (registered rg')) i = Some (h, u)"
    then have "eager_for rg i = Some (h', u)" "eager_for rg' i = Some (h, u)"
      using inv(4) eager_devices_registered [OF assms(5)] by (simp_all add: kept_warm_def fun_eq_iff)
    then show "h' = h" using same [of i h' h] by (auto simp: eager_for_def split: option.splits if_splits)
  qed
  moreover have "reconcile_tasks fl ft = \<lparr>ft_relay = rh', ft_keepalive = ka', ft_seen = lf_generation fl\<rparr>"
    using assms(6,7) rh ka by (simp add: reconcile_tasks_def Let_def)
  ultimately show ?thesis
    using relay_apply_facts(1) [OF inv(1) rh] keepalive_apply_facts(1) [OF inv(2) ka] by (simp add: tasks_in_step_def)
qed

lemma spawn_in_step:
  assumes "registry_ok (lf_registry fl)"
  shows "tasks_in_step (lf_registry fl) (fleet_spawn fl)" and "ft_seen (fleet_spawn fl) = lf_generation fl"
proof -
  let ?ds = "registered (lf_registry fl)"
  have e: "relay_ok \<lparr>rh_running = [], rh_tasks = []\<rparr>" "relayed \<lparr>rh_running = [], rh_tasks = []\<rparr> = (\<lambda>i. None)"
    "keepalive_ok empty_keepalive" "kept_warm empty_keepalive = (\<lambda>i. None)"
    by (simp_all add: relay_ok_def tasks_ok_def relay_entry_def relayed_def captured_def fun_eq_iff keepalive_ok_def
        empty_keepalive_def keepalive_entry_def kept_warm_def)
  obtain rh c1 where rh: "relay_apply ?ds \<lparr>rh_running = [], rh_tasks = []\<rparr> = (rh, c1)" by (metis surj_pair)
  obtain ka c2 where ka: "keepalive_apply ?ds empty_keepalive = (ka, c2)" by (metis surj_pair)
  have "relayed rh = tasks_for (lf_registry fl)"
    using relay_apply_facts(2) [OF e(1) rh] e(2) all_devices_registered [OF assms]
    by (auto simp: fun_eq_iff split: option.split)
  moreover have "kept_warm ka = eager_for (lf_registry fl)"
    using keepalive_apply_facts(2) [OF e(3) ka] e(4) eager_devices_registered [OF assms]
    by (auto simp: fun_eq_iff split: option.split)
  ultimately show "tasks_in_step (lf_registry fl) (fleet_spawn fl)"
    using relay_apply_facts(1) [OF e(1) rh] keepalive_apply_facts(1) [OF e(3) ka] rh ka
    by (simp add: tasks_in_step_def fleet_spawn_def Let_def relay_spawn_def keepalive_spawn_def)
  show "ft_seen (fleet_spawn fl) = lf_generation fl" by (simp add: fleet_spawn_def Let_def)
qed

text \<open>
  C30. Looked at after every change, the tasks follow the fleet exactly. If before a document is
  applied every registered device has one live relay task on its current handle and every eager
  one a keep-warm task, no other task being alive, and the reconciler runs next, then the same
  holds of the new registry. This needs nothing of the hash: a task is kept only where the
  registry kept the device.
\<close>

theorem reconciler_in_step:
  assumes "registry_ok (lf_registry fl)" and "distinct (map dc_id (rs_devices r))"
    and "fleet_apply r fl = (fl', ch)" and "ft_seen ft = lf_generation fl" and "tasks_in_step (lf_registry fl) ft"
  shows "tasks_in_step (lf_registry fl') (reconcile_tasks fl' ft) \<and> ft_seen (reconcile_tasks fl' ft) = lf_generation fl'"
proof -
  obtain rg' where run: "registry_apply r (lf_registry fl) = (rg', ch)" and fl': "lf_registry fl' = rg'"
    "lf_generation fl' = lf_generation fl + 1"
    using assms(3) by (auto simp: fleet_apply_def split: prod.splits)
  have "registry_ok rg'" using registry_apply_facts(1) [OF assms(1,2) run] by simp
  then have "tasks_in_step rg' (reconcile_tasks fl' ft)"
    using apply_in_step [OF assms(1,2) run assms(5) _ fl'(1)] fl'(2) assms(4) by simp
  then show ?thesis using fl' by (simp add: reconcile_tasks_def Let_def)
qed

text \<open>
  Changes that coalesce lose a device. Suppose a device in step is removed and then added
  again with the same configuration before the reconciler looks. The registry then serves the id
  through a new device, but the relay task of the id goes on with the old one, because the
  reconciler compares identities and the identity is the same: the task is left alone and drains
  the id's queue through a device, a connection and a cold gate that nobody else shares.
\<close>

theorem coalesced_change_keeps_stale_device:
  assumes "registry_ok (lf_registry fl)" and "tasks_in_step (lf_registry fl) ft"
    and "registry_device (lf_registry fl) i = Some h" and "handle_config (lf_registry fl) h = c"
    and "distinct (map dc_id (rs_devices r1))" and "i \<notin> dc_id ` set (rs_devices r1)"
    and "distinct (map dc_id (rs_devices r2))" and "c \<in> set (rs_devices r2)" and "dc_id c = i"
    and "fleet_apply r1 fl = (fl1, ch1)" and "fleet_apply r2 fl1 = (fl2, ch2)" and "ft_seen ft = lf_generation fl"
  shows "relayed (ft_relay (reconcile_tasks fl2 ft)) i = Some (h, dc_uuid c)
    \<and> (\<exists>h2. registry_device (lf_registry fl2) i = Some h2 \<and> h2 \<noteq> h)"
proof -
  obtain rg1 rg2 where run1: "registry_apply r1 (lf_registry fl) = (rg1, ch1)" and run2: "registry_apply r2 rg1 = (rg2, ch2)"
    and fl2: "lf_registry fl2 = rg2" "lf_generation fl2 = lf_generation fl + 2"
    using assms(10,11) by (auto simp: fleet_apply_def split: prod.splits)
  note f1 = registry_apply_facts [OF assms(1,5) run1]
  then have ok1: "registry_ok rg1" by simp
  note f2 = registry_apply_facts [OF ok1 assms(7) run2]
  have "find (\<lambda>c. dc_id c = i) (rs_devices r1) = None" using assms(6) by (auto simp: find_None_iff)
  then have gone: "registry_device rg1 i = None" using f1(2) by (auto dest!: spec [of _ i])
  have "find (\<lambda>e. dc_id e = i) (rs_devices r2) = Some c" using find_by_id [OF assms(7,8)] assms(9) by simp
  then obtain h2 where h2: "registry_device rg2 i = Some h2" "settled_on rg1 rg2 i c h2"
    using f2(2) by (auto dest!: spec [of _ i])
  have h: "h < length (ry_cells (lf_registry fl))" using assms(1,3) by (auto simp: registry_ok_def registry_device_def)
  have new: "length (ry_cells rg1) \<le> h2" "handle_config rg2 h2 = c"
    using h2(2) gone by (auto simp: settled_on_def registry_device_def handle_config_def)
  then have "h2 \<noteq> h" using h extends_length [OF conjunct2 [OF f1(1)]] by simp
  have ok2: "registry_ok rg2" using f2(1) by simp
  have inv: "relay_ok (ft_relay ft)" "relayed (ft_relay ft) i = Some (h, dc_uuid c)"
    using assms(2-4) by (simp_all add: tasks_in_step_def tasks_for_def)
  have want: "map_of (all_devices (registered rg2)) i = Some (h2, dc_uuid c)"
    using all_devices_registered [OF ok2] h2(1) new(2) by (simp add: tasks_for_def)
  obtain rh' c1 where rh: "relay_apply (registered rg2) (ft_relay ft) = (rh', c1)" by (metis surj_pair)
  then have "relayed rh' i = Some (h, dc_uuid c)"
    using relay_apply_facts(2) [OF inv(1) rh, of i] inv(2) want by simp
  moreover have "lf_generation fl2 \<noteq> ft_seen ft" using fl2(2) assms(12) by simp
  ultimately show ?thesis using fl2(1) rh h2(1) \<open>h2 \<noteq> h\<close> by (auto simp: reconcile_tasks_def Let_def)
qed



section \<open>A fleet of one device\<close>

definition tiny_fleet :: live_fleet where
  "tiny_fleet = \<lparr>lf_registry = demo_registry, lf_generation = 0,
     lf_document = \<lparr>rc_defaults = no_defaults, rc_devices = [], rc_groups = []\<rparr>,
     lf_catalog = \<lparr>mc_devices = [], mc_groups = []\<rparr>, lf_outbox = with_max_attempts 3, lf_store = with_budget None,
     lf_cleanup_on_remove = True, lf_config_path = ''devices.toml'', lf_runtime_config_path = None,
     lf_runtime_file = None\<rparr>"

lemma tiny_registry: "lf_registry tiny_fleet = demo_registry" by (simp add: tiny_fleet_def)

lemma tiny_device:
  "registry_device demo_registry ''a'' = Some 0"
  "handle_config demo_registry 0 = (plain_device ''a'' ''10.0.0.7'')\<lparr>dc_uuid := 1\<rparr>"
  by (simp_all add: demo_registry_def demo_document_def registry_build_def rebuild_groups_def insert_new_def
      empty_registry_def plain_device_def registry_device_def handle_config_def ocollect_def)

theorem reconciler_in_step_witness:
  "\<exists>fl' ch. fleet_apply (demo_document 2 ''10.0.0.8'') tiny_fleet = (fl', ch)
     \<and> tasks_in_step (lf_registry fl') (reconcile_tasks fl' (fleet_spawn tiny_fleet))"
proof -
  obtain fl' ch where run: "fleet_apply (demo_document 2 ''10.0.0.8'') tiny_fleet = (fl', ch)" by (metis surj_pair)
  have ok: "registry_ok (lf_registry tiny_fleet)" using demo_registry_ok by (simp add: tiny_registry)
  have "distinct (map dc_id (rs_devices (demo_document 2 ''10.0.0.8'')))" by (simp add: demo_document_def)
  from reconciler_in_step [OF ok this run spawn_in_step(2) [OF ok] spawn_in_step(1) [OF ok]] show ?thesis
    using run by blast
qed

theorem coalesced_change_keeps_stale_device_witness:
  "\<exists>fl1 fl2 ch1 ch2. fleet_apply \<lparr>rs_devices = [], rs_groups = []\<rparr> tiny_fleet = (fl1, ch1)
     \<and> fleet_apply (demo_document 1 ''10.0.0.7'') fl1 = (fl2, ch2)
     \<and> relayed (ft_relay (reconcile_tasks fl2 (fleet_spawn tiny_fleet))) ''a'' = Some (0, 1)
     \<and> registry_device (lf_registry fl2) ''a'' \<noteq> Some 0"
proof -
  let ?r = "\<lparr>rs_devices = [], rs_groups = []\<rparr>" and ?c = "(plain_device ''a'' ''10.0.0.7'')\<lparr>dc_uuid := 1\<rparr>"
  obtain fl1 ch1 where run1: "fleet_apply ?r tiny_fleet = (fl1, ch1)" by (metis surj_pair)
  obtain fl2 ch2 where run2: "fleet_apply (demo_document 1 ''10.0.0.7'') fl1 = (fl2, ch2)" by (metis surj_pair)
  have ok: "registry_ok (lf_registry tiny_fleet)" using demo_registry_ok by (simp add: tiny_registry)
  have "relayed (ft_relay (reconcile_tasks fl2 (fleet_spawn tiny_fleet))) ''a'' = Some (0, dc_uuid ?c)
      \<and> (\<exists>h2. registry_device (lf_registry fl2) ''a'' = Some h2 \<and> h2 \<noteq> 0)"
    by (rule coalesced_change_keeps_stale_device [OF ok spawn_in_step(1) [OF ok] _ _ _ _ _ _ _ run1 run2 spawn_in_step(2) [OF ok]])
      (simp_all add: tiny_registry tiny_device demo_document_def plain_device_def)
  then show ?thesis using run1 run2 by auto
qed

end
