(* ===== verification/Sis_Units.thy ===== *)
theory Sis_Units
  imports Sis_Config Sis_Outbox
begin

text \<open>
  \<^verbatim>\<open>sismatic-server/src/units.rs\<close>: durations, byte sizes and instants written in words.

  \<^verbatim>\<open>humantime\<close> and \<^verbatim>\<open>chrono\<close> are not part of the repository: the functions of theirs the code calls
  are the fields of the parameter record \<open>lexicon\<close>. Durations are whole nanoseconds, instants as in
  the outbox. \<open>f64\<close>, which \<open>bytes\<close> parses decimals into, is modelled: a finite value that is not negative
  is \<open>m * 2 ^ e\<close> with \<open>m\<close> at most \<open>2 ^ 53\<close> and \<open>e\<close> at least -1074, and both the parser and the
  product round to nearest, ties to even.
\<close>

record lexicon =
  lx_chrono :: chrono
  parse_duration :: "string \<Rightarrow> string + duration"
  format_duration :: "duration \<Rightarrow> string"
  parse_date :: "string \<Rightarrow> int option"
  checked_sub :: "int \<Rightarrow> int \<Rightarrow> int option"


section \<open>Durations\<close>

abbreviation quoted :: "string \<Rightarrow> string" where
  "quoted s \<equiv> [CHR 0x27] @ s @ [CHR 0x27]"

definition units_duration :: "lexicon \<Rightarrow> string \<Rightarrow> string + duration" where
  "units_duration lx text =
     (let text = trim text
      in case parse_uint text :: 64 word option of
           Some secs \<Rightarrow> Inr (seconds (unat secs))
         | None \<Rightarrow>
             (case parse_duration lx text of
                Inr d \<Rightarrow> Inr d
              | Inl e \<Rightarrow> Inl (quoted text @ '' is not a duration ('' @ e
                  @ ''); write it as e.g. 30d, 2 weeks, 1h 30min, or a plain number of seconds'')))"


section \<open>Decimals\<close>

record f64 =
  fp_mantissa :: nat
  fp_exponent :: int

text \<open>The exponent of the binade of \<open>n / d\<close>, the integer nearest to a ratio, and the rounding of \<open>n / d\<close>; \<open>None\<close> is infinity.\<close>

fun bit_length :: "nat \<Rightarrow> nat" where
  "bit_length n = (if n = 0 then 0 else bit_length (n div 2) + 1)"

declare bit_length.simps [simp del]

definition binade :: "nat \<Rightarrow> nat \<Rightarrow> int" where
  "binade n d =
     (let k = int (bit_length n) - int (bit_length d)
      in if d * 2 ^ nat k \<le> n * 2 ^ nat (- k) then k else k - 1)"

definition round_half_even :: "nat \<Rightarrow> nat \<Rightarrow> nat" where
  "round_half_even n d =
     (let q = n div d; r = n mod d
      in if 2 * r > d \<or> 2 * r = d \<and> odd q then q + 1 else q)"

definition f64_of_ratio :: "nat \<Rightarrow> nat \<Rightarrow> f64 option" where
  "f64_of_ratio n d =
     (if n = 0 then Some \<lparr>fp_mantissa = 0, fp_exponent = 0\<rparr>
      else let e = max (-1074) (binade n d - 52);
               m = round_half_even (n * 2 ^ nat (- e)) (d * 2 ^ nat e)
           in if e \<le> 971 \<and> (e < 971 \<or> m < 2 ^ 53) then Some \<lparr>fp_mantissa = m, fp_exponent = e\<rparr> else None)"

text \<open>\<open>str::parse::<f64>\<close> of digits and dots: one dot at most and one digit at least.\<close>

definition decimal_digits :: "string \<Rightarrow> (nat \<times> nat) option" where
  "decimal_digits s =
     (let whole = takeWhile (\<lambda>c. c \<noteq> CHR ''.'') s; rest = drop (length whole + 1) s
      in if whole @ rest = [] then None
         else map_option (\<lambda>n. (n, 10 ^ length rest)) (digits_val 0 (whole @ rest)))"

definition parse_f64 :: "string \<Rightarrow> f64 option option" where
  "parse_f64 s = map_option (\<lambda>(n, d). f64_of_ratio n d) (decimal_digits s)"

definition f64_times :: "f64 \<Rightarrow> nat \<Rightarrow> f64 option" where
  "f64_times x n = f64_of_ratio (fp_mantissa x * n * 2 ^ nat (fp_exponent x)) (2 ^ nat (- fp_exponent x))"

text \<open>\<open>as u64\<close>: truncation, saturating at the width.\<close>

definition f64_as_u64 :: "f64 \<Rightarrow> 64 word" where
  "f64_as_u64 x =
     of_nat (min (fp_mantissa x * 2 ^ nat (fp_exponent x) div 2 ^ nat (- fp_exponent x)) (2 ^ 64 - 1))"


section \<open>Sizes\<close>

definition unit_scale :: "string \<Rightarrow> nat option" where
  "unit_scale unit =
     (if unit \<in> {'''', ''b''} then Some 1
      else if unit \<in> {''k'', ''kib''} then Some (2 ^ 10)
      else if unit \<in> {''m'', ''mib''} then Some (2 ^ 20)
      else if unit \<in> {''g'', ''gib''} then Some (2 ^ 30)
      else if unit \<in> {''t'', ''tib''} then Some (2 ^ 40)
      else if unit = ''kb'' then Some 1000
      else if unit = ''mb'' then Some 1000000
      else if unit = ''gb'' then Some 1000000000
      else if unit = ''tb'' then Some 1000000000000
      else None)"

definition bad_size :: "string \<Rightarrow> string \<Rightarrow> string" where
  "bad_size text what = quoted text @ '' is not a size ('' @ what
     @ ''); write it as e.g. 512MiB, 2GB, or a plain number of bytes''"

definition units_bytes :: "string \<Rightarrow> string + 64 word" where
  "units_bytes text =
     (let text = trim text;
          number = takeWhile (\<lambda>c. is_ascii_digit c \<or> c = CHR ''.'') text;
          unit = to_ascii_lowercase (trim (drop (length number) text))
      in case unit_scale unit of
           None \<Rightarrow> Inl (bad_size text (''unknown unit '' @ quoted unit))
         | Some scale \<Rightarrow>
             if CHR ''.'' \<in> set number then
               (case parse_f64 number of
                  None \<Rightarrow> Inl (bad_size text ''not a number'')
                | Some None \<Rightarrow> Inl (bad_size text ''not a positive number'')
                | Some (Some value) \<Rightarrow>
                    (case f64_times value scale of
                       None \<Rightarrow> Inl (bad_size text ''too large'')
                     | Some scaled \<Rightarrow>
                         if 2 ^ 64 * 2 ^ nat (- fp_exponent scaled) < fp_mantissa scaled * 2 ^ nat (fp_exponent scaled)
                         then Inl (bad_size text ''too large'')
                         else Inr (f64_as_u64 scaled)))
             else
               (case parse_uint number :: 64 word option of
                  None \<Rightarrow> Inl (bad_size text ''not a number'')
                | Some value \<Rightarrow>
                    if unat value * scale < 2 ^ 64 then Inr (of_nat (unat value * scale))
                    else Inl (bad_size text ''too large'')))"

definition BYTE_UNITS :: "(nat \<times> string) list" where
  "BYTE_UNITS = [(2 ^ 40, ''TiB''), (2 ^ 30, ''GiB''), (2 ^ 20, ''MiB''), (2 ^ 10, ''KiB'')]"

definition format_bytes :: "64 word \<Rightarrow> string" where
  "format_bytes bytes =
     (case find (\<lambda>(scale, sfx). scale \<le> unat bytes \<and> unat bytes mod scale = 0) BYTE_UNITS of
        None \<Rightarrow> show_uint bytes
      | Some (scale, sfx) \<Rightarrow> show_nat (unat bytes div scale) @ sfx)"


section \<open>Instants\<close>

definition units_instant :: "lexicon \<Rightarrow> string \<Rightarrow> string + int" where
  "units_instant lx text =
     (let text = trim text
      in case parse_from_rfc3339 (lx_chrono lx) text of
           Some at \<Rightarrow> Inr at
         | None \<Rightarrow>
             (case parse_date lx text of
                Some at \<Rightarrow> Inr at
              | None \<Rightarrow> Inl (quoted text @ '' is not an instant; write it as e.g. 2026-01-01T00:00:00Z or 2026-01-01'')))"


section \<open>What comes out goes back in\<close>

text \<open>A byte that neither begins nor ends the encoding of a white space character.\<close>

abbreviation graphic :: "char \<Rightarrow> bool" where
  "graphic c \<equiv> 33 \<le> (of_char c :: nat) \<and> (of_char c :: nat) < 127"

lemma leading_space_graphic:
  assumes "graphic c" and "\<forall>w \<in> set ws. w \<noteq> [] \<and> \<not> graphic (hd w)"
  shows "leading_space ws (c # s) = 0"
proof -
  have "\<not> take (length w) (c # s) = w" if "w \<in> set ws" for w
    using assms that by (cases w) auto
  then have "find (\<lambda>w. take (length w) (c # s) = w) ws = None" by (auto simp: find_None_iff)
  then show ?thesis by (simp add: leading_space_def)
qed

lemma whitespace_edges:
  "\<forall>w \<in> set whitespace. w \<noteq> [] \<and> \<not> graphic (hd w)"
  "\<forall>w \<in> set (map rev whitespace). w \<noteq> [] \<and> \<not> graphic (hd w)"
  unfolding whitespace_def by (simp_all add: of_char_of)

lemma strip_graphic:
  assumes "s \<noteq> []" and "graphic (hd s)" and "\<forall>w \<in> set ws. w \<noteq> [] \<and> \<not> graphic (hd w)"
  shows "strip_leading ws s = s"
proof -
  obtain c t where s: "s = c # t" using assms(1) by (cases s) auto
  have "leading_space ws s = 0" unfolding s using assms(2,3) by (intro leading_space_graphic) (simp_all add: s)
  then show ?thesis by (subst strip_leading.simps) simp
qed

lemma trim_graphic:
  assumes "s \<noteq> []" and "graphic (hd s)" and "graphic (last s)"
  shows "trim s = s"
proof -
  have "strip_leading whitespace s = s" by (rule strip_graphic [OF assms(1,2) whitespace_edges(1)])
  moreover have "strip_leading (map rev whitespace) (rev s) = rev s"
    using assms(1,3) by (intro strip_graphic whitespace_edges(2)) (simp_all add: hd_rev)
  ultimately show ?thesis by (simp add: trim_def)
qed

lemma show_nat_nonempty: "show_nat n \<noteq> []"
  using show_nat_hd [of n] by auto

lemma trim_number:
  assumes "u = [] \<or> graphic (last u)"
  shows "trim (show_nat n @ u) = show_nat n @ u"
proof (rule trim_graphic)
  have digits: "graphic c" if "c \<in> set (show_nat n)" for c
    using show_nat_digits [of n] that by fastforce
  show "show_nat n @ u \<noteq> []" by (simp add: show_nat_nonempty)
  show "graphic (hd (show_nat n @ u))"
    using digits [OF hd_in_set [OF show_nat_nonempty]] by (simp only: hd_append2 [OF show_nat_nonempty])
  show "graphic (last (show_nat n @ u))"
  proof (cases "u = []")
    case True
    then show ?thesis using digits [OF last_in_set [OF show_nat_nonempty]] by (simp only: append_Nil2)
  next
    case False
    then show ?thesis using assms by (simp only: last_append if_False simp_thms)
  qed
qed

lemma takeWhile_number:
  "u = [] \<or> \<not> (is_ascii_digit (hd u) \<or> hd u = CHR ''.'')
     \<Longrightarrow> takeWhile (\<lambda>c. is_ascii_digit c \<or> c = CHR ''.'') (show_nat n @ u) = show_nat n"
  using show_nat_digits [of n] by (cases u) (auto simp: takeWhile_append2)

lemma units_bytes_of:
  assumes "unit_scale (to_ascii_lowercase (trim u)) = Some scale"
    and "u = [] \<or> graphic (last u) \<and> \<not> (is_ascii_digit (hd u) \<or> hd u = CHR ''.'')"
    and "n * scale < 2 ^ 64" and "0 < scale"
  shows "units_bytes (show_nat n @ u) = Inr (of_nat (n * scale))"
proof -
  have t: "trim (show_nat n @ u) = show_nat n @ u" using assms(2) by (intro trim_number) blast
  have w: "takeWhile (\<lambda>c. is_ascii_digit c \<or> c = CHR ''.'') (show_nat n @ u) = show_nat n"
    using assms(2) by (intro takeWhile_number) blast
  have dot: "CHR ''.'' \<notin> set (show_nat n)" using show_nat_digits [of n] by auto
  have "n \<le> n * scale" using assms(4) by simp
  then have n: "n < 2 ^ 64" using assms(3) by linarith
  then have p: "parse_uint (show_nat n) = Some (of_nat n :: 64 word)" by (intro parse_show_nat) simp
  have "unat (of_nat n :: 64 word) = n" using n by (simp add: unsigned_of_nat take_bit_nat_eq_self)
  then show ?thesis using assms(1,3) dot p by (simp add: units_bytes_def t w Let_def)
qed

lemma find_Some_mem: "find P xs = Some x \<Longrightarrow> x \<in> set xs \<and> P x"
  by (induction xs) (auto split: if_splits)

lemma byte_units:
  "\<forall>(scale, sfx) \<in> set BYTE_UNITS. trim sfx = sfx \<and> unit_scale (to_ascii_lowercase sfx) = Some scale \<and> 0 < scale
     \<and> graphic (last sfx) \<and> \<not> (is_ascii_digit (hd sfx) \<or> hd sfx = CHR ''.'')"
proof -
  have lower: "to_ascii_lowercase ''TiB'' = ''tib''" "to_ascii_lowercase ''GiB'' = ''gib''"
    "to_ascii_lowercase ''MiB'' = ''mib''" "to_ascii_lowercase ''KiB'' = ''kib''"
    by code_simp+
  show ?thesis unfolding BYTE_UNITS_def by (simp add: trim_graphic lower unit_scale_def)
qed

lemma units_bytes_format: "units_bytes (format_bytes b) = Inr b"
proof (cases "find (\<lambda>(scale, sfx). scale \<le> unat b \<and> unat b mod scale = 0) BYTE_UNITS")
  case None
  have "unit_scale (to_ascii_lowercase (trim [])) = Some 1"
    by (simp add: trim_def strip_leading.simps to_ascii_lowercase_def unit_scale_def)
  from units_bytes_of [OF this, of "unat b"] None show ?thesis
    using unsigned_less [of b, where 'a = nat] by (simp add: format_bytes_def show_uint_def)
next
  case (Some e)
  obtain scale sfx where e: "e = (scale, sfx)" by (cases e)
  have mem: "(scale, sfx) \<in> set BYTE_UNITS" and div: "unat b mod scale = 0"
    using find_Some_mem [OF Some] e by auto
  have u: "unit_scale (to_ascii_lowercase (trim sfx)) = Some scale"
    and s: "graphic (last sfx) \<and> \<not> (is_ascii_digit (hd sfx) \<or> hd sfx = CHR ''.'')" and pos: "0 < scale"
    using bspec [OF byte_units mem] unfolding prod.case by presburger+
  have whole: "unat b div scale * scale = unat b" using div by (simp add: minus_mod_eq_div_mult [symmetric])
  have "unat b div scale * scale < 2 ^ 64" unfolding whole using unsigned_less [of b, where 'a = nat] by simp
  from units_bytes_of [OF u _ this pos] s Some e show ?thesis
    by (simp add: format_bytes_def whole)
qed


lemma trim_format_bytes: "trim (format_bytes b) = format_bytes b"
proof (cases "find (\<lambda>(scale, sfx). scale \<le> unat b \<and> unat b mod scale = 0) BYTE_UNITS")
  case None
  then show ?thesis using trim_number [of "[]" "unat b"] by (simp add: format_bytes_def show_uint_def)
next
  case (Some e)
  obtain scale sfx where e: "e = (scale, sfx)" by (cases e)
  have "(scale, sfx) \<in> set BYTE_UNITS" using find_Some_mem [OF Some] e by auto
  from bspec [OF byte_units this] have "graphic (last sfx)" unfolding prod.case by presburger
  then show ?thesis using trim_number [of sfx "unat b div scale"] Some e by (simp add: format_bytes_def)
qed

end
