(* ===== verification/Sis_Settings.thy ===== *)
theory Sis_Settings
  imports Sis_Units Sis_Sync
begin

text \<open>
  \<^verbatim>\<open>sismatic-server/src/configuration.rs\<close>, the retention of \<^verbatim>\<open>lifecycle.rs\<close> and the settings of
  \<^verbatim>\<open>sismatic-api-types/src/config.rs\<close>: what the server config resolves to, how the settings are served, and
  what a patch makes of them.

  The file and the environment arrive decoded, as \<open>raw_server_config\<close>; reading them is \<^verbatim>\<open>config\<close>'s
  and \<^verbatim>\<open>serde\<close>'s. A \<^verbatim>\<open>PathBuf\<close> is its text on a Unix system. A \<open>u64\<close> is a \<open>64 word\<close>, a
  \<open>Duration\<close> whole nanoseconds.
\<close>


section \<open>Retention\<close>

datatype retention = Forever | Age duration | Since timestamp

definition FOREVER :: string where "FOREVER = ''forever''"
definition NEVER :: string where "NEVER = ''never''"
definition UNLIMITED :: string where "UNLIMITED = ''unlimited''"

definition stamp :: "lexicon \<Rightarrow> int \<Rightarrow> timestamp" where
  "stamp lx i = to_rfc3339_millis (lx_chrono lx) i"

definition cutoff :: "lexicon \<Rightarrow> int \<Rightarrow> retention \<Rightarrow> timestamp option" where
  "cutoff lx current r =
     (case r of
        Forever \<Rightarrow> None
      | Age age \<Rightarrow>
          (case duration_from_std (lx_chrono lx) age of
             None \<Rightarrow> None
           | Some delta \<Rightarrow> map_option (stamp lx) (checked_sub lx current delta))
      | Since floor \<Rightarrow> Some floor)"

definition finite_age :: "duration \<Rightarrow> string + retention" where
  "finite_age age =
     (if age = 0
      then Inl ''a zero retention window is ambiguous: write 'forever' to keep everything, or a duration such as '1h' to keep almost nothing''
      else Inr (Age age))"

definition retention_of_str :: "lexicon \<Rightarrow> string \<Rightarrow> string + retention" where
  "retention_of_str lx text =
     (let text = trim text
      in if eq_ignore_ascii_case text FOREVER then Inr Forever
         else case units_duration lx text of
                Inr age \<Rightarrow> finite_age age
              | Inl duration_err \<Rightarrow>
                  (case units_instant lx text of
                     Inr i \<Rightarrow> Inr (Since (stamp lx i))
                   | Inl instant_err \<Rightarrow> Inl (''invalid retention: '' @ duration_err @ ''; and '' @ instant_err)))"

definition retention_of_u64 :: "64 word \<Rightarrow> string + retention" where
  "retention_of_u64 secs = finite_age (from_secs secs)"

text \<open>\<open>RawDuration\<close> and \<open>RawBytes\<close>, from text; \<open>0\<close> is what \<open>never\<close> and \<open>unlimited\<close> decode to.\<close>

definition raw_duration_of_str :: "lexicon \<Rightarrow> string \<Rightarrow> string + duration" where
  "raw_duration_of_str lx text = (if eq_ignore_ascii_case (trim text) NEVER then Inr 0 else units_duration lx text)"

definition raw_bytes_of_str :: "string \<Rightarrow> string + 64 word" where
  "raw_bytes_of_str text = (if eq_ignore_ascii_case (trim text) UNLIMITED then Inr 0 else units_bytes text)"


section \<open>The config as written and as resolved\<close>

record raw_field =
  rf_name :: field_name
  rf_interval_secs :: "64 word option"

record raw_sync =
  rs_interval_secs :: "64 word option"
  rs_fields :: "raw_field list option"

record raw_intent_relay =
  rir_poll_ms :: "64 word option"
  rir_max_attempts :: "32 word option"

record raw_inventory =
  ri_config_path :: "string option"
  ri_runtime_config_path :: "string option"

record raw_store =
  rst_retain :: "retention option"
  rst_cleanup_interval :: "duration option"
  rst_max_memory :: "64 word option"
  rst_cleanup_on_remove :: "bool option"

record raw_http =
  rh_host :: "string option"
  rh_port :: "16 word option"

record server_defaults =
  sd_interval_secs :: "64 word option"
  sd_fields :: "raw_field list option"
  sd_host :: "string option"
  sd_port :: "16 word option"

record raw_server_config =
  rsc_defaults :: server_defaults
  rsc_intent_relay :: "raw_intent_relay option"
  rsc_sync :: "raw_sync option"
  rsc_inventory :: "raw_inventory option"
  rsc_store :: "raw_store option"
  rsc_http :: "raw_http option"

record field_config =
  fc_name :: field_name
  fc_interval :: "duration option"

record sync_config =
  syc_default_interval :: "duration option"
  syc_fields :: "field_config list"

record store_config =
  stc_retain :: retention
  stc_cleanup :: "duration option"
  stc_max_memory :: "64 word option"
  stc_cleanup_on_remove :: bool

record intent_relay_config =
  irc_poll :: duration
  irc_max_attempts :: "32 word"

record inventory_config =
  ic_config_path :: string
  ic_runtime_config_path :: "string option"

record http_config =
  hc_host :: string
  hc_port :: "16 word"

record server_config =
  sc_inventory :: inventory_config
  sc_intent_relay :: intent_relay_config
  sc_sync :: sync_config
  sc_store :: store_config
  sc_http :: http_config

record overrides =
  ov_inventory_config_path :: "string option"
  ov_host :: "string option"
  ov_port :: "16 word option"

definition ALL_FIELDS :: string where "ALL_FIELDS = ''*''"

definition handle_cleanup :: "duration \<Rightarrow> duration option" where
  "handle_cleanup every = (if every = 0 then None else Some every)"

definition handle_budget :: "64 word \<Rightarrow> 64 word option" where
  "handle_budget bytes = (if 0 < bytes then Some bytes else None)"

definition handle_poll :: "64 word \<Rightarrow> duration" where
  "handle_poll ms = unat (max ms 1) * 1000000"

definition effective_attempts :: "32 word \<Rightarrow> 32 word" where
  "effective_attempts attempts = max attempts 1"

definition handle_interval :: "64 word \<Rightarrow> duration option" where
  "handle_interval secs = (if 0 < secs then Some (from_secs secs) else None)"

definition named :: "field_name \<Rightarrow> raw_field" where
  "named name = \<lparr>rf_name = name, rf_interval_secs = None\<rparr>"

definition is_wildcard :: "raw_field \<Rightarrow> bool" where
  "is_wildcard f \<longleftrightarrow> rf_name f = ALL_FIELDS"

definition canonical_name :: "field_name \<Rightarrow> field_name" where
  "canonical_name name =
     (if name = ALL_FIELDS then name
      else case catalog_from_str query_catalog name of
             Inl e \<Rightarrow> name
           | Inr q \<Rightarrow> catalog_name query_catalog q)"

text \<open>The interval an entry pins, or the default.\<close>

definition pinned :: "duration option \<Rightarrow> raw_field \<Rightarrow> duration option" where
  "pinned dflt f = (case rf_interval_secs f of None \<Rightarrow> dflt | Some secs \<Rightarrow> handle_interval secs)"

definition explicit_interval :: "raw_field list \<Rightarrow> duration option \<Rightarrow> field_name \<Rightarrow> duration option option" where
  "explicit_interval raw dflt name =
     foldl (\<lambda>found f. if \<not> is_wildcard f \<and> rf_name f = name then Some (pinned dflt f) else found) None raw"

definition push_field :: "field_name \<Rightarrow> duration option \<Rightarrow> field_config list \<Rightarrow> field_config list" where
  "push_field name interval fs =
     (if name \<in> fc_name ` set fs then fs else fs @ [\<lparr>fc_name = name, fc_interval = interval\<rparr>])"

definition push_entry :: "raw_field list \<Rightarrow> duration option \<Rightarrow> field_config list \<Rightarrow> raw_field \<Rightarrow> field_config list" where
  "push_entry raw dflt fs f =
     (if is_wildcard f
      then foldl (\<lambda>fs name.
             push_field name (case explicit_interval raw dflt name of Some i \<Rightarrow> i | None \<Rightarrow> pinned dflt f) fs)
             fs (map (catalog_name query_catalog) (catalog_all query_catalog))
      else push_field (rf_name f)
             (case explicit_interval raw dflt (rf_name f) of Some i \<Rightarrow> i | None \<Rightarrow> dflt) fs)"

definition resolve_fields :: "raw_field list \<Rightarrow> duration option \<Rightarrow> field_config list" where
  "resolve_fields raw dflt =
     (let raw = map (\<lambda>f. f\<lparr>rf_name := canonical_name (rf_name f)\<rparr>) raw
      in foldl (push_entry raw dflt) [] raw)"

text \<open>\<open>Path::join\<close>: an absolute path replaces the base.\<close>

definition path_join :: "string \<Rightarrow> string \<Rightarrow> string" where
  "path_join base p =
     (if (case p of [] \<Rightarrow> False | c # _ \<Rightarrow> c = CHR ''/'') \<or> base = [] then p
      else if last base = CHR ''/'' then base @ p
      else base @ ''/'' @ p)"

definition or_else :: "'a option \<Rightarrow> 'a option \<Rightarrow> 'a option" where
  "or_else a b = (case a of None \<Rightarrow> b | Some x \<Rightarrow> Some x)"

definition get_or :: "'a \<Rightarrow> 'a option \<Rightarrow> 'a" where
  "get_or d a = (case a of None \<Rightarrow> d | Some x \<Rightarrow> x)"

definition empty_raw_sync :: raw_sync where
  "empty_raw_sync = \<lparr>rs_interval_secs = None, rs_fields = None\<rparr>"

definition empty_raw_intent_relay :: raw_intent_relay where
  "empty_raw_intent_relay = \<lparr>rir_poll_ms = None, rir_max_attempts = None\<rparr>"

definition empty_raw_inventory :: raw_inventory where
  "empty_raw_inventory = \<lparr>ri_config_path = None, ri_runtime_config_path = None\<rparr>"

definition empty_raw_store :: raw_store where
  "empty_raw_store = \<lparr>rst_retain = None, rst_cleanup_interval = None, rst_max_memory = None,
     rst_cleanup_on_remove = None\<rparr>"

definition empty_raw_http :: raw_http where
  "empty_raw_http = \<lparr>rh_host = None, rh_port = None\<rparr>"

definition resolve_server_config :: "string \<Rightarrow> raw_server_config \<Rightarrow> server_config" where
  "resolve_server_config base raw =
     (let defaults = rsc_defaults raw;
          relay = get_or empty_raw_intent_relay (rsc_intent_relay raw);
          sync = get_or empty_raw_sync (rsc_sync raw);
          http = get_or empty_raw_http (rsc_http raw);
          store = get_or empty_raw_store (rsc_store raw);
          inv = get_or empty_raw_inventory (rsc_inventory raw);
          default_interval = handle_interval (get_or 30 (or_else (rs_interval_secs sync) (sd_interval_secs defaults)))
      in \<lparr>sc_inventory =
            \<lparr>ic_config_path = path_join base (get_or ''devices.toml'' (ri_config_path inv)),
             ic_runtime_config_path = map_option (path_join base) (ri_runtime_config_path inv)\<rparr>,
          sc_intent_relay =
            \<lparr>irc_poll = handle_poll (get_or 250 (rir_poll_ms relay)),
             irc_max_attempts = effective_attempts (get_or 3 (rir_max_attempts relay))\<rparr>,
          sc_sync =
            \<lparr>syc_default_interval = default_interval,
             syc_fields = resolve_fields (get_or [named ALL_FIELDS] (or_else (rs_fields sync) (sd_fields defaults)))
               default_interval\<rparr>,
          sc_store =
            \<lparr>stc_retain = get_or (Age (seconds (24 * 60 * 60))) (rst_retain store),
             stc_cleanup = handle_cleanup (get_or (seconds (5 * 60)) (rst_cleanup_interval store)),
             stc_max_memory = handle_budget (get_or (256 * 1024 * 1024) (rst_max_memory store)),
             stc_cleanup_on_remove = get_or False (rst_cleanup_on_remove store)\<rparr>,
          sc_http =
            \<lparr>hc_host = get_or ''127.0.0.1'' (or_else (rh_host http) (sd_host defaults)),
             hc_port = get_or 8080 (or_else (rh_port http) (sd_port defaults))\<rparr>\<rparr>)"

definition with_overrides :: "overrides \<Rightarrow> server_config \<Rightarrow> server_config" where
  "with_overrides ov cfg =
     cfg\<lparr>sc_inventory := (sc_inventory cfg)\<lparr>ic_config_path :=
           get_or (ic_config_path (sc_inventory cfg)) (ov_inventory_config_path ov)\<rparr>,
         sc_http := \<lparr>hc_host = get_or (hc_host (sc_http cfg)) (ov_host ov),
                     hc_port = get_or (hc_port (sc_http cfg)) (ov_port ov)\<rparr>\<rparr>"



section \<open>The settings as served and as patched\<close>

record field_settings =
  fse_name :: field_name
  fse_interval_secs :: "64 word option"

record sync_settings =
  sse_interval_secs :: "64 word"
  sse_fields :: "field_settings list"

record store_settings =
  ste_retain :: string
  ste_cleanup_interval :: string
  ste_max_memory :: string

record relay_settings =
  rse_poll_ms :: "64 word"
  rse_max_attempts :: "32 word"

record inventory_settings =
  ise_config_path :: string
  ise_runtime_config_path :: "string option"

record config_document =
  cd_sync :: sync_settings
  cd_store :: store_settings
  cd_intent_relay :: relay_settings
  cd_http :: http_config
  cd_inventory :: inventory_settings

record sync_patch =
  sp_interval_secs :: "64 word option"
  sp_fields :: "field_settings list option"

record store_patch =
  stp_retain :: "string option"
  stp_cleanup_interval :: "string option"
  stp_max_memory :: "string option"

record relay_patch =
  rp_poll_ms :: "64 word option"
  rp_max_attempts :: "32 word option"

record inventory_patch =
  ip_config_path :: "string option"
  ip_runtime_config_path :: "string option"

record config_patch =
  cp_sync :: "sync_patch option"
  cp_store :: "store_patch option"
  cp_intent_relay :: "relay_patch option"
  cp_http :: "http_config option"
  cp_inventory :: "inventory_patch option"

definition as_patch :: "config_document \<Rightarrow> config_patch" where
  "as_patch doc =
     \<lparr>cp_sync = Some \<lparr>sp_interval_secs = Some (sse_interval_secs (cd_sync doc)), sp_fields = Some (sse_fields (cd_sync doc))\<rparr>,
      cp_store = Some \<lparr>stp_retain = Some (ste_retain (cd_store doc)),
        stp_cleanup_interval = Some (ste_cleanup_interval (cd_store doc)),
        stp_max_memory = Some (ste_max_memory (cd_store doc))\<rparr>,
      cp_intent_relay = Some \<lparr>rp_poll_ms = Some (rse_poll_ms (cd_intent_relay doc)),
        rp_max_attempts = Some (rse_max_attempts (cd_intent_relay doc))\<rparr>,
      cp_http = Some (cd_http doc),
      cp_inventory = Some \<lparr>ip_config_path = Some (ise_config_path (cd_inventory doc)),
        ip_runtime_config_path = ise_runtime_config_path (cd_inventory doc)\<rparr>\<rparr>"

text \<open>Whole seconds, and whole milliseconds up to the width of a \<open>u64\<close>.\<close>

definition secs :: "duration option \<Rightarrow> 64 word" where
  "secs interval = (case interval of None \<Rightarrow> 0 | Some every \<Rightarrow> of_nat (every div 1000000000))"

definition as_millis_u64 :: "duration \<Rightarrow> 64 word" where
  "as_millis_u64 d = of_nat (min (d div 1000000) (2 ^ 64 - 1))"

definition render_retention :: "lexicon \<Rightarrow> retention \<Rightarrow> string" where
  "render_retention lx r =
     (case r of Forever \<Rightarrow> FOREVER | Age age \<Rightarrow> format_duration lx age | Since floor \<Rightarrow> floor)"

definition settings_document :: "lexicon \<Rightarrow> server_config \<Rightarrow> config_document" where
  "settings_document lx cfg =
     \<lparr>cd_sync =
        \<lparr>sse_interval_secs = secs (syc_default_interval (sc_sync cfg)),
         sse_fields = map (\<lambda>f. \<lparr>fse_name = fc_name f, fse_interval_secs = Some (secs (fc_interval f))\<rparr>)
           (syc_fields (sc_sync cfg))\<rparr>,
      cd_store =
        \<lparr>ste_retain = render_retention lx (stc_retain (sc_store cfg)),
         ste_cleanup_interval = (case stc_cleanup (sc_store cfg) of None \<Rightarrow> NEVER | Some every \<Rightarrow> format_duration lx every),
         ste_max_memory = (case stc_max_memory (sc_store cfg) of None \<Rightarrow> UNLIMITED | Some b \<Rightarrow> format_bytes b)\<rparr>,
      cd_intent_relay =
        \<lparr>rse_poll_ms = as_millis_u64 (irc_poll (sc_intent_relay cfg)),
         rse_max_attempts = irc_max_attempts (sc_intent_relay cfg)\<rparr>,
      cd_http = sc_http cfg,
      cd_inventory =
        \<lparr>ise_config_path = ic_config_path (sc_inventory cfg),
         ise_runtime_config_path = ic_runtime_config_path (sc_inventory cfg)\<rparr>\<rparr>"

datatype patch_error = Malformed string | Fixed string

fun show_patch_error :: "patch_error \<Rightarrow> string" where
  "show_patch_error (Malformed msg) = msg"
| "show_patch_error (Fixed msg) = msg"

definition fixed_http :: "http_config \<Rightarrow> http_config \<Rightarrow> string" where
  "fixed_http current http = ''http is fixed until this process restarts: it is bound to '' @ hc_host current @ '':''
     @ show_uint (hc_port current) @ '' and cannot be moved to '' @ hc_host http @ '':'' @ show_uint (hc_port http)
     @ '' without rebinding the listener, which would drop every connection in flight''"

definition fixed_config_path :: "string \<Rightarrow> string \<Rightarrow> string" where
  "fixed_config_path config_path wanted = ''inventory.config_path is fixed until this process restarts: the device registry ''
     @ [CHR 0xE2, CHR 0x80, CHR 0x94] @ '' and its open SSH sessions '' @ [CHR 0xE2, CHR 0x80, CHR 0x94]
     @ '' was built from '' @ quoted config_path @ '', and pointing it at '' @ quoted wanted
     @ '' means building another one''"

definition fixed_runtime_path :: "string option \<Rightarrow> string" where
  "fixed_runtime_path runtime = ''inventory.runtime_config_path is fixed until this process restarts: this server persists the fleet to ''
     @ get_or ''nowhere'' runtime
     @ '', and moving that mid-run would leave two files each describing a fleet nobody is running''"

definition unknown_field :: "field_name \<Rightarrow> string" where
  "unknown_field name = ''sync.fields: '' @ quoted name
     @ '' is not a field this server can query; GET /v1/reads lists every name that is, and '*' stands for all of them''"

definition known :: "field_name \<Rightarrow> bool" where
  "known name \<longleftrightarrow> name = ALL_FIELDS \<or> \<not> isl (catalog_from_str query_catalog name)"

fun raw_of_settings :: "field_settings list \<Rightarrow> patch_error + raw_field list" where
  "raw_of_settings [] = Inr []"
| "raw_of_settings (f # fs) =
     (if \<not> known (fse_name f) then Inl (Malformed (unknown_field (fse_name f)))
      else map_sum id (Cons \<lparr>rf_name = fse_name f, rf_interval_secs = fse_interval_secs f\<rparr>) (raw_of_settings fs))"

definition patched_relay :: "intent_relay_config \<Rightarrow> relay_patch option \<Rightarrow> intent_relay_config" where
  "patched_relay current patch =
     (case patch of
        None \<Rightarrow> current
      | Some p \<Rightarrow>
          \<lparr>irc_poll = (case rp_poll_ms p of None \<Rightarrow> irc_poll current | Some ms \<Rightarrow> handle_poll ms),
           irc_max_attempts = (case rp_max_attempts p of None \<Rightarrow> irc_max_attempts current
             | Some n \<Rightarrow> effective_attempts n)\<rparr>)"

definition patched_sync :: "sync_config \<Rightarrow> sync_patch option \<Rightarrow> patch_error + sync_config" where
  "patched_sync current patch =
     (case patch of
        None \<Rightarrow> Inr current
      | Some p \<Rightarrow>
          if sp_interval_secs p = None \<and> sp_fields p = None then Inr current
          else
            let interval = (case sp_interval_secs p of None \<Rightarrow> syc_default_interval current
                  | Some s \<Rightarrow> handle_interval s)
            in case (case sp_fields p of
                       Some fs \<Rightarrow> raw_of_settings fs
                     | None \<Rightarrow> Inr (map (\<lambda>f. named (fc_name f)) (syc_fields current))) of
                 Inl e \<Rightarrow> Inl e
               | Inr raw \<Rightarrow> Inr \<lparr>syc_default_interval = interval, syc_fields = resolve_fields raw interval\<rparr>)"

definition setting_value :: "string \<Rightarrow> string + 'a \<Rightarrow> patch_error + 'a" where
  "setting_value key r = (case r of Inl err \<Rightarrow> Inl (Malformed (key @ '': '' @ err)) | Inr v \<Rightarrow> Inr v)"

definition patched_store :: "lexicon \<Rightarrow> store_config \<Rightarrow> store_patch option \<Rightarrow> patch_error + store_config" where
  "patched_store lx current patch =
     (case patch of
        None \<Rightarrow> Inr current
      | Some p \<Rightarrow>
          (case (case stp_retain p of
                   None \<Rightarrow> Inr (stc_retain current)
                 | Some text \<Rightarrow> setting_value ''store.retain'' (retention_of_str lx text)) of
             Inl e \<Rightarrow> Inl e
           | Inr retain \<Rightarrow>
               (case (case stp_cleanup_interval p of
                        None \<Rightarrow> Inr (stc_cleanup current)
                      | Some text \<Rightarrow> map_sum id handle_cleanup
                          (setting_value ''store.cleanup_interval'' (raw_duration_of_str lx text))) of
                  Inl e \<Rightarrow> Inl e
                | Inr cleanup \<Rightarrow>
                    (case (case stp_max_memory p of
                             None \<Rightarrow> Inr (stc_max_memory current)
                           | Some text \<Rightarrow> map_sum id handle_budget
                               (setting_value ''store.max_memory'' (raw_bytes_of_str text))) of
                       Inl e \<Rightarrow> Inl e
                     | Inr max_memory \<Rightarrow>
                         Inr \<lparr>stc_retain = retain, stc_cleanup = cleanup, stc_max_memory = max_memory,
                              stc_cleanup_on_remove = stc_cleanup_on_remove current\<rparr>))))"

definition fixed_refusal :: "server_config \<Rightarrow> config_patch \<Rightarrow> patch_error option" where
  "fixed_refusal current patch =
     (case cp_http patch of
        Some http \<Rightarrow>
          if hc_host http \<noteq> hc_host (sc_http current) \<or> hc_port http \<noteq> hc_port (sc_http current)
          then Some (Fixed (fixed_http (sc_http current) http)) else None
      | None \<Rightarrow> None)"

definition inventory_refusal_of :: "inventory_config \<Rightarrow> inventory_patch option \<Rightarrow> patch_error option" where
  "inventory_refusal_of current patch =
     (case patch of
        None \<Rightarrow> None
      | Some p \<Rightarrow>
          if \<not> (case ip_config_path p of None \<Rightarrow> True | Some n \<Rightarrow> n = ic_config_path current)
          then Some (Fixed (fixed_config_path (ic_config_path current) (get_or [] (ip_config_path p))))
          else if ip_runtime_config_path p \<noteq> None \<and> ip_runtime_config_path p \<noteq> ic_runtime_config_path current
          then Some (Fixed (fixed_runtime_path (ic_runtime_config_path current)))
          else None)"

definition patched :: "lexicon \<Rightarrow> server_config \<Rightarrow> config_patch \<Rightarrow> patch_error + server_config" where
  "patched lx current patch =
     (case fixed_refusal current patch of
        Some e \<Rightarrow> Inl e
      | None \<Rightarrow>
          (case inventory_refusal_of (sc_inventory current) (cp_inventory patch) of
             Some e \<Rightarrow> Inl e
           | None \<Rightarrow>
               (case patched_sync (sc_sync current) (cp_sync patch) of
                  Inl e \<Rightarrow> Inl e
                | Inr sync \<Rightarrow>
                    (case patched_store lx (sc_store current) (cp_store patch) of
                       Inl e \<Rightarrow> Inl e
                     | Inr store \<Rightarrow>
                         Inr \<lparr>sc_inventory = sc_inventory current,
                              sc_intent_relay = patched_relay (sc_intent_relay current) (cp_intent_relay patch),
                              sc_sync = sync, sc_store = store, sc_http = sc_http current\<rparr>))))"

end
