(* ===== verification/Sis_Settings_Spec.thy ===== *)
theory Sis_Settings_Spec
  imports Sis_Settings
begin

text \<open>
  What the settings promise: a schedule is folded as its reference says, a served document is a patch
  that changes nothing, and which schedules break that promise.
\<close>


section \<open>Schedules\<close>

definition query_names :: "field_name list" where
  "query_names = map (catalog_name query_catalog) (catalog_all query_catalog)"

definition interval_of :: "field_config list \<Rightarrow> field_name \<Rightarrow> duration option option" where
  "interval_of fs n = map_of (map (\<lambda>f. (fc_name f, fc_interval f)) fs) n"

text \<open>The reference: the last entry that names the field decides; failing one, the first wildcard does.\<close>

definition effective_interval :: "raw_field list \<Rightarrow> duration option \<Rightarrow> field_name \<Rightarrow> duration option option" where
  "effective_interval raw dflt n =
     (case find (\<lambda>f. \<not> is_wildcard f \<and> canonical_name (rf_name f) = n) (rev raw) of
        Some f \<Rightarrow> Some (pinned dflt f)
      | None \<Rightarrow> if n \<in> set query_names then map_option (pinned dflt) (find is_wildcard raw) else None)"

lemma query_name_plain: "n \<in> set query_names \<Longrightarrow> n \<noteq> ALL_FIELDS \<and> canonical_name n = n"
proof -
  assume "n \<in> set query_names"
  then obtain q where n: "n = catalog_name query_catalog q" by (auto simp: query_names_def)
  have "n \<noteq> ALL_FIELDS"
  proof -
    have "\<forall>n \<in> set query_names. n \<noteq> ALL_FIELDS" unfolding query_names_def ALL_FIELDS_def by code_simp
    then show ?thesis using \<open>n \<in> set query_names\<close> by blast
  qed
  then show ?thesis by (simp add: canonical_name_def n queries.from_str_name)
qed

lemma query_name_of: "catalog_name query_catalog q \<in> set query_names"
  using queries.covers [of q] by (simp add: query_names_def)

lemma canonical_name_cases:
  "canonical_name n = ALL_FIELDS \<and> n = ALL_FIELDS \<or> canonical_name n \<in> set query_names
     \<or> canonical_name n = n \<and> n \<noteq> ALL_FIELDS"
  by (auto simp: canonical_name_def query_name_of split: sum.split)

lemma canonical_wildcard: "canonical_name n = ALL_FIELDS \<longleftrightarrow> n = ALL_FIELDS"
proof
  assume "canonical_name n = ALL_FIELDS"
  then show "n = ALL_FIELDS" using canonical_name_cases [of n] query_name_plain [of "canonical_name n"] by auto
qed (simp add: canonical_name_def)

lemma canonical_name_again: "canonical_name (canonical_name n) = canonical_name n"
  using canonical_name_cases [of n] query_name_plain [of "canonical_name n"] by auto

lemma push_field_facts:
  "distinct (map fc_name fs) \<Longrightarrow> distinct (map fc_name (push_field name i fs))"
  "interval_of (push_field name i fs) n = (case interval_of fs n of Some x \<Rightarrow> Some x
     | None \<Rightarrow> if n = name then Some i else None)"
  "fc_name ` set (push_field name i fs) = insert name (fc_name ` set fs)"
  by (auto simp: push_field_def interval_of_def map_add_def split: option.split
      dest: map_of_SomeD) (force simp: map_of_eq_None_iff)+


text \<open>Several names pushed with an interval each.\<close>

lemma push_names_facts:
  "distinct (map fc_name fs) \<Longrightarrow> distinct (map fc_name (foldl (\<lambda>fs name. push_field name (g name) fs) fs names))"
  "interval_of (foldl (\<lambda>fs name. push_field name (g name) fs) fs names) n
     = (case interval_of fs n of Some x \<Rightarrow> Some x | None \<Rightarrow> if n \<in> set names then Some (g n) else None)"
  "fc_name ` set (foldl (\<lambda>fs name. push_field name (g name) fs) fs names) = set names \<union> fc_name ` set fs"
proof -
  show "distinct (map fc_name fs) \<Longrightarrow> distinct (map fc_name (foldl (\<lambda>fs name. push_field name (g name) fs) fs names))"
    by (induction names arbitrary: fs) (simp_all add: push_field_facts(1))
  show "interval_of (foldl (\<lambda>fs name. push_field name (g name) fs) fs names) n
     = (case interval_of fs n of Some x \<Rightarrow> Some x | None \<Rightarrow> if n \<in> set names then Some (g n) else None)"
    by (induction names arbitrary: fs) (auto simp: push_field_facts(2) split: option.split)
  show "fc_name ` set (foldl (\<lambda>fs name. push_field name (g name) fs) fs names) = set names \<union> fc_name ` set fs"
    by (induction names arbitrary: fs) (auto simp: push_field_facts(3))
qed

definition mentions :: "raw_field \<Rightarrow> field_name \<Rightarrow> bool" where
  "mentions f n \<longleftrightarrow> (if is_wildcard f then n \<in> set query_names else n = rf_name f)"

definition entry_interval :: "raw_field list \<Rightarrow> duration option \<Rightarrow> raw_field \<Rightarrow> field_name \<Rightarrow> duration option" where
  "entry_interval raw dflt f n =
     (case explicit_interval raw dflt n of Some i \<Rightarrow> i | None \<Rightarrow> if is_wildcard f then pinned dflt f else dflt)"

lemma push_entry_facts:
  "distinct (map fc_name fs) \<Longrightarrow> distinct (map fc_name (push_entry raw dflt fs f))"
  "interval_of (push_entry raw dflt fs f) n = (case interval_of fs n of Some x \<Rightarrow> Some x
     | None \<Rightarrow> if mentions f n then Some (entry_interval raw dflt f n) else None)"
  "fc_name ` set (push_entry raw dflt fs f)
     = (if is_wildcard f then set query_names else {rf_name f}) \<union> fc_name ` set fs"
proof -
  have wild: "push_entry raw dflt fs f
      = foldl (\<lambda>fs name. push_field name (entry_interval raw dflt f name) fs) fs query_names" if "is_wildcard f"
    using that by (simp add: push_entry_def entry_interval_def query_names_def)
  have plain: "push_entry raw dflt fs f = push_field (rf_name f) (entry_interval raw dflt f (rf_name f)) fs"
    if "\<not> is_wildcard f"
    using that by (simp add: push_entry_def entry_interval_def)
  show "distinct (map fc_name fs) \<Longrightarrow> distinct (map fc_name (push_entry raw dflt fs f))"
    by (cases "is_wildcard f") (simp_all add: wild plain push_names_facts(1) push_field_facts(1))
  show "interval_of (push_entry raw dflt fs f) n = (case interval_of fs n of Some x \<Rightarrow> Some x
     | None \<Rightarrow> if mentions f n then Some (entry_interval raw dflt f n) else None)"
    by (cases "is_wildcard f")
       (auto simp: wild plain push_names_facts(2) push_field_facts(2) mentions_def split: option.split)
  show "fc_name ` set (push_entry raw dflt fs f)
     = (if is_wildcard f then set query_names else {rf_name f}) \<union> fc_name ` set fs"
    by (cases "is_wildcard f") (simp_all add: wild plain push_names_facts(3) push_field_facts(3))
qed

lemma push_entries_facts:
  "distinct (map fc_name fs) \<Longrightarrow> distinct (map fc_name (foldl (push_entry raw dflt) fs es))"
  "interval_of (foldl (push_entry raw dflt) fs es) n = (case interval_of fs n of Some x \<Rightarrow> Some x
     | None \<Rightarrow> map_option (\<lambda>f. entry_interval raw dflt f n) (find (\<lambda>f. mentions f n) es))"
  "fc_name ` set (foldl (push_entry raw dflt) fs es)
     = (\<Union>f \<in> set es. if is_wildcard f then set query_names else {rf_name f}) \<union> fc_name ` set fs"
proof -
  show "distinct (map fc_name fs) \<Longrightarrow> distinct (map fc_name (foldl (push_entry raw dflt) fs es))"
    by (induction es arbitrary: fs) (simp_all add: push_entry_facts(1))
  show "interval_of (foldl (push_entry raw dflt) fs es) n = (case interval_of fs n of Some x \<Rightarrow> Some x
     | None \<Rightarrow> map_option (\<lambda>f. entry_interval raw dflt f n) (find (\<lambda>f. mentions f n) es))"
    by (induction es arbitrary: fs) (auto simp: push_entry_facts(2) split: option.split)
  show "fc_name ` set (foldl (push_entry raw dflt) fs es)
     = (\<Union>f \<in> set es. if is_wildcard f then set query_names else {rf_name f}) \<union> fc_name ` set fs"
    by (induction es arbitrary: fs) (auto simp: push_entry_facts(3))
qed

lemma explicit_interval_find:
  "explicit_interval raw dflt n = map_option (pinned dflt) (find (\<lambda>f. \<not> is_wildcard f \<and> rf_name f = n) (rev raw))"
proof -
  have "foldl (\<lambda>found f. if \<not> is_wildcard f \<and> rf_name f = n then Some (pinned dflt f) else found) a raw
      = (case find (\<lambda>f. \<not> is_wildcard f \<and> rf_name f = n) (rev raw) of None \<Rightarrow> a | Some f \<Rightarrow> Some (pinned dflt f))" for a
  proof (induction raw rule: rev_induct)
    case (snoc f raw)
    then show ?case by (auto split: option.split)
  qed simp
  then show ?thesis by (auto simp: explicit_interval_def split: option.split)
qed

abbreviation canonical :: "raw_field \<Rightarrow> raw_field" where
  "canonical f \<equiv> f\<lparr>rf_name := canonical_name (rf_name f)\<rparr>"

lemma canonical_facts [simp]:
  "is_wildcard (canonical f) = is_wildcard f" "pinned dflt (canonical f) = pinned dflt f"
  by (simp_all add: is_wildcard_def canonical_wildcard pinned_def)

lemma find_map: "find P (map g xs) = map_option g (find (P \<circ> g) xs)"
  by (induction xs) simp_all


lemma resolve_fields_interval:
  "interval_of (resolve_fields raw dflt) n = effective_interval raw dflt n"
proof -
  let ?raw = "map canonical raw"
  have lookup: "interval_of (resolve_fields raw dflt) n
      = map_option (\<lambda>f. entry_interval ?raw dflt f n) (find (\<lambda>f. mentions f n) ?raw)"
    by (simp add: resolve_fields_def Let_def push_entries_facts(2)) (simp add: interval_of_def)
  have named: "(\<lambda>f. \<not> is_wildcard f \<and> rf_name f = n) \<circ> canonical = (\<lambda>f. \<not> is_wildcard f \<and> canonical_name (rf_name f) = n)"
    by (simp add: fun_eq_iff)
  have explicit: "explicit_interval ?raw dflt n
      = map_option (pinned dflt) (find (\<lambda>f. \<not> is_wildcard f \<and> canonical_name (rf_name f) = n) (rev raw))"
    unfolding explicit_interval_find rev_map find_map named by (simp add: option.map_comp comp_def)
  show ?thesis
  proof (cases "find (\<lambda>f. \<not> is_wildcard f \<and> canonical_name (rf_name f) = n) (rev raw)")
    case (Some f)
    then have "f \<in> set raw" "\<not> is_wildcard f" "canonical_name (rf_name f) = n"
      using find_Some_mem [OF Some] by auto
    then have "mentions (canonical f) n" unfolding mentions_def canonical_facts(1) by simp
    moreover have "canonical f \<in> set ?raw" unfolding set_map using \<open>f \<in> set raw\<close> by (rule imageI)
    ultimately have "find (\<lambda>f. mentions f n) ?raw \<noteq> None" unfolding find_None_iff by blast
    then show ?thesis using Some explicit by (auto simp: lookup effective_interval_def entry_interval_def)
  next
    case None
    then have no: "is_wildcard f \<or> canonical_name (rf_name f) \<noteq> n" if "f \<in> set raw" for f
      using that by (auto simp: find_None_iff)
    have "find (\<lambda>f. mentions f n) ?raw = map_option canonical (find ((\<lambda>f. mentions f n) \<circ> canonical) raw)"
      by (rule find_map)
    also have "find ((\<lambda>f. mentions f n) \<circ> canonical) raw = (if n \<in> set query_names then find is_wildcard raw else None)"
      using no by (induction raw) (auto simp: mentions_def)
    finally show ?thesis using None explicit
      by (auto simp: lookup effective_interval_def entry_interval_def option.map_comp comp_def
          dest: find_Some_mem split: option.split intro!: option.map_cong0)
  qed
qed

lemma resolve_fields_names:
  "distinct (map fc_name (resolve_fields raw dflt))"
  "n \<in> fc_name ` set (resolve_fields raw dflt)
     \<Longrightarrow> n \<noteq> ALL_FIELDS \<and> canonical_name n = n
        \<and> (n \<in> set query_names \<or> (\<exists>f \<in> set raw. rf_name f = n))"
proof -
  show "distinct (map fc_name (resolve_fields raw dflt))"
    by (simp add: resolve_fields_def Let_def push_entries_facts(1))
  assume "n \<in> fc_name ` set (resolve_fields raw dflt)"
  then have "\<exists>g \<in> canonical ` set raw. n \<in> (if is_wildcard g then set query_names else {rf_name g})"
    unfolding resolve_fields_def Let_def push_entries_facts(3) list.set(1) image_empty Un_empty_right UN_iff set_map .
  then obtain f where f: "f \<in> set raw"
    and "n \<in> (if is_wildcard (canonical f) then set query_names else {rf_name (canonical f)})"
    by blast
  then have n: "if is_wildcard f then n \<in> set query_names else n = canonical_name (rf_name f)"
    by (simp split: if_splits)
  show "n \<noteq> ALL_FIELDS \<and> canonical_name n = n \<and> (n \<in> set query_names \<or> (\<exists>f \<in> set raw. rf_name f = n))"
  proof (cases "n \<in> set query_names")
    case True
    then show ?thesis using query_name_plain by blast
  next
    case False
    then have "n = canonical_name (rf_name f)" "\<not> is_wildcard f" using n by (auto split: if_splits)
    moreover from this have "rf_name f = n"
      using canonical_name_cases [of "rf_name f"] False by (auto simp: is_wildcard_def)
    ultimately show ?thesis using f canonical_name_again by (auto simp: is_wildcard_def)
  qed
qed

text \<open>
  C31. Every way of writing a schedule is folded by one rule. After resolution no field is listed
  twice and every spelling core can query has become the name it is read under; a field's interval is
  the one pinned by the last entry naming it in any spelling, that entry's default if it pins none,
  and otherwise the interval of the first wildcard, which stands for exactly the fields core can
  query; a field no entry stands for is not in the schedule.
\<close>

theorem schedule_resolution_exact:
  "distinct (map fc_name (resolve_fields raw dflt))
   \<and> interval_of (resolve_fields raw dflt) n = effective_interval raw dflt n
   \<and> (case effective_interval raw dflt n of
        None \<Rightarrow> n \<notin> fc_name ` set (resolve_fields raw dflt)
      | Some i \<Rightarrow> \<lparr>fc_name = n, fc_interval = i\<rparr> \<in> set (resolve_fields raw dflt)
          \<and> n \<noteq> ALL_FIELDS \<and> canonical_name n = n)"
proof -
  let ?fs = "resolve_fields raw dflt"
  have look: "interval_of ?fs n = effective_interval raw dflt n" by (rule resolve_fields_interval)
  have "n \<notin> fc_name ` set ?fs" if "interval_of ?fs n = None"
    using that by (simp add: interval_of_def map_of_eq_None_iff image_image)
  moreover have "\<lparr>fc_name = n, fc_interval = i\<rparr> \<in> set ?fs" if found: "interval_of ?fs n = Some i" for i
  proof -
    obtain f where f: "f \<in> set ?fs" "fc_name f = n" "fc_interval f = i"
      using map_of_SomeD [OF found [unfolded interval_of_def]] by auto
    from f(2,3) have "f = \<lparr>fc_name = n, fc_interval = i\<rparr>" by simp
    with f(1) show ?thesis by simp
  qed
  moreover from this have "n \<noteq> ALL_FIELDS \<and> canonical_name n = n" if "interval_of ?fs n = Some i" for i
    using that resolve_fields_names(2) [of n raw dflt] by (metis field_config.select_convs(1) image_eqI)
  ultimately show ?thesis using look resolve_fields_names(1) by (auto split: option.split)
qed



section \<open>A served document as a patch\<close>

text \<open>
  What \<^verbatim>\<open>humantime\<close> documents: a duration is formatted as terms of a number and a unit, beginning with a
  digit and ending with a letter, which parse back as the duration. A \<^verbatim>\<open>Duration\<close> is below
  \<open>2 ^ 64\<close> seconds.
\<close>

definition DURATION_LIMIT :: nat where "DURATION_LIMIT = 2 ^ 64 * 1000000000"

definition durations_read_back :: "lexicon \<Rightarrow> bool" where
  "durations_read_back lx \<longleftrightarrow> (\<forall>d. 0 < d \<longrightarrow> d < DURATION_LIMIT \<longrightarrow>
     (let t = format_duration lx d
      in t \<noteq> [] \<and> is_ascii_digit (hd t) \<and> graphic (last t) \<and> \<not> is_ascii_digit (last t)
         \<and> parse_duration lx t = Inr d))"

text \<open>A floor is text that reads back as itself.\<close>

definition floor_reads_back :: "lexicon \<Rightarrow> timestamp \<Rightarrow> bool" where
  "floor_reads_back lx t \<longleftrightarrow> retention_of_str lx t = Inr (Since t)"

definition retention_ok :: "lexicon \<Rightarrow> retention \<Rightarrow> bool" where
  "retention_ok lx r = (case r of Forever \<Rightarrow> True | Age d \<Rightarrow> 0 < d \<and> d < DURATION_LIMIT
     | Since t \<Rightarrow> floor_reads_back lx t)"

definition whole_secs :: "duration option \<Rightarrow> bool" where
  "whole_secs i = (case i of None \<Rightarrow> True | Some d \<Rightarrow> \<exists>k. 0 < k \<and> k < 2 ^ 64 \<and> d = seconds k)"

definition settled_sync :: "sync_config \<Rightarrow> bool" where
  "settled_sync sync \<longleftrightarrow> whole_secs (syc_default_interval sync)
     \<and> distinct (map fc_name (syc_fields sync))
     \<and> (\<forall>f \<in> set (syc_fields sync). whole_secs (fc_interval f) \<and> fc_name f \<noteq> ALL_FIELDS
          \<and> canonical_name (fc_name f) = fc_name f)"

definition settled_config :: "lexicon \<Rightarrow> server_config \<Rightarrow> bool" where
  "settled_config lx cfg \<longleftrightarrow> settled_sync (sc_sync cfg)
     \<and> retention_ok lx (stc_retain (sc_store cfg))
     \<and> (case stc_cleanup (sc_store cfg) of None \<Rightarrow> True | Some d \<Rightarrow> 0 < d \<and> d < DURATION_LIMIT)
     \<and> stc_max_memory (sc_store cfg) \<noteq> Some 0
     \<and> (\<exists>ms. 0 < ms \<and> ms < 2 ^ 64 \<and> irc_poll (sc_intent_relay cfg) = ms * 1000000)
     \<and> 1 \<le> irc_max_attempts (sc_intent_relay cfg)"

lemma unat_of_nat64: "n < 2 ^ 64 \<Longrightarrow> unat (of_nat n :: 64 word) = n"
  by (simp add: unsigned_of_nat take_bit_nat_eq_self)

lemma handle_secs: "whole_secs i \<Longrightarrow> handle_interval (secs i) = i"
proof (cases i)
  case (Some d)
  moreover assume "whole_secs i"
  ultimately obtain k where k: "0 < k" "k < 2 ^ 64" "d = seconds k" by (auto simp: whole_secs_def)
  have "secs i = of_nat k" using Some k(3) by (simp add: secs_def)
  moreover have "0 < (of_nat k :: 64 word)" using k(1,2) unat_of_nat64 [OF k(2)] by (simp add: word_less_nat_alt)
  ultimately show ?thesis using Some k unat_of_nat64 [OF k(2)] by (simp add: handle_interval_def from_secs_def)
qed (simp add: secs_def handle_interval_def)

lemma whole_handle: "whole_secs (handle_interval s)"
proof -
  have "0 < s \<Longrightarrow> 0 < unat s" "unat s < 2 ^ 64" for s :: "64 word"
    using unsigned_less [of s, where 'a = nat] by (simp_all add: word_less_nat_alt)
  then show ?thesis by (auto simp: handle_interval_def whole_secs_def from_secs_def)
qed

text \<open>A resolved schedule resolves to itself.\<close>

lemma find_self: "x \<in> set xs \<Longrightarrow> find (\<lambda>y. y = x) xs = Some x"
  by (induction xs) auto

lemma fixed_explicit:
  assumes "distinct (map fc_name fs)" and "\<forall>f \<in> set fs. fc_name f \<noteq> ALL_FIELDS" and "f \<in> set fs"
    and "\<forall>f \<in> set fs. pinned dflt (raw_of f) = fc_interval f \<and> rf_name (raw_of f) = fc_name f"
  shows "explicit_interval (map raw_of fs) dflt (fc_name f) = Some (fc_interval f)"
proof -
  have P: "\<not> is_wildcard (raw_of g) \<and> rf_name (raw_of g) = fc_name f \<longleftrightarrow> g = f" if "g \<in> set fs" for g
    using assms that eq_key_imp_eq_value [of "map (\<lambda>f. (fc_name f, f)) fs" "fc_name f" g f]
    by (auto simp: is_wildcard_def distinct_map inj_on_def)
  have "find (\<lambda>g. \<not> is_wildcard (raw_of g) \<and> rf_name (raw_of g) = fc_name f) (rev fs) = find (\<lambda>g. g = f) (rev fs)"
    using P by (intro find_cong) simp_all
  also have "\<dots> = Some f" using assms(3) by (simp add: find_self)
  finally show ?thesis using assms(3,4) by (simp add: explicit_interval_find find_map rev_map comp_def)
qed


lemma push_fixed:
  assumes "\<forall>g \<in> set gs. \<not> is_wildcard (raw_of g) \<and> rf_name (raw_of g) = fc_name g
      \<and> explicit_interval raw dflt (fc_name g) = Some (fc_interval g)"
    and "distinct (map fc_name (acc @ gs))"
  shows "foldl (push_entry raw dflt) acc (map raw_of gs) = acc @ gs"
  using assms
proof (induction gs arbitrary: acc)
  case (Cons g gs)
  have "push_entry raw dflt acc (raw_of g) = acc @ [g]"
    using Cons.prems by (auto simp: push_entry_def push_field_def)
  then show ?case using Cons.IH [of "acc @ [g]"] Cons.prems by simp
qed simp

lemma resolve_fixed:
  assumes "distinct (map fc_name fs)"
    and "\<forall>f \<in> set fs. fc_name f \<noteq> ALL_FIELDS \<and> canonical_name (fc_name f) = fc_name f"
    and "\<forall>f \<in> set fs. pinned dflt (raw_of f) = fc_interval f \<and> rf_name (raw_of f) = fc_name f"
  shows "resolve_fields (map raw_of fs) dflt = fs"
proof -
  have canon: "map canonical (map raw_of fs) = map raw_of fs"
    using assms(2,3) by (auto simp: comp_def intro!: map_cong)
  have "foldl (push_entry (map raw_of fs) dflt) [] (map raw_of fs) = [] @ fs"
    using assms fixed_explicit [OF assms(1) _ _ assms(3)] by (intro push_fixed) (auto simp: is_wildcard_def)
  then show ?thesis unfolding resolve_fields_def Let_def canon by simp
qed

lemma raw_of_settings_known:
  "raw_of_settings fs = (case find (\<lambda>f. \<not> known (fse_name f)) fs of
      None \<Rightarrow> Inr (map (\<lambda>f. \<lparr>rf_name = fse_name f, rf_interval_secs = fse_interval_secs f\<rparr>) fs)
    | Some f \<Rightarrow> Inl (Malformed (unknown_field (fse_name f))))"
  by (induction fs) (auto split: option.split)

text \<open>The sync section of a settled config, as a patch.\<close>

definition stray_field :: "server_config \<Rightarrow> field_config option" where
  "stray_field cfg = find (\<lambda>f. \<not> known (fc_name f)) (syc_fields (sc_sync cfg))"

lemma patched_sync_document:
  assumes "settled_sync sync"
  shows "patched_sync current (Some \<lparr>sp_interval_secs = Some (secs (syc_default_interval sync)),
      sp_fields = Some (map (\<lambda>f. \<lparr>fse_name = fc_name f, fse_interval_secs = Some (secs (fc_interval f))\<rparr>) (syc_fields sync))\<rparr>)
    = (case find (\<lambda>f. \<not> known (fc_name f)) (syc_fields sync) of
         None \<Rightarrow> Inr sync
       | Some f \<Rightarrow> Inl (Malformed (unknown_field (fc_name f))))"
proof -
  let ?raw = "\<lambda>f. \<lparr>rf_name = fc_name f, rf_interval_secs = Some (secs (fc_interval f))\<rparr>"
  have fixed: "resolve_fields (map ?raw (syc_fields sync)) dflt = syc_fields sync" for dflt
    using assms by (intro resolve_fixed) (auto simp: settled_sync_def pinned_def handle_secs)
  show ?thesis
    using assms
    by (auto simp: patched_sync_def raw_of_settings_known find_map comp_def fixed settled_sync_def handle_secs
        split: option.split)
qed


text \<open>The store section.\<close>

lemma digits_val_None: "\<exists>c \<in> set s. \<not> is_ascii_digit c \<Longrightarrow> digits_val acc s = None"
  by (induction s arbitrary: acc) auto

lemma lower_digit: "is_ascii_digit c \<Longrightarrow> char_lower c = c"
  by (simp add: char_lower_def)

lemma digit_word:
  assumes "t \<noteq> []" and "is_ascii_digit (hd t)" and "w \<noteq> []" and "\<not> is_ascii_digit (char_lower (hd w))"
  shows "\<not> eq_ignore_ascii_case t w"
  using assms by (cases t; cases w) (auto simp: eq_ignore_ascii_case_def to_ascii_lowercase_def lower_digit)

lemma worded_duration:
  assumes "durations_read_back lx" and "0 < d" and "d < DURATION_LIMIT"
  defines "t \<equiv> format_duration lx d"
  shows "trim t = t" and "units_duration lx t = Inr d"
    and "w \<noteq> [] \<Longrightarrow> \<not> is_ascii_digit (char_lower (hd w)) \<Longrightarrow> \<not> eq_ignore_ascii_case t w"
proof -
  have t: "t \<noteq> []" "is_ascii_digit (hd t)" "graphic (last t)" "\<not> is_ascii_digit (last t)" "parse_duration lx t = Inr d"
    using assms by (simp_all add: durations_read_back_def Let_def)
  show trim: "trim t = t" using t by (intro trim_graphic) auto
  have "strip_plus t = t" using t(1,2) by (cases t) (auto simp: strip_plus_def)
  moreover have "digits_val 0 t = None" using t(1,4) last_in_set by (intro digits_val_None) blast
  ultimately have "parse_uint t = (None :: 64 word option)" by (simp add: parse_uint_def)
  then show "units_duration lx t = Inr d" using t(5) by (simp add: units_duration_def trim)
  assume "w \<noteq> []" "\<not> is_ascii_digit (char_lower (hd w))"
  then show "\<not> eq_ignore_ascii_case t w"
    by (rule digit_word [OF t(1,2)])
qed


lemma words_letters:
  "\<not> is_ascii_digit (char_lower (hd FOREVER))" "\<not> is_ascii_digit (char_lower (hd NEVER))"
  "\<not> is_ascii_digit (char_lower (hd UNLIMITED))" "FOREVER \<noteq> []" "NEVER \<noteq> []" "UNLIMITED \<noteq> []"
  "trim FOREVER = FOREVER" "trim NEVER = NEVER" "trim UNLIMITED = UNLIMITED"
  by (simp_all add: FOREVER_def NEVER_def UNLIMITED_def char_lower_def trim_graphic)

lemma retention_document:
  assumes "durations_read_back lx" and "retention_ok lx r"
  shows "retention_of_str lx (render_retention lx r) = Inr r"
proof (cases r)
  case Forever
  then show ?thesis by (simp add: render_retention_def retention_of_str_def words_letters eq_ignore_ascii_case_def)
next
  case (Age d)
  then have d: "0 < d" "d < DURATION_LIMIT" using assms(2) by (simp_all add: retention_ok_def)
  note w = worded_duration [OF assms(1) d]
  show ?thesis using Age d(1) w(1,2) w(3) [OF words_letters(4,1)]
    by (simp add: render_retention_def retention_of_str_def finite_age_def)
next
  case (Since t)
  then show ?thesis using assms(2) by (simp add: render_retention_def retention_ok_def floor_reads_back_def)
qed

lemma cleanup_document:
  assumes "durations_read_back lx" and "case c of None \<Rightarrow> True | Some d \<Rightarrow> 0 < d \<and> d < DURATION_LIMIT"
  shows "map_sum id handle_cleanup (setting_value key (raw_duration_of_str lx
      (case c of None \<Rightarrow> NEVER | Some every \<Rightarrow> format_duration lx every))) = Inr c"
proof (cases c)
  case None
  then show ?thesis
    by (simp add: raw_duration_of_str_def words_letters eq_ignore_ascii_case_def setting_value_def handle_cleanup_def)
next
  case (Some d)
  then have d: "0 < d" "d < DURATION_LIMIT" using assms(2) by simp_all
  note w = worded_duration [OF assms(1) d]
  show ?thesis using Some d(1) w(1,2) w(3) [OF words_letters(5,2)]
    by (simp add: raw_duration_of_str_def setting_value_def handle_cleanup_def)
qed

lemma format_bytes_digit: "format_bytes b \<noteq> [] \<and> is_ascii_digit (hd (format_bytes b))"
proof -
  have "show_nat n @ u \<noteq> [] \<and> is_ascii_digit (hd (show_nat n @ u))" for n u
    using show_nat_hd [of n] by auto
  from this [of "unat b" "[]"] this show ?thesis
    by (auto simp: format_bytes_def show_uint_def split: option.split)
qed

lemma budget_document:
  assumes "m \<noteq> Some 0"
  shows "map_sum id handle_budget (setting_value key (raw_bytes_of_str
      (case m of None \<Rightarrow> UNLIMITED | Some b \<Rightarrow> format_bytes b))) = Inr m"
proof (cases m)
  case None
  then show ?thesis
    by (simp add: raw_bytes_of_str_def words_letters eq_ignore_ascii_case_def setting_value_def handle_budget_def)
next
  case (Some b)
  have "\<not> eq_ignore_ascii_case (trim (format_bytes b)) UNLIMITED"
    unfolding trim_format_bytes using format_bytes_digit [of b] words_letters(3,6) by (intro digit_word) blast+
  then show ?thesis using Some assms units_bytes_format [of b]
    by (auto simp: raw_bytes_of_str_def setting_value_def handle_budget_def word_gt_0)
qed


lemma setting_value_Inr [simp]: "setting_value key (Inr v) = Inr v"
  by (simp add: setting_value_def)

lemma patched_store_document:
  assumes "durations_read_back lx" and "retention_ok lx (stc_retain st)" and "stc_max_memory st \<noteq> Some 0"
    and "case stc_cleanup st of None \<Rightarrow> True | Some d \<Rightarrow> 0 < d \<and> d < DURATION_LIMIT"
  shows "patched_store lx current (Some \<lparr>stp_retain = Some (render_retention lx (stc_retain st)),
      stp_cleanup_interval = Some (case stc_cleanup st of None \<Rightarrow> NEVER | Some every \<Rightarrow> format_duration lx every),
      stp_max_memory = Some (case stc_max_memory st of None \<Rightarrow> UNLIMITED | Some b \<Rightarrow> format_bytes b)\<rparr>)
    = Inr (st\<lparr>stc_cleanup_on_remove := stc_cleanup_on_remove current\<rparr>)"
  by (simp add: patched_store_def retention_document [OF assms(1,2)] cleanup_document [OF assms(1,4)]
      budget_document [OF assms(3)])

lemma patched_relay_document:
  assumes "0 < ms" and "ms < 2 ^ 64" and "irc_poll rc = ms * 1000000" and "1 \<le> irc_max_attempts rc"
  shows "patched_relay current (Some \<lparr>rp_poll_ms = Some (as_millis_u64 (irc_poll rc)),
      rp_max_attempts = Some (irc_max_attempts rc)\<rparr>) = rc"
proof -
  have "as_millis_u64 (irc_poll rc) = of_nat ms" using assms(2,3) by (simp add: as_millis_u64_def min_def)
  moreover have "unat (max (of_nat ms) 1 :: 64 word) = ms"
    using assms(1) unat_of_nat64 [OF assms(2)] by (simp add: max_def word_le_nat_alt)
  ultimately have "handle_poll (as_millis_u64 (irc_poll rc)) = irc_poll rc" using assms(3) by (simp add: handle_poll_def)
  moreover have "effective_attempts (irc_max_attempts rc) = irc_max_attempts rc"
    using assms(4) by (simp add: effective_attempts_def max_def)
  ultimately show ?thesis by (simp add: patched_relay_def)
qed

text \<open>
  A served document, sent back, is read exactly: the document of a settled config is refused when it
  would move the listener or the devices file, or name another state file, or when its schedule lists
  a field core cannot query; otherwise the result is that config to the last digit, with the running
  server's inventory and its cleanup_on_remove.
\<close>

lemma patched_document:
  assumes "durations_read_back lx" and "settled_config lx loaded"
  shows "patched lx current (as_patch (settings_document lx loaded)) =
    (if sc_http loaded \<noteq> sc_http current then Inl (Fixed (fixed_http (sc_http current) (sc_http loaded)))
     else if ic_config_path (sc_inventory loaded) \<noteq> ic_config_path (sc_inventory current)
     then Inl (Fixed (fixed_config_path (ic_config_path (sc_inventory current)) (ic_config_path (sc_inventory loaded))))
     else if ic_runtime_config_path (sc_inventory loaded) \<notin> {None, ic_runtime_config_path (sc_inventory current)}
     then Inl (Fixed (fixed_runtime_path (ic_runtime_config_path (sc_inventory current))))
     else case stray_field loaded of
            Some f \<Rightarrow> Inl (Malformed (unknown_field (fc_name f)))
          | None \<Rightarrow> Inr (loaded\<lparr>sc_inventory := sc_inventory current,
              sc_store := (sc_store loaded)\<lparr>stc_cleanup_on_remove := stc_cleanup_on_remove (sc_store current)\<rparr>\<rparr>))"
proof -
  let ?p = "as_patch (settings_document lx loaded)"
  note ok = assms(2) [unfolded settled_config_def]
  obtain ms where ms: "0 < ms" "ms < 2 ^ 64" "irc_poll (sc_intent_relay loaded) = ms * 1000000" using ok by blast
  have relay: "patched_relay current' (cp_intent_relay ?p) = sc_intent_relay loaded" for current'
    using patched_relay_document [OF ms] ok by (simp add: as_patch_def settings_document_def)
  have sync: "patched_sync current' (cp_sync ?p) = (case stray_field loaded of
      None \<Rightarrow> Inr (sc_sync loaded) | Some f \<Rightarrow> Inl (Malformed (unknown_field (fc_name f))))" for current'
    using patched_sync_document [of "sc_sync loaded"] ok
    by (simp add: as_patch_def settings_document_def stray_field_def)
  have store: "patched_store lx current' (cp_store ?p)
      = Inr ((sc_store loaded)\<lparr>stc_cleanup_on_remove := stc_cleanup_on_remove current'\<rparr>)" for current'
    using patched_store_document [OF assms(1), of "sc_store loaded"] ok
    by (simp add: as_patch_def settings_document_def)
  have http: "fixed_refusal current ?p = (if sc_http loaded \<noteq> sc_http current
      then Some (Fixed (fixed_http (sc_http current) (sc_http loaded))) else None)"
    by (auto simp: fixed_refusal_def as_patch_def settings_document_def)
  have inv: "inventory_refusal_of (sc_inventory current) (cp_inventory ?p) =
     (if ic_config_path (sc_inventory loaded) \<noteq> ic_config_path (sc_inventory current)
      then Some (Fixed (fixed_config_path (ic_config_path (sc_inventory current)) (ic_config_path (sc_inventory loaded))))
      else if ic_runtime_config_path (sc_inventory loaded) \<notin> {None, ic_runtime_config_path (sc_inventory current)}
      then Some (Fixed (fixed_runtime_path (ic_runtime_config_path (sc_inventory current)))) else None)"
    by (simp add: inventory_refusal_of_def as_patch_def settings_document_def get_or_def)
  show ?thesis
    by (simp add: patched_def http inv sync store relay split: option.split)
qed



section \<open>What resolution and patches produce is settled\<close>

definition raw_settled :: "lexicon \<Rightarrow> raw_server_config \<Rightarrow> bool" where
  "raw_settled lx raw \<longleftrightarrow> (case rsc_store raw of None \<Rightarrow> True | Some st \<Rightarrow>
     (case rst_retain st of None \<Rightarrow> True | Some r \<Rightarrow> retention_ok lx r)
     \<and> (case rst_cleanup_interval st of None \<Rightarrow> True | Some d \<Rightarrow> d < DURATION_LIMIT))"

lemma explicit_whole:
  assumes "whole_secs dflt" and "explicit_interval raw dflt n = Some i"
  shows "whole_secs i"
  using assms by (auto simp: explicit_interval_find pinned_def whole_handle split: option.splits)

lemma resolve_fields_whole:
  assumes "whole_secs dflt" and "f \<in> set (resolve_fields raw dflt)"
  shows "whole_secs (fc_interval f)"
proof -
  have "interval_of (resolve_fields raw dflt) (fc_name f) = Some (fc_interval f)"
    using assms(2) resolve_fields_names(1) [of raw dflt] unfolding interval_of_def
    by (intro map_of_is_SomeI) (auto simp: comp_def)
  then have "effective_interval raw dflt (fc_name f) = Some (fc_interval f)" by (simp add: resolve_fields_interval)
  then obtain g where g: "fc_interval f = pinned dflt g"
    by (auto simp: effective_interval_def split: option.splits if_splits) (metis sym)+
  show ?thesis unfolding g using assms(1) by (auto simp: pinned_def whole_handle split: option.split)
qed

lemma settled_sync_resolved:
  "whole_secs dflt \<Longrightarrow> settled_sync \<lparr>syc_default_interval = dflt, syc_fields = resolve_fields raw dflt\<rparr>"
  using resolve_fields_whole [of dflt _ raw] resolve_fields_names(1) [of raw dflt] resolve_fields_names(2) [of _ raw dflt]
  by (auto simp: settled_sync_def)

lemma handle_poll_settled: "\<exists>k. 0 < k \<and> k < 2 ^ 64 \<and> handle_poll ms = k * 1000000"
proof (intro exI conjI)
  show "0 < unat (max ms 1)" by (simp add: max_def word_le_nat_alt)
  show "unat (max ms 1) < 2 ^ 64" using unsigned_less [of "max ms 1", where 'a = nat] by simp
  show "handle_poll ms = unat (max ms 1) * 1000000" by (simp add: handle_poll_def)
qed

lemma resolved_settled:
  assumes "raw_settled lx raw"
  shows "settled_config lx (with_overrides ov (resolve_server_config base raw))"
proof -
  have "1 \<le> effective_attempts n" for n by (simp add: effective_attempts_def)
  moreover have "retention_ok lx (get_or (Age (seconds (24 * 60 * 60))) (rst_retain (get_or empty_raw_store (rsc_store raw))))"
    using assms by (auto simp: raw_settled_def get_or_def empty_raw_store_def retention_ok_def DURATION_LIMIT_def
        split: option.splits)
  moreover have "case handle_cleanup (get_or (seconds (5 * 60)) (rst_cleanup_interval (get_or empty_raw_store (rsc_store raw))))
      of None \<Rightarrow> True | Some d \<Rightarrow> 0 < d \<and> d < DURATION_LIMIT"
    using assms by (auto simp: raw_settled_def get_or_def empty_raw_store_def handle_cleanup_def DURATION_LIMIT_def
        split: option.splits)
  moreover have "handle_budget b \<noteq> Some 0" for b by (auto simp: handle_budget_def)
  ultimately show ?thesis
    using settled_sync_resolved [OF whole_handle] handle_poll_settled
    by (simp add: settled_config_def with_overrides_def resolve_server_config_def Let_def)
qed



section \<open>Examples\<close>

text \<open>A lexicon that writes a duration as nanoseconds, and a config of a few fields.\<close>

definition plain_duration :: "string \<Rightarrow> string + duration" where
  "plain_duration s =
     (if drop (length s - 2) s = ''ns''
      then (case digits_val 0 (take (length s - 2) s) of
             Some n \<Rightarrow> if n < DURATION_LIMIT then Inr n else Inl ''too long''
           | None \<Rightarrow> Inl ''not a number'')
      else Inl ''no unit'')"

definition plain_lexicon :: lexicon where
  "plain_lexicon = \<lparr>lx_chrono = tick_chrono, parse_duration = plain_duration,
     format_duration = (\<lambda>d. show_nat d @ ''ns''), parse_date = (\<lambda>_. None), checked_sub = (\<lambda>i d. Some (i - d))\<rparr>"

definition small_raw :: "string list \<Rightarrow> raw_server_config" where
  "small_raw names =
     \<lparr>rsc_defaults = \<lparr>sd_interval_secs = None, sd_fields = None, sd_host = None, sd_port = None\<rparr>,
      rsc_intent_relay = None, rsc_sync = Some \<lparr>rs_interval_secs = None, rs_fields = Some (map named names)\<rparr>,
      rsc_inventory = None, rsc_store = None, rsc_http = None\<rparr>"

definition small_config :: "string list \<Rightarrow> server_config" where
  "small_config names = with_overrides \<lparr>ov_inventory_config_path = None, ov_host = None, ov_port = None\<rparr>
     (resolve_server_config ''/etc'' (small_raw names))"

lemma plain_lexicon_reads_back: "durations_read_back plain_lexicon"
proof -
  have digits: "is_ascii_digit (hd (show_nat d @ ''ns''))" for d using show_nat_hd [of d] by auto
  have "is_ascii_digit CHR ''s'' = False" "graphic CHR ''s''" by code_simp+
  then show ?thesis using digits
    by (simp add: durations_read_back_def Let_def plain_lexicon_def plain_duration_def digits_val_show_nat)
qed

lemma small_raw_settled: "raw_settled lx (small_raw names)"
  by (simp add: raw_settled_def small_raw_def)

lemma small_config_settled: "settled_config lx (small_config names)"
  unfolding small_config_def using small_raw_settled by (rule resolved_settled)


lemma firmware_known: "catalog_from_str query_catalog ''FIRMWARE'' = Inr Q_Firmware" "isl (catalog_from_str query_catalog ''FIRMWAR'')"
  "catalog_name query_catalog Q_Firmware = ''FIRMWARE''"
  by code_simp+

lemma small_names:
  "canonical_name ''FIRMWARE'' = ''FIRMWARE''" "canonical_name ''FIRMWAR'' = ''FIRMWAR''"
  "known ''FIRMWARE''" "\<not> known ''FIRMWAR''"
  using firmware_known by (auto simp: canonical_name_def known_def ALL_FIELDS_def split: sum.split)

lemma small_firmware:
  "syc_fields (sc_sync (small_config [''FIRMWARE''])) = [\<lparr>fc_name = ''FIRMWARE'', fc_interval = Some (seconds 30)\<rparr>]"
  "syc_fields (sc_sync (small_config [''FIRMWARE'', ''FIRMWAR''])) =
     [\<lparr>fc_name = ''FIRMWARE'', fc_interval = Some (seconds 30)\<rparr>, \<lparr>fc_name = ''FIRMWAR'', fc_interval = Some (seconds 30)\<rparr>]"
  by (simp_all add: small_config_def with_overrides_def resolve_server_config_def small_raw_def Let_def get_or_def or_else_def
      resolve_fields_def named_def small_names push_entry_def is_wildcard_def ALL_FIELDS_def explicit_interval_def pinned_def
      push_field_def handle_interval_def from_secs_def)

end
