(* ===== verification/Sis_Live.thy ===== *)
theory Sis_Live
  imports Sis_Settings_Spec Sis_Schedule
begin

text \<open>
  \<^verbatim>\<open>sismatic-server/src/dynamic.rs\<close> and the sweep of \<^verbatim>\<open>lifecycle.rs\<close>: the settings in force, the four places
  a change travels to, and what they promise.

  A \<^verbatim>\<open>watch\<close> channel is the value last sent. The mutex around the running config makes every
  request one transition. Reading the file, the environment and the flags again is the argument
  \<open>loaded\<close> of a reload.
\<close>


section \<open>Live settings\<close>

record live_settings =
  li_current :: server_config
  li_schedule :: "field_schedule list"
  li_policy :: store_config
  li_drain :: duration
  li_store :: store
  li_outbox :: outbox

datatype config_refusal = CMalformed string | CFixed string | CSource string

fun refuse :: "patch_error \<Rightarrow> config_refusal" where
  "refuse (Malformed msg) = CMalformed msg"
| "refuse (Fixed msg) = CFixed msg"

definition schedules :: "sync_config \<Rightarrow> field_schedule list" where
  "schedules sync = map (\<lambda>f. \<lparr>fs_name = fc_name f, fs_interval = fc_interval f\<rparr>) (syc_fields sync)"

definition budget_of :: "store_config \<Rightarrow> nat option" where
  "budget_of st = map_option unat (stc_max_memory st)"

definition new_live_settings :: "server_config \<Rightarrow> store \<Rightarrow> outbox \<Rightarrow> live_settings" where
  "new_live_settings cfg st ob =
     \<lparr>li_current = cfg, li_schedule = schedules (sc_sync cfg), li_policy = sc_store cfg,
      li_drain = irc_poll (sc_intent_relay cfg), li_store = st, li_outbox = ob\<rparr>"

text \<open>The store and the outbox are built from the config they are handed over with.\<close>

definition start_live_settings :: "server_config \<Rightarrow> live_settings" where
  "start_live_settings cfg = new_live_settings cfg (with_budget (budget_of (sc_store cfg)))
     (with_max_attempts (unat (irc_max_attempts (sc_intent_relay cfg))))"

definition publish :: "lexicon \<Rightarrow> server_config \<Rightarrow> live_settings \<Rightarrow> config_document \<times> live_settings" where
  "publish lx n ls =
     (settings_document lx n,
      \<lparr>li_current = n, li_schedule = schedules (sc_sync n), li_policy = sc_store n,
       li_drain = irc_poll (sc_intent_relay n),
       li_store = fst (set_budget (budget_of (sc_store n)) (li_store ls)),
       li_outbox = set_max_attempts (unat (irc_max_attempts (sc_intent_relay n))) (li_outbox ls)\<rparr>)"

definition live_current :: "lexicon \<Rightarrow> live_settings \<Rightarrow> config_document" where
  "live_current lx ls = settings_document lx (li_current ls)"

definition live_apply :: "lexicon \<Rightarrow> config_patch \<Rightarrow> live_settings \<Rightarrow> (config_refusal + config_document) \<times> live_settings" where
  "live_apply lx patch ls =
     (case patched lx (li_current ls) patch of
        Inl e \<Rightarrow> (Inl (refuse e), ls)
      | Inr n \<Rightarrow> (case publish lx n ls of (doc, ls') \<Rightarrow> (Inr doc, ls')))"

definition source_error :: "string \<Rightarrow> string \<Rightarrow> string" where
  "source_error path err = ''reading '' @ path @ '': '' @ err"

definition live_reload :: "lexicon \<Rightarrow> string \<Rightarrow> string + server_config \<Rightarrow> live_settings
    \<Rightarrow> (config_refusal + config_document) \<times> live_settings" where
  "live_reload lx path loaded ls =
     (case loaded of
        Inl err \<Rightarrow> (Inl (CSource (source_error path err)), ls)
      | Inr cfg \<Rightarrow> live_apply lx (as_patch (settings_document lx cfg)) ls)"


section \<open>The sweep\<close>

datatype sweep_report = Quiet | Evicting nat | OverBudget

definition sweep_report_of :: "usage \<Rightarrow> nat \<Rightarrow> sweep_report" where
  "sweep_report_of u seen_evicted =
     (if over_budget u then OverBudget
      else if seen_evicted < us_evicted u then Evicting (us_evicted u - seen_evicted)
      else Quiet)"

text \<open>A pass: what is kept, the evictions seen, and what is worth saying.\<close>

definition sweep :: "lexicon \<Rightarrow> int \<Rightarrow> retention \<Rightarrow> store \<times> nat \<Rightarrow> (store \<times> nat) \<times> sweep_report" where
  "sweep lx current r s =
     (let (st, seen_evicted) = s;
          st = (case cutoff lx current r of Some c \<Rightarrow> fst (prune c st) | None \<Rightarrow> st);
          u = usage_of st
      in ((st, us_evicted u), sweep_report_of u seen_evicted))"


section \<open>In force\<close>

definition in_force :: "live_settings \<Rightarrow> bool" where
  "in_force ls \<longleftrightarrow> li_schedule ls = schedules (sc_sync (li_current ls))
     \<and> li_policy ls = sc_store (li_current ls)
     \<and> li_drain ls = irc_poll (sc_intent_relay (li_current ls))
     \<and> bk_budget (st_books (li_store ls)) = budget_of (sc_store (li_current ls))
     \<and> ob_max_attempts (li_outbox ls) = max (unat (irc_max_attempts (sc_intent_relay (li_current ls)))) 1"

text \<open>
  What happens to a running server's settings: requests, and the work of the store and the outbox. No
  operation of the outbox but \<open>set_max_attempts\<close> changes its budget of attempts.
\<close>

inductive live_step :: "lexicon \<Rightarrow> layout \<Rightarrow> chrono \<Rightarrow> live_settings \<Rightarrow> live_settings \<Rightarrow> bool" for lx l ch where
  live_step_apply: "live_step lx l ch ls (snd (live_apply lx patch ls))"
| live_step_reload: "live_step lx l ch ls (snd (live_reload lx path loaded ls))"
| live_step_upsert: "timely r (li_store ls) \<Longrightarrow> live_step lx l ch ls (ls\<lparr>li_store := upsert_latest l r (li_store ls)\<rparr>)"
| live_step_sweep: "live_step lx l ch ls
    (ls\<lparr>li_store := fst (fst (sweep lx i (stc_retain (li_policy ls)) (li_store ls, seen)))\<rparr>)"
| live_step_forget: "live_step lx l ch ls (ls\<lparr>li_store := fst (forget_device l d (li_store ls))\<rparr>)"
| live_step_outbox: "outbox_op ch M (li_outbox ls) ob \<Longrightarrow> ob_max_attempts ob = ob_max_attempts (li_outbox ls)
    \<Longrightarrow> live_step lx l ch ls (ls\<lparr>li_outbox := ob\<rparr>)"

inductive_cases live_step_cases: "live_step lx l ch ls ls'"



section \<open>The byte budget of a reachable store\<close>

lemma take_over_budget_budget: "bk_budget (fst (take_over_budget n b)) = bk_budget b"
proof (induction n b rule: take_over_budget.induct)
  case (1 n b)
  then show ?case
    by (subst take_over_budget.simps) (auto simp: Let_def split: list.split prod.split)
qed

lemma store_budgets [simp]:
  "bk_budget (st_books (upsert_latest l r st)) = bk_budget (st_books st)"
  "bk_budget (st_books (fst (prune c st))) = bk_budget (st_books st)"
  "bk_budget (st_books (fst (forget_device l d st))) = bk_budget (st_books st)"
  "bk_budget (st_books (fst (set_budget b st))) = b"
proof -
  have e: "bk_budget (fst (enforce b)) = bk_budget b" for b
    by (simp add: enforce_def take_over_budget_budget split: option.split)
  show "bk_budget (st_books (upsert_latest l r st)) = bk_budget (st_books st)"
    using e [of "record_slot (slot_of l r) (restate_latest (latest_bytes l r)
      (case latest st (rd_device r) (rd_field r) of None \<Rightarrow> 0 | Some old \<Rightarrow> latest_bytes l old) (st_books st))"]
    by (simp add: upsert_latest_def admit_slot_def record_slot_def restate_latest_def Let_def case_prod_beta)
  show "bk_budget (st_books (fst (set_budget b st))) = b"
    using e [of "(st_books st)\<lparr>bk_budget := b\<rparr>"] by (simp add: set_budget_def recap_def case_prod_beta)
qed (simp_all add: prune_def expire_def take_expired_def forget_device_def forget_def take_device_def
      restate_latest_def Let_def case_prod_beta)

definition capped :: "books \<Rightarrow> bool" where
  "capped b \<longleftrightarrow> (case bk_budget b of None \<Rightarrow> True | Some cap \<Rightarrow> used b \<le> cap \<or> bk_queue b = [])"

lemma enforce_capped:
  assumes "bk_history_bytes b = sum_list (map sl_bytes (bk_queue b))"
  shows "capped (fst (enforce b))"
proof -
  obtain b' taken where e: "enforce b = (b', taken)" by (cases "enforce b")
  show ?thesis using enforce_spec(4,5) [OF assms e] e by (auto simp: capped_def split: option.split)
qed

lemma sift_less: "sift P q n = (n', kept, taken) \<Longrightarrow> n' \<le> n \<and> (q = [] \<longrightarrow> kept = [])"
  by (induction q arbitrary: n n' kept taken) (force split: if_splits prod.splits)+

lemma store_reachable_capped: "store_reachable l st \<Longrightarrow> capped (st_books st)"
proof (induction rule: store_reachable.induct)
  case (sr_start b)
  then show ?case by (simp add: capped_def with_budget_def used_def split: option.split)
next
  case (sr_upsert st r)
  let ?b = "record_slot (slot_of l r) (restate_latest (latest_bytes l r)
      (case latest st (rd_device r) (rd_field r) of None \<Rightarrow> 0 | Some old \<Rightarrow> latest_bytes l old) (st_books st))"
  have "bk_history_bytes ?b = sum_list (map sl_bytes (bk_queue ?b))"
    using store_okD(1) [OF store_reachable_ok [OF sr_upsert.hyps(1)]] by (simp add: record_slot_def restate_latest_def)
  from enforce_capped [OF this] show ?case
    by (simp add: upsert_latest_def admit_slot_def Let_def case_prod_beta)
next
  case (sr_prune st c)
  obtain n kept taken where s: "sift (\<lambda>s. sl_at s < c) (bk_queue (st_books st)) (bk_history_bytes (st_books st)) = (n, kept, taken)"
    by (metis prod_cases3)
  show ?case using sr_prune.IH sift_less [OF s] s
    by (auto simp: capped_def prune_def expire_def take_expired_def used_def split: option.splits)
next
  case (sr_budget st b)
  have "bk_history_bytes ((st_books st)\<lparr>bk_budget := b\<rparr>) = sum_list (map sl_bytes (bk_queue ((st_books st)\<lparr>bk_budget := b\<rparr>)))"
    using store_okD(1) [OF store_reachable_ok [OF sr_budget.hyps]] by simp
  from enforce_capped [OF this] show ?case by (simp add: set_budget_def recap_def case_prod_beta)
next
  case (sr_forget st d)
  let ?n = "case map_of (st_latest st) d of None \<Rightarrow> 0 | Some fs \<Rightarrow> sum_list (map (latest_bytes l) (ovals fs))"
  obtain n kept taken where s: "sift (\<lambda>s. sl_device s = d) (bk_queue (st_books st)) (bk_history_bytes (st_books st)) = (n, kept, taken)"
    by (metis prod_cases3)
  show ?case using sr_forget.IH sift_less [OF s] s
    by (auto simp: capped_def forget_device_def forget_def take_device_def restate_latest_def used_def Let_def
        split: option.splits)
qed



section \<open>What holds of a running server's settings\<close>

lemma publish_parts [simp]:
  "li_current (snd (publish lx n ls)) = n"
  "fst (publish lx n ls) = settings_document lx n"
  "li_store (snd (publish lx n ls)) = fst (set_budget (budget_of (sc_store n)) (li_store ls))"
  "in_force (snd (publish lx n ls))"
  by (simp_all add: publish_def in_force_def set_max_attempts_def)

lemma live_apply_cases:
  "live_apply lx patch ls = (case patched lx (li_current ls) patch of
     Inl e \<Rightarrow> (Inl (refuse e), ls) | Inr n \<Rightarrow> (Inr (settings_document lx n), snd (publish lx n ls)))"
  by (simp add: live_apply_def publish_def split: sum.split)

text \<open>Whichever request is served, the settings are the old ones or published ones.\<close>

lemma request_publishes:
  "snd (live_apply lx patch ls) = ls
     \<or> (\<exists>n. patched lx (li_current ls) patch = Inr n \<and> snd (live_apply lx patch ls) = snd (publish lx n ls))"
  "\<exists>patch. snd (live_reload lx path loaded ls) \<in> {ls, snd (live_apply lx patch ls)}"
proof -
  show "\<exists>patch. snd (live_reload lx path loaded ls) \<in> {ls, snd (live_apply lx patch ls)}"
    by (cases loaded) (auto simp: live_reload_def)
qed (simp add: live_apply_cases split: sum.split)

text \<open>What no patch changes.\<close>

definition rooted :: "server_config \<Rightarrow> http_config \<times> inventory_config \<times> bool" where
  "rooted cfg = (sc_http cfg, sc_inventory cfg, stc_cleanup_on_remove (sc_store cfg))"

lemma patched_rooted: "patched lx cfg patch = Inr n \<Longrightarrow> rooted n = rooted cfg"
  by (auto simp: patched_def rooted_def patched_store_def split: option.splits sum.splits)

definition live_ok :: "layout \<Rightarrow> live_settings \<Rightarrow> bool" where
  "live_ok l ls \<longleftrightarrow> in_force ls \<and> store_reachable l (li_store ls)"

lemma live_ok_apply:
  assumes "live_ok l ls"
  shows "live_ok l (snd (live_apply lx patch ls)) \<and> rooted (li_current (snd (live_apply lx patch ls))) = rooted (li_current ls)"
  using request_publishes(1) [of lx patch ls] assms patched_rooted [of lx "li_current ls" patch]
  by (auto simp: live_ok_def intro: sr_budget)

lemma sweep_reachable: "store_reachable l st \<Longrightarrow> store_reachable l (fst (fst (sweep lx i r (st, seen))))"
  by (auto simp: sweep_def Let_def intro: sr_prune split: option.split)

lemma sweep_budget: "bk_budget (st_books (fst (fst (sweep lx i r (st, seen))))) = bk_budget (st_books st)"
  by (simp add: sweep_def Let_def split: option.split)

lemma live_ok_step:
  assumes "live_step lx l ch ls ls'" and "live_ok l ls"
  shows "live_ok l ls' \<and> rooted (li_current ls') = rooted (li_current ls)"
  using assms
proof (cases rule: live_step.cases)
  case (live_step_reload path loaded)
  show ?thesis using request_publishes(2) [of lx path loaded ls] live_ok_apply [OF assms(2), of lx] assms(2)
    unfolding live_step_reload by auto
qed (use assms(2) live_ok_apply in \<open>auto simp: live_ok_def in_force_def sweep_budget
       intro: sr_upsert sr_forget sweep_reachable\<close>)

lemma live_ok_start: "live_ok l (start_live_settings cfg)"
  by (auto simp: live_ok_def in_force_def start_live_settings_def new_live_settings_def with_budget_def
      with_max_attempts_def intro: sr_start [unfolded with_budget_def])

text \<open>
  C8. The settings reported are the settings in force, whatever has happened since the server started:
  requests that change them and reloads, accepted or refused, reads written, histories swept, devices
  removed, intents claimed and settled, in any order. The poll schedule, the sweep policy and the
  relay's rate on their channels, the store's byte budget and the outbox's retry budget are those of the
  config that is reported; the store holds no more history than the budget leaves room for (or none,
  when the latest values alone exceed it); and the address, the inventory files and cleanup_on_remove
  are still the ones the server was started with.
\<close>

theorem settings_in_force:
  assumes "(live_step lx l ch)\<^sup>*\<^sup>* (start_live_settings cfg) ls"
  shows "in_force ls
    \<and> capped (st_books (li_store ls))
    \<and> (sc_http (li_current ls), sc_inventory (li_current ls), stc_cleanup_on_remove (sc_store (li_current ls)))
        = (sc_http cfg, sc_inventory cfg, stc_cleanup_on_remove (sc_store cfg))"
proof -
  have "live_ok l ls \<and> rooted (li_current ls) = rooted cfg"
    using assms
  proof (induction rule: rtranclp_induct)
    case base
    then show ?case using live_ok_start [of l cfg] by (simp add: start_live_settings_def new_live_settings_def)
  qed (use live_ok_step in metis)
  then show ?thesis by (auto simp: live_ok_def rooted_def intro: store_reachable_capped)
qed


definition relay_patch_of :: "64 word \<Rightarrow> config_patch" where
  "relay_patch_of ms = \<lparr>cp_sync = None, cp_store = None,
     cp_intent_relay = Some \<lparr>rp_poll_ms = Some ms, rp_max_attempts = Some 0\<rparr>, cp_http = None, cp_inventory = None\<rparr>"

theorem settings_in_force_witness:
  "let ls = snd (live_apply plain_lexicon (relay_patch_of 50) (start_live_settings (small_config [])))
   in li_drain ls = 50000000 \<and> ob_max_attempts (li_outbox ls) = 1"
proof -
  let ?s = "start_live_settings (small_config [])"
  let ?ls = "snd (live_apply plain_lexicon (relay_patch_of 50) ?s)"
  have "(live_step plain_lexicon tiny_layout (lx_chrono plain_lexicon))\<^sup>*\<^sup>* ?s ?ls"
    by (intro r_into_rtranclp live_step_apply)
  from settings_in_force [OF this] have "in_force ?ls" by blast
  moreover have "sc_intent_relay (li_current ?ls) = \<lparr>irc_poll = 50000000, irc_max_attempts = 1\<rparr>"
    by (simp add: live_apply_cases patched_def relay_patch_of_def fixed_refusal_def inventory_refusal_of_def patched_sync_def
        patched_store_def patched_relay_def start_live_settings_def new_live_settings_def handle_poll_def effective_attempts_def)
  ultimately show ?thesis by (simp add: in_force_def Let_def)
qed

text \<open>
  C21. A reload makes the running settings those of the file. Whatever file is read, with whatever flags
  over it, the reload is refused when the file would move the listener, the devices file or the
  state file, or schedules a field core cannot query, and then nothing changes; otherwise every setting a
  request could have changed before is put back to the file's value exactly, in force at once, and a
  second reload of the same file changes nothing more. The running inventory and cleanup_on_remove
  are kept, even where the file says otherwise.
\<close>

theorem reload_exact:
  assumes "durations_read_back lx" and "raw_settled lx raw"
    and "loaded = with_overrides ov (resolve_server_config base raw)"
  shows "(if sc_http loaded \<noteq> sc_http (li_current ls)
        \<or> ic_config_path (sc_inventory loaded) \<noteq> ic_config_path (sc_inventory (li_current ls))
        \<or> ic_runtime_config_path (sc_inventory loaded) \<notin> {None, ic_runtime_config_path (sc_inventory (li_current ls))}
      then \<exists>msg. live_reload lx path (Inr loaded) ls = (Inl (CFixed msg), ls)
      else case stray_field loaded of
             Some f \<Rightarrow> live_reload lx path (Inr loaded) ls = (Inl (CMalformed (unknown_field (fc_name f))), ls)
           | None \<Rightarrow> \<exists>ls'. live_reload lx path (Inr loaded) ls = (Inr (live_current lx ls'), ls') \<and> in_force ls'
               \<and> li_current ls' = loaded\<lparr>sc_inventory := sc_inventory (li_current ls),
                   sc_store := (sc_store loaded)\<lparr>stc_cleanup_on_remove := stc_cleanup_on_remove (sc_store (li_current ls))\<rparr>\<rparr>
               \<and> li_current (snd (live_reload lx path (Inr loaded) ls')) = li_current ls')"
proof -
  have ok: "settled_config lx loaded" unfolding assms(3) using assms(2) by (rule resolved_settled)
  show ?thesis
    by (auto simp: live_reload_def live_apply_cases patched_document [OF assms(1) ok] live_current_def
        split: option.split)
qed

theorem reload_exact_witness:
  "(let ls = start_live_settings (small_config [''FIRMWARE'']);
        edited = snd (live_apply plain_lexicon (relay_patch_of 50) ls)
    in irc_poll (sc_intent_relay (li_current edited)) = 50000000
       \<and> li_current (snd (live_reload plain_lexicon ''sismatic.yaml'' (Inr (small_config [''FIRMWARE''])) edited))
           = small_config [''FIRMWARE''])"
proof -
  let ?cfg = "small_config [''FIRMWARE'']" and ?p = "relay_patch_of 50"
  let ?ls = "start_live_settings ?cfg"
  let ?e = "snd (live_apply plain_lexicon ?p ?ls)"
  have start: "li_current ?ls = ?cfg" by (simp add: start_live_settings_def new_live_settings_def)
  have e: "patched plain_lexicon ?cfg ?p = Inr (?cfg\<lparr>sc_intent_relay := \<lparr>irc_poll = 50000000, irc_max_attempts = 1\<rparr>\<rparr>)"
    by (simp add: patched_def relay_patch_of_def fixed_refusal_def inventory_refusal_of_def patched_sync_def
        patched_store_def patched_relay_def handle_poll_def effective_attempts_def)
  then have now: "li_current ?e = ?cfg\<lparr>sc_intent_relay := \<lparr>irc_poll = 50000000, irc_max_attempts = 1\<rparr>\<rparr>"
    by (simp add: live_apply_cases start)
  have "stray_field ?cfg = None" by (simp add: stray_field_def small_firmware small_names)
  with reload_exact [OF plain_lexicon_reads_back small_raw_settled small_config_def,
      of "[''FIRMWARE'']" ?e "''sismatic.yaml''"]
  have "li_current (snd (live_reload plain_lexicon ''sismatic.yaml'' (Inr ?cfg) ?e)) = ?cfg"
    by (auto simp: now)
  then show ?thesis by (simp add: now Let_def)
qed


text \<open>
  C37. A misspelled field name is accepted from the file and then locks the settings. Take any file whose
  schedule lists a name core cannot query. The server starts on it, with that field on its schedule;
  but every reload of that same, unedited file is refused as malformed, and so is the server's own
  settings document sent back to it as a patch, although a served document is documented to be a patch
  that changes nothing.
\<close>

theorem stray_field_blocks_reload:
  assumes "durations_read_back lx" and "raw_settled lx raw"
    and "cfg = with_overrides ov (resolve_server_config base raw)"
    and "f \<in> set (syc_fields (sc_sync cfg))" and "\<not> known (fc_name f)"
  shows "\<lparr>fs_name = fc_name f, fs_interval = fc_interval f\<rparr> \<in> set (li_schedule (start_live_settings cfg))
    \<and> (\<exists>name. \<not> known name
         \<and> live_reload lx path (Inr cfg) (start_live_settings cfg)
             = (Inl (CMalformed (unknown_field name)), start_live_settings cfg)
         \<and> live_apply lx (as_patch (live_current lx (start_live_settings cfg))) (start_live_settings cfg)
             = (Inl (CMalformed (unknown_field name)), start_live_settings cfg))"
proof -
  have ok: "settled_config lx cfg" unfolding assms(3) using assms(2) by (rule resolved_settled)
  have start: "li_current (start_live_settings cfg) = cfg"
    "li_schedule (start_live_settings cfg) = schedules (sc_sync cfg)"
    by (simp_all add: start_live_settings_def new_live_settings_def)
  obtain g where g: "stray_field cfg = Some g" "\<not> known (fc_name g)"
    using assms(4,5) by (cases "stray_field cfg") (auto simp: stray_field_def find_None_iff dest: find_Some_mem)
  have "\<lparr>fs_name = fc_name f, fs_interval = fc_interval f\<rparr> \<in> set (schedules (sc_sync cfg))"
    using assms(4) by (auto simp: schedules_def)
  then show ?thesis
    using g by (auto simp: start live_reload_def live_apply_cases live_current_def patched_document [OF assms(1) ok])
qed

theorem stray_field_blocks_reload_witness:
  "let ls = start_live_settings (small_config [''FIRMWARE'', ''FIRMWAR''])
   in \<exists>msg. live_apply plain_lexicon (as_patch (live_current plain_lexicon ls)) ls = (Inl (CMalformed msg), ls)"
  using stray_field_blocks_reload [OF plain_lexicon_reads_back small_raw_settled small_config_def,
      of "\<lparr>fc_name = ''FIRMWAR'', fc_interval = Some (seconds 30)\<rparr>" "[''FIRMWARE'', ''FIRMWAR'']"]
  by (auto simp: small_firmware small_names Let_def)

text \<open>
  One pass of the sweeper keeps exactly what the retention in force keeps. With a bounded window
  every series loses the entries stamped before the cutoff and no other, and no latest value; with no
  bound, or a window reaching past the calendar, nothing is touched. A pass evicts nothing itself, so the
  number it reports is the evictions since the count it was handed; and when it reports a store over
  its budget, there is no history left to drop.
\<close>

theorem sweep_exact:
  assumes "store_reachable l st" and "sweep lx i r (st, seen) = ((st', seen'), rep)"
  shows "(case cutoff lx i r of
        None \<Rightarrow> st' = st
      | Some c \<Rightarrow> series (st_history st') d f = filter (\<lambda>e. c \<le> rd_at e) (series (st_history st) d f)
          \<and> latest st' d f = latest st d f)
    \<and> seen' = us_evicted (usage_of st)
    \<and> (case rep of
         OverBudget \<Rightarrow> over_budget (usage_of st') \<and> us_entries (usage_of st') = 0
       | Evicting n \<Rightarrow> 0 < n \<and> us_evicted (usage_of st) = seen + n
       | Quiet \<Rightarrow> us_evicted (usage_of st) \<le> seen)"
proof -
  have st': "st' = (case cutoff lx i r of Some c \<Rightarrow> fst (prune c st) | None \<Rightarrow> st)"
    and seen': "seen' = us_evicted (usage_of st')" and rep: "rep = sweep_report_of (usage_of st') seen"
    using assms(2) by (auto simp: sweep_def Let_def split: option.splits)
  have ok: "store_ok l st" using assms(1) by (rule store_reachable_ok)
  have "store_reachable l st'" using assms(1) by (auto simp: st' intro: sr_prune split: option.split)
  then have capped: "capped (st_books st')" by (rule store_reachable_capped)
  have evicted: "us_evicted (usage_of st') = us_evicted (usage_of st)"
    by (simp add: st' usage_of_def prune_def expire_def take_expired_def case_prod_beta split: option.split)
  have "series (st_history st') d f = filter (\<lambda>e. c \<le> rd_at e) (series (st_history st) d f)
          \<and> latest st' d f = latest st d f" if "cutoff lx i r = Some c" for c
    using prune_history(2) [OF store_okD(3,5) [OF ok], of c d f] store_okD(1) [OF ok] that
    by (simp add: st' prune_def prune_books [OF store_okD(1) [OF ok]] latest_def not_less)
  moreover have "us_entries (usage_of st') = 0" if "over_budget (usage_of st')"
    using capped that by (auto simp: capped_def over_budget_def usage_of_def split: option.splits)
  moreover have "st' = st" if "cutoff lx i r = None" using that by (simp add: st')
  ultimately have "case cutoff lx i r of None \<Rightarrow> st' = st
      | Some c \<Rightarrow> series (st_history st') d f = filter (\<lambda>e. c \<le> rd_at e) (series (st_history st) d f)
          \<and> latest st' d f = latest st d f"
    and drained: "over_budget (usage_of st') \<Longrightarrow> us_entries (usage_of st') = 0"
    by (simp_all split: option.split)
  moreover have "case rep of
         OverBudget \<Rightarrow> over_budget (usage_of st') \<and> us_entries (usage_of st') = 0
       | Evicting n \<Rightarrow> 0 < n \<and> us_evicted (usage_of st) = seen + n
       | Quiet \<Rightarrow> us_evicted (usage_of st) \<le> seen"
    using drained by (simp add: rep sweep_report_of_def evicted)
  moreover have "seen' = us_evicted (usage_of st)" using seen' evicted by simp
  ultimately show ?thesis by blast
qed

theorem sweep_exact_witness:
  "sweep plain_lexicon 0 (Since ''2'') (two_reads None, 0) = ((fst (prune ''2'' (two_reads None)), 0), Quiet)
   \<and> map rd_at (series (st_history (fst (prune ''2'' (two_reads None)))) ''x'' ''f'') = [''2'']"
proof -
  have s: "sweep plain_lexicon 0 (Since ''2'') (two_reads None, 0) = ((fst (prune ''2'' (two_reads None)), 0), Quiet)"
    by (simp add: sweep_def cutoff_def sweep_report_of_def over_budget_def usage_of_def store_example_defs)
  have "map rd_at (series (st_history (two_reads None)) ''x'' ''f'') = [''1'', ''2'']"
    by (simp add: store_example_defs)
  then obtain a b where "series (st_history (two_reads None)) ''x'' ''f'' = [a, b]" "rd_at a = ''1''" "rd_at b = ''2''"
    by auto
  with sweep_exact [OF store_reachable_two_reads s, of "''x''" "''f''"] s show ?thesis
    by (simp add: cutoff_def less_eq_list_code less_char_def)
qed



section \<open>Well-formed settings\<close>

text \<open>
  What the texts of a request are read with: durations fit the type and read back, and the stamp of an
  instant of the years 0 to 9999, the years RFC 3339 can write, reads back as itself. A date of a later year
  is accepted, but its stamp is not RFC 3339 and is not read back.
\<close>

definition YEAR_0 :: int where
  "YEAR_0 = - 62167219200 * 1000000000"

definition YEAR_10000 :: int where
  "YEAR_10000 = 253402300800 * 1000000000"

definition dated :: "lexicon \<Rightarrow> timestamp \<Rightarrow> bool" where
  "dated lx t \<longleftrightarrow> (\<exists>i. YEAR_0 \<le> i \<and> i < YEAR_10000 \<and> t = stamp lx i)"

definition lexicon_ok :: "lexicon \<Rightarrow> bool" where
  "lexicon_ok lx \<longleftrightarrow> durations_read_back lx
     \<and> (\<forall>t d. parse_duration lx t = Inr d \<longrightarrow> d < DURATION_LIMIT)
     \<and> (\<forall>t. dated lx t \<longrightarrow> floor_reads_back lx t)"

text \<open>A retention as a file or a request gave it; its floor may be of any year.\<close>

definition retention_read :: "lexicon \<Rightarrow> retention \<Rightarrow> bool" where
  "retention_read lx r \<longleftrightarrow> retention_ok lx r \<or> (\<exists>i. r = Since (stamp lx i))"

lemma units_duration_limit: "lexicon_ok lx \<Longrightarrow> units_duration lx t = Inr d \<Longrightarrow> d < DURATION_LIMIT"
proof -
  assume "lexicon_ok lx" and d: "units_duration lx t = Inr d"
  moreover have "seconds (unat s) < DURATION_LIMIT" for s :: "64 word"
    using unsigned_less [of s, where 'a = nat] by (simp add: DURATION_LIMIT_def)
  ultimately show ?thesis
    by (auto simp: units_duration_def Let_def lexicon_ok_def split: option.splits sum.splits)
qed

lemma retention_of_str_ok: "lexicon_ok lx \<Longrightarrow> retention_of_str lx t = Inr r \<Longrightarrow> retention_read lx r"
proof -
  assume ok: "lexicon_ok lx" and r: "retention_of_str lx t = Inr r"
  show ?thesis
    using r units_duration_limit [OF ok]
    by (auto simp: retention_of_str_def Let_def finite_age_def retention_ok_def retention_read_def split: if_splits sum.splits)
qed

lemma raw_duration_limit: "lexicon_ok lx \<Longrightarrow> raw_duration_of_str lx t = Inr d \<Longrightarrow> d < DURATION_LIMIT"
  using units_duration_limit [of lx] by (auto simp: raw_duration_of_str_def DURATION_LIMIT_def split: if_splits)

text \<open>Settled, but for a floor no stamp can carry back.\<close>

definition nearly_settled :: "lexicon \<Rightarrow> server_config \<Rightarrow> bool" where
  "nearly_settled lx cfg \<longleftrightarrow> settled_sync (sc_sync cfg)
     \<and> retention_read lx (stc_retain (sc_store cfg))
     \<and> (case stc_cleanup (sc_store cfg) of None \<Rightarrow> True | Some d \<Rightarrow> 0 < d \<and> d < DURATION_LIMIT)
     \<and> stc_max_memory (sc_store cfg) \<noteq> Some 0
     \<and> (\<exists>ms. 0 < ms \<and> ms < 2 ^ 64 \<and> irc_poll (sc_intent_relay cfg) = ms * 1000000)
     \<and> 1 \<le> irc_max_attempts (sc_intent_relay cfg)"

lemma settled_nearly: "settled_config lx cfg \<Longrightarrow> nearly_settled lx cfg"
  by (simp add: settled_config_def nearly_settled_def retention_read_def)

lemma nearly_dated:
  assumes "lexicon_ok lx" and "nearly_settled lx cfg" and "\<forall>t. stc_retain (sc_store cfg) = Since t \<longrightarrow> dated lx t"
  shows "settled_config lx cfg"
proof -
  have "retention_ok lx (stc_retain (sc_store cfg))"
    using assms by (auto simp: nearly_settled_def retention_read_def lexicon_ok_def retention_ok_def)
  then show ?thesis using assms(2) by (simp add: settled_config_def nearly_settled_def)
qed

definition well_formed :: "lexicon \<Rightarrow> server_config \<Rightarrow> bool" where
  "well_formed lx cfg \<longleftrightarrow> nearly_settled lx cfg \<and> stray_field cfg = None"

lemma well_formed_iff: "well_formed lx cfg \<longleftrightarrow> nearly_settled lx cfg \<and> (\<forall>f \<in> set (syc_fields (sc_sync cfg)). known (fc_name f))"
  by (auto simp: well_formed_def stray_field_def find_None_iff)

lemma resolve_fields_known:
  assumes "\<forall>f \<in> set raw. known (rf_name f)" and "f \<in> set (resolve_fields raw dflt)"
  shows "known (fc_name f)"
proof -
  have "known n" if "n \<in> set query_names" for n
    using that by (auto simp: query_names_def known_def queries.from_str_name)
  then show ?thesis using resolve_fields_names(2) [of "fc_name f" raw dflt] assms by force
qed

lemma raw_of_settings_names: "raw_of_settings fs = Inr raw \<Longrightarrow> \<forall>f \<in> set raw. known (rf_name f)"
  by (auto simp: raw_of_settings_known find_None_iff split: option.splits)

lemma patched_sync_ok:
  assumes "settled_sync current" and "\<forall>f \<in> set (syc_fields current). known (fc_name f)"
    and "patched_sync current patch = Inr sync"
  shows "settled_sync sync \<and> (\<forall>f \<in> set (syc_fields sync). known (fc_name f))"
proof (cases "sync = current")
  case False
  then obtain p where p: "patch = Some p" using assms(3) by (cases patch) (auto simp: patched_sync_def)
  let ?i = "case sp_interval_secs p of None \<Rightarrow> syc_default_interval current | Some s \<Rightarrow> handle_interval s"
  obtain raw where raw: "(case sp_fields p of Some fs \<Rightarrow> raw_of_settings fs
      | None \<Rightarrow> Inr (map (\<lambda>f. named (fc_name f)) (syc_fields current))) = Inr raw"
    and sync: "sync = \<lparr>syc_default_interval = ?i, syc_fields = resolve_fields raw ?i\<rparr>"
    using assms(3) False by (auto simp: patched_sync_def p Let_def split: if_splits sum.splits)
  have "whole_secs ?i" using assms(1) whole_handle by (simp add: settled_sync_def split: option.split)
  moreover have "\<forall>f \<in> set raw. known (rf_name f)"
    using raw raw_of_settings_names assms(2) by (auto simp: named_def split: option.splits)
  ultimately show ?thesis using settled_sync_resolved resolve_fields_known unfolding sync by simp
qed (use assms in auto)

lemma setting_value_Inl [simp]: "setting_value key (Inl e) = Inl (Malformed (key @ '': '' @ e))"
  by (simp add: setting_value_def)

lemma setting_value_eq: "setting_value key r = Inr v \<longleftrightarrow> r = Inr v"
  by (simp add: setting_value_def split: sum.split)

lemma patched_store_ok:
  assumes "lexicon_ok lx" and "patched_store lx current patch = Inr st"
    and "retention_read lx (stc_retain current)" and "stc_max_memory current \<noteq> Some 0"
    and "case stc_cleanup current of None \<Rightarrow> True | Some d \<Rightarrow> 0 < d \<and> d < DURATION_LIMIT"
  shows "retention_read lx (stc_retain st) \<and> stc_max_memory st \<noteq> Some 0
    \<and> (case stc_cleanup st of None \<Rightarrow> True | Some d \<Rightarrow> 0 < d \<and> d < DURATION_LIMIT)"
proof (cases patch)
  case (Some p)
  have read: "map_sum id h x = Inr v \<longleftrightarrow> (\<exists>w. x = Inr w \<and> v = h w)" for h x v
    by (cases x) auto
  obtain retain cleanup m where parts:
    "(case stp_retain p of None \<Rightarrow> Inr (stc_retain current)
        | Some text \<Rightarrow> setting_value ''store.retain'' (retention_of_str lx text)) = Inr retain"
    "(case stp_cleanup_interval p of None \<Rightarrow> Inr (stc_cleanup current)
        | Some text \<Rightarrow> map_sum id handle_cleanup (setting_value ''store.cleanup_interval'' (raw_duration_of_str lx text)))
       = Inr cleanup"
    "(case stp_max_memory p of None \<Rightarrow> Inr (stc_max_memory current)
        | Some text \<Rightarrow> map_sum id handle_budget (setting_value ''store.max_memory'' (raw_bytes_of_str text))) = Inr m"
    and st: "st = \<lparr>stc_retain = retain, stc_cleanup = cleanup, stc_max_memory = m,
       stc_cleanup_on_remove = stc_cleanup_on_remove current\<rparr>"
    using assms(2) unfolding Some patched_store_def by (simp split: sum.splits)
  have "retention_read lx retain"
    using parts(1) assms(3) retention_of_str_ok [OF assms(1)] by (auto simp: setting_value_eq split: option.splits)
  moreover have "m \<noteq> Some 0"
    using parts(3) assms(4) by (auto simp: read handle_budget_def split: option.splits if_splits)
  moreover have "case cleanup of None \<Rightarrow> True | Some d \<Rightarrow> 0 < d \<and> d < DURATION_LIMIT"
    using parts(2) assms(5) raw_duration_limit [OF assms(1)]
    by (auto simp: read setting_value_eq handle_cleanup_def split: option.splits if_splits)
  ultimately show ?thesis by (simp add: st)
qed (use assms in \<open>simp add: patched_store_def\<close>)

lemma patched_well_formed:
  assumes "lexicon_ok lx" and "well_formed lx current" and "patched lx current patch = Inr n"
  shows "well_formed lx n"
proof -
  have ok: "nearly_settled lx current" "\<forall>f \<in> set (syc_fields (sc_sync current)). known (fc_name f)"
    using assms(2) by (simp_all add: well_formed_iff)
  obtain sync st where sync: "patched_sync (sc_sync current) (cp_sync patch) = Inr sync"
    and st: "patched_store lx (sc_store current) (cp_store patch) = Inr st"
    and n: "n = \<lparr>sc_inventory = sc_inventory current,
       sc_intent_relay = patched_relay (sc_intent_relay current) (cp_intent_relay patch),
       sc_sync = sync, sc_store = st, sc_http = sc_http current\<rparr>"
    using assms(3) by (auto simp: patched_def split: option.splits sum.splits)
  have poll: "\<exists>ms. 0 < ms \<and> ms < 2 ^ 64 \<and> irc_poll (sc_intent_relay n) = ms * 1000000"
    "1 \<le> irc_max_attempts (sc_intent_relay n)"
    using ok(1) handle_poll_settled
    by (auto simp: n nearly_settled_def patched_relay_def effective_attempts_def split: option.split)
  show ?thesis
    using patched_sync_ok [OF _ ok(2) sync] patched_store_ok [OF assms(1) st] ok(1) poll
    by (simp add: well_formed_iff nearly_settled_def) (simp add: n)
qed


text \<open>Publishing the config already in force changes nothing.\<close>

lemma enforce_capped_id: "capped b \<Longrightarrow> enforce b = (b, [])"
proof -
  have "take_over_budget n b = (b, [])" if "used b \<le> n \<or> bk_queue b = []" for n
    using that by (subst take_over_budget.simps) (auto split: list.split)
  then show "capped b \<Longrightarrow> ?thesis" by (simp add: enforce_def capped_def split: option.splits)
qed

lemma set_budget_same: "capped (st_books st) \<Longrightarrow> fst (set_budget (bk_budget (st_books st)) st) = st"
  by (simp add: set_budget_def recap_def enforce_capped_id drop_front_def)

lemma publish_same:
  assumes "in_force ls" and "capped (st_books (li_store ls))"
  shows "publish lx (li_current ls) ls = (live_current lx ls, ls)"
proof -
  have "set_max_attempts (unat (irc_max_attempts (sc_intent_relay (li_current ls)))) (li_outbox ls) = li_outbox ls"
    using assms(1) by (simp add: set_max_attempts_def in_force_def)
  moreover have "fst (set_budget (budget_of (sc_store (li_current ls))) (li_store ls)) = li_store ls"
    using assms set_budget_same [OF assms(2)] by (simp add: in_force_def)
  ultimately show ?thesis using assms(1) by (simp add: publish_def live_current_def in_force_def)
qed

lemma well_formed_step:
  assumes "lexicon_ok lx" and "live_step lx l ch ls ls'" and "well_formed lx (li_current ls)"
  shows "well_formed lx (li_current ls')"
proof -
  have request: "well_formed lx (li_current (snd (live_apply lx patch ls)))" for patch
    using request_publishes(1) [of lx patch ls] patched_well_formed [OF assms(1,3)] assms(3) by auto
  show ?thesis using assms(2)
  proof (cases rule: live_step.cases)
    case (live_step_reload path loaded)
    then show ?thesis using request_publishes(2) [of lx path loaded ls] request assms(3) by auto
  qed (use request assms(3) in simp_all)
qed

text \<open>
  C13. The running settings are well-formed for as long as the server runs, and so what it serves can be
  sent back. Start from any file that names only fields core can query. Whatever
  requests, reloads, sweeps, reads and removals follow: every scheduled field is known, canonical and
  listed once, every interval is a positive number of whole seconds or never, windows and budgets
  are not zero, the relay waits at least a millisecond and tries at least once; and, unless the retention floor
  in force is a date outside the years 0 to 9999, the document served at that moment, sent back as a patch, is
  accepted, is answered with itself, and leaves the schedule, the policies, the store and the outbox exactly as they were.
\<close>

theorem served_document_is_inert:
  assumes "lexicon_ok lx" and "raw_settled lx raw"
    and "cfg = with_overrides ov (resolve_server_config base raw)" and "stray_field cfg = None"
    and "(live_step lx l ch)\<^sup>*\<^sup>* (start_live_settings cfg) ls"
  shows "nearly_settled lx (li_current ls) \<and> stray_field (li_current ls) = None
    \<and> ((\<forall>t. stc_retain (sc_store (li_current ls)) = Since t \<longrightarrow> dated lx t)
        \<longrightarrow> live_apply lx (as_patch (live_current lx ls)) ls = (Inr (live_current lx ls), ls))"
proof -
  have "well_formed lx cfg \<and> live_ok l (start_live_settings cfg)"
    using assms(2,4) live_ok_start settled_nearly [OF resolved_settled] by (simp add: well_formed_def assms(3))
  then have start: "well_formed lx (li_current (start_live_settings cfg)) \<and> live_ok l (start_live_settings cfg)"
    by (simp add: start_live_settings_def new_live_settings_def)
  have now: "well_formed lx (li_current ls) \<and> live_ok l ls"
    using assms(5) start
    by (induction rule: rtranclp_induct) (use well_formed_step [OF assms(1)] live_ok_step in metis)+
  then have ok: "nearly_settled lx (li_current ls)" "stray_field (li_current ls) = None"
    "in_force ls" "capped (st_books (li_store ls))"
    by (auto simp: well_formed_def live_ok_def intro: store_reachable_capped)
  have "durations_read_back lx" using assms(1) by (simp add: lexicon_ok_def)
  note doc = patched_document [OF this nearly_dated [OF assms(1) ok(1)], of "li_current ls"]
  have "live_apply lx (as_patch (live_current lx ls)) ls = (Inr (live_current lx ls), ls)"
    if dates: "\<forall>t. stc_retain (sc_store (li_current ls)) = Since t \<longrightarrow> dated lx t"
  proof -
    have "patched lx (li_current ls) (as_patch (live_current lx ls)) = Inr (li_current ls)"
      using doc [OF dates] ok(2) by (simp add: live_current_def)
    then show ?thesis using ok by (simp add: live_apply_def publish_same)
  qed
  then show ?thesis using ok by blast
qed

lemma ticks_read_back: "floor_reads_back plain_lexicon (replicate n CHR ''t'')"
proof -
  have t: "graphic CHR ''t''" "char_lower CHR ''t'' = CHR ''t''" "\<not> is_ascii_digit CHR ''t''" by code_simp+
  have trim: "trim (replicate n CHR ''t'') = replicate n CHR ''t''"
  proof (cases "n = 0")
    case True
    have "trim [] = []" by code_simp
    with True show ?thesis by simp
  qed (simp add: trim_graphic t(1))
  have "parse_uint (replicate n CHR ''t'') = (None :: 64 word option)"
    using t(3) by (cases n) (simp_all add: parse_uint_def strip_plus_def)
  moreover have "drop (n - 2) (replicate n CHR ''t'') \<noteq> ''ns''"
  proof
    assume ns: "drop (n - 2) (replicate n CHR ''t'') = ''ns''"
    have "CHR ''n'' \<in> set (drop (n - 2) (replicate n CHR ''t''))" unfolding ns by simp
    then show False using set_drop_subset [of "n - 2" "replicate n CHR ''t''"] by auto
  qed
  moreover have "\<not> eq_ignore_ascii_case (replicate n CHR ''t'') FOREVER"
    by (cases n) (auto simp: eq_ignore_ascii_case_def to_ascii_lowercase_def FOREVER_def t(2) char_lower_def)
  ultimately show ?thesis
    by (simp add: floor_reads_back_def retention_of_str_def Let_def trim units_duration_def units_instant_def
        plain_lexicon_def plain_duration_def tick_chrono_def stamp_def)
qed

lemma plain_lexicon_ok: "lexicon_ok plain_lexicon"
proof -
  have "plain_duration t = Inr d \<Longrightarrow> d < DURATION_LIMIT" for t d
    by (auto simp: plain_duration_def split: if_splits option.splits)
  then have "\<forall>t d. parse_duration plain_lexicon t = Inr d \<longrightarrow> d < DURATION_LIMIT" by (simp add: plain_lexicon_def)
  moreover have "stamp plain_lexicon i = replicate (nat i) CHR ''t''" for i
    by (simp add: stamp_def plain_lexicon_def tick_chrono_def)
  ultimately show ?thesis using plain_lexicon_reads_back ticks_read_back by (auto simp: lexicon_ok_def dated_def)
qed

theorem served_document_is_inert_witness:
  "let ls = snd (live_apply plain_lexicon (relay_patch_of 50) (start_live_settings (small_config [''FIRMWARE''])))
   in stc_retain (sc_store (li_current ls)) = Age (seconds (24 * 60 * 60))
    \<and> live_apply plain_lexicon (as_patch (live_current plain_lexicon ls)) ls = (Inr (live_current plain_lexicon ls), ls)"
proof -
  let ?ls = "start_live_settings (small_config [''FIRMWARE''])"
  let ?ls' = "snd (live_apply plain_lexicon (relay_patch_of 50) ?ls)"
  have run: "(live_step plain_lexicon tiny_layout (lx_chrono plain_lexicon))\<^sup>*\<^sup>* ?ls ?ls'"
    by (intro r_into_rtranclp live_step_apply)
  have none: "stray_field (small_config [''FIRMWARE'']) = None"
    by (simp add: stray_field_def small_firmware small_names)
  have age: "stc_retain (sc_store (li_current ?ls')) = Age (seconds (24 * 60 * 60))"
    by (simp add: live_apply_cases patched_def relay_patch_of_def fixed_refusal_def inventory_refusal_of_def patched_sync_def
        patched_store_def patched_relay_def start_live_settings_def new_live_settings_def small_config_def small_raw_def
        with_overrides_def resolve_server_config_def get_or_def empty_raw_store_def Let_def)
  show ?thesis
    using served_document_is_inert [OF plain_lexicon_ok small_raw_settled small_config_def none run] age by (simp add: Let_def)
qed

end
