(* ===== verification/Sis_Api.thy ===== *)
theory Sis_Api
  imports Sis_Live Sis_Fleet
begin

text \<open>
  \<^verbatim>\<open>sismatic-http-api\<close>: how a failure becomes a response (\<^verbatim>\<open>handlers/error.rs\<close>), which URL space an
  id belongs in (\<^verbatim>\<open>handlers/target.rs\<close>), minted ids (\<^verbatim>\<open>stamp.rs\<close>) and the write routes
  (\<^verbatim>\<open>handlers/writes.rs\<close>).

  The ports are the in-memory adapters, which never fail to answer. The injected function behind
  \<^verbatim>\<open>Stamp\<close> is the argument \<open>mk\<close>: the pair its \<open>n\<close>-th call returns. Routing, extraction and
  serialisation are actix's and serde's; a handler starts from the extracted values.
\<close>


section \<open>Failures\<close>

datatype api_failure =
    AFNotFound string
  | AFBadRequest string
  | AFStore store_error
  | AFSubmit submit_error
  | AFRejected rejection string
  | AFInventory inventory_refusal
  | AFConfig config_refusal

fun show_config_refusal :: "config_refusal \<Rightarrow> string" where
  "show_config_refusal (CMalformed msg) = msg"
| "show_config_refusal (CFixed msg) = msg"
| "show_config_refusal (CSource msg) = msg"

fun show_api_failure :: "api_failure \<Rightarrow> string" where
  "show_api_failure (AFNotFound msg) = msg"
| "show_api_failure (AFBadRequest msg) = msg"
| "show_api_failure (AFStore e) = show_read_error e"
| "show_api_failure (AFSubmit e) = ae_error (api_error_of_submit e)"
| "show_api_failure (AFRejected rej msg) = msg"
| "show_api_failure (AFInventory e) = show_inventory_refusal e"
| "show_api_failure (AFConfig e) = show_config_refusal e"

fun failure_body :: "api_failure \<Rightarrow> api_error" where
  "failure_body (AFNotFound msg) = api_coded NotFound msg"
| "failure_body (AFBadRequest msg) = api_coded BadInstruction msg"
| "failure_body (AFStore e) = api_coded Internal (show_read_error e)"
| "failure_body (AFSubmit e) = api_error_of_submit e"
| "failure_body (AFRejected rej msg) = api_rejected rej msg"
| "failure_body (AFInventory e) =
     api_coded (case e of IMalformed _ \<Rightarrow> BadRequest | IDuplicate _ \<Rightarrow> Conflict | IBlocked _ \<Rightarrow> Conflict
                | IUnknown _ \<Rightarrow> UnknownDevice | ISource _ \<Rightarrow> Internal) (show_inventory_refusal e)"
| "failure_body (AFConfig e) =
     api_coded (case e of CMalformed _ \<Rightarrow> BadRequest | CFixed _ \<Rightarrow> Conflict | CSource _ \<Rightarrow> Internal)
       (show_config_refusal e)"

fun status_code :: "api_failure \<Rightarrow> nat" where
  "status_code (AFNotFound msg) = 404"
| "status_code (AFBadRequest msg) = 400"
| "status_code (AFStore e) = 500"
| "status_code (AFSubmit e) = (if ae_code (failure_body (AFSubmit e)) = Some Conflict then 409 else 500)"
| "status_code (AFRejected rej msg) = 409"
| "status_code (AFInventory e) =
     (case e of IMalformed _ \<Rightarrow> 400 | IDuplicate _ \<Rightarrow> 409 | IBlocked _ \<Rightarrow> 409 | IUnknown _ \<Rightarrow> 404 | ISource _ \<Rightarrow> 500)"
| "status_code (AFConfig e) = (case e of CMalformed _ \<Rightarrow> 400 | CFixed _ \<Rightarrow> 409 | CSource _ \<Rightarrow> 500)"


section \<open>Which URL space an id belongs in\<close>

definition READS :: string where "READS = ''reads''"
definition WRITES :: string where "WRITES = ''writes''"
definition INVENTORY :: string where "INVENTORY = ''inventory''"

definition group_members :: "memory_catalog \<Rightarrow> string \<Rightarrow> string \<Rightarrow> string \<Rightarrow> api_failure + device_id list" where
  "group_members cat i scope device_route =
     (case catalog_group cat i of
        Some g \<Rightarrow> Inr (gs_members g)
      | None \<Rightarrow>
          Inl (AFNotFound
            (if catalog_device cat i \<noteq> None
             then quoted i @ '' is a device, not a device group; try /v1/'' @ scope @ ''/devices/'' @ i @ ''/'' @ device_route
             else ''no device group '' @ quoted i @ '' is configured'')))"

definition reject_group :: "memory_catalog \<Rightarrow> string \<Rightarrow> string \<Rightarrow> string \<Rightarrow> api_failure option" where
  "reject_group cat i scope group_route =
     (if catalog_group cat i \<noteq> None
      then Some (AFNotFound (quoted i @ '' is a device group, not a device; try /v1/'' @ scope @ ''/groups/'' @ i @ ''/''
             @ group_route))
      else None)"

definition reject_group_bare :: "memory_catalog \<Rightarrow> string \<Rightarrow> string \<Rightarrow> api_failure option" where
  "reject_group_bare cat i scope =
     (if catalog_group cat i \<noteq> None
      then Some (AFNotFound (quoted i @ '' is a device group, not a device; try /v1/'' @ scope @ ''/groups/'' @ i))
      else None)"

definition normalize_field :: "string \<Rightarrow> field_name" where
  "normalize_field raw = to_ascii_uppercase (map (\<lambda>c. if c = CHR ''-'' then CHR ''_'' else c) raw)"


section \<open>The write routes\<close>

type_synonym minter = "nat \<Rightarrow> write_id \<times> timestamp"

record api =
  ap_catalog :: memory_catalog
  ap_outbox :: outbox
  ap_store :: store
  ap_minted :: nat

record accepted_response =
  ar_location :: "string option"
  ar_body :: acceptance

definition next_stamp :: "minter \<Rightarrow> api \<Rightarrow> (write_id \<times> timestamp) \<times> api" where
  "next_stamp mk a = (mk (ap_minted a), a\<lparr>ap_minted := ap_minted a + 1\<rparr>)"

fun mint :: "minter \<Rightarrow> device_id list \<Rightarrow> api \<Rightarrow> (write_id \<times> timestamp) list \<times> api" where
  "mint mk [] a = ([], a)"
| "mint mk (d # ds) a =
     (let (s, a) = next_stamp mk a; (rest, a) = mint mk ds a in (s # rest, a))"

fun needs_rendezvous :: "intent \<Rightarrow> bool" where
  "needs_rendezvous StartRecording = True"
| "needs_rendezvous StopRecording = True"
| "needs_rendezvous PauseRecording = True"
| "needs_rendezvous (SetMetadata f v) = False"
| "needs_rendezvous (SetSetting f v) = False"

fun field_of :: "intent \<Rightarrow> field_name option" where
  "field_of StartRecording = None"
| "field_of StopRecording = None"
| "field_of PauseRecording = None"
| "field_of (SetMetadata f v) = Some f"
| "field_of (SetSetting f v) = Some f"

definition refusing :: "memory_catalog \<Rightarrow> device_id list \<Rightarrow> field_name \<Rightarrow> device_id list" where
  "refusing cat targets field =
     List.map_filter (\<lambda>t. case catalog_device cat t of
         None \<Rightarrow> None
       | Some d \<Rightarrow> if field \<in> set (ds_disabled_fields d) then Some (ds_id d) else None) targets"

definition reject_disabled_field :: "memory_catalog \<Rightarrow> device_id list \<Rightarrow> intent \<Rightarrow> api_failure option" where
  "reject_disabled_field cat targets i =
     (case field_of i of
        None \<Rightarrow> None
      | Some field \<Rightarrow>
          (let refusing = refusing cat targets field
           in if refusing = [] then None
              else Some (AFRejected FieldDisabled
                     (''`'' @ field @ ''` is disabled in the devices file for '' @ join '', '' refusing
                      @ ''; no part of this write was recorded. Remove it from that device's `disabled_fields`, or address the other devices individually.''))))"

text \<open>
  \<open>submit\<close>. The batch id is minted first, then one id per target; \<open>None\<close> is the panic of a group
  without members. The reply names the write when there is exactly one.
\<close>

definition submit_write :: "minter \<Rightarrow> device_id list \<Rightarrow> group_summary option \<Rightarrow> intent \<Rightarrow> string option \<Rightarrow> api
    \<Rightarrow> api \<times> (api_failure + accepted_response) option" where
  "submit_write mk targets grp i key a =
     (case reject_disabled_field (ap_catalog a) targets i of
        Some e \<Rightarrow> (a, Some (Inl e))
      | None \<Rightarrow>
          (let (batch, a) =
                 (if grp \<noteq> None \<and> needs_rendezvous i \<and> 1 < length targets
                  then (case next_stamp mk a of (s, a) \<Rightarrow> (Some (fst s), a)) else (None, a));
               barrier = map_option (\<lambda>g. \<lparr>bp_timeout = seconds (gs_barrier_timeout_secs g), bp_on_timeout = gs_barrier g\<rparr>) grp;
               (minted, a) = mint mk targets a
           in case minted of
                [] \<Rightarrow> (a, None)
              | first # _ \<Rightarrow>
                  (case submit \<lparr>su_ids = map fst minted, su_targets = targets, su_group = map_option gs_id grp,
                                su_batch = batch, su_barrier = barrier, su_intent = i, su_at = snd first,
                                su_key = key\<rparr> (ap_outbox a) of
                     (ob, Inl e) \<Rightarrow> (a\<lparr>ap_outbox := ob\<rparr>, Some (Inl (AFSubmit e)))
                   | (ob, Inr acc) \<Rightarrow>
                       (a\<lparr>ap_outbox := ob\<rparr>,
                        Some (Inr \<lparr>ar_location = (case acc_writes acc of [only] \<Rightarrow> Some (''/v1/writes/'' @ ac_id only)
                                                  | _ \<Rightarrow> None),
                                   ar_body = acc\<rparr>)))))"

definition submit_device :: "minter \<Rightarrow> device_id \<Rightarrow> string \<Rightarrow> intent \<Rightarrow> string option \<Rightarrow> api
    \<Rightarrow> api \<times> (api_failure + accepted_response) option" where
  "submit_device mk device group_route i key a =
     (case reject_group (ap_catalog a) device WRITES group_route of
        Some e \<Rightarrow> (a, Some (Inl e))
      | None \<Rightarrow>
          if catalog_device (ap_catalog a) device = None
          then (a, Some (Inl (AFNotFound (''no device '' @ quoted device @ '' is configured''))))
          else submit_write mk [device] None i key a)"

definition submit_group :: "minter \<Rightarrow> group_id \<Rightarrow> string \<Rightarrow> intent \<Rightarrow> string option \<Rightarrow> api
    \<Rightarrow> api \<times> (api_failure + accepted_response) option" where
  "submit_group mk grp device_route i key a =
     (case group_members (ap_catalog a) grp WRITES device_route of
        Inl e \<Rightarrow> (a, Some (Inl e))
      | Inr targets \<Rightarrow> submit_write mk targets (catalog_group (ap_catalog a) grp) i key a)"

text \<open>The ten routes.\<close>

definition route_start_recording where
  "route_start_recording mk device key = submit_device mk device ''recording/start'' StartRecording key"

definition route_stop_recording where
  "route_stop_recording mk device key = submit_device mk device ''recording/stop'' StopRecording key"

definition route_pause_recording where
  "route_pause_recording mk device key = submit_device mk device ''recording/pause'' PauseRecording key"

definition route_set_metadata where
  "route_set_metadata mk device field value key =
     submit_device mk device (''metadata/'' @ field) (SetMetadata (normalize_field field) value) key"

definition route_set_setting where
  "route_set_setting mk device field value key =
     submit_device mk device (''settings/'' @ field) (SetSetting (normalize_field field) value) key"

definition route_start_group_recording where
  "route_start_group_recording mk grp key = submit_group mk grp ''recording/start'' StartRecording key"

definition route_stop_group_recording where
  "route_stop_group_recording mk grp key = submit_group mk grp ''recording/stop'' StopRecording key"

definition route_pause_group_recording where
  "route_pause_group_recording mk grp key = submit_group mk grp ''recording/pause'' PauseRecording key"

definition route_set_group_metadata where
  "route_set_group_metadata mk grp field value key =
     submit_group mk grp (''metadata/'' @ field) (SetMetadata (normalize_field field) value) key"

definition route_set_group_setting where
  "route_set_group_setting mk grp field value key =
     submit_group mk grp (''settings/'' @ field) (SetSetting (normalize_field field) value) key"


section \<open>Reading writes back\<close>

definition route_read_write :: "outbox \<Rightarrow> write_id \<Rightarrow> api_failure + write_record" where
  "route_read_write ob i =
     (case write_of ob i of
        Some r \<Rightarrow> Inr r
      | None \<Rightarrow> Inl (AFNotFound (''no write '' @ quoted i)))"

definition route_read_desired :: "memory_catalog \<Rightarrow> outbox \<Rightarrow> device_id
    \<Rightarrow> api_failure + desired_recording_state \<times> nat" where
  "route_read_desired cat ob d =
     (case reject_group cat d WRITES ''recording'' of Some e \<Rightarrow> Inl e | None \<Rightarrow> Inr (desired_state_of ob d))"

definition route_list_writes :: "memory_catalog \<Rightarrow> outbox \<Rightarrow> device_id \<Rightarrow> api_failure + write_record list" where
  "route_list_writes cat ob d =
     (case reject_group cat d WRITES ''history'' of Some e \<Rightarrow> Inl e | None \<Rightarrow> Inr (writes_for ob d))"

record group_desired =
  gd_group :: group_id
  gd_desired :: "desired_recording_state option"
  gd_members :: "(device_id \<times> desired_recording_state \<times> nat) list"

definition group_desired_state :: "outbox \<Rightarrow> group_id \<Rightarrow> device_id list \<Rightarrow> group_desired" where
  "group_desired_state ob grp ids =
     (let members = map (\<lambda>d. (d, desired_state_of ob d)) ids
      in \<lparr>gd_group = grp,
          gd_desired = (case members of
             [] \<Rightarrow> None
           | first # _ \<Rightarrow> if \<forall>m \<in> set members. fst (snd m) = fst (snd first) then Some (fst (snd first)) else None),
          gd_members = members\<rparr>)"

definition route_group_desired :: "memory_catalog \<Rightarrow> outbox \<Rightarrow> group_id \<Rightarrow> api_failure + group_desired" where
  "route_group_desired cat ob grp =
     (case group_members cat grp WRITES ''recording'' of
        Inl e \<Rightarrow> Inl e
      | Inr ids \<Rightarrow> Inr (group_desired_state ob grp ids))"

definition route_list_group_writes :: "memory_catalog \<Rightarrow> outbox \<Rightarrow> group_id
    \<Rightarrow> api_failure + (device_id \<times> write_record list) list" where
  "route_list_group_writes cat ob grp =
     (case group_members cat grp WRITES ''history'' of
        Inl e \<Rightarrow> Inl e
      | Inr ids \<Rightarrow> Inr (map (\<lambda>d. (d, writes_for ob d)) ids))"

end
