(* ===== verification/Sis_Inventory.thy ===== *)
theory Sis_Inventory
  imports Sis_Api Sis_Relay
begin

text \<open>
  The inventory routes of \<^verbatim>\<open>sismatic-http-api/src/handlers/devices.rs\<close>, the live state they overlay
  (\<^verbatim>\<open>sismatic-store/src/status.rs\<close>, \<^verbatim>\<open>sismatic-server/src/status.rs\<close>), the config routes
  (\<^verbatim>\<open>handlers/config.rs\<close>) and the published catalogs (\<^verbatim>\<open>handlers/instructions.rs\<close>, built in
  \<^verbatim>\<open>sismatic-server/src/lib.rs\<close>).

  The clock and the connection locks of the moment are arguments: \<open>locked h\<close> says that a call holds
  the lock of device \<open>h\<close>, \<open>t h\<close> is the instant at which it is looked at.
\<close>


section \<open>What a device is doing\<close>

record device_observation =
  ov_connection :: connection_status
  ov_auto_disabled :: "auto_disabled_dto list"

definition default_observation :: device_observation where
  "default_observation = \<lparr>ov_connection = StatusUnknown, ov_auto_disabled = []\<rparr>"

fun connection_to_dto :: "connectivity \<Rightarrow> connection_status" where
  "connection_to_dto Warm = StatusWarm"
| "connection_to_dto Busy = StatusBusy"
| "connection_to_dto Cold = StatusCold"
| "connection_to_dto Gated = StatusGated"

definition to_field_dto :: "auto_disabled_field \<Rightarrow> auto_disabled_dto" where
  "to_field_dto f = \<lparr>af_name = ad_name f, af_refusals = ad_refusals f, af_disabled = ad_disabled f,
     af_retry_in_secs = map_option as_secs (ad_retry_in f)\<rparr>"

definition observe_device :: "device \<Rightarrow> bool \<Rightarrow> instant \<Rightarrow> device_observation" where
  "observe_device dev locked t =
     \<lparr>ov_connection = connection_to_dto (connectivity dev locked t),
      ov_auto_disabled = map to_field_dto (snapshot (dv_auto_disabled dev) t)\<rparr>"

definition status_observe :: "registry \<Rightarrow> (handle \<Rightarrow> bool) \<Rightarrow> (handle \<Rightarrow> instant) \<Rightarrow> string \<Rightarrow> device_observation" where
  "status_observe rg locked t i =
     (case registry_device rg i of
        None \<Rightarrow> default_observation
      | Some h \<Rightarrow> observe_device (deref rg h) (locked h) (t h))"

definition status_all :: "registry \<Rightarrow> (handle \<Rightarrow> bool) \<Rightarrow> (handle \<Rightarrow> instant) \<Rightarrow> (string, device_observation) omap" where
  "status_all rg locked t =
     ocollect (map (\<lambda>h. (dc_id (handle_config rg h), observe_device (deref rg h) (locked h) (t h))) (registry_devices rg))"


section \<open>Reading the inventory\<close>

record device_detail =
  dd_device :: device_summary
  dd_latest :: "read list"

definition overlay :: "device_observation \<Rightarrow> device_summary \<Rightarrow> device_summary" where
  "overlay seen d = d\<lparr>ds_status := ov_connection seen, ds_auto_disabled_fields := ov_auto_disabled seen\<rparr>"

definition route_list_devices :: "memory_catalog \<Rightarrow> (string, device_observation) omap \<Rightarrow> device_summary list" where
  "route_list_devices cat running =
     map (\<lambda>d. case map_of running (ds_id d) of Some seen \<Rightarrow> overlay seen d | None \<Rightarrow> d) (mc_devices cat)"

definition route_read_device :: "memory_catalog \<Rightarrow> (string \<Rightarrow> device_observation) \<Rightarrow> store \<Rightarrow> string
    \<Rightarrow> api_failure + device_detail" where
  "route_read_device cat status st i =
     (case reject_group_bare cat i INVENTORY of
        Some e \<Rightarrow> Inl e
      | None \<Rightarrow>
          (case catalog_device cat i of
             None \<Rightarrow> Inl (AFNotFound (''no device '' @ quoted i @ '' is configured''))
           | Some d \<Rightarrow> Inr \<lparr>dd_device = overlay (status i) d, dd_latest = latest_all st i\<rparr>))"

definition route_list_groups :: "memory_catalog \<Rightarrow> group_summary list" where
  "route_list_groups cat = mc_groups cat"

definition route_read_group :: "memory_catalog \<Rightarrow> string \<Rightarrow> api_failure + group_summary" where
  "route_read_group cat i =
     (case catalog_group cat i of
        Some g \<Rightarrow> Inr g
      | None \<Rightarrow>
          Inl (AFNotFound
            (if catalog_device cat i \<noteq> None
             then quoted i @ '' is a device, not a group; try /v1/inventory/devices/'' @ i
             else ''no group '' @ quoted i @ '' is configured'')))"


section \<open>Changing the inventory\<close>

text \<open>A reply with a \<^verbatim>\<open>Location\<close> header. \<open>None\<close> is the panic of the resolver.\<close>

record 'a created =
  cr_location :: string
  cr_body :: 'a

definition refused_as :: "live_fleet \<times> (inventory_refusal + 'a) option \<Rightarrow> live_fleet \<times> (api_failure + 'a) option" where
  "refused_as x = (fst x, map_option (map_sum AFInventory id) (snd x))"

definition route_add_device :: "fleet_env \<Rightarrow> device_write \<Rightarrow> live_fleet
    \<Rightarrow> live_fleet \<times> (api_failure + device_summary created) option" where
  "route_add_device E w fl =
     (case refused_as (fleet_add E w fl) of
        (fl, res) \<Rightarrow> (fl, map_option (map_sum id
          (\<lambda>d. \<lparr>cr_location = ''/v1/inventory/devices/'' @ ds_id d, cr_body = d\<rparr>)) res))"

definition route_replace_device :: "fleet_env \<Rightarrow> string \<Rightarrow> device_write \<Rightarrow> live_fleet
    \<Rightarrow> live_fleet \<times> (api_failure + device_summary) option" where
  "route_replace_device E i w fl = refused_as (fleet_replace E i w fl)"

definition route_remove_device :: "fleet_env \<Rightarrow> string \<Rightarrow> live_fleet \<Rightarrow> live_fleet \<times> (api_failure + removed) option" where
  "route_remove_device E i fl = refused_as (fleet_remove E i fl)"

definition route_add_group :: "fleet_env \<Rightarrow> group_write_body \<Rightarrow> live_fleet
    \<Rightarrow> live_fleet \<times> (api_failure + group_summary created) option" where
  "route_add_group E w fl =
     (case refused_as (fleet_add_group E w fl) of
        (fl, res) \<Rightarrow> (fl, map_option (map_sum id
          (\<lambda>g. \<lparr>cr_location = ''/v1/inventory/groups/'' @ gs_id g, cr_body = g\<rparr>)) res))"

definition route_replace_group :: "fleet_env \<Rightarrow> string \<Rightarrow> group_write_body \<Rightarrow> live_fleet
    \<Rightarrow> live_fleet \<times> (api_failure + group_summary) option" where
  "route_replace_group E i w fl = refused_as (fleet_replace_group E i w fl)"

definition route_remove_group :: "fleet_env \<Rightarrow> string \<Rightarrow> live_fleet \<Rightarrow> live_fleet \<times> (api_failure + unit) option" where
  "route_remove_group E i fl = refused_as (fleet_remove_group E i fl)"

definition route_reset_config :: "fleet_env \<Rightarrow> config_error + raw_config \<Rightarrow> live_fleet
    \<Rightarrow> live_fleet \<times> (api_failure + device_summary list) option" where
  "route_reset_config E loaded fl = refused_as (fleet_reset E loaded fl)"

fun content_type :: "export_format \<Rightarrow> string" where
  "content_type FToml = ''text/plain; charset=utf-8''"
| "content_type FYaml = ''application/yaml''"
| "content_type FJson = ''application/json''"

fun format_extension :: "export_format \<Rightarrow> string" where
  "format_extension FToml = ''toml''"
| "format_extension FYaml = ''yaml''"
| "format_extension FJson = ''json''"

record exported =
  xp_content_type :: string
  xp_disposition :: string
  xp_body :: string

definition route_export_config :: "fleet_env \<Rightarrow> instant \<Rightarrow> export_query \<Rightarrow> live_fleet
    \<Rightarrow> (api_failure + exported) option" where
  "route_export_config E t q fl =
     map_option (map_sum AFInventory (\<lambda>body. \<lparr>xp_content_type = content_type (eq_format q),
         xp_disposition = ''attachment; filename='' @ [CHR 0x22] @ ''devices.'' @ format_extension (eq_format q) @ [CHR 0x22],
         xp_body = body\<rparr>))
       (fleet_export E t q fl)"


section \<open>The settings routes\<close>

definition route_read_config :: "lexicon \<Rightarrow> live_settings \<Rightarrow> config_document" where
  "route_read_config lx ls = live_current lx ls"

definition route_patch_config :: "lexicon \<Rightarrow> config_patch \<Rightarrow> live_settings
    \<Rightarrow> (api_failure + config_document) \<times> live_settings" where
  "route_patch_config lx patch ls = map_prod (map_sum AFConfig id) id (live_apply lx patch ls)"

definition route_reload_config :: "lexicon \<Rightarrow> string \<Rightarrow> string + server_config \<Rightarrow> live_settings
    \<Rightarrow> (api_failure + config_document) \<times> live_settings" where
  "route_reload_config lx path loaded ls = map_prod (map_sum AFConfig id) id (live_reload lx path loaded ls)"


section \<open>The published catalogs\<close>

record instruction_summary =
  is_name :: field_name
  is_aliases :: "string list"
  is_description :: string

definition summarize_catalog :: "'v catalog \<Rightarrow> instruction_summary list" where
  "summarize_catalog cat =
     map (\<lambda>v. \<lparr>is_name = catalog_name cat v, is_aliases = tl (catalog_accepted cat v),
               is_description = catalog_description cat v\<rparr>) (catalog_all cat)"

definition field_catalog :: "instruction_summary list" where
  "field_catalog = summarize_catalog query_catalog"

record published_writes =
  wc_commands :: "instruction_summary list"
  wc_metadata :: "instruction_summary list"
  wc_settings :: "instruction_summary list"

definition writes_catalog :: published_writes where
  "writes_catalog = \<lparr>wc_commands = summarize_catalog command_catalog, wc_metadata = summarize_catalog register_catalog,
     wc_settings = summarize_catalog setting_catalog\<rparr>"

end
