(* ===== verification/Sis_Api_Reads.thy ===== *)
theory Sis_Api_Reads
  imports Sis_Api
begin

text \<open>
  The read routes of \<^verbatim>\<open>sismatic-http-api\<close>: one device (\<^verbatim>\<open>handlers/reads.rs\<close>), one group
  (\<^verbatim>\<open>handlers/group_reads.rs\<close>), and the two filtered and paged indexes (\<^verbatim>\<open>handlers/fleet_reads.rs\<close> and
  \<^verbatim>\<open>handlers/fleet_group_reads.rs\<close>).
\<close>


section \<open>One device\<close>

record read_query =
  rq_start :: "timestamp option"
  rq_end :: "timestamp option"
  rq_field :: "field_name option"
  rq_limit :: "32 word option"

definition BEGINNING_OF_TIME :: timestamp where "BEGINNING_OF_TIME = ''0000-01-01T00:00:00Z''"
definition END_OF_TIME :: timestamp where "END_OF_TIME = ''9999-12-31T23:59:59Z''"

definition HISTORY_MAX_LIMIT :: "32 word" where "HISTORY_MAX_LIMIT = 10000"
definition HISTORY_DEFAULT_LIMIT :: "32 word" where "HISTORY_DEFAULT_LIMIT = 1000"

definition span_of :: "read_query \<Rightarrow> time_span" where
  "span_of q = \<lparr>ts_start = get_or BEGINNING_OF_TIME (rq_start q), ts_end = get_or END_OF_TIME (rq_end q)\<rparr>"

definition truncate_reads :: "32 word option \<Rightarrow> read list \<Rightarrow> read list" where
  "truncate_reads limit reads =
     (let limit = unat (min (get_or HISTORY_DEFAULT_LIMIT limit) HISTORY_MAX_LIMIT)
      in if limit < length reads then drop (length reads - limit) reads else reads)"

definition reject_conflicting_field :: "read_query \<Rightarrow> field_name \<Rightarrow> api_failure option" where
  "reject_conflicting_field q field =
     (case rq_field q of
        None \<Rightarrow> None
      | Some asked \<Rightarrow>
          if normalize_field asked \<noteq> field
          then Some (AFBadRequest (''field is taken from the path ('' @ quoted field
                 @ ''); remove the conflicting '' @ quoted (''?field='' @ normalize_field asked)))
          else None)"

definition route_list_fields :: "memory_catalog \<Rightarrow> store \<Rightarrow> device_id \<Rightarrow> api_failure + read list" where
  "route_list_fields cat st device =
     (case reject_group cat device READS ''fields'' of Some e \<Rightarrow> Inl e | None \<Rightarrow> Inr (latest_all st device))"

definition route_read_field :: "memory_catalog \<Rightarrow> store \<Rightarrow> device_id \<Rightarrow> string \<Rightarrow> api_failure + read" where
  "route_read_field cat st device raw =
     (let field = normalize_field raw
      in case reject_group cat device READS (''fields/'' @ field) of
           Some e \<Rightarrow> Inl e
         | None \<Rightarrow>
             (case latest st device field of
                Some r \<Rightarrow> Inr r
              | None \<Rightarrow> Inl (AFNotFound (''no read of '' @ quoted field @ '' for device '' @ quoted device))))"

definition route_field_history :: "memory_catalog \<Rightarrow> store \<Rightarrow> device_id \<Rightarrow> string \<Rightarrow> read_query
    \<Rightarrow> api_failure + read list" where
  "route_field_history cat st device raw q =
     (let field = normalize_field raw
      in case reject_conflicting_field q field of
           Some e \<Rightarrow> Inl e
         | None \<Rightarrow>
             (case reject_group cat device READS (''fields/'' @ field @ ''/history'') of
                Some e \<Rightarrow> Inl e
              | None \<Rightarrow> Inr (truncate_reads (rq_limit q) (between st device field (span_of q)))))"


section \<open>One group\<close>

datatype group_sync = InSync | Drifted | SyncUnknown

record member_state =
  ms_device :: device_id
  ms_read :: "read option"
  ms_sync :: group_sync

record group_field_state =
  gf_group :: group_id
  gf_field :: field_name
  gf_expected :: "group_expectation option"
  gf_sync :: group_sync
  gf_uniform :: bool
  gf_members :: "member_state list"

record group_state =
  gst_group :: group_id
  gst_sync :: group_sync
  gst_desired :: "desired_recording_state option"
  gst_fields :: "group_field_state list"

definition member_of :: "group_expectation option \<Rightarrow> device_id \<times> read option \<Rightarrow> member_state" where
  "member_of expectation observed =
     \<lparr>ms_device = fst observed, ms_read = snd observed,
      ms_sync = (case (expectation, snd observed) of
         (Some e, Some r) \<Rightarrow> if satisfies (ge_value e) (rd_value r) then InSync else Drifted
       | _ \<Rightarrow> SyncUnknown)\<rparr>"

definition verdict :: "group_sync list \<Rightarrow> group_sync" where
  "verdict syncs = (if Drifted \<in> set syncs then Drifted else if InSync \<in> set syncs then InSync else SyncUnknown)"

definition assemble :: "group_id \<Rightarrow> field_name \<Rightarrow> group_expectation option \<Rightarrow> (device_id \<times> read option) list
    \<Rightarrow> group_field_state" where
  "assemble grp field expectation observed =
     (let members = map (member_of expectation) observed
      in \<lparr>gf_group = grp, gf_field = field, gf_expected = expectation,
          gf_sync = verdict (map ms_sync members),
          gf_uniform = (case List.map_filter ms_read members of
             [] \<Rightarrow> True
           | first # reported \<Rightarrow> \<forall>r \<in> set reported. rd_value r = rd_value first),
          gf_members = members\<rparr>)"

definition rolled_up :: "group_field_state list \<Rightarrow> group_sync" where
  "rolled_up fs = verdict (map gf_sync fs)"

definition group_state_of :: "memory_catalog \<Rightarrow> store \<Rightarrow> outbox \<Rightarrow> group_id \<Rightarrow> api_failure + group_state" where
  "group_state_of cat st ob grp =
     (case group_members cat grp READS ''fields'' of
        Inl e \<Rightarrow> Inl e
      | Inr members \<Rightarrow>
          (let reads = map (latest_all st) members;
               expectations = expected_all ob grp;
               names = oset (map ge_field expectations @ concat (map (map rd_field) reads));
               fs = map (\<lambda>field. assemble grp field (find (\<lambda>e. ge_field e = field) expectations)
                      (map (\<lambda>(device, snap). (device, find (\<lambda>r. rd_field r = field) snap)) (zip members reads))) names
           in Inr \<lparr>gst_group = grp, gst_sync = rolled_up fs,
                   gst_desired = gd_desired (group_desired_state ob grp members), gst_fields = fs\<rparr>))"

definition route_read_group_field :: "memory_catalog \<Rightarrow> store \<Rightarrow> outbox \<Rightarrow> group_id \<Rightarrow> string
    \<Rightarrow> api_failure + group_field_state" where
  "route_read_group_field cat st ob grp raw =
     (let field = normalize_field raw
      in case group_members cat grp READS ''fields'' of
           Inl e \<Rightarrow> Inl e
         | Inr members \<Rightarrow>
             Inr (assemble grp field (expected ob grp field) (map (\<lambda>d. (d, latest st d field)) members)))"

record group_history =
  gh_group :: group_id
  gh_field :: field_name
  gh_expected :: "group_expectation option"
  gh_members :: "(device_id \<times> read list) list"

definition route_group_history :: "memory_catalog \<Rightarrow> store \<Rightarrow> outbox \<Rightarrow> group_id \<Rightarrow> string \<Rightarrow> read_query
    \<Rightarrow> api_failure + group_history" where
  "route_group_history cat st ob grp raw q =
     (let field = normalize_field raw
      in case reject_conflicting_field q field of
           Some e \<Rightarrow> Inl e
         | None \<Rightarrow>
             (case group_members cat grp READS ''fields'' of
                Inl e \<Rightarrow> Inl e
              | Inr members \<Rightarrow>
                  Inr \<lparr>gh_group = grp, gh_field = field, gh_expected = expected ob grp field,
                       gh_members = map (\<lambda>d. (d, truncate_reads (rq_limit q) (between st d field (span_of q)))) members\<rparr>))"


section \<open>Filters\<close>

definition csv :: "string option \<Rightarrow> string list" where
  "csv raw =
     (case raw of
        None \<Rightarrow> []
      | Some list \<Rightarrow> filter (\<lambda>e. e \<noteq> []) (map trim (split_at CHR '','' list)))"

record predicate =
  pr_field :: field_name
  pr_want :: read_value

definition parse_predicate :: "string \<Rightarrow> api_failure + predicate" where
  "parse_predicate raw =
     (let name = takeWhile (\<lambda>c. c \<noteq> CHR '':'') raw
      in if length name = length raw
         then Inl (AFBadRequest (quoted raw @ '' is not a filter; write one as '' @ quoted ''FIELD:value'' @ '', e.g. ''
                @ quoted ''RUNNING_STATE:stopped''))
         else let field = normalize_field (trim name)
              in if field = []
                 then Inl (AFBadRequest (quoted raw @ '' names no field; write a filter as '' @ quoted ''FIELD:value''))
                 else Inr \<lparr>pr_field = field, pr_want = Text (drop (length name + 1) raw)\<rparr>)"

fun parse_predicates :: "string list \<Rightarrow> api_failure + predicate list" where
  "parse_predicates [] = Inr []"
| "parse_predicates (raw # raws) =
     (case parse_predicate raw of
        Inl e \<Rightarrow> Inl e
      | Inr p \<Rightarrow> map_sum id (Cons p) (parse_predicates raws))"

definition predicates_of :: "string option \<Rightarrow> api_failure + predicate list" where
  "predicates_of raw = parse_predicates (csv raw)"

definition predicate_matches :: "predicate \<Rightarrow> read \<Rightarrow> bool" where
  "predicate_matches p r \<longleftrightarrow> rd_field r = pr_field p \<and> satisfies (pr_want p) (rd_value r)"

definition device_holds :: "predicate \<Rightarrow> read list \<Rightarrow> bool" where
  "device_holds p snap \<longleftrightarrow> (\<exists>r \<in> set snap. predicate_matches p r)"

definition wanted_fields :: "string option \<Rightarrow> field_name list option" where
  "wanted_fields raw =
     (let fs = oset (map normalize_field (csv raw)) in if fs = [] then None else Some fs)"

definition project_reads :: "field_name list option \<Rightarrow> read list \<Rightarrow> read list" where
  "project_reads wanted snap =
     (case wanted of None \<Rightarrow> snap | Some fs \<Rightarrow> filter (\<lambda>r. rd_field r \<in> set fs) snap)"

definition PAGE_MAX_LIMIT :: "32 word" where "PAGE_MAX_LIMIT = 1000"
definition PAGE_DEFAULT_LIMIT :: "32 word" where "PAGE_DEFAULT_LIMIT = 100"

definition page_size :: "32 word option \<Rightarrow> api_failure + nat" where
  "page_size limit =
     (case limit of
        Some n \<Rightarrow>
          if n = 0
          then Inl (AFBadRequest ''?limit=0 asks for a page with no devices on it, which can carry no cursor to the next one; ask for at least one'')
          else Inr (unat (min n PAGE_MAX_LIMIT))
      | None \<Rightarrow> Inr (unat PAGE_DEFAULT_LIMIT))"


section \<open>The device index\<close>

record fleet_query =
  fq_fields :: "string option"
  fq_devices :: "string option"
  fq_group :: "group_id option"
  fq_predicates :: "string option"
  fq_limit :: "32 word option"
  fq_after :: "device_id option"

record device_reads =
  dr_device :: device_id
  dr_latest :: "read list"

record fleet_reads =
  fr_devices :: "device_reads list"
  fr_next :: "device_id option"

definition unknown_device_id :: "memory_catalog \<Rightarrow> string \<Rightarrow> api_failure" where
  "unknown_device_id cat i =
     AFNotFound (if catalog_group cat i \<noteq> None
                 then quoted i @ '' is a device group, not a device; ask for its members with ?group='' @ i
                 else ''no device '' @ quoted i @ '' is configured'')"

text \<open>The sets of ids the filters keep, as lists; the outer \<open>None\<close> is every device.\<close>

definition group_filter :: "memory_catalog \<Rightarrow> group_id option \<Rightarrow> api_failure + device_id list option" where
  "group_filter cat grp =
     (case grp of None \<Rightarrow> Inr None | Some g \<Rightarrow> map_sum id Some (group_members cat g READS ''fields''))"

definition device_filter :: "memory_catalog \<Rightarrow> string option \<Rightarrow> device_id list option
    \<Rightarrow> api_failure + device_id list option" where
  "device_filter cat devices keep =
     (let names = csv devices
      in if names = [] then Inr keep
         else case find (\<lambda>i. catalog_device cat i = None) names of
                Some i \<Rightarrow> Inl (unknown_device_id cat i)
              | None \<Rightarrow> Inr (Some (case keep of None \<Rightarrow> oset names
                                   | Some members \<Rightarrow> filter (\<lambda>i. i \<in> set names) (oset members))))"

definition past :: "string option \<Rightarrow> string \<Rightarrow> bool" where
  "past after i = (case after of None \<Rightarrow> True | Some a \<Rightarrow> a < i)"

definition kept :: "string list option \<Rightarrow> string \<Rightarrow> bool" where
  "kept keep i = (case keep of None \<Rightarrow> True | Some is \<Rightarrow> i \<in> set is)"

definition fleet_candidates :: "memory_catalog \<Rightarrow> fleet_query \<Rightarrow> api_failure + device_id list" where
  "fleet_candidates cat q =
     (case group_filter cat (fq_group q) of
        Inl e \<Rightarrow> Inl e
      | Inr keep \<Rightarrow>
          (case device_filter cat (fq_devices q) keep of
             Inl e \<Rightarrow> Inl e
           | Inr keep \<Rightarrow> Inr (filter (past (fq_after q)) (filter (kept keep) (map ds_id (mc_devices cat))))))"

fun scan_fleet :: "store \<Rightarrow> predicate list \<Rightarrow> field_name list option \<Rightarrow> nat \<Rightarrow> device_id list \<Rightarrow> device_reads list
    \<Rightarrow> fleet_reads" where
  "scan_fleet st ps fs limit [] rows = \<lparr>fr_devices = rows, fr_next = None\<rparr>"
| "scan_fleet st ps fs limit (d # ds) rows =
     (let snap = latest_all st d
      in if \<not> (\<forall>p \<in> set ps. device_holds p snap) then scan_fleet st ps fs limit ds rows
         else if length rows = limit
         then \<lparr>fr_devices = rows, fr_next = (if rows = [] then None else Some (dr_device (last rows)))\<rparr>
         else scan_fleet st ps fs limit ds (rows @ [\<lparr>dr_device = d, dr_latest = project_reads fs snap\<rparr>]))"

definition list_fleet :: "memory_catalog \<Rightarrow> store \<Rightarrow> fleet_query \<Rightarrow> api_failure + fleet_reads" where
  "list_fleet cat st q =
     (let fs = wanted_fields (fq_fields q)
      in case predicates_of (fq_predicates q) of
           Inl e \<Rightarrow> Inl e
         | Inr ps \<Rightarrow>
             (case page_size (fq_limit q) of
                Inl e \<Rightarrow> Inl e
              | Inr limit \<Rightarrow>
                  (case fleet_candidates cat q of
                     Inl e \<Rightarrow> Inl e
                   | Inr ds \<Rightarrow> Inr (scan_fleet st ps fs limit ds []))))"


section \<open>The group index\<close>

record fleet_group_query =
  gq_fields :: "string option"
  gq_groups :: "string option"
  gq_predicates :: "string option"
  gq_sync :: "string option"
  gq_limit :: "32 word option"
  gq_after :: "group_id option"

record fleet_group_reads =
  fg_groups :: "group_state list"
  fg_next :: "group_id option"

definition unknown_group_id :: "memory_catalog \<Rightarrow> string \<Rightarrow> api_failure" where
  "unknown_group_id cat i =
     AFNotFound (if catalog_device cat i \<noteq> None
                 then quoted i @ '' is a device, not a device group; ask for it with /v1/reads/devices?devices='' @ i
                 else ''no device group '' @ quoted i @ '' is configured'')"

definition group_candidates :: "memory_catalog \<Rightarrow> fleet_group_query \<Rightarrow> api_failure + group_id list" where
  "group_candidates cat q =
     (let names = csv (gq_groups q)
      in case find (\<lambda>i. catalog_group cat i = None) names of
           Some i \<Rightarrow> Inl (unknown_group_id cat i)
         | None \<Rightarrow> Inr (filter (past (gq_after q))
                     (filter (kept (if names = [] then None else Some (oset names))) (map gs_id (mc_groups cat)))))"

definition group_holds :: "predicate \<Rightarrow> group_field_state list \<Rightarrow> bool" where
  "group_holds p fs =
     (case find (\<lambda>f. gf_field f = pr_field p) fs of
        None \<Rightarrow> False
      | Some f \<Rightarrow>
          (let reported = List.map_filter ms_read (gf_members f)
           in reported \<noteq> [] \<and> (\<forall>r \<in> set reported. predicate_matches p r)))"

definition wanted_sync :: "string option \<Rightarrow> api_failure + group_sync option" where
  "wanted_sync raw =
     (case raw of
        None \<Rightarrow> Inr None
      | Some raw \<Rightarrow>
          (let raw = trim raw
           in if raw = [] then Inr None
              else if normalize_field raw = ''IN_SYNC'' then Inr (Some InSync)
              else if normalize_field raw = ''DRIFTED'' then Inr (Some Drifted)
              else if normalize_field raw = ''UNKNOWN'' then Inr (Some SyncUnknown)
              else Inl (AFBadRequest (quoted raw @ '' is not a sync state; ask for one of '' @ quoted ''in_sync'' @ '', ''
                     @ quoted ''drifted'' @ '' or '' @ quoted ''unknown''))))"

definition project_states :: "field_name list option \<Rightarrow> group_field_state list \<Rightarrow> group_field_state list" where
  "project_states wanted fs =
     (case wanted of None \<Rightarrow> fs | Some names \<Rightarrow> filter (\<lambda>f. gf_field f \<in> set names) fs)"

fun scan_groups :: "(group_id \<Rightarrow> api_failure + group_state) \<Rightarrow> predicate list \<Rightarrow> group_sync option
    \<Rightarrow> field_name list option \<Rightarrow> nat \<Rightarrow> group_id list \<Rightarrow> group_state list \<Rightarrow> api_failure + fleet_group_reads" where
  "scan_groups state ps sync names limit [] rows = Inr \<lparr>fg_groups = rows, fg_next = None\<rparr>"
| "scan_groups state ps sync names limit (g # gs) rows =
     (case state g of
        Inl e \<Rightarrow> Inl e
      | Inr row \<Rightarrow>
          if \<not> (\<forall>p \<in> set ps. group_holds p (gst_fields row)) then scan_groups state ps sync names limit gs rows
          else if \<not> (case sync of None \<Rightarrow> True | Some wanted \<Rightarrow> gst_sync row = wanted)
          then scan_groups state ps sync names limit gs rows
          else if length rows = limit
          then Inr \<lparr>fg_groups = rows, fg_next = (if rows = [] then None else Some (gst_group (last rows)))\<rparr>
          else scan_groups state ps sync names limit gs (rows @ [row\<lparr>gst_fields := project_states names (gst_fields row)\<rparr>]))"

definition list_fleet_groups :: "memory_catalog \<Rightarrow> store \<Rightarrow> outbox \<Rightarrow> fleet_group_query
    \<Rightarrow> api_failure + fleet_group_reads" where
  "list_fleet_groups cat st ob q =
     (let names = wanted_fields (gq_fields q)
      in case predicates_of (gq_predicates q) of
           Inl e \<Rightarrow> Inl e
         | Inr ps \<Rightarrow>
             (case wanted_sync (gq_sync q) of
                Inl e \<Rightarrow> Inl e
              | Inr sync \<Rightarrow>
                  (case page_size (gq_limit q) of
                     Inl e \<Rightarrow> Inl e
                   | Inr limit \<Rightarrow>
                       (case group_candidates cat q of
                          Inl e \<Rightarrow> Inl e
                        | Inr gs \<Rightarrow> scan_groups (group_state_of cat st ob) ps sync names limit gs []))))"

end
