(* ===== verification/Sis_Api_Pages.thy ===== *)
theory Sis_Api_Pages
  imports Sis_Api_Reads
begin

text \<open>
  The two indexes, page by page. A locale states what a scan over ids does with one id; a client that
  follows the cursors is \<open>fetch_pages\<close>, and the scans of both indexes are instances.
\<close>


section \<open>Following cursors\<close>

text \<open>
  A client: ask, keep the rows, and ask again after the cursor until there is none. The fuel counts
  requests; running out of it is \<open>None\<close>.
\<close>

fun fetch_pages :: "nat \<Rightarrow> ('i option \<Rightarrow> 'e + ('r list \<times> 'i option)) \<Rightarrow> 'i option \<Rightarrow> ('e + 'r list list) option" where
  "fetch_pages 0 ask after = None"
| "fetch_pages (Suc fuel) ask after =
     (case ask after of
        Inl e \<Rightarrow> Some (Inl e)
      | Inr (rows, None) \<Rightarrow> Some (Inr [rows])
      | Inr (rows, Some cursor) \<Rightarrow> map_option (map_sum id (Cons rows)) (fetch_pages fuel ask (Some cursor)))"

lemma sorted_beyond:
  fixes xs :: "'a::linorder list"
  shows "sorted_wrt (<) xs \<Longrightarrow> k < length xs \<Longrightarrow> filter (\<lambda>x. xs ! k < x) xs = drop (Suc k) xs"
proof (induction xs arbitrary: k)
  case (Cons x xs)
  have all: "\<forall>y \<in> set xs. x < y" using Cons.prems(1) by simp
  show ?case
  proof (cases k)
    case 0
    then show ?thesis using all by simp
  next
    case (Suc j)
    then have "xs ! j \<in> set xs" using Cons.prems(2) by simp
    then have "\<not> xs ! j < x" using all by (meson order_less_asym)
    then show ?thesis using Suc Cons by simp
  qed
qed simp

locale pager =
  fixes fits :: "string \<Rightarrow> bool" and keeps :: "string \<Rightarrow> bool" and row :: "string \<Rightarrow> 'r" and key :: "'r \<Rightarrow> string"
    and scan :: "nat \<Rightarrow> string list \<Rightarrow> 'r list \<Rightarrow> 'r list \<times> string option"
  assumes scan_Nil: "scan n [] rows = (rows, None)"
    and scan_Cons: "fits i \<Longrightarrow> scan n (i # is) rows =
      (if \<not> keeps i then scan n is rows
       else if length rows = n then (rows, if rows = [] then None else Some (key (last rows)))
       else scan n is (rows @ [row i]))"
    and key_row: "fits i \<Longrightarrow> keeps i \<Longrightarrow> key (row i) = i"
begin

lemma scan_result:
  assumes "\<forall>i \<in> set is. fits i" and "length rows \<le> n"
  shows "scan n is rows =
    (rows @ map row (take (n - length rows) (filter keeps is)),
     if length rows + length (filter keeps is) \<le> n then None
     else let shown = rows @ map row (take (n - length rows) (filter keeps is))
          in if shown = [] then None else Some (key (last shown)))"
  using assms
proof (induction "is" arbitrary: rows)
  case (Cons i "is")
  show ?case
  proof (cases "keeps i \<and> length rows \<noteq> n")
    case True
    then have less: "length rows < n" using Cons.prems(2) by simp
    then have "n - length rows = Suc (n - length (rows @ [row i]))" by simp
    with less show ?thesis using True Cons.IH [of "rows @ [row i]"] Cons.prems by (simp add: scan_Cons)
  qed (use Cons in \<open>auto simp: scan_Cons Let_def\<close>)
qed (simp add: scan_Nil)

lemma page:
  assumes "\<forall>i \<in> set is. fits i" and "0 < n"
  shows "scan n is [] = (map row (take n (filter keeps is)),
    if length (filter keeps is) \<le> n then None else Some (filter keeps is ! (n - 1)))"
proof -
  let ?ks = "filter keeps is"
  have "key (last (map row (take n ?ks))) = ?ks ! (n - 1)" if "\<not> length ?ks \<le> n"
  proof -
    have full: "take n ?ks \<noteq> []" "length (take n ?ks) = n" using that assms(2) by auto
    then have "last (map row (take n ?ks)) = row (?ks ! (n - 1))"
      using assms(2) by (simp add: last_map last_conv_nth [OF full(1)])
    moreover have "?ks ! (n - 1) \<in> set ?ks" using that assms(2) by (intro nth_mem) simp
    ultimately show ?thesis using key_row assms(1) by simp
  qed
  then show ?thesis using scan_result [OF assms(1), of "[]" n] assms(2) by (auto simp: Let_def)
qed

text \<open>The rows after the cursor are those the page had no room for.\<close>

lemma resume:
  assumes "sorted_wrt (<) is" and "k < length (filter keeps (filter (past after) is))"
  shows "filter keeps (filter (past (Some (filter keeps (filter (past after) is) ! k))) is)
    = drop (Suc k) (filter keeps (filter (past after) is))"
proof -
  let ?ks = "filter keeps (filter (past after) is)"
  have "sorted_wrt (<) ?ks" using assms(1) by (simp add: sorted_wrt_filter)
  from sorted_beyond [OF this assms(2)] have "filter (\<lambda>i. ?ks ! k < i) ?ks = drop (Suc k) ?ks" .
  moreover have "past after (?ks ! k)" using nth_mem [OF assms(2)] by simp
  then have beyond: "?ks ! k < i \<Longrightarrow> past after i" for i
    by (simp add: past_def split: option.splits)
  have "filter keeps (filter (past (Some c)) is) = filter (\<lambda>i. c < i) ?ks" if "\<And>i. c < i \<Longrightarrow> past after i" for c
    unfolding filter_filter using that by (intro filter_cong) (auto simp: past_def)
  from this [OF beyond] have "filter keeps (filter (past (Some (?ks ! k))) is) = filter (\<lambda>i. ?ks ! k < i) ?ks" .
  ultimately show ?thesis by simp
qed

lemma fetch_all:
  assumes "sorted_wrt (<) is" and "\<forall>i \<in> set is. fits i" and "0 < n"
    and "length (filter keeps (filter (past after) is)) < fuel"
  shows "\<exists>pages. fetch_pages fuel (\<lambda>after. Inr (scan n (filter (past after) is) []) :: 'e + _) after = Some (Inr pages)
    \<and> concat pages = map row (filter keeps (filter (past after) is)) \<and> (\<forall>p \<in> set pages. length p \<le> n)"
  using assms(4)
proof (induction fuel arbitrary: after)
  case (Suc fuel)
  let ?ks = "filter keeps (filter (past after) is)"
  have page: "scan n (filter (past after) is) [] = (map row (take n ?ks),
      if length ?ks \<le> n then None else Some (?ks ! (n - 1)))"
    using assms(2,3) by (intro page) auto
  show ?case
  proof (cases "length ?ks \<le> n")
    case True
    then show ?thesis by (simp add: page)
  next
    case False
    then have k: "n - 1 < length ?ks" using assms(3) by simp
    have rest: "filter keeps (filter (past (Some (?ks ! (n - 1)))) is) = drop n ?ks"
      using resume [OF assms(1) k] assms(3) by simp
    have "length (drop n ?ks) < fuel" using Suc.prems False assms(3) by simp
    then obtain pages where pages: "fetch_pages fuel (\<lambda>after. Inr (scan n (filter (past after) is) []) :: 'e + _)
        (Some (?ks ! (n - 1))) = Some (Inr pages)"
      "concat pages = map row (drop n ?ks)" "\<forall>p \<in> set pages. length p \<le> n"
      using Suc.IH [of "Some (?ks ! (n - 1))"] unfolding rest by blast
    have "map row (take n ?ks) @ map row (drop n ?ks) = map row ?ks" by (simp flip: map_append)
    then show ?thesis using False pages by (simp add: page)
  qed
qed simp

end



section \<open>The device index\<close>

definition device_fits :: "store \<Rightarrow> predicate list \<Rightarrow> device_id \<Rightarrow> bool" where
  "device_fits st ps d \<longleftrightarrow> (\<forall>p \<in> set ps. device_holds p (latest_all st d))"

definition device_row :: "store \<Rightarrow> field_name list option \<Rightarrow> device_id \<Rightarrow> device_reads" where
  "device_row st fs d = \<lparr>dr_device = d, dr_latest = project_reads fs (latest_all st d)\<rparr>"

definition device_scan :: "store \<Rightarrow> predicate list \<Rightarrow> field_name list option \<Rightarrow> nat \<Rightarrow> device_id list \<Rightarrow> device_reads list
    \<Rightarrow> device_reads list \<times> device_id option" where
  "device_scan st ps fs limit ds rows =
     (let page = scan_fleet st ps fs limit ds rows in (fr_devices page, fr_next page))"

interpretation device_pages: pager "\<lambda>_. True" "device_fits st ps" "device_row st fs" dr_device "device_scan st ps fs"
  for st ps fs
  by unfold_locales (simp_all add: device_scan_def device_fits_def device_row_def Let_def)

definition ask_devices :: "memory_catalog \<Rightarrow> store \<Rightarrow> fleet_query \<Rightarrow> device_id option
    \<Rightarrow> api_failure + device_reads list \<times> device_id option" where
  "ask_devices cat st q after =
     map_sum id (\<lambda>page. (fr_devices page, fr_next page)) (list_fleet cat st (q\<lparr>fq_after := after\<rparr>))"

text \<open>The devices a query addresses, before paging.\<close>

definition addressed :: "memory_catalog \<Rightarrow> fleet_query \<Rightarrow> device_id \<Rightarrow> bool" where
  "addressed cat q d \<longleftrightarrow> d \<in> ds_id ` set (mc_devices cat)
     \<and> (case fq_group q of None \<Rightarrow> True | Some g \<Rightarrow> \<exists>s. catalog_group cat g = Some s \<and> d \<in> set (gs_members s))
     \<and> (csv (fq_devices q) = [] \<or> d \<in> set (csv (fq_devices q)))"

lemma fleet_candidates_eq:
  assumes "fleet_candidates cat (q\<lparr>fq_after := None\<rparr>) = Inr ds"
  shows "fleet_candidates cat (q\<lparr>fq_after := after\<rparr>) = Inr (filter (past after) ds)"
    and "ds = filter (addressed cat q) (map ds_id (mc_devices cat))"
proof -
  obtain keep keep' where k: "group_filter cat (fq_group q) = Inr keep" "device_filter cat (fq_devices q) keep = Inr keep'"
    and ds: "ds = filter (kept keep') (map ds_id (mc_devices cat))"
    using assms by (auto simp: fleet_candidates_def past_def filter_empty_conv split: sum.splits)
  show "fleet_candidates cat (q\<lparr>fq_after := after\<rparr>) = Inr (filter (past after) ds)"
    by (simp add: fleet_candidates_def k ds)
  have "kept keep d \<longleftrightarrow> (case fq_group q of None \<Rightarrow> True | Some g \<Rightarrow> \<exists>s. catalog_group cat g = Some s \<and> d \<in> set (gs_members s))" for d
    using k(1) by (cases "fq_group q"; cases "catalog_group cat (the (fq_group q))")
      (auto simp: group_filter_def kept_def group_members_def)
  moreover have "kept keep' d \<longleftrightarrow> kept keep d \<and> (csv (fq_devices q) = [] \<or> d \<in> set (csv (fq_devices q)))" for d
    using k(2) by (auto simp: device_filter_def kept_def Let_def split: if_splits option.splits)
  ultimately show "ds = filter (addressed cat q) (map ds_id (mc_devices cat))"
    unfolding ds by (intro filter_cong) (auto simp: addressed_def)
qed

text \<open>
  C12. The paged index shows every device once. Take any catalog in id order and any query whose filters
  are accepted, with any page size. A client that follows the cursors gets, within one request more than
  there are devices, exactly the configured devices the query addresses (those of the group, those
  named) whose latest reads satisfy every predicate: each once, in id order, with the columns asked
  for, on pages no larger than the page size. Which rows come back does not depend on where the
  pages break.
\<close>

theorem device_index_complete:
  assumes "sorted_wrt (<) (map ds_id (mc_devices cat))"
    and "predicates_of (fq_predicates q) = Inr ps" and "page_size (fq_limit q) = Inr limit"
    and "fleet_candidates cat (q\<lparr>fq_after := None\<rparr>) = Inr ds"
  shows "\<exists>pages. fetch_pages (Suc (length (mc_devices cat))) (ask_devices cat st q) None = Some (Inr pages)
    \<and> concat pages = map (device_row st (wanted_fields (fq_fields q)))
        (filter (\<lambda>d. addressed cat q d \<and> device_fits st ps d) (map ds_id (mc_devices cat)))
    \<and> (\<forall>page \<in> set pages. length page \<le> limit)"
proof -
  let ?fs = "wanted_fields (fq_fields q)"
  note c = fleet_candidates_eq [OF assms(4)]
  have limit: "0 < limit"
    using assms(3) by (auto simp: page_size_def PAGE_DEFAULT_LIMIT_def PAGE_MAX_LIMIT_def min_def unat_gt_0 split: option.splits if_splits)
  have ask: "ask_devices cat st q = (\<lambda>after. Inr (device_scan st ps ?fs limit (filter (past after) ds) []))"
    by (rule ext) (simp add: ask_devices_def list_fleet_def assms(2,3) c(1) device_scan_def Let_def)
  have sorted: "sorted_wrt (<) ds" unfolding c(2) using assms(1) by (simp add: sorted_wrt_filter)
  have all: "filter (past None) ds = ds" by (simp add: past_def)
  have "length (filter (device_fits st ps) ds) \<le> length (mc_devices cat)"
    unfolding c(2) by (rule order_trans [OF length_filter_le]) (rule order_trans [OF length_filter_le], simp)
  then have fuel: "length (filter (device_fits st ps) (filter (past None) ds)) < Suc (length (mc_devices cat))"
    unfolding all by simp
  have rows: "filter (device_fits st ps) ds
      = filter (\<lambda>d. addressed cat q d \<and> device_fits st ps d) (map ds_id (mc_devices cat))"
    unfolding c(2) by (simp add: conj_commute)
  show ?thesis
    using device_pages.fetch_all [OF sorted _ limit fuel] unfolding ask all rows by blast
qed



definition recorder :: "string \<Rightarrow> string list \<Rightarrow> device_summary" where
  "recorder i vetoes = \<lparr>ds_id = i, ds_uuid = 0, ds_host = ''h'', ds_port = 22, ds_eager = False, ds_status = StatusUnknown,
     ds_disabled_fields = vetoes, ds_auto_disabled_fields = []\<rparr>"

definition room :: "string \<Rightarrow> string list \<Rightarrow> group_summary" where
  "room i members = \<lparr>gs_id = i, gs_members = members, gs_barrier_timeout_secs = 15, gs_barrier = FailBatch\<rparr>"

definition two_rooms :: memory_catalog where
  "two_rooms = \<lparr>mc_devices = [recorder ''a'' [], recorder ''b'' [], recorder ''x'' []],
     mc_groups = [room ''r'' [''a'', ''b''], room ''s'' [''x'']]\<rparr>"

theorem device_index_complete_witness:
  "\<exists>pages. fetch_pages 4 (ask_devices two_rooms (two_reads None) \<lparr>fq_fields = None, fq_devices = None, fq_group = Some ''r'',
      fq_predicates = None, fq_limit = Some 1, fq_after = None\<rparr>) None = Some (Inr pages)
    \<and> map dr_device (concat pages) = [''a'', ''b'']"
proof -
  let ?q = "\<lparr>fq_fields = None, fq_devices = None, fq_group = Some ''r'', fq_predicates = None, fq_limit = Some 1, fq_after = None\<rparr>"
  have ids: "map ds_id (mc_devices two_rooms) = [''a'', ''b'', ''x'']" by (simp add: two_rooms_def recorder_def)
  have r: "catalog_group two_rooms ''r'' = Some (room ''r'' [''a'', ''b''])"
    by (simp add: catalog_group_def two_rooms_def room_def)
  have "sorted_wrt (<) (map ds_id (mc_devices two_rooms))" unfolding ids by (simp add: less_char_def)
  moreover have "predicates_of (fq_predicates ?q) = Inr []" by (simp add: predicates_of_def csv_def)
  moreover have "page_size (fq_limit ?q) = Inr 1" by (simp add: page_size_def PAGE_MAX_LIMIT_def)
  moreover have "fleet_candidates two_rooms (?q\<lparr>fq_after := None\<rparr>) = Inr [''a'', ''b'']"
    by (simp add: fleet_candidates_def group_filter_def group_members_def device_filter_def csv_def r ids kept_def past_def)
       (simp add: room_def)
  ultimately obtain pages where "fetch_pages (Suc (length (mc_devices two_rooms))) (ask_devices two_rooms (two_reads None) ?q) None
        = Some (Inr pages)"
      "concat pages = map (device_row (two_reads None) (wanted_fields (fq_fields ?q)))
        (filter (\<lambda>d. addressed two_rooms ?q d \<and> device_fits (two_reads None) [] d) (map ds_id (mc_devices two_rooms)))"
    using device_index_complete by blast
  moreover have "filter (\<lambda>d. addressed two_rooms ?q d \<and> device_fits (two_reads None) [] d) (map ds_id (mc_devices two_rooms))
      = [''a'', ''b'']"
    by (simp add: ids addressed_def device_fits_def r csv_def) (simp add: two_rooms_def recorder_def room_def)
  moreover have "length (mc_devices two_rooms) = 3" by (simp add: two_rooms_def)
  ultimately show ?thesis by (auto simp: device_row_def)
qed


section \<open>The group index\<close>

definition group_known :: "memory_catalog \<Rightarrow> store \<Rightarrow> outbox \<Rightarrow> group_id \<Rightarrow> bool" where
  "group_known cat st ob g \<longleftrightarrow> \<not> isl (group_state_of cat st ob g)"

definition group_fits :: "memory_catalog \<Rightarrow> store \<Rightarrow> outbox \<Rightarrow> predicate list \<Rightarrow> group_sync option \<Rightarrow> group_id \<Rightarrow> bool" where
  "group_fits cat st ob ps sync g \<longleftrightarrow>
     (let row = projr (group_state_of cat st ob g)
      in (\<forall>p \<in> set ps. group_holds p (gst_fields row)) \<and> (case sync of None \<Rightarrow> True | Some wanted \<Rightarrow> gst_sync row = wanted))"

definition group_row :: "memory_catalog \<Rightarrow> store \<Rightarrow> outbox \<Rightarrow> field_name list option \<Rightarrow> group_id \<Rightarrow> group_state" where
  "group_row cat st ob names g =
     (let row = projr (group_state_of cat st ob g) in row\<lparr>gst_fields := project_states names (gst_fields row)\<rparr>)"

definition group_scan :: "memory_catalog \<Rightarrow> store \<Rightarrow> outbox \<Rightarrow> predicate list \<Rightarrow> group_sync option
    \<Rightarrow> field_name list option \<Rightarrow> nat \<Rightarrow> group_id list \<Rightarrow> group_state list \<Rightarrow> group_state list \<times> group_id option" where
  "group_scan cat st ob ps sync names limit gs rows =
     (case scan_groups (group_state_of cat st ob) ps sync names limit gs rows of
        Inl e \<Rightarrow> ([], None)
      | Inr page \<Rightarrow> (fg_groups page, fg_next page))"

lemma group_known_row:
  assumes "group_known cat st ob g"
  obtains row where "group_state_of cat st ob g = Inr row" "gst_group row = g"
  using assms by (auto simp: group_known_def group_state_of_def Let_def split: sum.splits)

interpretation group_pages: pager "group_known cat st ob" "group_fits cat st ob ps sync" "group_row cat st ob names" gst_group
    "group_scan cat st ob ps sync names"
  for cat st ob ps sync names
proof unfold_locales
  fix n i "is" rows assume "group_known cat st ob i"
  then obtain row where "group_state_of cat st ob i = Inr row" "gst_group row = i" by (rule group_known_row)
  then show "group_scan cat st ob ps sync names n (i # is) rows =
      (if \<not> group_fits cat st ob ps sync i then group_scan cat st ob ps sync names n is rows
       else if length rows = n then (rows, if rows = [] then None else Some (gst_group (last rows)))
       else group_scan cat st ob ps sync names n is (rows @ [group_row cat st ob names i]))"
    by (simp add: group_scan_def group_fits_def group_row_def Let_def)
next
  fix i assume "group_known cat st ob i"
  then obtain row where "group_state_of cat st ob i = Inr row" "gst_group row = i" by (rule group_known_row)
  then show "gst_group (group_row cat st ob names i) = i" by (simp add: group_row_def Let_def)
qed (simp add: group_scan_def)

lemma scan_groups_Inr:
  "\<forall>g \<in> set gs. group_known cat st ob g \<Longrightarrow> \<not> isl (scan_groups (group_state_of cat st ob) ps sync names limit gs rows)"
  by (induction gs arbitrary: rows) (auto split: sum.split simp: group_known_def)

definition ask_groups :: "memory_catalog \<Rightarrow> store \<Rightarrow> outbox \<Rightarrow> fleet_group_query \<Rightarrow> group_id option
    \<Rightarrow> api_failure + group_state list \<times> group_id option" where
  "ask_groups cat st ob q after =
     map_sum id (\<lambda>page. (fg_groups page, fg_next page)) (list_fleet_groups cat st ob (q\<lparr>gq_after := after\<rparr>))"

lemma group_candidates_eq:
  assumes "group_candidates cat (q\<lparr>gq_after := None\<rparr>) = Inr gs"
  shows "group_candidates cat (q\<lparr>gq_after := after\<rparr>) = Inr (filter (past after) gs)"
    and "gs = filter (\<lambda>g. csv (gq_groups q) = [] \<or> g \<in> set (csv (gq_groups q))) (map gs_id (mc_groups cat))"
proof -
  let ?keep = "if csv (gq_groups q) = [] then None else Some (oset (csv (gq_groups q)))"
  have gs: "gs = filter (kept ?keep) (map gs_id (mc_groups cat))"
    and ok: "find (\<lambda>i. catalog_group cat i = None) (csv (gq_groups q)) = None"
    using assms by (auto simp: group_candidates_def Let_def past_def filter_empty_conv split: option.splits)
  show "group_candidates cat (q\<lparr>gq_after := after\<rparr>) = Inr (filter (past after) gs)"
    by (simp add: group_candidates_def Let_def gs ok)
  show "gs = filter (\<lambda>g. csv (gq_groups q) = [] \<or> g \<in> set (csv (gq_groups q))) (map gs_id (mc_groups cat))"
    unfolding gs by (intro filter_cong) (auto simp: kept_def)
qed

lemma configured_known: "g \<in> gs_id ` set (mc_groups cat) \<Longrightarrow> group_known cat st ob g"
  by (auto simp: group_known_def group_state_of_def group_members_def catalog_group_def find_None_iff Let_def
      split: option.split)

text \<open>
  C20. The group index shows every group once, and each row is the group's own page. With the groups in
  id order and the filters accepted, following the cursors gives exactly the configured groups asked for
  whose whole state satisfies the predicates and has the verdict wanted, in id order and each
  once. A row is what the detail route answers for that group, with the same verdict; only the
  columns not asked for are dropped, after the rows were chosen.
\<close>

theorem group_index_complete:
  assumes "sorted_wrt (<) (map gs_id (mc_groups cat))"
    and "predicates_of (gq_predicates q) = Inr ps" and "wanted_sync (gq_sync q) = Inr sync"
    and "page_size (gq_limit q) = Inr limit" and "group_candidates cat (q\<lparr>gq_after := None\<rparr>) = Inr gs"
  shows "\<exists>pages. fetch_pages (Suc (length (mc_groups cat))) (ask_groups cat st ob q) None = Some (Inr pages)
    \<and> map gst_group (concat pages) = filter (\<lambda>g. (csv (gq_groups q) = [] \<or> g \<in> set (csv (gq_groups q)))
        \<and> group_fits cat st ob ps sync g) (map gs_id (mc_groups cat))
    \<and> (\<forall>page \<in> set pages. length page \<le> limit \<and> (\<forall>row \<in> set page. \<exists>whole.
          group_state_of cat st ob (gst_group row) = Inr whole
          \<and> row = whole\<lparr>gst_fields := project_states (wanted_fields (gq_fields q)) (gst_fields whole)\<rparr>))"
proof -
  let ?names = "wanted_fields (gq_fields q)"
  note c = group_candidates_eq [OF assms(5)]
  have limit: "0 < limit"
    using assms(4) by (auto simp: page_size_def PAGE_DEFAULT_LIMIT_def PAGE_MAX_LIMIT_def min_def unat_gt_0 split: option.splits if_splits)
  have known: "\<forall>g \<in> set gs. group_known cat st ob g" unfolding c(2) using configured_known by auto
  have "ask_groups cat st ob q after = Inr (group_scan cat st ob ps sync ?names limit (filter (past after) gs) [])" for after
  proof -
    have "\<not> isl (scan_groups (group_state_of cat st ob) ps sync ?names limit (filter (past after) gs) [])"
      using known by (intro scan_groups_Inr) auto
    then show ?thesis
      by (cases "scan_groups (group_state_of cat st ob) ps sync ?names limit (filter (past after) gs) []")
         (simp_all add: ask_groups_def list_fleet_groups_def assms(2-4) c(1) group_scan_def Let_def)
  qed
  then have ask: "ask_groups cat st ob q
      = (\<lambda>after. Inr (group_scan cat st ob ps sync ?names limit (filter (past after) gs) []))" by (rule ext)
  have sorted: "sorted_wrt (<) gs" unfolding c(2) using assms(1) by (simp add: sorted_wrt_filter)
  have all: "filter (past None) gs = gs" by (simp add: past_def)
  have "length (filter (group_fits cat st ob ps sync) gs) \<le> length (mc_groups cat)"
    unfolding c(2) by (rule order_trans [OF length_filter_le]) (rule order_trans [OF length_filter_le], simp)
  then have fuel: "length (filter (group_fits cat st ob ps sync) (filter (past None) gs)) < Suc (length (mc_groups cat))"
    unfolding all by simp
  obtain pages where pages: "fetch_pages (Suc (length (mc_groups cat))) (ask_groups cat st ob q) None = Some (Inr pages)"
      "concat pages = map (group_row cat st ob ?names) (filter (group_fits cat st ob ps sync) gs)"
      "\<forall>p \<in> set pages. length p \<le> limit"
    using group_pages.fetch_all [OF sorted known limit fuel] unfolding ask all by blast
  have row: "\<exists>whole. group_state_of cat st ob (gst_group (group_row cat st ob ?names g)) = Inr whole
      \<and> group_row cat st ob ?names g = whole\<lparr>gst_fields := project_states ?names (gst_fields whole)\<rparr>
      \<and> gst_group (group_row cat st ob ?names g) = g"
    if "group_known cat st ob g" for g
    using that by (rule group_known_row) (simp add: group_row_def Let_def)
  have "map gst_group (concat pages) = filter (group_fits cat st ob ps sync) gs"
    unfolding pages(2) map_map
  proof (rule map_idI)
    fix g assume "g \<in> set (filter (group_fits cat st ob ps sync) gs)"
    then have "group_known cat st ob g" using known by simp
    from row [OF this] show "(gst_group \<circ> group_row cat st ob ?names) g = g" by auto
  qed
  then have "map gst_group (concat pages) = filter (\<lambda>g. (csv (gq_groups q) = [] \<or> g \<in> set (csv (gq_groups q)))
        \<and> group_fits cat st ob ps sync g) (map gs_id (mc_groups cat))"
    unfolding c(2) by (simp add: conj_commute)
  moreover have "\<exists>whole. group_state_of cat st ob (gst_group r) = Inr whole
      \<and> r = whole\<lparr>gst_fields := project_states ?names (gst_fields whole)\<rparr>" if "p \<in> set pages" "r \<in> set p" for p r
  proof -
    have "r \<in> set (concat pages)" using that by auto
    then obtain g where "g \<in> set gs" "r = group_row cat st ob ?names g" unfolding pages(2) by auto
    then show ?thesis using row [OF bspec [OF known]] by blast
  qed
  ultimately show ?thesis using pages(1,3) by (intro exI [of _ pages] conjI ballI) blast+
qed

theorem group_index_complete_witness:
  "\<exists>pages. fetch_pages 3 (ask_groups two_rooms (two_reads None) empty_box \<lparr>gq_fields = None, gq_groups = None,
      gq_predicates = None, gq_sync = None, gq_limit = Some 1, gq_after = None\<rparr>) None = Some (Inr pages)
    \<and> map gst_group (concat pages) = [''r'', ''s'']"
proof -
  let ?q = "\<lparr>gq_fields = None, gq_groups = None, gq_predicates = None, gq_sync = None, gq_limit = Some 1, gq_after = None\<rparr>"
  have ids: "map gs_id (mc_groups two_rooms) = [''r'', ''s'']" by (simp add: two_rooms_def room_def)
  have "sorted_wrt (<) (map gs_id (mc_groups two_rooms))" unfolding ids by (simp add: less_char_def)
  moreover have "predicates_of (gq_predicates ?q) = Inr []" by (simp add: predicates_of_def csv_def)
  moreover have "wanted_sync (gq_sync ?q) = Inr None" by (simp add: wanted_sync_def)
  moreover have "page_size (gq_limit ?q) = Inr 1" by (simp add: page_size_def PAGE_MAX_LIMIT_def)
  moreover have "group_candidates two_rooms (?q\<lparr>gq_after := None\<rparr>) = Inr [''r'', ''s'']"
    by (simp add: group_candidates_def csv_def ids kept_def past_def)
  ultimately obtain pages where "fetch_pages (Suc (length (mc_groups two_rooms))) (ask_groups two_rooms (two_reads None) empty_box ?q) None
        = Some (Inr pages)"
      "map gst_group (concat pages) = filter (\<lambda>g. (csv (gq_groups ?q) = [] \<or> g \<in> set (csv (gq_groups ?q)))
        \<and> group_fits two_rooms (two_reads None) empty_box [] None g) (map gs_id (mc_groups two_rooms))"
    using group_index_complete by blast
  moreover have "length (mc_groups two_rooms) = 2" by (simp add: two_rooms_def)
  ultimately show ?thesis by (auto simp: ids csv_def group_fits_def numeral_3_eq_3)
qed

end
