(* ===== verification/Sis_Api_Spec.thy ===== *)
theory Sis_Api_Spec
  imports Sis_Api_Pages
begin

text \<open>
  What a write request does, from the route to the queues: a write to a group reaches all of its members or
  none. Two answers are not what their comments say: a repeated group write under its key is answered in
  part, and a synonym of a disabled setting is let through.
\<close>


section \<open>The submission a request becomes\<close>

definition rendezvous :: "intent \<Rightarrow> group_summary option \<Rightarrow> device_id list \<Rightarrow> bool" where
  "rendezvous i grp targets \<longleftrightarrow> grp \<noteq> None \<and> needs_rendezvous i \<and> 1 < length targets"

definition first_id :: "intent \<Rightarrow> group_summary option \<Rightarrow> device_id list \<Rightarrow> api \<Rightarrow> nat" where
  "first_id i grp targets a = (if rendezvous i grp targets then ap_minted a + 1 else ap_minted a)"

definition request_of :: "minter \<Rightarrow> device_id list \<Rightarrow> group_summary option \<Rightarrow> intent \<Rightarrow> string option \<Rightarrow> api \<Rightarrow> submission" where
  "request_of mk targets grp i key a =
     (let n = first_id i grp targets a
      in \<lparr>su_ids = map (\<lambda>k. fst (mk (n + k))) [0..<length targets], su_targets = targets,
          su_group = map_option gs_id grp,
          su_batch = (if rendezvous i grp targets then Some (fst (mk (ap_minted a))) else None),
          su_barrier = map_option (\<lambda>g. \<lparr>bp_timeout = seconds (gs_barrier_timeout_secs g), bp_on_timeout = gs_barrier g\<rparr>) grp,
          su_intent = i, su_at = snd (mk n), su_key = key\<rparr>)"

lemma mint_eq:
  "mint mk ts a = (map (\<lambda>k. mk (ap_minted a + k)) [0..<length ts], a\<lparr>ap_minted := ap_minted a + length ts\<rparr>)"
proof (induction ts arbitrary: a)
  case (Cons t ts)
  have "map (\<lambda>k. mk (ap_minted a + k)) [0..<Suc (length ts)]
      = mk (ap_minted a) # map (\<lambda>k. mk (Suc (ap_minted a) + k)) [0..<length ts]"
    by (rule nth_equalityI) (auto simp: nth_Cons simp del: upt_Suc split: nat.split)
  then show ?case by (simp add: Cons.IH next_stamp_def del: upt_Suc)
qed simp

lemma submit_write_eq:
  assumes "reject_disabled_field (ap_catalog a) targets i = None" and "targets \<noteq> []"
  shows "submit_write mk targets grp i key a =
    (let n = first_id i grp targets a + length targets
     in case submit (request_of mk targets grp i key a) (ap_outbox a) of
          (ob, Inl e) \<Rightarrow> (a\<lparr>ap_minted := n, ap_outbox := ob\<rparr>, Some (Inl (AFSubmit e)))
        | (ob, Inr acc) \<Rightarrow>
            (a\<lparr>ap_minted := n, ap_outbox := ob\<rparr>,
             Some (Inr \<lparr>ar_location = (case acc_writes acc of [only] \<Rightarrow> Some (''/v1/writes/'' @ ac_id only) | _ \<Rightarrow> None),
                        ar_body = acc\<rparr>)))"
proof -
  let ?n = "first_id i grp targets a"
  obtain rest where rest: "map (\<lambda>k. mk (?n + k)) [0..<length targets] = mk ?n # rest"
    using assms(2) by (cases targets) (auto simp: upt_conv_Cons simp del: upt_Suc)
  have "map (\<lambda>k. fst (mk (?n + k))) [0..<length targets] = map fst (map (\<lambda>k. mk (?n + k)) [0..<length targets])" by simp
  then have ids: "map (\<lambda>k. fst (mk (?n + k))) [0..<length targets] = fst (mk ?n) # map fst rest" unfolding rest by simp
  show ?thesis
  proof (cases "rendezvous i grp targets")
    case True
    then have c: "(grp \<noteq> None \<and> needs_rendezvous i \<and> 1 < length targets) = True" and n: "?n = Suc (ap_minted a)"
      by (simp_all add: rendezvous_def first_id_def)
    show ?thesis
      unfolding submit_write_def assms(1) option.case Let_def c if_True next_stamp_def prod.case mint_eq
      using True rest ids unfolding n
      by (simp add: request_of_def first_id_def Let_def del: upt_Suc)
  next
    case False
    then have c: "(grp \<noteq> None \<and> needs_rendezvous i \<and> 1 < length targets) = False" and n: "?n = ap_minted a"
      by (simp_all only: rendezvous_def first_id_def if_False)
    show ?thesis
      unfolding submit_write_def assms(1) option.case Let_def c if_False prod.case mint_eq
      using False rest ids unfolding n
      by (simp add: request_of_def first_id_def Let_def del: upt_Suc)
  qed
qed



section \<open>A group write\<close>

lemma record_targets_writes:
  "snd (record_targets s ts ob) = map (\<lambda>(d, i, adm). \<lparr>ac_id = i, ac_device = d, ac_epoch = snd (snd adm)\<rparr>) ts"
  by (induction s ts ob rule: record_targets.induct) (simp_all add: Let_def case_prod_beta)

lemma submit_acceptance:
  assumes "submit s ob = (ob', Inr acc)" and "replay_of ob s = None"
  shows "acc_batch acc = su_batch s" and "map ac_device (acc_writes acc) = su_targets s"
    and "map ac_id (acc_writes acc) = su_ids s"
    and "k < length (su_targets s) \<Longrightarrow> ac_epoch (acc_writes acc ! k) = snd (snd (admission ob (su_intent s) (su_targets s ! k)))"
proof -
  obtain ob1 adm ob2 writes where a: "length (su_ids s) = length (su_targets s)"
      "admit_targets (su_intent s) (su_targets s) ob = (ob1, Inr adm)"
      "record_targets s (zip (su_targets s) (zip (su_ids s) adm)) ob1 = (ob2, writes)"
      "acc = \<lparr>acc_batch = su_batch s, acc_writes = writes\<rparr>"
    using assms by (cases rule: submit_cases [of s ob]) auto
  have adm: "adm = map (admission ob (su_intent s)) (su_targets s)"
    using admit_targets_result [of "su_intent s" "su_targets s" ob] a(2) by (auto split: option.splits)
  have w: "writes = map (\<lambda>(d, i, adm). \<lparr>ac_id = i, ac_device = d, ac_epoch = snd (snd adm)\<rparr>)
      (zip (su_targets s) (zip (su_ids s) adm))"
    using record_targets_writes [of s _ ob1, unfolded] a(3) by (metis snd_conv)
  show "acc_batch acc = su_batch s" by (simp add: a(4))
  show "map ac_device (acc_writes acc) = su_targets s" "map ac_id (acc_writes acc) = su_ids s"
    using a(1) by (auto simp: a(4) w adm intro!: nth_equalityI)
  show "k < length (su_targets s) \<Longrightarrow> ac_epoch (acc_writes acc ! k) = snd (snd (admission ob (su_intent s) (su_targets s ! k)))"
    using a(1) by (simp add: a(4) w adm)
qed

lemma accepted_row:
  assumes "submit s ob = (ob', Inr acc)" and "replay_of ob s = None" and "fresh s ob" and "w \<in> set (acc_writes acc)"
  shows "(\<exists>r. route_read_write ob' (ac_id w) = Inr r \<and> wr_device r = ac_device w \<and> wr_intent r = su_intent s
        \<and> wr_batch r = acc_batch acc \<and> wr_epoch r = ac_epoch w \<and> wr_status r = Pending)
      \<and> dl_queue (log_of ob' (ac_device w)) = dl_queue (log_of ob (ac_device w)) @ [ac_id w]
      \<and> admit (dl_desired (log_of ob (ac_device w))) (verb_of (su_intent s)) = Inr (dl_desired (log_of ob' (ac_device w)))"
proof -
  note acc = submit_acceptance [OF assms(1,2)]
  obtain k where k: "k < length (acc_writes acc)" "acc_writes acc ! k = w" using assms(4) by (metis in_set_conv_nth)
  have n: "length (acc_writes acc) = length (su_targets s)" using acc(2) by (metis length_map)
  have d: "ac_device w = su_targets s ! k" and i: "ac_id w = su_ids s ! k"
    using acc(2,3) k by (metis nth_map)+
  note kk = k(1) [unfolded n]
  have "write_of ob' (ac_id w) = Some (new_record s (ac_device w) (ac_id w) (ac_epoch w))"
    using submit_admitted(2) [OF assms(1-3) kk refl] acc(4) [OF kk] unfolding d i k(2) write_of_def by simp
  then show ?thesis
    using submission_row [OF assms(1-3) kk d i] acc(1) by (simp add: route_read_write_def new_record_def)
qed

text \<open>
  The ids the process mints (version 4 UUIDs) are new: different each time, and neither a write's nor a
  batch's yet.
\<close>

definition mints_fresh :: "minter \<Rightarrow> api \<Rightarrow> bool" where
  "mints_fresh mk a \<longleftrightarrow> inj (fst \<circ> mk)
     \<and> (\<forall>n \<ge> ap_minted a. write_of (ap_outbox a) (fst (mk n)) = None
          \<and> map_of (ob_batches (ap_outbox a)) (fst (mk n)) = None
          \<and> (\<forall>i r. write_of (ap_outbox a) i = Some r \<longrightarrow> wr_batch r \<noteq> Some (fst (mk n))))"

definition new_key :: "string option \<Rightarrow> device_id list \<Rightarrow> outbox \<Rightarrow> bool" where
  "new_key key targets ob \<longleftrightarrow> (\<forall>k. key = Some k \<longrightarrow> map_of (dl_keys (log_of ob (hd targets))) k = None)"

lemma request_fresh:
  assumes "mints_fresh mk a" and "distinct targets"
  shows "fresh (request_of mk targets grp i key a) (ap_outbox a)"
proof -
  have inj: "fst (mk m) = fst (mk n) \<longleftrightarrow> m = n" for m n
    using assms(1) by (auto simp: mints_fresh_def inj_def)
  have "ap_minted a \<le> first_id i grp targets a" by (simp add: first_id_def)
  then show ?thesis
    using assms by (auto simp: fresh_def fresh_ids_def request_of_def Let_def distinct_map inj_on_def inj mints_fresh_def
        write_of_def)
qed

lemma request_new:
  assumes "new_key key targets (ap_outbox a)"
  shows "replay_of (ap_outbox a) (request_of mk targets grp i key a) = None"
  using assms
  by (cases "map_of (ob_logs (ap_outbox a)) (hd targets)")
     (auto simp: replay_of_def request_of_def Let_def new_key_def log_of_def split: option.split)

text \<open>What a refused submission leaves is the outbox as every later call sees it.\<close>

definition same_outbox :: "outbox \<Rightarrow> outbox \<Rightarrow> bool" where
  "same_outbox ob ob' \<longleftrightarrow> ob_records ob' = ob_records ob \<and> log_of ob' = log_of ob
     \<and> ob_batches ob' = ob_batches ob \<and> ob_groups ob' = ob_groups ob"


lemma refused_request:
  assumes "targets \<noteq> []" and "submit (request_of mk targets grp i key a) (ap_outbox a) = (ob', Inl e)"
  shows "status_code (AFSubmit e) = 409 \<and> same_outbox (ap_outbox a) ob'"
proof -
  have S: "su_targets (request_of mk targets grp i key a) = targets" "su_intent (request_of mk targets grp i key a) = i"
    by (simp_all add: request_of_def Let_def)
  have "\<exists>d rej desired. e = Rejected d rej desired"
    using assms(2) assms(1) admit_targets_result [of i targets "ap_outbox a"] S
    by (cases rule: submit_cases [of "request_of mk targets grp i key a" "ap_outbox a"])
       (auto simp: request_of_def Let_def split: option.splits)
  then have "status_code (AFSubmit e) = 409" by (auto simp: api_rejected_def)
  then show ?thesis using refused_changes_nothing [OF assms(2)] by (simp add: same_outbox_def)
qed

text \<open>What an accepted request has done, of a request whose key is new.\<close>

definition recorded_all :: "device_id list \<Rightarrow> intent \<Rightarrow> acceptance \<Rightarrow> outbox \<Rightarrow> outbox \<Rightarrow> bool" where
  "recorded_all targets i acc ob ob' \<longleftrightarrow>
     map ac_device (acc_writes acc) = targets
     \<and> (\<forall>w \<in> set (acc_writes acc).
          (\<exists>r. route_read_write ob' (ac_id w) = Inr r \<and> wr_device r = ac_device w \<and> wr_intent r = i
             \<and> wr_batch r = acc_batch acc \<and> wr_epoch r = ac_epoch w \<and> wr_status r = Pending)
          \<and> dl_queue (log_of ob' (ac_device w)) = dl_queue (log_of ob (ac_device w)) @ [ac_id w]
          \<and> admit (dl_desired (log_of ob (ac_device w))) (verb_of i) = Inr (dl_desired (log_of ob' (ac_device w))))
     \<and> (\<forall>d. d \<notin> set targets \<longrightarrow> log_of ob' d = log_of ob d)
     \<and> (\<forall>j. j \<notin> ac_id ` set (acc_writes acc) \<longrightarrow> write_of ob' j = write_of ob j)"

lemma accepted_request:
  assumes "mints_fresh mk a" and "distinct targets" and "new_key key targets (ap_outbox a)"
    and "submit (request_of mk targets grp i key a) (ap_outbox a) = (ob', Inr acc)"
  shows "recorded_all targets i acc (ap_outbox a) ob'"
    and "acc_batch acc \<noteq> None \<longleftrightarrow> rendezvous i grp targets"
    and "grp = Some s \<Longrightarrow> map_option ge_value (expected ob' (gs_id s) (fst (expects i))) = Some (snd (expects i))"
proof -
  let ?S = "request_of mk targets grp i key a"
  have S: "su_targets ?S = targets" "su_intent ?S = i" "su_group ?S = map_option gs_id grp"
      "su_batch ?S \<noteq> None \<longleftrightarrow> rendezvous i grp targets"
    by (simp_all add: request_of_def Let_def)
  note fresh = request_fresh [OF assms(1,2), of grp i key] and new = request_new [OF assms(3), of mk grp i]
  note acc = submit_acceptance [OF assms(4) new] and eff = submission_effect [OF assms(4) new fresh]
  have "ac_id ` set (acc_writes acc) = set (su_ids ?S)" using acc(3) by (metis set_map)
  then show "recorded_all targets i acc (ap_outbox a) ob'"
    unfolding recorded_all_def using acc(2) eff S(1,2) accepted_row [OF assms(4) new fresh] by simp
  show "acc_batch acc \<noteq> None \<longleftrightarrow> rendezvous i grp targets" using acc(1) S(4) by simp
  show "grp = Some s \<Longrightarrow> map_option ge_value (expected ob' (gs_id s) (fst (expects i))) = Some (snd (expects i))"
    using eff S(2,3) by simp
qed

text \<open>
  C6. A write addressed to a group reaches every member or none. Of a configured group whose members
  are distinct, with ids minted fresh and a key not used before: a refusal is answered with 409 and
  leaves the write side as every later call sees it; an acceptance lists exactly one write per member,
  in the group's order, each readable under its id at once as that member's, pending, at the back of its
  queue and allowed by the admission table; the writes share a batch exactly when the intent is a
  recording verb and the group has more than one member; no other device's queue and no other write is
  touched; and the group is from then on expected to hold what was asked.
\<close>

theorem group_write_exact:
  assumes "catalog_group (ap_catalog a) g = Some s" and "gs_members s \<noteq> []" and "distinct (gs_members s)"
    and "mints_fresh mk a" and "new_key key (gs_members s) (ap_outbox a)"
    and "submit_group mk g route i key a = (a', response)"
  shows "case response of
      None \<Rightarrow> False
    | Some (Inl e) \<Rightarrow> status_code e = 409 \<and> same_outbox (ap_outbox a) (ap_outbox a')
    | Some (Inr resp) \<Rightarrow>
        (let writes = acc_writes (ar_body resp); ob = ap_outbox a; ob' = ap_outbox a'
         in map ac_device writes = gs_members s
           \<and> (acc_batch (ar_body resp) \<noteq> None \<longleftrightarrow> needs_rendezvous i \<and> 1 < length (gs_members s))
           \<and> (ar_location resp \<noteq> None \<longleftrightarrow> length (gs_members s) = 1)
           \<and> (\<forall>w \<in> set writes.
                (\<exists>r. route_read_write ob' (ac_id w) = Inr r \<and> wr_device r = ac_device w \<and> wr_intent r = i
                   \<and> wr_batch r = acc_batch (ar_body resp) \<and> wr_epoch r = ac_epoch w \<and> wr_status r = Pending)
                \<and> dl_queue (log_of ob' (ac_device w)) = dl_queue (log_of ob (ac_device w)) @ [ac_id w]
                \<and> admit (dl_desired (log_of ob (ac_device w))) (verb_of i) = Inr (dl_desired (log_of ob' (ac_device w))))
           \<and> (\<forall>d. d \<notin> set (gs_members s) \<longrightarrow> log_of ob' d = log_of ob d)
           \<and> (\<forall>j. j \<notin> ac_id ` set writes \<longrightarrow> write_of ob' j = write_of ob j)
           \<and> map_option ge_value (expected ob' g (fst (expects i))) = Some (snd (expects i)))"
proof -
  let ?ms = "gs_members s" and ?S = "request_of mk (gs_members s) (Some s) i key a"
  have id: "gs_id s = g" using assms(1) by (auto simp: catalog_group_def dest: find_Some_mem)
  have group: "submit_group mk g route i key a = submit_write mk ?ms (Some s) i key a"
    by (simp add: submit_group_def group_members_def assms(1))
  show ?thesis
  proof (cases "reject_disabled_field (ap_catalog a) ?ms i")
    case (Some e)
    then have "a' = a" "response = Some (Inl e)" using assms(6) by (auto simp: group submit_write_def)
    then show ?thesis using Some
      by (auto simp: reject_disabled_field_def same_outbox_def Let_def split: option.splits if_splits)
  next
    case None
    note eq = submit_write_eq [OF None assms(2), of mk "Some s" key]
    obtain ob' res where sub: "submit ?S (ap_outbox a) = (ob', res)" by (cases "submit ?S (ap_outbox a)")
    show ?thesis
    proof (cases res)
      case (Inl e)
      then have "ap_outbox a' = ob'" "response = Some (Inl (AFSubmit e))"
        using assms(6) unfolding group eq sub by (auto simp: Let_def)
      then show ?thesis using refused_request [OF assms(2) sub [unfolded Inl]] by simp
    next
      case (Inr acc)
      then have a': "ap_outbox a' = ob'"
        and response: "response = Some (Inr \<lparr>ar_location = (case acc_writes acc of [only] \<Rightarrow> Some (''/v1/writes/'' @ ac_id only)
            | _ \<Rightarrow> None), ar_body = acc\<rparr>)"
        using assms(6) unfolding group eq sub by (auto simp: Let_def)
      note did = accepted_request [OF assms(4,3,5) sub [unfolded Inr], unfolded recorded_all_def]
      have "length (acc_writes acc) = length ?ms" using did(1) by (metis length_map)
      then have "(case acc_writes acc of [only] \<Rightarrow> Some (''/v1/writes/'' @ ac_id only) | _ \<Rightarrow> None) \<noteq> None \<longleftrightarrow> length ?ms = 1"
        by (auto split: list.split)
      then show ?thesis using did(1,2) did(3) [OF refl] unfolding response a' by (simp add: Let_def rendezvous_def id)
    qed
  qed
qed

definition tally :: minter where
  "tally n = (replicate n CHR ''i'', ''t'')"

definition small_api :: "memory_catalog \<Rightarrow> api" where
  "small_api cat = \<lparr>ap_catalog = cat, ap_outbox = empty_box, ap_store = with_budget None, ap_minted = 1\<rparr>"

lemma small_api_fresh: "mints_fresh tally (small_api cat)" "new_key key ds (ap_outbox (small_api cat))"
proof -
  have "ob_records empty_box = []" "ob_batches empty_box = []" "log_of empty_box d = default_log" for d
    by (simp_all add: empty_box_def with_backoff_def with_max_attempts_def log_of_def)
  then show "mints_fresh tally (small_api cat)" "new_key key ds (ap_outbox (small_api cat))"
    by (simp_all add: mints_fresh_def new_key_def small_api_def tally_def inj_def write_of_def default_log_def)
qed

lemma two_rooms_r: "catalog_group two_rooms ''r'' = Some (room ''r'' [''a'', ''b''])"
  by (simp add: catalog_group_def two_rooms_def room_def)

lemma small_api_accepts:
  "\<exists>x. snd (submit_write tally [''a'', ''b''] (Some (room ''r'' [''a'', ''b''])) StartRecording None (small_api two_rooms))
     = Some (Inr x)"
  "\<exists>x. snd (submit_write tally [''a'', ''b''] (Some (room ''r'' [''a'', ''b''])) (SetMetadata f v) (Some k) (small_api two_rooms))
     = Some (Inr x)"
proof -
  let ?S = "\<lambda>i key. request_of tally [''a'', ''b''] (Some (room ''r'' [''a'', ''b''])) i key (small_api two_rooms)"
  have "\<exists>ob acc. submit (?S i key) (ap_outbox (small_api two_rooms)) = (ob, Inr acc)"
    if "i = StartRecording \<or> i = SetMetadata f v" for i key
    using that
    by (auto simp: request_of_def first_id_def rendezvous_def small_api_def room_def tally_def submit_def replay_of_def
        empty_box_def with_backoff_def with_max_attempts_def default_log_def log_of_def oentry_def epoch_of_def Let_def
        case_prod_beta split: option.split)
  moreover have "reject_disabled_field (ap_catalog (small_api two_rooms)) [''a'', ''b''] i = None" for i
    by (simp add: reject_disabled_field_def refusing_def small_api_def two_rooms_def recorder_def catalog_device_def
        List.map_filter_simps split: option.split)
  ultimately show
    "\<exists>x. snd (submit_write tally [''a'', ''b''] (Some (room ''r'' [''a'', ''b''])) StartRecording None (small_api two_rooms))
       = Some (Inr x)"
    "\<exists>x. snd (submit_write tally [''a'', ''b''] (Some (room ''r'' [''a'', ''b''])) (SetMetadata f v) (Some k) (small_api two_rooms))
       = Some (Inr x)"
    by (auto simp: submit_write_eq Let_def split: prod.split sum.split) (metis Pair_inject sum.distinct(1))+
qed

theorem group_write_exact_witness:
  "\<exists>a' resp. submit_group tally ''r'' ''recording/start'' StartRecording None (small_api two_rooms) = (a', Some (Inr resp))
     \<and> map ac_device (acc_writes (ar_body resp)) = [''a'', ''b''] \<and> acc_batch (ar_body resp) \<noteq> None"
proof -
  obtain a' resp where r: "submit_group tally ''r'' ''recording/start'' StartRecording None (small_api two_rooms) = (a', resp)"
    by (cases "submit_group tally ''r'' ''recording/start'' StartRecording None (small_api two_rooms)")
  have room: "gs_members (room ''r'' [''a'', ''b'']) = [''a'', ''b'']" by (simp add: room_def)
  have cat: "catalog_group (ap_catalog (small_api two_rooms)) ''r'' = Some (room ''r'' [''a'', ''b''])"
    by (simp add: small_api_def two_rooms_r)
  have "resp = snd (submit_write tally [''a'', ''b''] (Some (room ''r'' [''a'', ''b''])) StartRecording None (small_api two_rooms))"
    using r by (simp add: submit_group_def group_members_def cat room)
  then have "\<exists>x. resp = Some (Inr x)" using small_api_accepts(1) by simp
  then obtain x where x: "resp = Some (Inr x)" by blast
  from group_write_exact [OF cat _ _ small_api_fresh r] show ?thesis
    by (auto simp: x room r Let_def)
qed

text \<open>
  C33. A repeated group write is answered in part. Take an accepted write of metadata or of a setting to a
  group, under a key. The same request again, as the key is there for, is answered with the first
  member's write alone and a Location header naming it, though the original was one write per member:
  only the writes of a batch are found again. Nothing is recorded twice.
\<close>

theorem replayed_group_write_partial:
  assumes "catalog_group (ap_catalog a) g = Some s" and "gs_members s \<noteq> []" and "distinct (gs_members s)"
    and "mints_fresh mk a" and "new_key (Some k) (gs_members s) (ap_outbox a)" and "\<not> needs_rendezvous i"
    and "submit_group mk g route i (Some k) a = (a', Some (Inr resp))"
  shows "\<exists>a'' again. submit_group mk g route i (Some k) a' = (a'', Some (Inr again))
    \<and> length (acc_writes (ar_body resp)) = length (gs_members s)
    \<and> acc_writes (ar_body again) = [hd (acc_writes (ar_body resp))]
    \<and> ar_location again = Some (''/v1/writes/'' @ ac_id (hd (acc_writes (ar_body resp))))
    \<and> ap_outbox a'' = ap_outbox a'"
proof -
  let ?ms = "gs_members s"
  let ?S = "request_of mk ?ms (Some s) i (Some k) a" and ?S' = "request_of mk ?ms (Some s) i (Some k) a'"
  have group: "submit_group mk g route i key b = submit_write mk ?ms (Some s) i key b" if "ap_catalog b = ap_catalog a" for b key
    using that by (simp add: submit_group_def group_members_def assms(1))
  have ok: "reject_disabled_field (ap_catalog a) ?ms i = None"
    using assms(7) by (cases "reject_disabled_field (ap_catalog a) ?ms i") (auto simp: group submit_write_def)
  obtain ob' acc where sub: "submit ?S (ap_outbox a) = (ob', Inr acc)"
    and a': "a' = a\<lparr>ap_minted := first_id i (Some s) ?ms a + length ?ms, ap_outbox := ob'\<rparr>" and resp: "ar_body resp = acc"
    using assms(7) unfolding group [OF refl] submit_write_eq [OF ok assms(2)] Let_def
    by (auto split: prod.splits sum.splits)
  note fresh = request_fresh [OF assms(4,3), of "Some s" i "Some k"] and new = request_new [OF assms(5), of mk "Some s" i]
  note acc = submit_acceptance [OF sub new]
  have S: "su_targets ?S = ?ms" "su_key ?S = Some k" "su_batch ?S = None" "su_targets ?S' = ?ms" "su_key ?S' = Some k"
      "su_intent ?S = i"
    using assms(6) by (simp_all add: request_of_def Let_def rendezvous_def)
  have zero: "0 < length (su_targets ?S)" using assms(2) S(1) by simp
  have n: "length (acc_writes acc) = length ?ms" using acc(2) S(1) by (metis length_map)
  obtain w ws where w: "acc_writes acc = w # ws" using n assms(2) by (cases "acc_writes acc") auto
  have d: "ac_device w = hd ?ms" "ac_id w = su_ids ?S ! 0" using acc(2,3) w S(1) by (metis list.sel(1) list.simps(9) nth_Cons_0)+
  have hd: "?ms ! 0 = hd ?ms" using assms(2) by (simp add: hd_conv_nth)
  let ?adm = "admission (ap_outbox a) i (hd ?ms)"
  have rec: "map_of (ob_records ob') (ac_id w) = Some (new_record ?S (hd ?ms) (ac_id w) (ac_epoch w))"
    and log: "log_of ob' (hd ?ms) = append_write ?S (ac_id w) ?adm (log_of (ap_outbox a) (hd ?ms))"
    using submit_admitted(2) [OF sub new fresh zero refl] acc(4) [OF zero] w
    unfolding S(1,6) hd d(2) by simp_all
  have key: "map_of (dl_keys (log_of ob' (hd ?ms))) k = Some (ac_id w)"
    unfolding log by (simp add: append_write_def S(2) split: prod.split)
  then obtain l where l: "map_of (ob_logs ob') (hd ?ms) = Some l" "map_of (dl_keys l) k = Some (ac_id w)"
    by (auto simp: log_of_def default_log_def split: option.splits)
  have "\<lparr>ac_id = ac_id w, ac_device = ac_device w, ac_epoch = ac_epoch w\<rparr> = w" by simp
  then have "replay_of ob' ?S' = Some \<lparr>acc_batch = None, acc_writes = [w]\<rparr>"
    using l rec d(1) by (simp add: replay_of_def S new_record_def accepted_of_def)
  moreover have "length (su_ids ?S') = length ?ms" by (simp add: request_of_def Let_def)
  ultimately have again: "submit ?S' ob' = (ob', Inr \<lparr>acc_batch = None, acc_writes = [w]\<rparr>)"
    using assms(2) S(4) by (simp add: submit_def)
  have "ap_catalog a' = ap_catalog a" "ap_outbox a' = ob'" by (simp_all add: a')
  then show ?thesis
    using ok again n by (simp add: group submit_write_eq [OF _ assms(2)] Let_def resp w)
qed

theorem replayed_group_write_partial_witness:
  "\<exists>a' resp a'' again. submit_group tally ''r'' ''metadata/TITLE'' (SetMetadata ''TITLE'' ''v'') (Some ''k'') (small_api two_rooms)
        = (a', Some (Inr resp))
     \<and> submit_group tally ''r'' ''metadata/TITLE'' (SetMetadata ''TITLE'' ''v'') (Some ''k'') a' = (a'', Some (Inr again))
     \<and> length (acc_writes (ar_body resp)) = 2 \<and> length (acc_writes (ar_body again)) = 1"
proof -
  let ?i = "SetMetadata ''TITLE'' ''v''"
  have room: "gs_members (room ''r'' [''a'', ''b'']) = [''a'', ''b'']" by (simp add: room_def)
  have cat: "catalog_group (ap_catalog (small_api two_rooms)) ''r'' = Some (room ''r'' [''a'', ''b''])"
    by (simp add: small_api_def two_rooms_r)
  have "submit_group tally ''r'' ''metadata/TITLE'' ?i (Some ''k'') (small_api two_rooms)
      = submit_write tally [''a'', ''b''] (Some (room ''r'' [''a'', ''b''])) ?i (Some ''k'') (small_api two_rooms)"
    by (simp add: submit_group_def group_members_def cat room)
  then obtain a' resp where first: "submit_group tally ''r'' ''metadata/TITLE'' ?i (Some ''k'') (small_api two_rooms) = (a', Some (Inr resp))"
    using small_api_accepts(2) [of "''TITLE''" "''v''" "''k''"] by (metis prod.collapse)
  from replayed_group_write_partial [OF cat _ _ small_api_fresh _ first] first show ?thesis
    by (auto simp: room)
qed

text \<open>
  C32. A synonym slips past a declared veto. Whenever a device's file disables STREAM_1_NAME, a write of that
  setting under its own name is refused with FieldDisabled; under the catalog's other spelling of
  the same setting it is accepted, and the relay translates both into the same
  instruction. The check compares text, although its comment has both sides canonical.
\<close>

theorem synonym_escapes_veto:
  assumes "catalog_group (ap_catalog a) d = None" and "catalog_device (ap_catalog a) d = Some dev"
    and "''STREAM_1_NAME'' \<in> set (ds_disabled_fields dev)" and "''STREAM_NAME_1'' \<notin> set (ds_disabled_fields dev)"
  shows "(\<exists>msg. route_set_setting mk d ''stream-1-name'' v key a = (a, Some (Inl (AFRejected FieldDisabled msg))))
    \<and> (\<exists>a' resp. route_set_setting mk d ''stream-name-1'' v key a = (a', Some (Inr resp)))
    \<and> to_instruction wn (SetSetting (normalize_field ''stream-name-1'') v)
        = to_instruction wn (SetSetting (normalize_field ''stream-1-name'') v)"
proof -
  have names: "normalize_field ''stream-1-name'' = ''STREAM_1_NAME''" "normalize_field ''stream-name-1'' = ''STREAM_NAME_1''"
    "catalog_from_str setting_catalog ''STREAM_1_NAME'' = Inr S_Stream1Name" "catalog_from_str setting_catalog ''STREAM_NAME_1'' = Inr S_Stream1Name"
    "isl (catalog_from_str register_catalog ''STREAM_1_NAME'')" "isl (catalog_from_str register_catalog ''STREAM_NAME_1'')"
    by code_simp+
  have routes: "reject_group (ap_catalog a) d WRITES r = None" "ds_id dev = d" for r
    using assms(1,2) by (auto simp: reject_group_def catalog_device_def dest: find_Some_mem)
  have open': "reject_disabled_field (ap_catalog a) [d] (SetSetting ''STREAM_NAME_1'' v) = None"
    and shut: "\<exists>msg. reject_disabled_field (ap_catalog a) [d] (SetSetting ''STREAM_1_NAME'' v) = Some (AFRejected FieldDisabled msg)"
    using assms by (simp_all add: reject_disabled_field_def refusing_def List.map_filter_simps)
  let ?S = "request_of mk [d] None (SetSetting ''STREAM_NAME_1'' v) key a"
  have "\<exists>ob acc. submit ?S (ap_outbox a) = (ob, Inr acc)"
    by (auto simp: submit_def request_of_def Let_def case_prod_beta split: option.split)
  then obtain ob acc where "submit ?S (ap_outbox a) = (ob, Inr acc)" by blast
  then have "\<exists>a' resp. submit_write mk [d] None (SetSetting ''STREAM_NAME_1'' v) key a = (a', Some (Inr resp))"
    by (simp add: submit_write_eq [OF open'] Let_def)
  moreover have "\<exists>msg. submit_write mk [d] None (SetSetting ''STREAM_1_NAME'' v) key a = (a, Some (Inl (AFRejected FieldDisabled msg)))"
    using shut by (auto simp: submit_write_def)
  moreover have "to_instruction wn (SetSetting ''STREAM_NAME_1'' v) = to_instruction wn (SetSetting ''STREAM_1_NAME'' v)"
    using names(3-6) by (auto simp: isl_def split: sum.split)
  ultimately show ?thesis using routes assms(2) by (simp add: route_set_setting_def submit_device_def names)
qed

theorem synonym_escapes_veto_witness:
  "\<exists>cat. (\<exists>a' resp. route_set_setting tally ''a'' ''stream-name-1'' ''v'' None (small_api cat) = (a', Some (Inr resp)))
     \<and> (\<exists>msg. route_set_setting tally ''a'' ''stream-1-name'' ''v'' None (small_api cat)
           = (small_api cat, Some (Inl (AFRejected FieldDisabled msg))))"
proof -
  let ?cat = "two_rooms\<lparr>mc_devices := [recorder ''a'' [''STREAM_1_NAME'']], mc_groups := []\<rparr>"
  have "catalog_group (ap_catalog (small_api ?cat)) ''a'' = None"
    and "catalog_device (ap_catalog (small_api ?cat)) ''a'' = Some (recorder ''a'' [''STREAM_1_NAME''])"
    and "''STREAM_1_NAME'' \<in> set (ds_disabled_fields (recorder ''a'' [''STREAM_1_NAME'']))"
    and "''STREAM_NAME_1'' \<notin> set (ds_disabled_fields (recorder ''a'' [''STREAM_1_NAME'']))"
    by (simp_all add: small_api_def catalog_group_def catalog_device_def recorder_def)
  from synonym_escapes_veto [OF this, of tally "''v''" None] show ?thesis by blast
qed

end
