(* ===== verification/Sis_Document.thy ===== *)
theory Sis_Document
  imports Sis_Fleet
begin

text \<open>
  What a written devices document keeps: canonical field names are fixed points of
  canonicalisation, a device projected back from its resolved form resolves to itself under any
  defaults, and the document the server persists resolves, at the next start, to the fleet that
  was persisted.
\<close>


section \<open>Canonical field names\<close>

abbreviation accepted_names :: "'v entry \<Rightarrow> string list" where
  "accepted_names e \<equiv> en_name e # en_aliases e"

lemma catalog_variants_distinct:
  "distinct (map en_variant query_catalog)" "distinct (map en_variant setting_catalog)"
  "distinct (map en_variant register_catalog)"
  by (simp_all add: query_catalog_def setting_catalog_def register_catalog_def entry_def)

lemma query_names_distinct: "distinct (concat (map accepted_names query_catalog))"
  by (simp add: query_catalog_def entry_def)

lemma setting_names_distinct: "distinct (concat (map accepted_names setting_catalog))"
  by (simp add: setting_catalog_def entry_def)

lemma register_names_distinct: "distinct (concat (map accepted_names register_catalog))"
  by (simp add: register_catalog_def entry_def)

lemma query_names_normal: "list_all (\<lambda>n. normalize n = n) (map en_name query_catalog)"
  by code_simp

lemma setting_names_normal: "list_all (\<lambda>n. normalize n = n) (map en_name setting_catalog)"
  by code_simp

lemma register_names_normal: "list_all (\<lambda>n. normalize n = n) (map en_name register_catalog)"
  by code_simp

text \<open>No name of one catalog is an alias of another.\<close>

lemma setting_names_no_alias:
  "list_all (\<lambda>n. n \<notin> set (concat (map en_aliases query_catalog))) (map en_name setting_catalog)"
  by (simp add: query_catalog_def setting_catalog_def entry_def)

lemma register_names_no_alias:
  "list_all (\<lambda>n. n \<notin> set (concat (map en_aliases query_catalog))) (map en_name register_catalog)"
  "list_all (\<lambda>n. n \<notin> set (concat (map en_aliases setting_catalog))) (map en_name register_catalog)"
  by (simp_all add: query_catalog_def setting_catalog_def register_catalog_def entry_def)

lemma find_distinct_key: "distinct (map f xs) \<Longrightarrow> x \<in> set xs \<Longrightarrow> find (\<lambda>y. f y = f x) xs = Some x"
  by (induction xs) auto

lemma find_distinct_member:
  "distinct (concat (map f xs)) \<Longrightarrow> x \<in> set xs \<Longrightarrow> n \<in> set (f x) \<Longrightarrow> find (\<lambda>y. n \<in> set (f y)) xs = Some x"
  by (induction xs) auto

lemma catalog_hit:
  assumes "catalog_from_str cat s = Inr q"
  obtains e where "e \<in> set cat" and "en_variant e = q" and "normalize s \<in> set (accepted_names e)"
proof -
  obtain e where e: "find (\<lambda>e. normalize s \<in> set (accepted_names e)) cat = Some e" "en_variant e = q"
    using assms by (auto simp: catalog_from_str_def split: option.splits)
  from e(1) have "e \<in> set cat" "normalize s \<in> set (accepted_names e)" unfolding find_Some_iff by auto
  with e(2) show thesis by (intro that)
qed

lemma catalog_name_entry:
  assumes "distinct (map en_variant cat)" and "e \<in> set cat"
  shows "catalog_name cat (en_variant e) = en_name e"
  using find_distinct_key [OF assms] by (simp add: catalog_name_def arm_def)

text \<open>Looking a canonical name up in its own catalog, and in another one.\<close>

lemma catalog_own_name:
  assumes "distinct (concat (map accepted_names cat))" and "e \<in> set cat"
    and "list_all (\<lambda>n. normalize n = n) (map en_name cat)"
  shows "catalog_from_str cat (en_name e) = Inr (en_variant e)"
proof -
  have "normalize (en_name e) = en_name e" using assms(2,3) by (auto simp: list_all_iff)
  moreover have "find (\<lambda>e'. en_name e \<in> set (accepted_names e')) cat = Some e"
    using assms(1,2) by (rule find_distinct_member) simp
  ultimately show ?thesis by (simp add: catalog_from_str_def)
qed

lemma catalog_other_name:
  assumes "normalize n = n" and "n \<notin> set (concat (map en_aliases cat))" and "distinct (map en_variant cat)"
    and "catalog_from_str cat n = Inr q"
  shows "catalog_name cat q = n"
proof -
  from assms(4) obtain e where e: "e \<in> set cat" "en_variant e = q" "normalize n \<in> set (accepted_names e)"
    by (rule catalog_hit)
  then have "en_name e = n" using assms(1,2) by auto
  then show ?thesis using catalog_name_entry [OF assms(3) e(1)] e(2) by simp
qed

lemma canonical_query: "e \<in> set query_catalog \<Longrightarrow> canonical_field (en_name e) = Some (en_name e)"
  using catalog_own_name [OF query_names_distinct _ query_names_normal, of e]
    catalog_name_entry [OF catalog_variants_distinct(1), of e]
  by (simp add: canonical_field_def)

lemma canonical_setting:
  assumes e: "e \<in> set setting_catalog"
  shows "canonical_field (en_name e) = Some (en_name e)"
proof (cases "catalog_from_str query_catalog (en_name e)")
  case (Inl x)
  then show ?thesis
    using catalog_own_name [OF setting_names_distinct e setting_names_normal]
      catalog_name_entry [OF catalog_variants_distinct(2) e]
    by (simp add: canonical_field_def)
next
  case (Inr q)
  have "normalize (en_name e) = en_name e" "en_name e \<notin> set (concat (map en_aliases query_catalog))"
    using e setting_names_normal setting_names_no_alias unfolding list_all_iff by (blast intro: image_eqI | force)+
  then show ?thesis using catalog_other_name [OF _ _ catalog_variants_distinct(1) Inr] Inr
    by (simp add: canonical_field_def)
qed

lemma canonical_register:
  assumes e: "e \<in> set register_catalog"
  shows "canonical_field (en_name e) = Some (en_name e)"
proof -
  have n: "normalize (en_name e) = en_name e" "en_name e \<notin> set (concat (map en_aliases query_catalog))"
    "en_name e \<notin> set (concat (map en_aliases setting_catalog))"
    using e register_names_normal register_names_no_alias unfolding list_all_iff by (blast intro: image_eqI | force)+
  show ?thesis
    using catalog_other_name [OF n(1,2) catalog_variants_distinct(1)]
      catalog_other_name [OF n(1,3) catalog_variants_distinct(2)]
      catalog_own_name [OF register_names_distinct e register_names_normal]
      catalog_name_entry [OF catalog_variants_distinct(3) e]
    by (auto simp: canonical_field_def split: sum.split)
qed

lemma canonical_field_fixed:
  assumes "canonical_field written = Some n"
  shows "canonical_field n = Some n"
proof -
  have "(\<exists>e \<in> set query_catalog. en_name e = n) \<or> (\<exists>e \<in> set setting_catalog. en_name e = n)
      \<or> (\<exists>e \<in> set register_catalog. en_name e = n)"
    using assms catalog_name_entry [OF catalog_variants_distinct(1)]
      catalog_name_entry [OF catalog_variants_distinct(2)] catalog_name_entry [OF catalog_variants_distinct(3)]
    by (fastforce simp: canonical_field_def split: sum.splits elim!: catalog_hit)
  then show ?thesis using canonical_query canonical_setting canonical_register by blast
qed


section \<open>Projecting a device back\<close>

lemma secs_word_from_secs [simp]: "secs_word (from_secs s) = s"
  by (simp add: secs_word_def as_secs_def from_secs_def)

lemma opt_secs_nonzero_secs [simp]: "opt_secs (nonzero_secs s) = s"
  by (auto simp: opt_secs_def nonzero_secs_def word_gt_0)

lemma sorted_distinct_oset: "sorted xs \<Longrightarrow> distinct xs \<Longrightarrow> oset xs = xs"
  by (simp add: oset_def distinct_remdups_id sorted_sort_id)

lemma canonicalize_all_fixed:
  "\<forall>n \<in> set ns. canonical_field n = Some n \<Longrightarrow> canonicalize_all i ns = Inr ns"
  by (induction ns) auto

lemma canonicalize_disabled_fixed:
  assumes "canonicalize_disabled i listed = Inr ns"
  shows "canonicalize_disabled j (Some ns) = Inr ns"
proof -
  note ns = canonicalize_disabled_Inr [OF assms]
  then have "canonical_field n = Some n" if "n \<in> set ns" for n
    using that canonical_field_fixed by (metis (no_types, lifting) image_iff)
  then have "canonicalize_all j ns = Inr ns" by (intro canonicalize_all_fixed) blast
  then show ?thesis using ns by (simp add: canonicalize_disabled_def sorted_distinct_oset)
qed

text \<open>A resolved device has whole-second durations and canonical vetoes, so it is its own source.\<close>

lemma resolve_raw_of:
  assumes "resolve v d dev = Inr c"
  shows "resolve v d' (raw_of c d'') = Inr c"
proof -
  obtain u pw ns where *: "require (rw_id dev) ''username'' (opt_or (rw_username dev) (df_username d)) = Inr u"
    "require (rw_id dev) ''password'' (opt_or (rw_password dev) (df_password d)) = Inr pw"
    and ns: "canonicalize_disabled (rw_id dev) (opt_or (rw_disabled_fields dev) (df_disabled_fields d)) = Inr ns"
    using assms by (auto simp: resolve_def Let_def split: sum.splits)
  note r = assms [unfolded resolve_def Let_def * ns sum.case, simplified]
  note canon = canonicalize_disabled_fixed [OF ns]
  show ?thesis
    unfolding r [symmetric]
    by (simp add: resolve_def raw_of_def require_def opt_or_def [of "Some x" for x] unwrap_or_def [of _ "Some x" for x]
        canon fingerprint_def fingerprint_bytes_def Let_def)
qed

lemma resolve_devices_raw_of:
  assumes "list_all2 (\<lambda>raw c. resolve v d raw = Inr c) raws cs" and "distinct (map dc_id cs)"
    and "\<forall>c \<in> set cs. dc_id c \<notin> seen"
  shows "resolve_devices v d' seen (map (\<lambda>c. raw_of c d'') cs) = Inr (cs, seen \<union> dc_id ` set cs)"
  using assms
proof (induction arbitrary: seen rule: list_all2_induct)
  case (Cons raw raws c cs)
  have "rw_id (raw_of c d'') = dc_id c" by (simp add: raw_of_def)
  moreover have "resolve_devices v d' (insert (dc_id c) seen) (map (\<lambda>c. raw_of c d'') cs)
      = Inr (cs, insert (dc_id c) seen \<union> dc_id ` set cs)"
    using Cons.prems by (intro Cons.IH) (auto simp: image_iff)
  ultimately show ?case using Cons.prems(2) resolve_raw_of [OF Cons.hyps(1)] by auto
qed simp


section \<open>What a start reads back\<close>

text \<open>The keys of an exported document as the loader's types take them.\<close>

definition read_device :: "export_device \<Rightarrow> raw_device" where
  "read_device e = \<lparr>rw_id = ed_id e, rw_host = ed_host e, rw_port = Some (ed_port e),
     rw_username = Some (ed_username e), rw_password = ed_password e,
     rw_connect_secs = Some (ed_connect_secs e), rw_exchange_secs = Some (ed_exchange_secs e),
     rw_eager = Some (ed_eager e), rw_sis_keepalive_secs = Some (ed_sis_keepalive_secs e),
     rw_eager_retry_secs = Some (ed_eager_retry_secs e), rw_cold_backoff_secs = Some (ed_cold_backoff_secs e),
     rw_disabled_fields = Some (ed_disabled_fields e), rw_auto_disable_after = Some (ed_auto_disable_after e),
     rw_self_heal_secs = Some (ed_self_heal_secs e)\<rparr>"

definition read_group :: "export_group \<Rightarrow> raw_group" where
  "read_group e = \<lparr>rg_id = eg_id e, rg_devices = eg_devices e,
     rg_barrier_timeout_secs = Some (eg_barrier_timeout_secs e),
     rg_barrier = Some (if eg_barrier e = ''dispatch_ready'' then RawDispatchReady else RawFailBatch)\<rparr>"

definition read_defaults :: "export_defaults \<Rightarrow> defaults" where
  "read_defaults e = \<lparr>df_port = None, df_username = ef_username e, df_password = ef_password e,
     df_connect_secs = None, df_exchange_secs = None, df_eager = None, df_sis_keepalive_secs = None,
     df_eager_retry_secs = None, df_cold_backoff_secs = None, df_disabled_fields = None,
     df_auto_disable_after = None, df_self_heal_secs = None\<rparr>"

definition read_back :: "export_document \<Rightarrow> raw_config" where
  "read_back doc = \<lparr>rc_defaults = read_defaults (ex_defaults doc),
     rc_devices = map read_device (ex_devices doc), rc_groups = map read_group (ex_groups doc)\<rparr>"

fun reads :: "formats \<Rightarrow> export_format \<Rightarrow> string \<Rightarrow> string + raw_config" where
  "reads fmts FToml = fm_toml fmts"
| "reads fmts FYaml = fm_yaml fmts"
| "reads fmts FJson = fm_json fmts"

lemma read_exported_device:
  assumes "resolve v d dev = Inr c" and "eq_include_secrets q" and "\<not> eq_promote q"
  shows "read_device (export_device_of promoted q c) = raw_of c d'"
proof -
  have "oset (dc_disabled_fields c) = dc_disabled_fields c"
    using canonicalize_disabled_Inr [OF resolve_Inr(3) [OF assms(1)]] by (simp add: sorted_distinct_oset)
  then show ?thesis
    using assms(2,3) by (simp add: read_device_def export_device_of_def raw_of_def split: option.split)
qed

lemma read_exported_group:
  assumes "gc_barrier_timeout g = from_secs s"
  shows "read_group (export_group_of g) = \<lparr>rg_id = gc_id g, rg_devices = gc_device_ids g,
     rg_barrier_timeout_secs = Some s, rg_barrier = Some (raw_barrier_of (gc_barrier g))\<rparr>"
  using assms by (cases "gc_barrier g") (simp_all add: read_group_def export_group_of_def)

lemma barrier_from_raw [simp]: "barrier_from (raw_barrier_of b) = b"
  by (cases b) simp_all

lemma default_timeout_whole:
  assumes "default_barrier_timeout ds ms = Some t"
  shows "\<exists>s. t = from_secs s"
proof -
  obtain n where n: "n < 2 ^ 64" "t = seconds (max n 1)"
    using assms by (auto simp: default_barrier_timeout_def Let_def split: option.splits if_splits)
  then have "t = from_secs (of_nat (max n 1))" by (simp add: from_secs_def unat_of_nat max_def)
  then show ?thesis by blast
qed

lemma resolve_groups_read:
  "resolve_groups ds seen raws = Some (Inr gs) \<Longrightarrow>
   resolve_groups ds seen (map (\<lambda>g. read_group (export_group_of g)) gs) = Some (Inr gs)"
proof (induction raws arbitrary: seen gs)
  case (Cons raw raws)
  from Cons.prems obtain t gs' where t: "rg_id raw \<notin> seen" "rg_devices raw \<noteq> []"
    "find (\<lambda>m. m \<notin> set (map dc_id ds)) (rg_devices raw) = None"
    "(case rg_barrier_timeout_secs raw of Some s \<Rightarrow> Some (from_secs s)
        | None \<Rightarrow> default_barrier_timeout ds (rg_devices raw)) = Some t"
    "resolve_groups ds (insert (rg_id raw) seen) raws = Some (Inr gs')"
    "gs = \<lparr>gc_id = rg_id raw, gc_device_ids = rg_devices raw, gc_barrier_timeout = t,
        gc_barrier = unwrap_or default_group_barrier (map_option barrier_from (rg_barrier raw))\<rparr> # gs'"
    by (auto simp: Let_def split: if_splits option.splits sum.splits)
  obtain s where "t = from_secs s" using t(4) default_timeout_whole by (auto split: option.splits)
  then show ?case using t Cons.IH [OF t(5)]
    by (simp add: read_exported_group [where s = s] unwrap_or_def [of _ "Some x" for x])
qed simp

lemma resolve_read_back:
  assumes "resolve_config v raw = Some (Inr r)" and "eq_include_secrets q" and "\<not> eq_promote q"
  shows "resolve_config v (read_back (export_document_of (rs_devices r) (rs_groups r) promoted q)) = Some (Inr r)"
proof -
  obtain seen where d: "resolve_devices v (rc_defaults raw) {} (rc_devices raw) = Inr (rs_devices r, seen)"
    and g: "resolve_groups (rs_devices r) seen (rc_groups raw) = Some (Inr (rs_groups r))"
    using assms(1) by (auto simp: resolve_config_def split: sum.splits prod.splits option.splits)
  note ds = resolve_devices_Inr [OF d]
  then have rel: "list_all2 (\<lambda>raw c. resolve v (rc_defaults raw') raw = Inr c) (rc_devices raw) (rs_devices r)"
    if "raw' = raw" for raw' using that by blast
  then have ids: "map dc_id (rs_devices r) = map rw_id (rc_devices raw)" using list_all2_ids by blast
  then have seen: "seen = {} \<union> dc_id ` set (rs_devices r)" using ds by (metis Un_empty_left list.set_map)
  let ?d = "read_defaults \<lparr>ef_username = None, ef_password = None\<rparr>"
  have "resolve_devices v ?d {} (map (\<lambda>c. raw_of c ?d) (rs_devices r)) = Inr (rs_devices r, seen)"
    unfolding seen using ds ids by (intro resolve_devices_raw_of [where d = "rc_defaults raw" and raws = "rc_devices raw"]) auto
  moreover have m: "map (\<lambda>c. read_device (export_device_of promoted q c)) (rs_devices r) = map (\<lambda>c. raw_of c ?d) (rs_devices r)"
  proof (rule map_cong [OF refl])
    fix c assume "c \<in> set (rs_devices r)"
    with rel [OF refl] obtain dev where "resolve v (rc_defaults raw) dev = Inr c" by (rule list_all2_right)
    then show "read_device (export_device_of promoted q c) = raw_of c ?d"
      using assms(2,3) by (rule read_exported_device)
  qed
  moreover have "read_back (export_document_of (rs_devices r) (rs_groups r) promoted q)
      = \<lparr>rc_defaults = ?d, rc_devices = map (\<lambda>c. raw_of c ?d) (rs_devices r),
         rc_groups = map (\<lambda>g. read_group (export_group_of g)) (rs_groups r)\<rparr>"
    unfolding m [symmetric] by (simp add: read_back_def export_document_of_def)
  ultimately show ?thesis using resolve_groups_read [OF g] by (simp add: resolve_config_def)
qed

text \<open>What \<open>amend\<close> keeps of the document it applied: it resolves to the same fleet.\<close>

lemma resolve_amended:
  assumes "resolve_config v amended = Some (Inr r)"
  shows "resolve_config v (doc\<lparr>rc_devices := map (\<lambda>c. raw_of c d) (rs_devices r), rc_groups := rc_groups amended\<rparr>)
    = Some (Inr r)"
proof -
  obtain seen where d: "resolve_devices v (rc_defaults amended) {} (rc_devices amended) = Inr (rs_devices r, seen)"
    and g: "resolve_groups (rs_devices r) seen (rc_groups amended) = Some (Inr (rs_groups r))"
    using assms by (auto simp: resolve_config_def split: sum.splits prod.splits option.splits)
  note ds = resolve_devices_Inr [OF d]
  then have ids: "map dc_id (rs_devices r) = map rw_id (rc_devices amended)" using list_all2_ids by blast
  then have seen: "seen = {} \<union> dc_id ` set (rs_devices r)" using ds by (metis Un_empty_left list.set_map)
  have "resolve_devices v (rc_defaults doc) {} (map (\<lambda>c. raw_of c d) (rs_devices r)) = Inr (rs_devices r, seen)"
    unfolding seen using ds ids
    by (intro resolve_devices_raw_of [where d = "rc_defaults amended" and raws = "rc_devices amended"]) auto
  then show ?thesis using g by (simp add: resolve_config_def)
qed
end
