(* ===== verification/Sis_Fleet_Spec.thy ===== *)
theory Sis_Fleet_Spec
  imports Sis_Document
begin

text \<open>
  Properties of the running fleet: the document, the registry and the catalog agree after every
  verb; a verb touches the device it names and no other; the persisted document restarts the
  fleet; and how the per-device tasks of the relay and the keepalive follow the registry.
\<close>


section \<open>One fleet in three forms\<close>

definition adopted :: "(string \<Rightarrow> string \<Rightarrow> uuid) \<Rightarrow> resolved \<Rightarrow> live_fleet \<Rightarrow> bool" where
  "adopted v r fl \<longleftrightarrow>
     resolve_config v (lf_document fl) = Some (Inr r) \<and> lf_catalog fl = adopt_catalog r
     \<and> registry_ok (lf_registry fl) \<and> identified v (lf_registry fl) \<and> follows (lf_registry fl) r"

text \<open>The configurations a document resolves to, and hashing that keeps a set of them apart.\<close>

definition fleet_configs :: "(string \<Rightarrow> string \<Rightarrow> uuid) \<Rightarrow> live_fleet \<Rightarrow> device_config set" where
  "fleet_configs v fl = (case resolve_config v (lf_document fl) of
     Some (Inr r) \<Rightarrow> set (rs_devices r)
   | _ \<Rightarrow> {})"

definition hashed_apart :: "(string \<Rightarrow> string \<Rightarrow> uuid) \<Rightarrow> device_config set \<Rightarrow> bool" where
  "hashed_apart v cs \<longleftrightarrow> (\<forall>c \<in> cs. representable c) \<and> inj_on (v DEVICE_NAMESPACE) (fingerprint_bytes ` cs)"

datatype fleet_verb =
    VAdd device_write
  | VReplace string device_write
  | VRemove string
  | VAddGroup group_write_body
  | VReplaceGroup string group_write_body
  | VRemoveGroup string
  | VReset "config_error + raw_config"

text \<open>The outcome of a verb: \<open>None\<close> a panic, \<open>Some (Some e)\<close> a refusal, \<open>Some None\<close> done.\<close>

definition verdict :: "live_fleet \<times> (inventory_refusal + 'a) option \<Rightarrow> live_fleet \<times> inventory_refusal option option" where
  "verdict x = (fst x, map_option (\<lambda>y. case y of Inl e \<Rightarrow> Some e | Inr a \<Rightarrow> None) (snd x))"

fun fleet_do :: "fleet_env \<Rightarrow> fleet_verb \<Rightarrow> live_fleet \<Rightarrow> live_fleet \<times> inventory_refusal option option" where
  "fleet_do E (VAdd w) fl = verdict (fleet_add E w fl)"
| "fleet_do E (VReplace i w) fl = verdict (fleet_replace E i w fl)"
| "fleet_do E (VRemove i) fl = verdict (fleet_remove E i fl)"
| "fleet_do E (VAddGroup w) fl = verdict (fleet_add_group E w fl)"
| "fleet_do E (VReplaceGroup i w) fl = verdict (fleet_replace_group E i w fl)"
| "fleet_do E (VRemoveGroup i) fl = verdict (fleet_remove_group E i fl)"
| "fleet_do E (VReset loaded) fl = verdict (fleet_reset E loaded fl)"

lemma persist_frame [simp]:
  "lf_registry (persist E r fl) = lf_registry fl" "lf_document (persist E r fl) = lf_document fl"
  "lf_catalog (persist E r fl) = lf_catalog fl" "lf_generation (persist E r fl) = lf_generation fl"
  "lf_outbox (persist E r fl) = lf_outbox fl" "lf_store (persist E r fl) = lf_store fl"
  "lf_runtime_config_path (persist E r fl) = lf_runtime_config_path fl"
  by (simp_all add: persist_def split: option.split sum.split)

lemma fleet_apply_frame [simp]:
  "lf_document (fst (fleet_apply r fl)) = lf_document fl" "lf_catalog (fst (fleet_apply r fl)) = lf_catalog fl"
  "lf_registry (fst (fleet_apply r fl)) = fst (registry_apply r (lf_registry fl))"
  "lf_generation (fst (fleet_apply r fl)) = lf_generation fl + 1"
  "lf_outbox (fst (fleet_apply r fl)) = lf_outbox fl" "lf_store (fst (fleet_apply r fl)) = lf_store fl"
  "lf_runtime_config_path (fst (fleet_apply r fl)) = lf_runtime_config_path fl"
  by (simp_all add: fleet_apply_def split: prod.split)

lemma drop_removed_frame [simp]:
  "lf_registry (drop_removed E ids fl) = lf_registry fl" "lf_document (drop_removed E ids fl) = lf_document fl"
  "lf_catalog (drop_removed E ids fl) = lf_catalog fl" "lf_generation (drop_removed E ids fl) = lf_generation fl"
  by (induction ids arbitrary: fl) (simp_all add: Let_def)

text \<open>What \<open>amend\<close> has done when it returns.\<close>

definition amended_to :: "fleet_env \<Rightarrow> raw_config \<Rightarrow> resolved \<Rightarrow> live_fleet \<Rightarrow> live_fleet \<Rightarrow> bool" where
  "amended_to E doc r fl fl' \<longleftrightarrow>
     resolve_config (fe_new_v5 E) doc = Some (Inr r) \<and> resolve_config (fe_new_v5 E) (lf_document fl') = Some (Inr r)
     \<and> rc_defaults (lf_document fl') = rc_defaults (lf_document fl)
     \<and> lf_catalog fl' = adopt_catalog r \<and> lf_registry fl' = fst (registry_apply r (lf_registry fl))
     \<and> lf_generation fl' = lf_generation fl + 1"

lemma amend_cases:
  assumes "amend E edit fl = (fl', out)"
  obtains (Unchanged) "fl' = fl" and "\<nexists>r. out = Some (Inr r)"
  | (Amended) doc r where "edit (lf_document fl) = Inr doc" and "out = Some (Inr r)"
      and "amended_to E doc r fl fl'" and "lf_outbox fl' = lf_outbox fl" and "lf_store fl' = lf_store fl"
proof (cases "\<exists>r. out = Some (Inr r)")
  case False
  then have "fl' = fl" using assms by (auto simp: amend_def Let_def split: sum.splits option.splits)
  then show thesis using False by (rule Unchanged)
next
  case True
  then obtain r doc where r: "out = Some (Inr r)" "edit (lf_document fl) = Inr doc"
      "resolve_config (fe_new_v5 E) doc = Some (Inr r)"
    using assms by (auto simp: amend_def Let_def split: sum.splits option.splits)
  let ?d = "lf_document fl\<lparr>rc_devices := map (\<lambda>c. raw_of c (rc_defaults (lf_document fl))) (rs_devices r),
      rc_groups := rc_groups doc\<rparr>"
  have fl': "fl' = persist E r (fst (fleet_apply r (fl\<lparr>lf_document := ?d, lf_catalog := adopt_catalog r\<rparr>)))"
    using assms r by (simp add: amend_def Let_def)
  have "resolve_config (fe_new_v5 E) ?d = Some (Inr r)" by (rule resolve_amended [OF r(3)])
  then have "amended_to E doc r fl fl'" using r(3) by (simp add: amended_to_def fl')
  then show thesis using r by (intro Amended) (simp_all add: fl')
qed

lemma adopted_apply:
  assumes "adopted v r fl" and "hashed_apart v (set (rs_devices r) \<union> set (rs_devices r'))"
    and "resolve_config v raw = Some (Inr r')" and "registry_apply r' (lf_registry fl) = (rg', ch)"
  shows "registry_ok rg'" and "extends (lf_registry fl) rg'" and "follows rg' r'" and "identified v rg'"
    and "c \<in> set (rs_devices r) \<Longrightarrow> c \<in> set (rs_devices r') \<Longrightarrow>
      registry_device rg' (dc_id c) = registry_device (lf_registry fl) (dc_id c)"
proof -
  have ok: "registry_ok (lf_registry fl)" and idd: "identified v (lf_registry fl)" and fol: "follows (lf_registry fl) r"
    and res: "resolve_config v (lf_document fl) = Some (Inr r)"
    using assms(1) by (simp_all add: adopted_def)
  note old = resolved_distinct [OF res] and new = resolved_distinct [OF assms(3)]
  have cs: "\<forall>c \<in> set (rs_devices r'). dc_uuid c = fingerprint v c \<and> representable c"
    using new(4) assms(2) by (simp add: hashed_apart_def)
  have inj: "inj_on (v DEVICE_NAMESPACE) (fingerprint_bytes `
      (handle_config (lf_registry fl) ` set (registry_devices (lf_registry fl)) \<union> set (rs_devices r')))"
    using assms(2) by (simp add: hashed_apart_def follows_configs [OF ok fol old(1)])
  note fol' = registry_apply_follows [OF ok idd new(1) cs inj assms(4)]
  show "registry_ok rg'" "extends (lf_registry fl) rg'" "follows rg' r'" "identified v rg'" by (rule fol')+
  assume c: "c \<in> set (rs_devices r)" "c \<in> set (rs_devices r')"
  have "find (\<lambda>e. dc_id e = dc_id c) (rs_devices r) = Some c" using old(1) c(1) by (intro find_by_id)
  moreover have "map_option (handle_config (lf_registry fl)) (registry_device (lf_registry fl) (dc_id c))
      = find (\<lambda>e. dc_id e = dc_id c) (rs_devices r)"
    using fol by (simp add: follows_def)
  ultimately obtain h where "registry_device (lf_registry fl) (dc_id c) = Some h" "handle_config (lf_registry fl) h = c"
    by auto
  then show "registry_device rg' (dc_id c) = registry_device (lf_registry fl) (dc_id c)"
    using registry_apply_keeps [OF ok new(1) assms(4) c(2)] by simp
qed

lemma amended_adopted:
  assumes "adopted (fe_new_v5 E) r fl" and "amended_to E doc r' fl fl'"
    and "hashed_apart (fe_new_v5 E) (set (rs_devices r) \<union> set (rs_devices r'))"
  shows "adopted (fe_new_v5 E) r' fl'"
proof -
  note am = assms(2) [unfolded amended_to_def]
  obtain rg' ch where run: "registry_apply r' (lf_registry fl) = (rg', ch)" by (metis surj_pair)
  then show ?thesis
    using am adopted_apply [OF assms(1,3) conjunct1 [OF am] run] by (simp add: adopted_def)
qed



section \<open>Every verb is an edit or nothing\<close>

definition edits_to :: "fleet_env \<Rightarrow> (raw_config \<Rightarrow> inventory_refusal + raw_config) \<Rightarrow> live_fleet \<Rightarrow> live_fleet
    \<Rightarrow> inventory_refusal option option \<Rightarrow> bool" where
  "edits_to E edit fl fl' out \<longleftrightarrow>
     (if out = Some None then \<exists>doc r. edit (lf_document fl) = Inr doc \<and> amended_to E doc r fl fl' else fl' = fl)"

lemma amend_answered:
  assumes "verdict (answer summary (amend E edit fl)) = (fl', out)"
    and "\<And>doc r. edit (lf_document fl) = Inr doc \<Longrightarrow> resolve_config (fe_new_v5 E) doc = Some (Inr r)
      \<Longrightarrow> \<exists>a. summary r = Inr a"
  shows "edits_to E edit fl fl' out"
proof -
  obtain fl1 out1 where am: "amend E edit fl = (fl1, out1)" by (cases "amend E edit fl")
  then show ?thesis
  proof (cases rule: amend_cases)
    case Unchanged
    then show ?thesis using assms(1) am
      by (auto simp: edits_to_def verdict_def answer_def split: option.splits sum.splits)
  next
    case (Amended doc r)
    then obtain a where "summary r = Inr a" using assms(2) by (auto simp: amended_to_def)
    then show ?thesis using assms(1) am Amended by (auto simp: edits_to_def verdict_def answer_def)
  qed
qed

lemma resolved_lookup:
  assumes "resolve_config v raw = Some (Inr r)"
  shows "find (\<lambda>c. dc_id c = i) (rs_devices r) = (case find (\<lambda>d. rw_id d = i) (rc_devices raw) of
     None \<Rightarrow> None
   | Some d \<Rightarrow> (case resolve v (rc_defaults raw) d of Inl e \<Rightarrow> None | Inr c \<Rightarrow> Some c))"
proof -
  obtain seen where "resolve_devices v (rc_defaults raw) {} (rc_devices raw) = Inr (rs_devices r, seen)"
    using assms by (auto simp: resolve_config_def split: sum.splits prod.splits option.splits)
  then have "list_all2 (\<lambda>raw' c. resolve v (rc_defaults raw) raw' = Inr c) (rc_devices raw) (rs_devices r)"
    using resolve_devices_Inr by blast
  then show ?thesis by (induction rule: list_all2_induct) (auto simp: resolve_Inr(1))
qed

lemma resolved_ids: "resolve_config v raw = Some (Inr r) \<Longrightarrow> dc_id ` set (rs_devices r) = rw_id ` set (rc_devices raw)"
  using resolved_consistent [of v raw r] by (metis list.set_map)

lemma resolved_group_ids:
  assumes "resolve_config v raw = Some (Inr r)"
  shows "gc_id ` set (rs_groups r) = rg_id ` set (rc_groups raw)"
proof -
  have "list_all2 (group_resolves (rs_devices r)) (rc_groups raw) (rs_groups r)"
    using resolved_consistent [OF assms] by blast
  then have "map gc_id (rs_groups r) = map rg_id (rc_groups raw)"
    by (induction rule: list_all2_induct) (auto simp: group_resolves_def)
  then show ?thesis by (metis list.set_map)
qed

lemma summary_known: "i \<in> dc_id ` set (rs_devices r) \<Longrightarrow> \<exists>a. summary_of r i = Inr a"
  by (cases "find (\<lambda>c. dc_id c = i) (rs_devices r)") (auto simp: summary_of_def find_None_iff)

lemma group_summary_known: "i \<in> gc_id ` set (rs_groups r) \<Longrightarrow> \<exists>a. group_summary_of r i = Inr a"
  by (cases "find (\<lambda>g. gc_id g = i) (rs_groups r)") (auto simp: group_summary_of_def find_None_iff)

lemma put_first_Some:
  "put_first P y xs = Some ys \<Longrightarrow> y \<in> set ys \<and> (\<forall>Q. (\<forall>x. P x \<longrightarrow> \<not> Q x) \<longrightarrow> \<not> Q y \<longrightarrow> find Q ys = find Q xs)"
  by (induction xs arbitrary: ys) (auto split: if_splits)

lemma find_filter_other: "(\<And>x. Q x \<Longrightarrow> P x) \<Longrightarrow> find Q (filter P xs) = find Q xs"
  by (induction xs) auto

lemma find_append_other: "\<not> Q y \<Longrightarrow> find Q (xs @ [y]) = find Q xs"
  by (induction xs) auto

text \<open>The edit of each verb that goes through \<open>amend\<close>.\<close>

fun verb_edit :: "fleet_verb \<Rightarrow> raw_config \<Rightarrow> inventory_refusal + raw_config" where
  "verb_edit (VAdd w) doc = (case dw_id w of
       None \<Rightarrow> Inl (IMalformed [])
     | Some i \<Rightarrow> Inr (doc\<lparr>rc_devices := rc_devices doc @ [raw_of_write i w]\<rparr>))"
| "verb_edit (VReplace i w) doc = (case put_first (\<lambda>d. rw_id d = i) (raw_of_write i w) (rc_devices doc) of
       None \<Rightarrow> Inl (unknown_device i)
     | Some ds \<Rightarrow> Inr (doc\<lparr>rc_devices := ds\<rparr>))"
| "verb_edit (VRemove i) doc = (let kept = filter (\<lambda>d. rw_id d \<noteq> i) (rc_devices doc)
     in if length kept = length (rc_devices doc) then Inl (unknown_device i) else Inr (doc\<lparr>rc_devices := kept\<rparr>))"
| "verb_edit (VAddGroup w) doc = (case gw_id w of
       None \<Rightarrow> Inl (IMalformed [])
     | Some i \<Rightarrow> Inr (doc\<lparr>rc_groups := rc_groups doc @ [raw_of_group_write i w]\<rparr>))"
| "verb_edit (VReplaceGroup i w) doc = (case put_first (\<lambda>g. rg_id g = i) (raw_of_group_write i w) (rc_groups doc) of
       None \<Rightarrow> Inl (unknown_group i)
     | Some gs \<Rightarrow> Inr (doc\<lparr>rc_groups := gs\<rparr>))"
| "verb_edit (VRemoveGroup i) doc = (let kept = filter (\<lambda>g. rg_id g \<noteq> i) (rc_groups doc)
     in if length kept = length (rc_groups doc) then Inl (unknown_group i) else Inr (doc\<lparr>rc_groups := kept\<rparr>))"
| "verb_edit (VReset loaded) doc = Inl (IMalformed [])"

lemma verdict_refused [simp]: "verdict (fl, Some (Inl e)) = (fl, Some (Some e))"
  by (simp add: verdict_def)

lemma add_edits:
  assumes "verdict (fleet_add E w fl) = (fl', out)"
  shows "edits_to E (verb_edit (VAdd w)) fl fl' out"
proof (cases "dw_id w")
  case (Some i)
  then have "verdict (answer (\<lambda>r. summary_of r i) (amend E (verb_edit (VAdd w)) fl)) = (fl', out)"
    using assms by (simp add: fleet_add_def verb_edit.simps [abs_def])
  then show ?thesis
    by (rule amend_answered) (use Some in \<open>auto simp: resolved_ids raw_of_write_def intro!: summary_known\<close>)
qed (use assms in \<open>auto simp: fleet_add_def edits_to_def\<close>)

lemma replace_edits:
  "verdict (fleet_replace E i w fl) = (fl', out) \<Longrightarrow> edits_to E (verb_edit (VReplace i w)) fl fl' out"
proof (cases "case dw_id w of Some stated \<Rightarrow> stated \<noteq> i | None \<Rightarrow> False")
  case False
  assume "verdict (fleet_replace E i w fl) = (fl', out)"
  then have "verdict (answer (\<lambda>r. summary_of r i) (amend E (verb_edit (VReplace i w)) fl)) = (fl', out)"
    using False by (simp add: fleet_replace_def verb_edit.simps [abs_def])
  then show ?thesis
  proof (rule amend_answered)
    fix doc r assume "verb_edit (VReplace i w) (lf_document fl) = Inr doc"
      and r: "resolve_config (fe_new_v5 E) doc = Some (Inr r)"
    then have "raw_of_write i w \<in> set (rc_devices doc)"
      using put_first_Some by (fastforce split: option.splits)
    then have "i \<in> rw_id ` set (rc_devices doc)" by (force simp: raw_of_write_def)
    then show "\<exists>a. summary_of r i = Inr a" using summary_known resolved_ids [OF r] by simp
  qed
qed (auto simp: fleet_replace_def edits_to_def)

lemma add_group_edits:
  assumes "verdict (fleet_add_group E w fl) = (fl', out)"
  shows "edits_to E (verb_edit (VAddGroup w)) fl fl' out"
proof (cases "gw_id w")
  case (Some i)
  then have "verdict (answer (\<lambda>r. group_summary_of r i) (amend E (verb_edit (VAddGroup w)) fl)) = (fl', out)"
    using assms by (simp add: fleet_add_group_def verb_edit.simps [abs_def])
  then show ?thesis
    by (rule amend_answered)
      (use Some in \<open>auto simp: resolved_group_ids raw_of_group_write_def intro!: group_summary_known\<close>)
qed (use assms in \<open>auto simp: fleet_add_group_def edits_to_def\<close>)

lemma replace_group_edits:
  "verdict (fleet_replace_group E i w fl) = (fl', out) \<Longrightarrow> edits_to E (verb_edit (VReplaceGroup i w)) fl fl' out"
proof (cases "case gw_id w of Some stated \<Rightarrow> stated \<noteq> i | None \<Rightarrow> False")
  case False
  assume "verdict (fleet_replace_group E i w fl) = (fl', out)"
  then have "verdict (answer (\<lambda>r. group_summary_of r i) (amend E (verb_edit (VReplaceGroup i w)) fl)) = (fl', out)"
    using False by (simp add: fleet_replace_group_def verb_edit.simps [abs_def])
  then show ?thesis
  proof (rule amend_answered)
    fix doc r assume "verb_edit (VReplaceGroup i w) (lf_document fl) = Inr doc"
      and r: "resolve_config (fe_new_v5 E) doc = Some (Inr r)"
    then have "raw_of_group_write i w \<in> set (rc_groups doc)"
      using put_first_Some by (fastforce split: option.splits)
    then have "i \<in> rg_id ` set (rc_groups doc)" by (force simp: raw_of_group_write_def)
    then show "\<exists>a. group_summary_of r i = Inr a" using group_summary_known resolved_group_ids [OF r] by simp
  qed
qed (auto simp: fleet_replace_group_def edits_to_def)

text \<open>What two verbs do after the edit: to the queue and the reads of a removed device, to a group's rows.\<close>

definition tidied :: "fleet_env \<Rightarrow> fleet_verb \<Rightarrow> live_fleet \<Rightarrow> live_fleet" where
  "tidied E verb fl = (case verb of
       VRemove i \<Rightarrow> fl\<lparr>lf_outbox := fst (cancel_queued i REMOVED_FROM_FLEET (lf_outbox fl)),
         lf_store := (if lf_cleanup_on_remove fl then fst (forget_device (fe_layout E) i (lf_store fl)) else lf_store fl)\<rparr>
     | VRemoveGroup i \<Rightarrow> fl\<lparr>lf_outbox := fst (forget_group i (lf_outbox fl))\<rparr>
     | _ \<Rightarrow> fl)"

lemma tidied_frame [simp]:
  "lf_registry (tidied E verb fl) = lf_registry fl" "lf_document (tidied E verb fl) = lf_document fl"
  "lf_catalog (tidied E verb fl) = lf_catalog fl" "lf_generation (tidied E verb fl) = lf_generation fl"
  by (auto simp: tidied_def split: fleet_verb.split)

lemma amended_tidied [simp]: "amended_to E doc r fl (tidied E verb fl') = amended_to E doc r fl fl'"
  by (simp add: amended_to_def)

lemma remove_edits:
  assumes "verdict (fleet_remove E i fl) = (fl', out)"
  shows "edits_to E (verb_edit (VRemove i)) fl fl' out"
    and "out = Some None \<Longrightarrow> \<exists>fl1. fl' = tidied E (VRemove i) fl1 \<and> lf_outbox fl1 = lf_outbox fl \<and> lf_store fl1 = lf_store fl"
proof -
  obtain fl1 out1 where am: "amend E (verb_edit (VRemove i)) fl = (fl1, out1)"
    by (cases "amend E (verb_edit (VRemove i)) fl")
  have rm: "fleet_remove E i fl = (case (fl1, out1) of (fl, None) \<Rightarrow> (fl, None) | (fl, Some (Inl e)) \<Rightarrow> (fl, Some (Inl e))
      | (fl, Some (Inr r)) \<Rightarrow> (tidied E (VRemove i) fl,
          Some (Inr \<lparr>rm_device = i, rm_writes_canceled = snd (cancel_queued i REMOVED_FROM_FLEET (lf_outbox fl)),
            rm_reads_dropped = (if lf_cleanup_on_remove fl then Some (snd (forget_device (fe_layout E) i (lf_store fl))) else None)\<rparr>)))"
    unfolding fleet_remove_def verb_edit.simps [abs_def] am [unfolded verb_edit.simps [abs_def]]
    by (auto simp: tidied_def Let_def split: option.split sum.split prod.split)
  from am show "edits_to E (verb_edit (VRemove i)) fl fl' out"
    using assms unfolding rm by (cases rule: amend_cases) (auto simp: edits_to_def verdict_def split: option.splits sum.splits)
  from am show "out = Some None \<Longrightarrow> \<exists>fl1. fl' = tidied E (VRemove i) fl1 \<and> lf_outbox fl1 = lf_outbox fl \<and> lf_store fl1 = lf_store fl"
    using assms unfolding rm by (cases rule: amend_cases) (auto simp: verdict_def split: option.splits sum.splits)
qed

lemma remove_group_edits:
  assumes "verdict (fleet_remove_group E i fl) = (fl', out)"
  shows "edits_to E (verb_edit (VRemoveGroup i)) fl fl' out"
proof -
  obtain fl1 out1 where am: "amend E (verb_edit (VRemoveGroup i)) fl = (fl1, out1)"
    by (cases "amend E (verb_edit (VRemoveGroup i)) fl")
  have rm: "fleet_remove_group E i fl = (case (fl1, out1) of (fl, None) \<Rightarrow> (fl, None) | (fl, Some (Inl e)) \<Rightarrow> (fl, Some (Inl e))
      | (fl, Some (Inr r)) \<Rightarrow> (tidied E (VRemoveGroup i) fl, Some (Inr ())))"
    unfolding fleet_remove_group_def verb_edit.simps [abs_def] am [unfolded verb_edit.simps [abs_def]]
    by (auto simp: tidied_def split: option.split sum.split prod.split)
  from am show ?thesis
    using assms unfolding rm by (cases rule: amend_cases) (auto simp: edits_to_def verdict_def split: option.splits sum.splits)
qed

lemmas all_edits = add_edits replace_edits remove_edits(1) add_group_edits replace_group_edits remove_group_edits

lemma verb_edits:
  assumes "fleet_do E verb fl = (fl', out)" and "\<forall>loaded. verb \<noteq> VReset loaded"
  shows "edits_to E (verb_edit verb) fl fl' out"
  using assms by (cases verb) (auto intro: all_edits)

section \<open>Agreement\<close>

lemma reset_cases:
  assumes "verdict (fleet_reset E loaded fl) = (fl', out)"
  obtains (Unchanged) "fl' = fl" and "out \<noteq> Some None"
  | (Reset) raw r where "loaded = Inr raw" and "out = Some None" and "resolve_config (fe_new_v5 E) raw = Some (Inr r)"
      and "lf_document fl' = raw" and "lf_catalog fl' = adopt_catalog r"
      and "lf_registry fl' = fst (registry_apply r (lf_registry fl))" and "lf_generation fl' = lf_generation fl + 1"
proof (cases "out = Some None")
  case False
  then have "fl' = fl" using assms
    by (auto simp: fleet_reset_def verdict_def split: sum.splits option.splits prod.splits)
  then show thesis using False by (rule Unchanged)
next
  case True
  then obtain raw where raw: "loaded = Inr raw"
    using assms by (cases loaded) (auto simp: fleet_reset_def verdict_def)
  obtain r where r: "loaded = Inr raw" "resolve_config (fe_new_v5 E) raw = Some (Inr r)"
  proof (cases "resolve_config (fe_new_v5 E) raw")
    case (Some x)
    then show thesis using assms raw True that by (cases x) (auto simp: fleet_reset_def verdict_def)
  qed (use assms raw True in \<open>simp add: fleet_reset_def verdict_def\<close>)
  obtain fl1 ch where ap: "fleet_apply r (fl\<lparr>lf_document := raw, lf_catalog := adopt_catalog r\<rparr>) = (fl1, ch)"
    by (metis surj_pair)
  have fl1: "lf_document fl1 = raw" "lf_catalog fl1 = adopt_catalog r" "lf_generation fl1 = lf_generation fl + 1"
    "lf_registry fl1 = fst (registry_apply r (lf_registry fl))"
    using fleet_apply_frame [of r "fl\<lparr>lf_document := raw, lf_catalog := adopt_catalog r\<rparr>"] by (simp_all add: ap)
  have "fl' = persist E r (drop_removed E (rx_removed ch) fl1)"
    using assms r ap by (simp add: fleet_reset_def verdict_def)
  then show thesis using r True fl1 by (intro Reset [of raw r]) simp_all
qed

lemma fleet_agrees:
  assumes "adopted (fe_new_v5 E) r fl" and "fleet_do E verb fl = (fl', out)"
    and "hashed_apart (fe_new_v5 E) (fleet_configs (fe_new_v5 E) fl \<union> fleet_configs (fe_new_v5 E) fl')"
  shows "(\<exists>r'. adopted (fe_new_v5 E) r' fl') \<and> (if out = Some None then lf_generation fl' = lf_generation fl + 1 else fl' = fl)"
proof (cases "\<exists>loaded. verb = VReset loaded")
  case False
  then have e: "edits_to E (verb_edit verb) fl fl' out" using verb_edits [OF assms(2)] by blast
  show ?thesis
  proof (cases "out = Some None")
    case True
    then obtain doc r' where am: "amended_to E doc r' fl fl'" using e by (auto simp: edits_to_def)
    have "fleet_configs (fe_new_v5 E) fl = set (rs_devices r)" "fleet_configs (fe_new_v5 E) fl' = set (rs_devices r')"
      using assms(1) am by (simp_all add: fleet_configs_def adopted_def amended_to_def)
    then have "adopted (fe_new_v5 E) r' fl'" using amended_adopted [OF assms(1) am] assms(3) by simp
    then show ?thesis using True am by (auto simp: amended_to_def)
  qed (use e assms(1) in \<open>auto simp: edits_to_def\<close>)
next
  case True
  then obtain loaded where "verdict (fleet_reset E loaded fl) = (fl', out)" using assms(2) by auto
  then show ?thesis
  proof (cases rule: reset_cases)
    case (Reset raw r')
    obtain rg' ch where run: "registry_apply r' (lf_registry fl) = (rg', ch)" by (metis surj_pair)
    have "fleet_configs (fe_new_v5 E) fl = set (rs_devices r)" "fleet_configs (fe_new_v5 E) fl' = set (rs_devices r')"
      using assms(1) Reset by (simp_all add: fleet_configs_def adopted_def)
    then have "hashed_apart (fe_new_v5 E) (set (rs_devices r) \<union> set (rs_devices r'))" using assms(3) by simp
    from adopted_apply [OF assms(1) this Reset(3) run] have "adopted (fe_new_v5 E) r' fl'"
      using Reset run by (simp add: adopted_def)
    then show ?thesis using Reset by auto
  qed (use assms(1) in auto)
qed

text \<open>
  C2. Document, registry and catalog never drift apart. Let the running fleet be in agreement:
  the document resolves, the catalog is the summary of what it resolves to, and the registry
  holds exactly those devices and groups. Then after any verb, adding, replacing or removing a
  device or a group or resetting to the devices file, it is in agreement again, provided hashing
  keeps the configurations before and after apart. A refusal, and a panic of the resolver, leave
  the whole fleet as it was; a verb that is carried out is announced exactly once.
\<close>

theorem fleet_agreement:
  assumes "adopted (fe_new_v5 E) r fl" and "fleet_do E verb fl = (fl', out)"
    and "hashed_apart (fe_new_v5 E) (fleet_configs (fe_new_v5 E) fl \<union> fleet_configs (fe_new_v5 E) fl')"
  shows "(\<exists>r'. adopted (fe_new_v5 E) r' fl') \<and> (if out = Some None then lf_generation fl' = lf_generation fl + 1 else fl' = fl)"
  using assms by (rule fleet_agrees)


section \<open>One verb, one device\<close>

fun named_device :: "fleet_verb \<Rightarrow> string option" where
  "named_device (VAdd w) = dw_id w"
| "named_device (VReplace i w) = Some i"
| "named_device (VRemove i) = Some i"
| "named_device verb = None"

text \<open>What the verb states of the device it names.\<close>

fun stated_device :: "fleet_verb \<Rightarrow> string \<Rightarrow> raw_device option" where
  "stated_device (VAdd w) i = Some (raw_of_write i w)"
| "stated_device (VReplace j w) i = Some (raw_of_write i w)"
| "stated_device verb i = None"

lemma verb_edit_rows:
  assumes "verb_edit verb doc = Inr doc'"
  shows "rc_defaults doc' = rc_defaults doc"
    and "named_device verb \<noteq> Some j \<Longrightarrow> find (\<lambda>d. rw_id d = j) (rc_devices doc') = find (\<lambda>d. rw_id d = j) (rc_devices doc)"
    and "named_device verb = Some i \<Longrightarrow> (case stated_device verb i of
        None \<Rightarrow> i \<notin> rw_id ` set (rc_devices doc') | Some d \<Rightarrow> d \<in> set (rc_devices doc') \<and> rw_id d = i)"
proof -
  show "rc_defaults doc' = rc_defaults doc"
    using assms by (cases verb) (auto simp: Let_def split: option.splits if_splits)
  show "find (\<lambda>d. rw_id d = j) (rc_devices doc') = find (\<lambda>d. rw_id d = j) (rc_devices doc)"
    if "named_device verb \<noteq> Some j"
  proof (cases verb)
    case (VReplace i w)
    then obtain ds where "put_first (\<lambda>d. rw_id d = i) (raw_of_write i w) (rc_devices doc) = Some ds"
        "doc' = doc\<lparr>rc_devices := ds\<rparr>"
      using assms by (auto split: option.splits)
    moreover have "i \<noteq> j" using that VReplace by simp
    ultimately show ?thesis using put_first_Some by (fastforce simp: raw_of_write_def)
  qed (use assms that in \<open>auto simp: Let_def raw_of_write_def find_append_other find_filter_other
      split: option.splits if_splits\<close>)
  show "case stated_device verb i of None \<Rightarrow> i \<notin> rw_id ` set (rc_devices doc') | Some d \<Rightarrow> d \<in> set (rc_devices doc') \<and> rw_id d = i"
    if named: "named_device verb = Some i"
  proof (cases verb)
    case (VReplace k w)
    then obtain ds where "put_first (\<lambda>d. rw_id d = i) (raw_of_write i w) (rc_devices doc) = Some ds"
        "doc' = doc\<lparr>rc_devices := ds\<rparr>" "k = i"
      using assms named VReplace by (auto split: option.splits)
    then show ?thesis using VReplace put_first_Some by (fastforce simp: raw_of_write_def)
  qed (use assms named in \<open>auto simp: Let_def raw_of_write_def split: option.splits if_splits\<close>)
qed

lemma find_member: "find P xs = Some x \<Longrightarrow> x \<in> set xs \<and> P x"
  by (auto simp: find_Some_iff)

lemma devices_apart:
  assumes "adopted (fe_new_v5 E) r fl" and "amended_to E doc r' fl fl'" and "verb_edit verb (lf_document fl) = Inr doc"
    and "hashed_apart (fe_new_v5 E) (set (rs_devices r) \<union> set (rs_devices r'))"
  shows "named_device verb \<noteq> Some j \<Longrightarrow> registry_device (lf_registry fl') j = registry_device (lf_registry fl) j"
    and "named_device verb = Some i \<Longrightarrow> map_option (handle_config (lf_registry fl')) (registry_device (lf_registry fl') i)
      = (case stated_device verb i of None \<Rightarrow> None
         | Some d \<Rightarrow> (case resolve (fe_new_v5 E) (rc_defaults (lf_document fl)) d of Inl e \<Rightarrow> None | Inr c \<Rightarrow> Some c))"
    and "extends (lf_registry fl) (lf_registry fl')"
proof -
  have res: "resolve_config (fe_new_v5 E) (lf_document fl) = Some (Inr r)" and fol: "follows (lf_registry fl) r"
    using assms(1) by (simp_all add: adopted_def)
  have res': "resolve_config (fe_new_v5 E) doc = Some (Inr r')" using assms(2) by (simp add: amended_to_def)
  obtain ch where run: "registry_apply r' (lf_registry fl) = (lf_registry fl', ch)"
    using assms(2) by (metis amended_to_def prod.collapse)
  note ap = adopted_apply [OF assms(1,4) res' run]
  note rows = verb_edit_rows [OF assms(3)]
  show "extends (lf_registry fl) (lf_registry fl')" by (rule ap(2))
  have look: "map_option (handle_config rg) (registry_device rg k) = find (\<lambda>c. dc_id c = k) (rs_devices r0)"
    if "follows rg r0" for rg r0 k using that by (simp add: follows_def)
  show "registry_device (lf_registry fl') j = registry_device (lf_registry fl) j" if "named_device verb \<noteq> Some j"
  proof -
    have same: "find (\<lambda>c. dc_id c = j) (rs_devices r') = find (\<lambda>c. dc_id c = j) (rs_devices r)"
      unfolding resolved_lookup [OF res] resolved_lookup [OF res'] rows(1) rows(2) [OF that] ..
    show ?thesis
    proof (cases "find (\<lambda>c. dc_id c = j) (rs_devices r)")
      case None
      then show ?thesis using same look [OF fol, of j] look [OF ap(3), of j] by simp
    next
      case (Some c)
      then have "c \<in> set (rs_devices r)" "c \<in> set (rs_devices r')" "dc_id c = j"
        using same find_member [of "\<lambda>c. dc_id c = j"] by metis+
      then show ?thesis using ap(5) by blast
    qed
  qed
  show "map_option (handle_config (lf_registry fl')) (registry_device (lf_registry fl') i)
      = (case stated_device verb i of None \<Rightarrow> None
         | Some d \<Rightarrow> (case resolve (fe_new_v5 E) (rc_defaults (lf_document fl)) d of Inl e \<Rightarrow> None | Inr c \<Rightarrow> Some c))"
    if "named_device verb = Some i"
  proof (cases "stated_device verb i")
    case None
    then have "find (\<lambda>d. rw_id d = i) (rc_devices doc) = None" using rows(3) [OF that] by (auto simp: find_None_iff)
    then show ?thesis using None look [OF ap(3), of i] resolved_lookup [OF res', of i] by simp
  next
    case (Some d)
    then have d: "d \<in> set (rc_devices doc)" "rw_id d = i" using rows(3) [OF that] by simp_all
    have "distinct (map rw_id (rc_devices doc))"
      using resolved_consistent [OF res'] by (metis distinct_append)
    then have "find (\<lambda>e. rw_id e = i) (rc_devices doc) = Some d"
      using d find_distinct_key [of rw_id "rc_devices doc" d] by simp
    then show ?thesis using Some look [OF ap(3), of i] resolved_lookup [OF res', of i] rows(1) by simp
  qed
qed

text \<open>
  C19. A change to one device disturbs no other. When a verb on devices or groups is carried out
  on a fleet in agreement, every id it does not name is known exactly as before, under the same
  handle, so with the same connection, configuration and learned vetoes; the id it names gets the
  configuration that its request resolves to under the document's defaults, or is gone if it was
  removed; and a removed device's queue is cancelled, its reads forgotten if the deployment says
  so.
\<close>

theorem verb_touches_one_device:
  assumes "adopted (fe_new_v5 E) r fl" and "fleet_do E verb fl = (fl', Some None)" and "\<forall>loaded. verb \<noteq> VReset loaded"
    and "hashed_apart (fe_new_v5 E) (fleet_configs (fe_new_v5 E) fl \<union> fleet_configs (fe_new_v5 E) fl')"
  shows "(\<forall>j. named_device verb \<noteq> Some j \<longrightarrow> registry_device (lf_registry fl') j = registry_device (lf_registry fl) j
        \<and> (\<forall>h. registry_device (lf_registry fl) j = Some h \<longrightarrow> deref (lf_registry fl') h = deref (lf_registry fl) h))
    \<and> (\<forall>i. named_device verb = Some i \<longrightarrow>
        map_option (handle_config (lf_registry fl')) (registry_device (lf_registry fl') i)
          = (case stated_device verb i of None \<Rightarrow> None
             | Some d \<Rightarrow> (case resolve (fe_new_v5 E) (rc_defaults (lf_document fl)) d of Inl e \<Rightarrow> None | Inr c \<Rightarrow> Some c)))
    \<and> (\<forall>i. verb = VRemove i \<longrightarrow> lf_outbox fl' = fst (cancel_queued i REMOVED_FROM_FLEET (lf_outbox fl))
        \<and> lf_store fl' = (if lf_cleanup_on_remove fl' then fst (forget_device (fe_layout E) i (lf_store fl)) else lf_store fl))"
proof -
  obtain doc r' where edit: "verb_edit verb (lf_document fl) = Inr doc" and am: "amended_to E doc r' fl fl'"
    using verb_edits [OF assms(2,3)] by (auto simp: edits_to_def)
  have "fleet_configs (fe_new_v5 E) fl = set (rs_devices r)" "fleet_configs (fe_new_v5 E) fl' = set (rs_devices r')"
    using assms(1) am by (simp_all add: fleet_configs_def adopted_def amended_to_def)
  then have apart: "hashed_apart (fe_new_v5 E) (set (rs_devices r) \<union> set (rs_devices r'))" using assms(4) by simp
  note dev = devices_apart [OF assms(1) am edit apart]
  have ok: "registry_ok (lf_registry fl)" using assms(1) by (simp add: adopted_def)
  have "deref (lf_registry fl') h = deref (lf_registry fl) h" if "registry_device (lf_registry fl) j = Some h" for j h
  proof -
    have h: "h < length (ry_cells (lf_registry fl))" using ok that by (auto simp: registry_ok_def registry_device_def)
    then have "cl_auto (ry_cells (lf_registry fl) ! h) < length (ry_autos (lf_registry fl))"
      using ok by (simp add: registry_ok_def cells_ok_def)
    then show ?thesis
      using extends_cell [OF dev(3) h] extends_auto [OF dev(3)] by (simp add: deref_def Let_def)
  qed
  moreover have "lf_outbox fl' = fst (cancel_queued i REMOVED_FROM_FLEET (lf_outbox fl))
      \<and> lf_store fl' = (if lf_cleanup_on_remove fl' then fst (forget_device (fe_layout E) i (lf_store fl)) else lf_store fl)"
    if "verb = VRemove i" for i
    using remove_edits(2) [of E i fl fl' "Some None"] assms(2) that by (auto simp: tidied_def)
  ultimately show ?thesis using dev(1,2) by blast
qed



section \<open>The persisted document\<close>

lemma format_reads_back:
  assumes "reads fmts (format_of path) body = Inr raw"
  shows "load_device_set fmts (Some path) (Some body) p c =
    (if path_extension path \<in> {Some ''toml'', Some ''yaml'', Some ''yml'', Some ''json''} then Some raw else None)"
  using assms by (auto simp: load_device_set_def load_raw_def format_of_def parsed_def split: option.splits if_splits)

lemma amend_persists:
  assumes "amend E edit fl = (fl', Some (Inr r))"
  obtains doc fl1 where "resolve_config (fe_new_v5 E) doc = Some (Inr r)"
    and "lf_runtime_config_path fl1 = lf_runtime_config_path fl" and "fl' = persist E r fl1"
proof -
  obtain doc where doc: "edit (lf_document fl) = Inr doc" "resolve_config (fe_new_v5 E) doc = Some (Inr r)"
    using assms by (auto simp: amend_def Let_def split: sum.splits option.splits)
  let ?d = "lf_document fl\<lparr>rc_devices := map (\<lambda>c. raw_of c (rc_defaults (lf_document fl))) (rs_devices r),
      rc_groups := rc_groups doc\<rparr>"
  let ?fl = "fst (fleet_apply r (fl\<lparr>lf_document := ?d, lf_catalog := adopt_catalog r\<rparr>))"
  have "fl' = persist E r ?fl" using assms doc by (simp add: amend_def Let_def)
  then show thesis using doc(2) by (intro that [of doc ?fl]) simp_all
qed

text \<open>
  C25. A persisted fleet survives a restart, if the file can be named. When a change is carried
  out on a server with a runtime path, the document is serialised and written, and the loader
  reads back the keys that were written, then the next start resolves to exactly the fleet in
  force: same devices with the same identities, same groups, vetoes and timeouts, whatever the
  defaults of the original document were. This holds for the extensions \<open>toml\<close>, \<open>yaml\<close>,
  \<open>yml\<close> and \<open>json\<close>; under any other runtime path, or one without an extension, the file is
  written all the same, as TOML, and the next start panics on it.
\<close>

theorem persisted_fleet_restarts:
  assumes "amend E edit fl = (fl', Some (Inr r))" and "lf_runtime_config_path fl = Some path"
    and "doc = export_document_of (rs_devices r) (rs_groups r) []
        \<lparr>eq_format = format_of path, eq_promote = False, eq_include_secrets = True\<rparr>"
    and "fe_ser E (format_of path) doc = Inr body" and "fe_write E path body = (Some body, Inr ())"
    and "reads fmts (format_of path) body = Inr (read_back doc)"
  shows "if path_extension path \<in> {Some ''toml'', Some ''yaml'', Some ''yml'', Some ''json''}
    then \<exists>raw. load_device_set fmts (lf_runtime_config_path fl') (lf_runtime_file fl') p c = Some raw
           \<and> resolve_config (fe_new_v5 E) raw = Some (Inr r)
    else load_device_set fmts (lf_runtime_config_path fl') (lf_runtime_file fl') p c = None"
proof -
  obtain amended fl1 where res: "resolve_config (fe_new_v5 E) amended = Some (Inr r)"
    and fl': "lf_runtime_config_path fl1 = lf_runtime_config_path fl" "fl' = persist E r fl1"
    using assms(1) by (rule amend_persists)
  have "lf_runtime_config_path fl' = Some path" "lf_runtime_file fl' = Some body"
    using fl' assms(2-5) by (simp_all add: persist_def render_def)
  moreover have "resolve_config (fe_new_v5 E) (read_back doc) = Some (Inr r)"
    unfolding assms(3) by (rule resolve_read_back [OF res]) simp_all
  ultimately show ?thesis using format_reads_back [OF assms(6)] by simp
qed



section \<open>A fleet of one device\<close>

definition length_hash :: "string \<Rightarrow> string \<Rightarrow> uuid" where
  "length_hash n b = length b"

definition demo_env :: fleet_env where
  "demo_env = \<lparr>fe_new_v5 = length_hash, fe_layout = \<lparr>size_of_read = 0, size_of_alarm = 0, size_of_slot = 0\<rparr>,
     fe_ser = (\<lambda>f d. Inr ''doc''), fe_write = (\<lambda>p b. (Some b, Inr ()))\<rparr>"

definition demo_write :: "string \<Rightarrow> device_write" where
  "demo_write i = \<lparr>dw_id = Some i, dw_host = ''10.0.0.9'', dw_port = None, dw_username = Some ''admin'',
     dw_password = Some ''extron'', dw_connect_secs = None, dw_exchange_secs = None, dw_eager = None,
     dw_sis_keepalive_secs = None, dw_eager_retry_secs = None, dw_cold_backoff_secs = None,
     dw_disabled_fields = None, dw_auto_disable_after = None, dw_self_heal_secs = None\<rparr>"

definition demo_fleet :: "string \<Rightarrow> live_fleet" where
  "demo_fleet path =
     (case resolve_config length_hash (written_config None) of
        Some (Inr r) \<Rightarrow>
          \<lparr>lf_registry = fst (registry_apply r empty_registry), lf_generation = 0, lf_document = written_config None,
           lf_catalog = adopt_catalog r, lf_outbox = with_max_attempts 3, lf_store = with_budget None,
           lf_cleanup_on_remove = True, lf_config_path = ''devices.toml'', lf_runtime_config_path = Some path,
           lf_runtime_file = None\<rparr>
      | _ \<Rightarrow> undefined)"

definition demo_document2 :: raw_config where
  "demo_document2 = (written_config None)\<lparr>rc_devices := [written_device ''a'' None, raw_of_write ''bb'' (demo_write ''bb'')]\<rparr>"

lemmas demo_fleet_defs = config_example_defs demo_document2_def raw_of_write_def demo_write_def

lemma length_fingerprint: "length (put b) = 8 + length b" "length (put_opt_duration d) = (case d of None \<Rightarrow> 9 | Some n \<Rightarrow> 24)"
  by (simp_all add: put_def put_opt_duration_def length_le_bytes split: option.split)

lemma demo_resolves:
  "\<exists>r c. resolve_config length_hash (written_config None) = Some (Inr r) \<and> rs_devices r = [c]
     \<and> representable c \<and> dc_id c = ''a'' \<and> length (fingerprint_bytes c) = 228"
  by (simp add: config_example_defs representable_def small_opt_def fingerprint_bytes_def length_fingerprint
      length_le_bytes)

lemma demo_resolves2:
  "\<exists>r c d. resolve_config length_hash demo_document2 = Some (Inr r) \<and> rs_devices r = [c, d]
     \<and> representable c \<and> representable d \<and> length (fingerprint_bytes c) = 228 \<and> length (fingerprint_bytes d) = 229
     \<and> dc_id c = ''a'' \<and> dc_id d = ''bb''"
  by (simp add: demo_fleet_defs representable_def small_opt_def fingerprint_bytes_def length_fingerprint
      length_le_bytes)

lemma demo_adopted:
  "\<exists>r. adopted length_hash r (demo_fleet path) \<and> resolve_config length_hash (written_config None) = Some (Inr r)"
proof -
  obtain r c where r: "resolve_config length_hash (written_config None) = Some (Inr r)" "rs_devices r = [c]" "representable c"
    using demo_resolves by blast
  obtain rg ch where run: "registry_apply r empty_registry = (rg, ch)" by (metis surj_pair)
  have e: "registry_ok empty_registry" "identified length_hash empty_registry"
    by (simp_all add: registry_ok_def cells_ok_def identified_def empty_registry_def registry_devices_def)
  note d = resolved_distinct [OF r(1)]
  have cs: "\<forall>c \<in> set (rs_devices r). dc_uuid c = fingerprint length_hash c \<and> representable c" using d(4) r by auto
  have inj: "inj_on (length_hash DEVICE_NAMESPACE)
      (fingerprint_bytes ` (handle_config empty_registry ` set (registry_devices empty_registry) \<union> set (rs_devices r)))"
    using r(2) by (simp add: empty_registry_def registry_devices_def)
  note f = registry_apply_follows [OF e d(1) cs inj run]
  have "adopted length_hash r (demo_fleet path)" using f r(1) run by (simp add: adopted_def demo_fleet_def)
  then show ?thesis using r(1) by blast
qed

lemma demo_fleet_frame [simp]:
  "lf_document (demo_fleet path) = written_config None" "lf_runtime_config_path (demo_fleet path) = Some path"
  "fe_new_v5 demo_env = length_hash" "fe_ser demo_env f d = Inr ''doc''" "fe_write demo_env p b = (Some b, Inr ())"
  using demo_resolves by (auto simp: demo_fleet_def demo_env_def)

lemma demo_edit: "verb_edit (VAdd (demo_write ''bb'')) (written_config None) = Inr demo_document2"
  by (simp add: demo_document2_def written_config_def demo_write_def)

lemma demo_amend:
  assumes "resolve_config length_hash demo_document2 = Some (Inr r)"
  shows "\<exists>fl'. amend demo_env (verb_edit (VAdd (demo_write ''bb''))) (demo_fleet path) = (fl', Some (Inr r))"
  using assms demo_edit by (simp add: amend_def Let_def)

text \<open>Adding device \<open>bb\<close> to it is carried out.\<close>

lemma demo_added:
  "\<exists>fl' r. fleet_do demo_env (VAdd (demo_write ''bb'')) (demo_fleet path) = (fl', Some None)
     \<and> hashed_apart length_hash (fleet_configs length_hash (demo_fleet path) \<union> fleet_configs length_hash fl')
     \<and> resolve_config length_hash (lf_document fl') = Some (Inr r) \<and> map dc_id (rs_devices r) = [''a'', ''bb'']"
proof -
  obtain r c d where r: "resolve_config length_hash demo_document2 = Some (Inr r)" "rs_devices r = [c, d]"
    "representable c" "representable d" "length (fingerprint_bytes c) = 228" "length (fingerprint_bytes d) = 229"
    "dc_id c = ''a''" "dc_id d = ''bb''"
    using demo_resolves2 by blast
  obtain r0 c0 where r0: "resolve_config length_hash (written_config None) = Some (Inr r0)" "rs_devices r0 = [c0]"
    using demo_resolves by blast
  obtain fl' out where run: "fleet_do demo_env (VAdd (demo_write ''bb'')) (demo_fleet path) = (fl', out)" by (metis surj_pair)
  have amd: "verdict (answer (\<lambda>r. summary_of r ''bb'') (amend demo_env (verb_edit (VAdd (demo_write ''bb''))) (demo_fleet path)))
      = (fl', out)"
    using run by (simp add: fleet_add_def verb_edit.simps [abs_def] demo_write_def)
  obtain fl1 where am: "amend demo_env (verb_edit (VAdd (demo_write ''bb''))) (demo_fleet path) = (fl1, Some (Inr r))"
    using demo_amend [OF r(1)] by blast
  have "\<exists>a. summary_of r ''bb'' = Inr a" by (rule summary_known) (simp add: r)
  then have out: "out = Some None" "fl' = fl1" using amd am by (auto simp: answer_def verdict_def)
  then obtain doc r1 where "amended_to demo_env doc r1 (demo_fleet path) fl'"
      "verb_edit (VAdd (demo_write ''bb'')) (lf_document (demo_fleet path)) = Inr doc"
    using verb_edits [OF run] by (auto simp: edits_to_def)
  then have doc: "resolve_config length_hash (lf_document fl') = Some (Inr r)"
    using r(1) demo_edit by (simp add: amended_to_def)
  have "c0 = c"
    using resolved_lookup [OF r0(1), of "''a''"] resolved_lookup [OF r(1), of "''a''"] r r0(2)
    by (simp add: demo_document2_def written_config_def written_device_def split: if_splits sum.splits)
  then have "hashed_apart length_hash (fleet_configs length_hash (demo_fleet path) \<union> fleet_configs length_hash fl')"
    using r r0 doc by (simp add: fleet_configs_def hashed_apart_def length_hash_def inj_on_def)
  then show ?thesis using run out doc r by auto
qed

theorem fleet_agreement_witness:
  "\<exists>fl' r'. fleet_do demo_env (VAdd (demo_write ''bb'')) (demo_fleet ''state.json'') = (fl', Some None)
     \<and> adopted length_hash r' fl' \<and> lf_generation fl' = lf_generation (demo_fleet ''state.json'') + 1"
proof -
  obtain r where r: "adopted (fe_new_v5 demo_env) r (demo_fleet ''state.json'')" using demo_adopted by auto
  obtain fl' where run: "fleet_do demo_env (VAdd (demo_write ''bb'')) (demo_fleet ''state.json'') = (fl', Some None)"
    "hashed_apart (fe_new_v5 demo_env)
       (fleet_configs (fe_new_v5 demo_env) (demo_fleet ''state.json'') \<union> fleet_configs (fe_new_v5 demo_env) fl')"
    using demo_added by auto
  then show ?thesis using fleet_agreement [OF r run] run by auto
qed

theorem verb_touches_one_device_witness:
  "\<exists>fl' h. fleet_do demo_env (VAdd (demo_write ''bb'')) (demo_fleet ''state.json'') = (fl', Some None)
     \<and> registry_device (lf_registry fl') ''a'' = registry_device (lf_registry (demo_fleet ''state.json'')) ''a''
     \<and> registry_device (lf_registry fl') ''bb'' = Some h \<and> dc_host (handle_config (lf_registry fl') h) = ''10.0.0.9''"
proof -
  obtain r where r: "adopted (fe_new_v5 demo_env) r (demo_fleet ''state.json'')" using demo_adopted by auto
  obtain fl' where run: "fleet_do demo_env (VAdd (demo_write ''bb'')) (demo_fleet ''state.json'') = (fl', Some None)"
    "hashed_apart (fe_new_v5 demo_env)
       (fleet_configs (fe_new_v5 demo_env) (demo_fleet ''state.json'') \<union> fleet_configs (fe_new_v5 demo_env) fl')"
    using demo_added by auto
  have one: "named_device (VAdd (demo_write ''bb'')) = Some ''bb''" by (simp add: demo_write_def)
  note t = verb_touches_one_device [OF r run(1) _ run(2), unfolded one]
  have "\<exists>c. resolve length_hash (rc_defaults (written_config None)) (raw_of_write ''bb'' (demo_write ''bb'')) = Inr c
      \<and> dc_host c = ''10.0.0.9''"
    by (simp add: demo_fleet_defs)
  then show ?thesis using t run(1) by auto
qed

theorem persisted_fleet_restarts_witness:
  "\<exists>fl' r raw. amend demo_env (verb_edit (VAdd (demo_write ''bb''))) (demo_fleet ''run/state.json'') = (fl', Some (Inr r))
     \<and> map dc_id (rs_devices r) = [''a'', ''bb'']
     \<and> load_device_set \<lparr>fm_toml = \<lambda>b. Inl [], fm_yaml = \<lambda>b. Inl [], fm_json = \<lambda>b. Inr raw\<rparr>
         (lf_runtime_config_path fl') (lf_runtime_file fl') ''devices.toml'' (Inl []) = Some raw
     \<and> resolve_config length_hash raw = Some (Inr r)"
proof -
  obtain r where r: "resolve_config length_hash demo_document2 = Some (Inr r)" "map dc_id (rs_devices r) = [''a'', ''bb'']"
    using demo_resolves2 by auto
  let ?path = "''run/state.json''"
  obtain fl' where am: "amend demo_env (verb_edit (VAdd (demo_write ''bb''))) (demo_fleet ?path) = (fl', Some (Inr r))"
    using demo_amend [OF r(1)] by blast
  define doc where "doc = export_document_of (rs_devices r) (rs_groups r) []
      \<lparr>eq_format = format_of ?path, eq_promote = False, eq_include_secrets = True\<rparr>"
  let ?f = "\<lparr>fm_toml = \<lambda>b. Inl [], fm_yaml = \<lambda>b. Inl [], fm_json = \<lambda>b. Inr (read_back doc)\<rparr>"
  have ext: "path_extension ?path = Some ''json''" by (simp add: path_extension_def path_file_name_def)
  then have rd: "reads ?f (format_of ?path) ''doc'' = Inr (read_back doc)" by (simp add: format_of_def)
  from persisted_fleet_restarts [OF am _ doc_def _ _ rd, of "''devices.toml''" "Inl []"] obtain raw where raw: "load_device_set ?f (lf_runtime_config_path fl') (lf_runtime_file fl') ''devices.toml'' (Inl []) = Some raw"
    "resolve_config length_hash raw = Some (Inr r)"
    by (auto simp: ext)
  then have "raw = read_back doc" by (auto simp: load_device_set_def load_raw_def parsed_def split: option.splits if_splits)
  then show ?thesis using am r raw by (intro exI [of _ fl'] exI [of _ r] exI [of _ "read_back doc"]) simp
qed

end
