(* ===== verification/Sis_Inventory_Spec.thy ===== *)
theory Sis_Inventory_Spec
  imports Sis_Inventory Sis_Api_Spec Sis_Fleet_Spec
begin

text \<open>
  What the inventory routes promise over a running fleet: the index and the detail pages report exactly
  the devices that run, a repeated \<^verbatim>\<open>PUT\<close> changes nothing, and the published catalogs are the names the
  relay and the sync driver accept. Two answers are not what their documents say: a veto whose wait is over
  is reported as permanent, and a new group of an unknown device is refused as a conflict.
\<close>


section \<open>The catalog of a fleet in agreement\<close>

lemma find_as_map_of: "find (\<lambda>x. f x = i) xs = map_of (map (\<lambda>x. (f x, x)) xs) i"
  by (induction xs) auto

lemma find_sort_key:
  assumes "distinct (map f xs)"
  shows "find (\<lambda>x. f x = i) (sort_key f xs) = find (\<lambda>x. f x = i) xs"
proof -
  have keys: "map fst (map (\<lambda>x. (f x, x)) ys) = map f ys" for ys by simp
  have "distinct (map f (sort_key f xs))"
    using assms by (simp add: distinct_map)
  then have "map_of (map (\<lambda>x. (f x, x)) (sort_key f xs)) = map_of (map (\<lambda>x. (f x, x)) xs)"
    using assms by (subst map_of_inject_set) (simp_all only: keys, simp)
  then show ?thesis by (simp only: find_as_map_of)
qed

lemma find_map_key: "(\<And>x. g (f x) = k x) \<Longrightarrow> find (\<lambda>y. g y = i) (map f xs) = map_option f (find (\<lambda>x. k x = i) xs)"
  by (induction xs) auto

lemma sorted_keys_strict:
  fixes f :: "'a \<Rightarrow> 'b::linorder"
  shows "distinct (map f xs) \<Longrightarrow> sorted_wrt (<) (map f (sort_key f xs))"
  by (simp add: strict_sorted_iff distinct_map)

lemma adopted_catalog:
  assumes "adopted v r fl"
  shows "sorted_wrt (<) (map ds_id (mc_devices (lf_catalog fl)))" "sorted_wrt (<) (map gs_id (mc_groups (lf_catalog fl)))"
    and "catalog_device (lf_catalog fl) i = map_option (summarize \<circ> handle_config (lf_registry fl)) (registry_device (lf_registry fl) i)"
    and "catalog_group (lf_catalog fl) i = map_option summarize_group (find (\<lambda>g. gc_id g = i) (rs_groups r))"
    and "registry_device (lf_registry fl) i \<noteq> None \<Longrightarrow> catalog_group (lf_catalog fl) i = None"
proof -
  have res: "resolve_config v (lf_document fl) = Some (Inr r)" and cat: "lf_catalog fl = adopt_catalog r"
    and fol: "follows (lf_registry fl) r" using assms by (simp_all add: adopted_def)
  note d = resolved_distinct [OF res]
  have ids: "map ds_id (map summarize cs) = map dc_id cs" "map gs_id (map summarize_group gs) = map gc_id gs" for cs gs
    by (simp_all add: summarize_def summarize_group_def)
  note defs = cat adopt_catalog_def catalog_replace_def memory_catalog.simps
  show "sorted_wrt (<) (map ds_id (mc_devices (lf_catalog fl)))" "sorted_wrt (<) (map gs_id (mc_groups (lf_catalog fl)))"
    unfolding defs by (rule sorted_keys_strict, simp only: ids d)+
  have look: "find (\<lambda>c. dc_id c = i) (rs_devices r) = map_option (handle_config (lf_registry fl)) (registry_device (lf_registry fl) i)"
    using fol by (simp add: follows_def)
  have "catalog_device (lf_catalog fl) i = map_option summarize (find (\<lambda>c. dc_id c = i) (rs_devices r))"
    unfolding catalog_device_def defs using ids(1) d(1)
    by (subst find_sort_key) (simp_all only: find_map_key [where k = dc_id] summarize_def device_summary.simps)
  then show "catalog_device (lf_catalog fl) i = map_option (summarize \<circ> handle_config (lf_registry fl)) (registry_device (lf_registry fl) i)"
    by (simp add: look option.map_comp)
  show cg: "catalog_group (lf_catalog fl) i = map_option summarize_group (find (\<lambda>g. gc_id g = i) (rs_groups r))"
    unfolding catalog_group_def defs using ids(2) d(2)
    by (subst find_sort_key) (simp_all only: find_map_key [where k = gc_id] summarize_group_def group_summary.simps)
  show "catalog_group (lf_catalog fl) i = None" if "registry_device (lf_registry fl) i \<noteq> None"
  proof -
    have "find (\<lambda>c. dc_id c = i) (rs_devices r) \<noteq> None" using that look by simp
    then have "i \<in> dc_id ` set (rs_devices r)" by (auto simp: find_None_iff)
    then have "find (\<lambda>g. gc_id g = i) (rs_groups r) = None" using d(3) by (auto simp: find_None_iff)
    then show ?thesis by (simp add: cg)
  qed
qed

lemma status_all_lookup:
  assumes "registry_ok rg"
  shows "map_of (status_all rg locked t) i = map_option (\<lambda>h. observe_device (deref rg h) (locked h) (t h)) (registry_device rg i)"
proof -
  have wf: "owf (ry_devices rg)" using assms by (simp add: registry_ok_def)
  have "dc_id (handle_config rg h) = j" if "(j, h) \<in> set (ry_devices rg)" for j h
    using assms that owf_mem_iff [OF wf] by (auto simp: registry_ok_def)
  then have "map (\<lambda>h. (dc_id (handle_config rg h), observe_device (deref rg h) (locked h) (t h))) (registry_devices rg)
      = map (\<lambda>(j, h). (j, observe_device (deref rg h) (locked h) (t h))) (ry_devices rg)"
    by (auto simp: registry_devices_def)
  moreover have "distinct (map fst (map (\<lambda>(j, h). (j, observe_device (deref rg h) (locked h) (t h))) (ry_devices rg)))"
    using owf_distinct [OF wf] by (simp add: comp_def case_prod_unfold)
  ultimately have "map_of (status_all rg locked t) = map_of (map (\<lambda>(j, h). (j, observe_device (deref rg h) (locked h) (t h))) (ry_devices rg))"
    unfolding status_all_def by (simp only: map_of_ocollect_distinct)
  then show ?thesis unfolding registry_device_def by (simp only: map_of_map comp_apply)
qed

section \<open>The inventory is what runs\<close>

definition reported :: "registry \<Rightarrow> (handle \<Rightarrow> bool) \<Rightarrow> (handle \<Rightarrow> instant) \<Rightarrow> handle \<Rightarrow> device_summary" where
  "reported rg locked t h = overlay (observe_device (deref rg h) (locked h) (t h)) (summarize (handle_config rg h))"

lemma reported_id [simp]: "ds_id (overlay seen d) = ds_id d" "ds_id (summarize c) = dc_id c"
  by (simp_all add: overlay_def summarize_def)

lemma connection_seen: "connection_to_dto c \<noteq> StatusUnknown"
  by (cases c) simp_all

lemma index_row:
  assumes "adopted v r fl" and "catalog_device (lf_catalog fl) i = Some d"
  shows "\<exists>h. registry_device (lf_registry fl) i = Some h
    \<and> (case map_of (status_all (lf_registry fl) locked t) (ds_id d) of Some seen \<Rightarrow> overlay seen d | None \<Rightarrow> d)
        = reported (lf_registry fl) locked t h"
proof -
  have ok: "registry_ok (lf_registry fl)" using assms(1) by (simp add: adopted_def)
  have "map_option (summarize \<circ> handle_config (lf_registry fl)) (registry_device (lf_registry fl) i) = Some d"
    using adopted_catalog(3) [OF assms(1)] assms(2) by simp
  then obtain h where h: "registry_device (lf_registry fl) i = Some h" "d = summarize (handle_config (lf_registry fl) h)"
    by auto
  moreover have "ds_id d = i" using ok h by (simp add: registry_ok_def registry_device_def)
  ultimately show ?thesis by (simp add: status_all_lookup [OF ok] reported_def)
qed

lemma index_rows:
  fixes locked t
  assumes "adopted v r fl"
  defines "rows \<equiv> route_list_devices (lf_catalog fl) (status_all (lf_registry fl) locked t)"
  shows "map ds_id rows = map ds_id (mc_devices (lf_catalog fl))"
    and "row \<in> set rows \<longleftrightarrow> (\<exists>i h. registry_device (lf_registry fl) i = Some h \<and> row = reported (lf_registry fl) locked t h)"
proof -
  let ?row = "\<lambda>d. case map_of (status_all (lf_registry fl) locked t) (ds_id d) of Some seen \<Rightarrow> overlay seen d | None \<Rightarrow> d"
  have rows: "rows = map ?row (mc_devices (lf_catalog fl))" by (simp add: rows_def route_list_devices_def)
  show "map ds_id rows = map ds_id (mc_devices (lf_catalog fl))" by (auto simp: rows split: option.split)
  have known: "d \<in> set (mc_devices (lf_catalog fl)) \<longleftrightarrow> catalog_device (lf_catalog fl) (ds_id d) = Some d" for d
  proof
    have "distinct (map ds_id (mc_devices (lf_catalog fl)))"
      using adopted_catalog(1) [OF assms(1)] by (simp add: strict_sorted_iff)
    then show "d \<in> set (mc_devices (lf_catalog fl)) \<Longrightarrow> catalog_device (lf_catalog fl) (ds_id d) = Some d"
      by (auto simp: catalog_device_def intro: find_distinct_key)
  qed (auto simp: catalog_device_def dest: find_member)
  show "row \<in> set rows \<longleftrightarrow> (\<exists>i h. registry_device (lf_registry fl) i = Some h \<and> row = reported (lf_registry fl) locked t h)"
  proof
    assume "row \<in> set rows"
    then obtain d where d: "d \<in> set (mc_devices (lf_catalog fl))" "row = ?row d" by (auto simp: rows)
    show "\<exists>i h. registry_device (lf_registry fl) i = Some h \<and> row = reported (lf_registry fl) locked t h"
      using index_row [OF assms(1) iffD1 [OF known d(1)], of locked t] d(2) by auto
  next
    assume "\<exists>i h. registry_device (lf_registry fl) i = Some h \<and> row = reported (lf_registry fl) locked t h"
    then obtain i h where h: "registry_device (lf_registry fl) i = Some h" "row = reported (lf_registry fl) locked t h" by blast
    then have d: "catalog_device (lf_catalog fl) i = Some (summarize (handle_config (lf_registry fl) h))"
      using adopted_catalog(3) [OF assms(1), of i] by simp
    then have "summarize (handle_config (lf_registry fl) h) \<in> set (mc_devices (lf_catalog fl))"
      by (auto simp: catalog_device_def dest: find_member)
    then show "row \<in> set rows" using index_row [OF assms(1) d, of locked t] h by (force simp: rows)
  qed
qed

text \<open>
  C14. The inventory reports exactly the devices that run. Of a fleet in agreement, the index lists every
  registered device once, in id order, and nothing else; each row is the device's own configuration with
  the connection and the learned vetoes read from that very device, so it never says unknown. The
  page of an id gives the same row, with the latest reads of that device beside it; an id no device
  runs under is a 404. A group's id is never a device's.
\<close>

theorem inventory_reports_running_fleet:
  assumes "adopted v r fl"
  shows "let rows = route_list_devices (lf_catalog fl) (status_all (lf_registry fl) locked t);
             page = route_read_device (lf_catalog fl) (status_observe (lf_registry fl) locked t) (lf_store fl)
         in sorted_wrt (<) (map ds_id rows)
          \<and> (\<forall>row. row \<in> set rows \<longleftrightarrow> (\<exists>i h. registry_device (lf_registry fl) i = Some h
                \<and> row = reported (lf_registry fl) locked t h))
          \<and> (\<forall>row \<in> set rows. ds_status row \<noteq> StatusUnknown)
          \<and> (\<forall>i. case registry_device (lf_registry fl) i of
                None \<Rightarrow> (\<exists>msg. page i = Inl (AFNotFound msg))
              | Some h \<Rightarrow> page i = Inr \<lparr>dd_device = reported (lf_registry fl) locked t h, dd_latest = latest_all (lf_store fl) i\<rparr>
                  \<and> (\<exists>msg. route_read_group (lf_catalog fl) i = Inl (AFNotFound msg)))"
proof -
  note rows = index_rows [OF assms, where locked = locked and t = t] and cat = adopted_catalog [OF assms]
  have "case registry_device (lf_registry fl) i of
          None \<Rightarrow> (\<exists>msg. route_read_device (lf_catalog fl) (status_observe (lf_registry fl) locked t) (lf_store fl) i = Inl (AFNotFound msg))
        | Some h \<Rightarrow> route_read_device (lf_catalog fl) (status_observe (lf_registry fl) locked t) (lf_store fl) i
              = Inr \<lparr>dd_device = reported (lf_registry fl) locked t h, dd_latest = latest_all (lf_store fl) i\<rparr>
            \<and> (\<exists>msg. route_read_group (lf_catalog fl) i = Inl (AFNotFound msg))" for i
    using cat(3) [of i] cat(5) [of i]
    by (auto simp: route_read_device_def route_read_group_def reject_group_bare_def status_observe_def reported_def split: option.split)
  moreover have "ds_status (reported (lf_registry fl) locked t h) \<noteq> StatusUnknown" for h
    by (simp add: reported_def overlay_def observe_device_def connection_seen)
  ultimately show ?thesis using rows cat(1) by (auto simp: Let_def)
qed

lemma demo_running:
  assumes "adopted length_hash r (demo_fleet path)"
  shows "\<exists>h. registry_device (lf_registry (demo_fleet path)) ''a'' = Some h"
proof -
  have res: "resolve_config length_hash (written_config None) = Some (Inr r)"
    and look: "map_option (handle_config (lf_registry (demo_fleet path))) (registry_device (lf_registry (demo_fleet path)) ''a'')
      = find (\<lambda>c. dc_id c = ''a'') (rs_devices r)"
    using assms by (simp_all add: adopted_def follows_def)
  have "''a'' \<in> rw_id ` set (rc_devices (written_config None))" by (simp add: written_config_def written_device_def)
  then have "find (\<lambda>c. dc_id c = ''a'') (rs_devices r) \<noteq> None"
    unfolding find_None_iff using resolved_ids [OF res] by (metis imageE)
  then show ?thesis using look by (cases "registry_device (lf_registry (demo_fleet path)) ''a''") simp_all
qed

theorem inventory_reports_running_fleet_witness:
  "\<exists>row. row \<in> set (route_list_devices (lf_catalog (demo_fleet ''state.json''))
          (status_all (lf_registry (demo_fleet ''state.json'')) (\<lambda>_. False) (\<lambda>_. 0)))
     \<and> route_read_device (lf_catalog (demo_fleet ''state.json''))
          (status_observe (lf_registry (demo_fleet ''state.json'')) (\<lambda>_. False) (\<lambda>_. 0)) (lf_store (demo_fleet ''state.json'')) ''a''
        = Inr \<lparr>dd_device = row, dd_latest = latest_all (lf_store (demo_fleet ''state.json'')) ''a''\<rparr>"
proof -
  obtain r where r: "adopted length_hash r (demo_fleet ''state.json'')" using demo_adopted by blast
  obtain h where h: "registry_device (lf_registry (demo_fleet ''state.json'')) ''a'' = Some h" using demo_running [OF r] by blast
  note t = inventory_reports_running_fleet [OF r, of "\<lambda>_. False" "\<lambda>_. 0", unfolded Let_def]
  let ?row = "reported (lf_registry (demo_fleet ''state.json'')) (\<lambda>_. False) (\<lambda>_. 0) h"
  have "?row \<in> set (route_list_devices (lf_catalog (demo_fleet ''state.json''))
      (status_all (lf_registry (demo_fleet ''state.json'')) (\<lambda>_. False) (\<lambda>_. 0)))"
    using t h by blast
  moreover have "route_read_device (lf_catalog (demo_fleet ''state.json''))
          (status_observe (lf_registry (demo_fleet ''state.json'')) (\<lambda>_. False) (\<lambda>_. 0)) (lf_store (demo_fleet ''state.json'')) ''a''
        = Inr \<lparr>dd_device = ?row, dd_latest = latest_all (lf_store (demo_fleet ''state.json'')) ''a''\<rparr>"
    using conjunct2 [OF conjunct2 [OF conjunct2 [OF t]], rule_format, of "''a''"] h by simp
  ultimately show ?thesis by blast
qed

section \<open>A veto whose wait is over\<close>

lemma snapshot_entry:
  assumes "map_of auto f = Some vr"
  shows "\<lparr>ad_name = f, ad_refusals = vr_refusals vr, ad_disabled = (vr_vetoed_until vr \<noteq> None),
      ad_retry_in = (case vr_vetoed_until vr of Some (Some until) \<Rightarrow> if u \<le> until then Some (until - u) else None | _ \<Rightarrow> None)\<rparr>
    \<in> set (snapshot auto u)"
  using map_of_SomeD [OF assms] by (force simp: snapshot_def)

lemma map_oput_same:
  "owf m \<Longrightarrow> map_of m k = Some v \<Longrightarrow> g (k, v') = g (k, v) \<Longrightarrow> map g (oput k v' m) = map g m"
proof (induction m)
  case (Cons e m)
  then show ?case by (cases e) (auto simp: owf_Cons split: if_splits dest!: map_of_SomeD)
qed simp

text \<open>
  C38. A veto that is over is reported as one that never ends. Let a running device have a field that was vetoed
  after repeated refusals and whose wait has passed. The device will be asked for the field again on the next
  poll, for it is no longer vetoed. But its row in the index still says disabled, with no number of
  seconds left, and that is documented to mean that the field is never tried again: the row is exactly
  the one it would be if the veto stood for the life of the process.
\<close>

theorem expired_veto_reported_permanent:
  assumes "adopted v r fl" and "registry_device (lf_registry fl) i = Some h"
    and "map_of (dv_auto_disabled (deref (lf_registry fl) h)) f = Some vr"
    and "vr_vetoed_until vr = Some (Some until)" and "until < t h"
    and "f \<notin> set (dc_disabled_fields (dv_config (deref (lf_registry fl) h)))"
    and "owf (dv_auto_disabled (deref (lf_registry fl) h))"
  shows "let rows = route_list_devices (lf_catalog fl) (status_all (lf_registry fl) locked t);
             never = \<lparr>af_name = f, af_refusals = vr_refusals vr, af_disabled = True, af_retry_in_secs = None\<rparr>
         in field_veto (deref (lf_registry fl) h) (t h) f = None
          \<and> (\<exists>row \<in> set rows. ds_id row = i \<and> never \<in> set (ds_auto_disabled_fields row))
          \<and> map to_field_dto (snapshot (oput f (vr\<lparr>vr_vetoed_until := Some None\<rparr>) (dv_auto_disabled (deref (lf_registry fl) h))) (t h))
              = map to_field_dto (snapshot (dv_auto_disabled (deref (lf_registry fl) h)) (t h))"
proof -
  let ?rg = "lf_registry fl"
  let ?auto = "dv_auto_disabled (deref ?rg h)" and ?row = "reported ?rg locked t h"
  let ?never = "\<lparr>af_name = f, af_refusals = vr_refusals vr, af_disabled = True, af_retry_in_secs = None\<rparr>"
  have "field_veto (deref ?rg h) (t h) f = None" using assms(3-6) by (simp add: field_veto_def veto_def)
  moreover have "?row \<in> set (route_list_devices (lf_catalog fl) (status_all ?rg locked t))"
    using index_rows(2) [OF assms(1)] assms(2) by blast
  moreover have "ds_id ?row = i" using assms(1,2) by (simp add: reported_def adopted_def registry_ok_def registry_device_def)
  moreover have "?never \<in> set (ds_auto_disabled_fields ?row)"
  proof -
    have "?never = to_field_dto \<lparr>ad_name = f, ad_refusals = vr_refusals vr, ad_disabled = (vr_vetoed_until vr \<noteq> None),
        ad_retry_in = (case vr_vetoed_until vr of Some (Some until) \<Rightarrow> if t h \<le> until then Some (until - t h) else None | _ \<Rightarrow> None)\<rparr>"
      using assms(4,5) by (simp add: to_field_dto_def)
    then show ?thesis using snapshot_entry [OF assms(3), of "t h"]
      by (simp add: reported_def overlay_def observe_device_def)
  qed
  moreover have "map to_field_dto (snapshot (oput f (vr\<lparr>vr_vetoed_until := Some None\<rparr>) ?auto) (t h)) = map to_field_dto (snapshot ?auto (t h))"
    unfolding snapshot_def map_map using assms(4,5) by (intro map_oput_same [OF assms(7,3)]) (simp add: to_field_dto_def)
  ultimately show ?thesis unfolding Let_def by blast
qed

theorem expired_veto_reported_permanent_witness:
  "\<exists>(fl :: live_fleet) h f. field_veto (deref (lf_registry fl) h) 9 f = None
     \<and> (\<exists>row \<in> set (route_list_devices (lf_catalog fl) (status_all (lf_registry fl) (\<lambda>_. False) (\<lambda>_. 9))).
          \<lparr>af_name = f, af_refusals = 3, af_disabled = True, af_retry_in_secs = None\<rparr> \<in> set (ds_auto_disabled_fields row))"
proof -
  obtain r where r: "adopted length_hash r (demo_fleet ''state.json'')" using demo_adopted by blast
  obtain h where h: "registry_device (lf_registry (demo_fleet ''state.json'')) ''a'' = Some h" using demo_running [OF r] by blast
  let ?rg = "lf_registry (demo_fleet ''state.json'')"
  obtain f where f: "f \<notin> set (dc_disabled_fields (handle_config ?rg h))"
    using ex_new_if_finite [OF infinite_UNIV_listI finite_set] by blast
  let ?vr = "\<lparr>vr_refusals = 3, vr_vetoed_until = Some (Some 5)\<rparr>"
  define fl where "fl = (demo_fleet ''state.json'')\<lparr>lf_registry := ?rg\<lparr>ry_autos := map (\<lambda>_. [(f, ?vr)]) (ry_autos ?rg)\<rparr>\<rparr>"
  have ok: "registry_ok ?rg" using r by (simp add: adopted_def)
  then have "h < length (ry_cells ?rg)" using h by (simp add: registry_ok_def registry_device_def)
  then have auto: "dv_auto_disabled (deref (lf_registry fl) h) = [(f, ?vr)]"
    using ok by (simp add: fl_def deref_def Let_def registry_ok_def cells_ok_def)
  have config: "dv_config (deref (lf_registry fl) h) = handle_config ?rg h" by (simp add: fl_def deref_def Let_def handle_config_def)
  have ad: "adopted length_hash r fl"
    using r by (simp add: fl_def adopted_def registry_ok_def cells_ok_def identified_def follows_def handle_config_def [abs_def]
        registry_device_def [abs_def] registry_devices_def)
  have here: "registry_device (lf_registry fl) ''a'' = Some h" using h by (simp add: fl_def registry_device_def)
  have "field_veto (deref (lf_registry fl) h) 9 f = None
     \<and> (\<exists>row \<in> set (route_list_devices (lf_catalog fl) (status_all (lf_registry fl) (\<lambda>_. False) (\<lambda>_. 9))).
          \<lparr>af_name = f, af_refusals = 3, af_disabled = True, af_retry_in_secs = None\<rparr> \<in> set (ds_auto_disabled_fields row))"
    using expired_veto_reported_permanent [OF ad here, of f ?vr 5 "\<lambda>_. 9" "\<lambda>_. False"] f
    unfolding auto config Let_def by (auto simp: owf_Cons)
  then show ?thesis by blast
qed


section \<open>Repeating a request\<close>

lemma amend_result:
  assumes "amend E edit fl = (fl', Some (Inr r))"
  obtains doc where "edit (lf_document fl) = Inr doc"
    and "fl' = persist E r (fst (fleet_apply r (fl\<lparr>lf_document := lf_document fl\<lparr>rc_devices := map (\<lambda>c. raw_of c (rc_defaults (lf_document fl))) (rs_devices r),
            rc_groups := rc_groups doc\<rparr>, lf_catalog := adopt_catalog r\<rparr>)))"
    and "resolve_config (fe_new_v5 E) doc = Some (Inr r)"
  using assms by (auto simp: amend_def Let_def split: sum.splits option.splits)

lemma answered_Inr:
  assumes "refused_as (answer f x) = (fl', Some (Inr a))"
  shows "\<exists>r. x = (fl', Some (Inr r)) \<and> f r = Inr a"
proof -
  have inj: "map_sum AFInventory id z = Inr a \<longleftrightarrow> z = Inr a" for z :: "inventory_refusal + 'a" by (cases z) simp_all
  obtain fl1 res where x: "x = (fl1, res)" by (cases x)
  show ?thesis
  proof (cases res)
    case (Some y)
    then show ?thesis using assms x by (cases y) (auto simp: refused_as_def answer_def inj)
  qed (use assms x in \<open>simp add: refused_as_def answer_def\<close>)
qed

lemma put_first_resolves:
  assumes "resolve v d x = Inr c" and "rw_id x = i"
  shows "resolve_devices v d seen raws = Inr (cs, seen') \<Longrightarrow> find (\<lambda>c. dc_id c = i) cs = Some c
    \<Longrightarrow> \<exists>ds. put_first (\<lambda>d. rw_id d = i) x raws = Some ds \<and> resolve_devices v d seen ds = Inr (cs, seen')"
proof (induction raws arbitrary: seen cs)
  case (Cons raw raws)
  then obtain c' cs' where c: "rw_id raw \<notin> seen" "resolve v d raw = Inr c'"
      "resolve_devices v d (insert (rw_id raw) seen) raws = Inr (cs', seen')" "cs = c' # cs'"
    by (auto split: if_splits sum.splits prod.splits)
  note ids = resolve_Inr(1) [OF c(2)] 
  show ?case
  proof (cases "rw_id raw = i")
    case True
    then show ?thesis using Cons.prems(2) c ids assms by (auto split: if_splits)
  next
    case False
    then obtain ds where "put_first (\<lambda>d. rw_id d = i) x raws = Some ds"
        "resolve_devices v d (insert (rw_id raw) seen) ds = Inr (cs', seen')"
      using Cons.IH [OF c(3)] Cons.prems(2) c(4) ids by (auto split: if_splits)
    then show ?thesis using False c by simp
  qed
qed simp

lemma apply_again:
  assumes "adopted v r fl"
  shows "registry_apply r (lf_registry fl) = (lf_registry fl, no_change\<lparr>rx_unchanged := length (rs_devices r)\<rparr>)"
proof -
  have fol: "follows (lf_registry fl) r" and ok: "registry_ok (lf_registry fl)"
    and res: "resolve_config v (lf_document fl) = Some (Inr r)" using assms by (simp_all add: adopted_def)
  show ?thesis
    using fol by (intro registry_apply_again [OF ok resolved_distinct(1) [OF res]]) (simp_all add: follows_def)
qed

lemma raw_of_defaults: "raw_of c d = raw_of c d'"
  by (simp add: raw_of_def)

text \<open>What the edit of a \<^verbatim>\<open>PUT\<close> does to the document that an earlier one left behind.\<close>

lemma replace_edit_again:
  assumes "verb_edit (VReplace i w) doc0 = Inr doc1" and "resolve_config v doc1 = Some (Inr r)"
    and "resolve_config v doc = Some (Inr r)" and "rc_defaults doc = rc_defaults doc0"
  shows "\<exists>doc2. verb_edit (VReplace i w) doc = Inr doc2 \<and> resolve_config v doc2 = Some (Inr r) \<and> rc_groups doc2 = rc_groups doc"
proof -
  let ?x = "raw_of_write i w"
  have x: "?x \<in> set (rc_devices doc1)" "rw_id ?x = i" and d1: "rc_defaults doc1 = rc_defaults doc0"
    using assms(1) put_first_Some by (fastforce simp: raw_of_write_def split: option.splits)+
  obtain seen1 where "resolve_devices v (rc_defaults doc1) {} (rc_devices doc1) = Inr (rs_devices r, seen1)"
    using assms(2) by (auto simp: resolve_config_def split: sum.splits prod.splits option.splits)
  then have rel: "list_all2 (\<lambda>raw c. resolve v (rc_defaults doc1) raw = Inr c) (rc_devices doc1) (rs_devices r)"
    using resolve_devices_Inr by blast
  obtain c where c: "c \<in> set (rs_devices r)" "resolve v (rc_defaults doc1) ?x = Inr c"
    using list_all2_left [OF rel x(1)] by blast
  then have found: "find (\<lambda>c. dc_id c = i) (rs_devices r) = Some c"
    using find_by_id [OF resolved_distinct(1) [OF assms(2)] c(1)] resolve_Inr(1) [OF c(2)] x(2) by simp
  obtain seen where d: "resolve_devices v (rc_defaults doc) {} (rc_devices doc) = Inr (rs_devices r, seen)"
    and g: "resolve_groups (rs_devices r) seen (rc_groups doc) = Some (Inr (rs_groups r))"
    using assms(3) by (auto simp: resolve_config_def split: sum.splits prod.splits option.splits)
  have "resolve v (rc_defaults doc) ?x = Inr c" using c(2) d1 assms(4) by simp
  then obtain ds where ds: "put_first (\<lambda>d. rw_id d = i) ?x (rc_devices doc) = Some ds"
      "resolve_devices v (rc_defaults doc) {} ds = Inr (rs_devices r, seen)"
    using put_first_resolves [OF _ x(2) d found] by blast
  then show ?thesis using g by (simp add: resolve_config_def)
qed

text \<open>
  C24. The same PUT applied twice leaves the same device. Once a replacement has been carried out on a fleet in
  agreement, the same request again is answered the same, and nothing about the fleet has moved: the document,
  the catalog and the registry are what they were, so the device keeps its connection and its learned vetoes.
\<close>

theorem put_twice_same_device:
  assumes "adopted (fe_new_v5 E) r fl" and "route_replace_device E i w fl = (fl', Some (Inr summary))"
    and "hashed_apart (fe_new_v5 E) (fleet_configs (fe_new_v5 E) fl \<union> fleet_configs (fe_new_v5 E) fl')"
  shows "\<exists>fl''. route_replace_device E i w fl' = (fl'', Some (Inr summary))
    \<and> lf_registry fl'' = lf_registry fl' \<and> lf_document fl'' = lf_document fl' \<and> lf_catalog fl'' = lf_catalog fl'
    \<and> lf_outbox fl'' = lf_outbox fl' \<and> lf_store fl'' = lf_store fl'"
proof -
  let ?edit = "verb_edit (VReplace i w)"
  have stated: "\<not> (case dw_id w of Some stated \<Rightarrow> stated \<noteq> i | None \<Rightarrow> False)"
    using assms(2) by (auto simp: route_replace_device_def refused_as_def fleet_replace_def)
  have replace: "route_replace_device E i w x = refused_as (answer (\<lambda>r. summary_of r i) (amend E ?edit x))" for x
    using stated by (simp add: route_replace_device_def fleet_replace_def verb_edit.simps [abs_def])
  obtain r' where am: "amend E ?edit fl = (fl', Some (Inr r'))" and s: "summary_of r' i = Inr summary"
    using answered_Inr [OF assms(2) [unfolded replace]] by blast
  from am obtain doc1 where e1: "?edit (lf_document fl) = Inr doc1" and r1: "resolve_config (fe_new_v5 E) doc1 = Some (Inr r')"
    and d1: "lf_document fl' = lf_document fl\<lparr>rc_devices := map (\<lambda>c. raw_of c (rc_defaults (lf_document fl))) (rs_devices r'),
              rc_groups := rc_groups doc1\<rparr>" "lf_catalog fl' = adopt_catalog r'"
    by (elim amend_result) simp
  have to: "amended_to E doc1 r' fl fl'"
    using am by (cases rule: amend_cases) (use e1 in auto)
  have "fleet_configs (fe_new_v5 E) fl = set (rs_devices r)" "fleet_configs (fe_new_v5 E) fl' = set (rs_devices r')"
    using assms(1) to by (simp_all add: fleet_configs_def adopted_def amended_to_def)
  then have ad: "adopted (fe_new_v5 E) r' fl'" using amended_adopted [OF assms(1) to] assms(3) by simp
  then have "resolve_config (fe_new_v5 E) (lf_document fl') = Some (Inr r')" by (simp add: adopted_def)
  from replace_edit_again [OF e1 r1 this] d1(1)
  obtain doc2 where e2: "?edit (lf_document fl') = Inr doc2" "resolve_config (fe_new_v5 E) doc2 = Some (Inr r')"
      "rc_groups doc2 = rc_groups (lf_document fl')" by auto
  let ?same = "fl'\<lparr>lf_document := lf_document fl'\<lparr>rc_devices := map (\<lambda>c. raw_of c (rc_defaults (lf_document fl'))) (rs_devices r'),
        rc_groups := rc_groups doc2\<rparr>, lf_catalog := adopt_catalog r'\<rparr>"
  have "?same = fl'" using d1 e2(3) by (simp add: raw_of_defaults [of _ "rc_defaults (lf_document fl)"] raw_of_def)
  then have "amend E ?edit fl' = (persist E r' (fst (fleet_apply r' fl')), Some (Inr r'))"
    using e2 by (simp add: amend_def Let_def)
  then have "route_replace_device E i w fl' = (persist E r' (fst (fleet_apply r' fl')), Some (Inr summary))"
    unfolding replace by (simp add: refused_as_def answer_def s)
  then show ?thesis by (simp add: apply_again [OF ad])
qed

definition demo_put :: device_write where
  "demo_put = (demo_write ''a'')\<lparr>dw_host := ''10.0.0.19''\<rparr>"

lemma demo_put_resolves:
  "\<exists>r d. resolve_config length_hash ((written_config None)\<lparr>rc_devices := [raw_of_write ''a'' demo_put]\<rparr>) = Some (Inr r)
     \<and> rs_devices r = [d] \<and> representable d \<and> length (fingerprint_bytes d) = 229 \<and> dc_id d = ''a''"
  by (simp add: demo_fleet_defs demo_put_def representable_def small_opt_def fingerprint_bytes_def length_fingerprint
      length_le_bytes)

theorem put_twice_same_device_witness:
  "\<exists>fl' fl'' summary. route_replace_device demo_env ''a'' demo_put (demo_fleet ''state.json'') = (fl', Some (Inr summary))
     \<and> route_replace_device demo_env ''a'' demo_put fl' = (fl'', Some (Inr summary))
     \<and> lf_registry fl'' = lf_registry fl'"
proof -
  let ?fl = "demo_fleet ''state.json''" and ?doc = "(written_config None)\<lparr>rc_devices := [raw_of_write ''a'' demo_put]\<rparr>"
  obtain r0 where r0: "adopted (fe_new_v5 demo_env) r0 ?fl" "resolve_config length_hash (written_config None) = Some (Inr r0)"
    using demo_adopted by auto
  obtain c0 where c0: "rs_devices r0 = [c0]" "representable c0" "length (fingerprint_bytes c0) = 228"
    using demo_resolves r0(2) by auto
  obtain r d where r: "resolve_config length_hash ?doc = Some (Inr r)" "rs_devices r = [d]" "representable d"
    "length (fingerprint_bytes d) = 229" "dc_id d = ''a''"
    using demo_put_resolves by blast
  have e: "verb_edit (VReplace ''a'' demo_put) (lf_document ?fl) = Inr ?doc"
    by (simp add: written_config_def written_device_def)
  obtain fl' where am: "amend demo_env (verb_edit (VReplace ''a'' demo_put)) ?fl = (fl', Some (Inr r))"
    using r(1) e by (simp add: amend_def Let_def)
  obtain summary where s: "summary_of r ''a'' = Inr summary" by (simp add: summary_of_def r)
  have put: "route_replace_device demo_env ''a'' demo_put ?fl = (fl', Some (Inr summary))"
    using am s by (simp add: route_replace_device_def fleet_replace_def verb_edit.simps [abs_def] refused_as_def answer_def
        demo_put_def demo_write_def)
  have "resolve_config length_hash (lf_document fl') = Some (Inr r)"
    using am by (cases rule: amend_cases) (use e in \<open>auto simp: amended_to_def\<close>)
  then have "hashed_apart (fe_new_v5 demo_env) (fleet_configs (fe_new_v5 demo_env) ?fl \<union> fleet_configs (fe_new_v5 demo_env) fl')"
    using r c0 r0(2) by (simp add: fleet_configs_def hashed_apart_def length_hash_def inj_on_def)
  from put_twice_same_device [OF r0(1) put this] put show ?thesis by blast
qed


section \<open>A group of a device nobody configured\<close>

lemma resolve_groups_snoc:
  "resolve_groups ds seen gs = Some (Inr cs) \<Longrightarrow> resolve_groups ds (rg_id ` set gs \<union> seen) [g] = Some (Inl e)
    \<Longrightarrow> resolve_groups ds seen (gs @ [g]) = Some (Inl e)"
proof (induction gs arbitrary: seen cs)
  case (Cons x gs)
  have x: "rg_id x \<notin> seen" "rg_devices x \<noteq> []" "find (\<lambda>m. m \<notin> set (map dc_id ds)) (rg_devices x) = None"
    and "\<exists>t cs. (case rg_barrier_timeout_secs x of Some s \<Rightarrow> Some (from_secs s) | None \<Rightarrow> default_barrier_timeout ds (rg_devices x)) = Some t
      \<and> resolve_groups ds (insert (rg_id x) seen) gs = Some (Inr cs)"
    using Cons.prems(1) by (auto simp: Let_def split: if_splits option.splits sum.splits)
  then obtain t cs' where t: "(case rg_barrier_timeout_secs x of Some s \<Rightarrow> Some (from_secs s)
      | None \<Rightarrow> default_barrier_timeout ds (rg_devices x)) = Some t" "resolve_groups ds (insert (rg_id x) seen) gs = Some (Inr cs')"
    by blast
  have "resolve_groups ds (insert (rg_id x) seen) (gs @ [g]) = Some (Inl e)"
    using Cons.prems(2) by (intro Cons.IH [OF t(2)]) (simp add: insert_commute)
  then show ?case using x t(1) by (simp add: Let_def)
qed simp

text \<open>
  A new group that names an unknown device is answered as a conflict. Of a fleet in agreement, take a group under an
  id nobody has, with some member that no device runs under. The request is refused and changes
  nothing; but the answer is 409, and its text is that of a removal: the group still names the device, take it
  out of the group first. The route documents 400 for this, and there is no such group.
\<close>

theorem unknown_member_conflicts:
  assumes "adopted (fe_new_v5 E) r fl" and "gw_id w = Some i"
    and "registry_device (lf_registry fl) i = None" and "catalog_group (lf_catalog fl) i = None"
    and "find (\<lambda>m. registry_device (lf_registry fl) m = None) (gw_devices w) = Some m"
  shows "let e = AFInventory (IBlocked (''group '' @ quoted i @ '' still names device '' @ quoted m @ ''; remove it from the group first''))
         in route_add_group E w fl = (fl, Some (Inl e)) \<and> status_code e = 409 \<and> ae_code (failure_body e) = Some Conflict"
proof -
  let ?g = "raw_of_group_write i w" and ?doc = "lf_document fl"
  have res: "resolve_config (fe_new_v5 E) ?doc = Some (Inr r)" and fol: "follows (lf_registry fl) r"
    using assms(1) by (simp_all add: adopted_def)
  have known: "registry_device (lf_registry fl) j = None \<longleftrightarrow> j \<notin> dc_id ` set (rs_devices r)" for j
  proof -
    have "map_option (handle_config (lf_registry fl)) (registry_device (lf_registry fl) j) = find (\<lambda>c. dc_id c = j) (rs_devices r)"
      using fol by (simp add: follows_def)
    then have "registry_device (lf_registry fl) j = None \<longleftrightarrow> find (\<lambda>c. dc_id c = j) (rs_devices r) = None"
      by (metis option.map_disc_iff)
    then show ?thesis by (auto simp: find_None_iff)
  qed
  obtain seen where d: "resolve_devices (fe_new_v5 E) (rc_defaults ?doc) {} (rc_devices ?doc) = Inr (rs_devices r, seen)"
    and g: "resolve_groups (rs_devices r) seen (rc_groups ?doc) = Some (Inr (rs_groups r))"
    using res by (auto simp: resolve_config_def split: sum.splits prod.splits option.splits)
  have seen: "seen = dc_id ` set (rs_devices r)"
    using resolve_devices_Inr [OF d] resolved_ids [OF res] by auto
  have "find (\<lambda>g. gc_id g = i) (rs_groups r) = None"
    using assms(4) adopted_catalog(4) [OF assms(1), of i] by simp
  then have "i \<notin> gc_id ` set (rs_groups r)" by (auto simp: find_None_iff)
  then have free: "rg_id ?g \<notin> rg_id ` set (rc_groups ?doc) \<union> seen"
    using assms(3) known seen resolved_group_ids [OF res] by (simp add: raw_of_group_write_def)
  have "find (\<lambda>m. m \<notin> set (map dc_id (rs_devices r))) (gw_devices w) = Some m"
    using assms(5) by (simp add: known)
  moreover from this have "gw_devices w \<noteq> []" by auto
  ultimately have "resolve_groups (rs_devices r) (rg_id ` set (rc_groups ?doc) \<union> seen) [?g] = Some (Inl (CUnknownGroupMember i m))"
    using free by (simp add: raw_of_group_write_def)
  then have "resolve_config (fe_new_v5 E) (?doc\<lparr>rc_groups := rc_groups ?doc @ [?g]\<rparr>) = Some (Inl (CUnknownGroupMember i m))"
    using d resolve_groups_snoc [OF g] by (simp add: resolve_config_def)
  then show ?thesis
    by (simp add: route_add_group_def refused_as_def fleet_add_group_def assms(2) answer_def amend_def api_coded_def)
qed

theorem unknown_member_conflicts_witness:
  "\<exists>e. route_add_group demo_env \<lparr>gw_id = Some ''h'', gw_devices = [''a'', ''zz''], gw_barrier_timeout_secs = None, gw_barrier = None\<rparr>
          (demo_fleet ''state.json'') = (demo_fleet ''state.json'', Some (Inl e)) \<and> status_code e = 409"
proof -
  let ?fl = "demo_fleet ''state.json''"
  let ?w = "\<lparr>gw_id = Some ''h'', gw_devices = [''a'', ''zz''], gw_barrier_timeout_secs = None, gw_barrier = None\<rparr>"
  obtain r where r: "adopted (fe_new_v5 demo_env) r ?fl" using demo_adopted by auto
  then have res: "resolve_config length_hash (written_config None) = Some (Inr r)" and ok: "registry_ok (lf_registry ?fl)"
    by (simp_all add: adopted_def)
  have ids: "dc_id ` set (rs_devices r) = {''a''}" "gc_id ` set (rs_groups r) = {''g''}"
    using resolved_ids [OF res] resolved_group_ids [OF res] by (simp_all add: written_config_def written_device_def)
  have gone: "registry_device (lf_registry ?fl) j = None" if "j \<noteq> ''a''" for j
  proof -
    have "map_option (handle_config (lf_registry ?fl)) (registry_device (lf_registry ?fl) j) = find (\<lambda>c. dc_id c = j) (rs_devices r)"
      using r by (simp add: adopted_def follows_def)
    moreover have "find (\<lambda>c. dc_id c = j) (rs_devices r) = None" using ids(1) that by (auto simp: find_None_iff)
    ultimately show ?thesis by simp
  qed
  have "adopted length_hash r ?fl" using r by simp
  then obtain h where "registry_device (lf_registry ?fl) ''a'' = Some h" using demo_running by blast
  then have m: "find (\<lambda>m. registry_device (lf_registry ?fl) m = None) (gw_devices ?w) = Some ''zz''"
    using gone [of "''zz''"] by simp
  have "''h'' \<notin> gc_id ` set (rs_groups r)" using ids(2) by simp
  then have "find (\<lambda>g. gc_id g = ''h'') (rs_groups r) = None" unfolding find_None_iff by (metis imageI)
  then have h: "catalog_group (lf_catalog ?fl) ''h'' = None" using adopted_catalog(4) [OF r] by simp
  have w: "gw_id ?w = Some ''h''" by simp
  have i: "registry_device (lf_registry ?fl) ''h'' = None" by (rule gone) simp
  from unknown_member_conflicts [OF r w i h m] show ?thesis unfolding Let_def by blast
qed

section \<open>The published catalogs\<close>

definition spelled :: "instruction_summary list \<Rightarrow> string list" where
  "spelled xs = concat (map (\<lambda>s. is_name s # is_aliases s) xs)"

context name_catalog
begin

lemma own_arm: "e \<in> set cat \<Longrightarrow> arm cat (en_variant e) = Some e"
  using once by (auto simp: arm_def catalog_all_def intro: find_distinct_key)

lemma spelled_summary: "spelled (summarize_catalog cat) = concat (map spellings cat)"
proof -
  have "spelled (summarize_catalog cat)
      = concat (map (\<lambda>e. catalog_name cat (en_variant e) # tl (catalog_accepted cat (en_variant e))) cat)"
    by (simp add: spelled_def summarize_catalog_def catalog_all_def comp_def)
  also have "map (\<lambda>e. catalog_name cat (en_variant e) # tl (catalog_accepted cat (en_variant e))) cat = map spellings cat"
    by (rule map_cong [OF refl]) (simp add: catalog_name_def catalog_accepted_def own_arm)
  finally show ?thesis .
qed

lemma published: "normalize s \<in> set (spelled (summarize_catalog cat)) \<longleftrightarrow> (\<exists>v. catalog_from_str cat s = Inr v)"
  unfolding spelled_summary from_str_iff accepted_arm by auto

lemma published_once: "distinct (spelled (summarize_catalog cat))"
  unfolding spelled_summary by (rule unambiguous)

end

lemma upper_dash: "char_upper c = CHR ''-'' \<longleftrightarrow> c = CHR ''-''"
proof (cases "97 \<le> (of_char c :: nat) \<and> (of_char c :: nat) \<le> 122")
  case True
  then have "(of_char (char_upper c) :: nat) = (of_char c - 32) mod 256" by (simp add: char_upper_def)
  also have "\<dots> = of_char c - 32" using True by (intro mod_less) auto
  finally have up: "(of_char (char_upper c) :: nat) = of_char c - 32" .
  have "char_upper c \<noteq> CHR ''-''" using True up by (auto dest: arg_cong [where f = "of_char :: char \<Rightarrow> nat"])
  moreover have "c \<noteq> CHR ''-''" using True by auto
  ultimately show ?thesis by simp
qed (auto simp: char_upper_def)

lemma upper_idem: "char_upper (char_upper c) = char_upper c"
proof (cases "97 \<le> (of_char c :: nat) \<and> (of_char c :: nat) \<le> 122")
  case True
  then have "(of_char (char_upper c) :: nat) = (of_char c - 32) mod 256" by (simp add: char_upper_def)
  also have "\<dots> = of_char c - 32" using True by (intro mod_less) auto
  finally have up: "(of_char (char_upper c) :: nat) = of_char c - 32" .
  have "\<not> 97 \<le> (of_char (char_upper c) :: nat)" using True up by auto
  then show ?thesis by (simp add: char_upper_def [of "char_upper c"])
qed (auto simp: char_upper_def)

lemma upper_consts: "char_upper CHR ''_'' = CHR ''_''" "char_upper CHR ''-'' = CHR ''-''"
  by (simp_all add: char_upper_def)

lemma normalize_field_eq: "normalize_field s = normalize s"
  by (simp add: normalize_field_def normalize_def to_ascii_uppercase_def upper_dash upper_consts)

lemma normalize_idem: "normalize (normalize s) = normalize s"
  by (simp add: normalize_def to_ascii_uppercase_def upper_dash upper_consts upper_idem)

lemma metadata_is_no_setting:
  "list_all (\<lambda>n. n \<notin> set (concat (map spellings setting_catalog))) (concat (map spellings register_catalog))"
  by (simp add: register_catalog_def setting_catalog_def entry_def)

text \<open>
  C34. The two catalog routes publish exactly the names the server takes. A field can be polled just when
  its name, in any case and with dashes for underscores, is listed under the reads; the relay turns a metadata write
  into an instruction just when the name is listed under metadata, refuses such a name through the settings
  route, and knows no setting just when the name is in neither list. No spelling is listed twice in a list, and none in
  both write lists, so a name never means two instructions.
\<close>

theorem published_catalogs_exact:
  shows "((\<exists>q. catalog_from_str query_catalog raw = Inr q) \<longleftrightarrow> normalize_field raw \<in> set (spelled field_catalog))
    \<and> ((\<exists>ins. to_instruction wn (SetMetadata (normalize_field raw) v) = Inr ins)
        \<longleftrightarrow> normalize_field raw \<in> set (spelled (wc_metadata writes_catalog)))
    \<and> (to_instruction wn (SetSetting (normalize_field raw) v) = Inl (MetadataThroughSettings (normalize_field raw))
        \<longleftrightarrow> normalize_field raw \<in> set (spelled (wc_metadata writes_catalog)))
    \<and> (to_instruction wn (SetSetting (normalize_field raw) v) = Inl (UnknownSetting (normalize_field raw))
        \<longleftrightarrow> normalize_field raw \<notin> set (spelled (wc_metadata writes_catalog)) \<union> set (spelled (wc_settings writes_catalog)))
    \<and> distinct (spelled field_catalog) \<and> distinct (spelled (wc_commands writes_catalog))
    \<and> distinct (spelled (wc_metadata writes_catalog) @ spelled (wc_settings writes_catalog))"
proof -
  note names = field_catalog_def writes_catalog_def published_writes.simps normalize_field_eq
  have reg: "normalize raw \<in> set (spelled (summarize_catalog register_catalog))
      \<longleftrightarrow> (\<exists>x. catalog_from_str register_catalog (normalize raw) = Inr x)"
    and set: "normalize raw \<in> set (spelled (summarize_catalog setting_catalog))
      \<longleftrightarrow> (\<exists>x. catalog_from_str setting_catalog (normalize raw) = Inr x)"
    using registers.published [of "normalize raw"] settings.published [of "normalize raw"] by (simp_all add: normalize_idem)
  have "distinct (spelled (summarize_catalog register_catalog) @ spelled (summarize_catalog setting_catalog))"
    using registers.published_once settings.published_once metadata_is_no_setting
    by (auto simp: registers.spelled_summary settings.spelled_summary list_all_iff simp del: set_concat)
  moreover have "(\<exists>ins. to_instruction wn (SetMetadata (normalize raw) v) = Inr ins)
      \<longleftrightarrow> (\<exists>x. catalog_from_str register_catalog (normalize raw) = Inr x)"
    by (auto split: sum.split)
  moreover have "to_instruction wn (SetSetting (normalize raw) v) = Inl (MetadataThroughSettings (normalize raw))
      \<longleftrightarrow> (\<exists>x. catalog_from_str register_catalog (normalize raw) = Inr x)"
    by (auto split: sum.split)
  moreover have "to_instruction wn (SetSetting (normalize raw) v) = Inl (UnknownSetting (normalize raw))
      \<longleftrightarrow> (\<nexists>x. catalog_from_str register_catalog (normalize raw) = Inr x) \<and> (\<nexists>x. catalog_from_str setting_catalog (normalize raw) = Inr x)"
    by (auto split: sum.split)
  ultimately show ?thesis
    unfolding names using queries.published [of raw] queries.published_once commands.published_once reg set by simp
qed

end
