(* ===== verification/Spec2Isabelle.thy ===== *)
theory Spec2Isabelle
  imports Sis_Store Sis_Echo Sis_Transport Sis_Relay_Loop Sis_Poll_System Sis_Reconcile Sis_Inventory_Spec
begin

text \<open>
  \<^bold>\<open>Verification of sismatic.\<close> Sismatic runs a fleet of video recorders that speak the SIS line protocol over
  SSH. A server polls their fields into a store, takes writes over HTTP into an outbox, and delivers them to the
  devices. All source paths below are under \<^verbatim>\<open>src/crates\<close>.

  \<^bold>\<open>How the parts interact.\<close> A devices file is resolved (\<^verbatim>\<open>sismatic-core/src/devices/config.rs\<close>) into device and group
  configurations; the registry holds one \<^verbatim>\<open>Device\<close> for each, with its cached connection and the vetoes it has learned.
  One poll loop per device and field (\<^verbatim>\<open>sismatic-sync\<close>) runs queries through the device and writes what it reads to the
  store (\<^verbatim>\<open>sismatic-store-memory/src/lib.rs\<close>). A request under \<^verbatim>\<open>/v1/writes\<close> (\<^verbatim>\<open>sismatic-http-api\<close>) is expanded over a
  group's members, admitted against each member's desired recording state and appended to the outbox
  (\<^verbatim>\<open>sismatic-store-memory/src/outbox.rs\<close>); the relay task of a device (\<^verbatim>\<open>sismatic-intent-relay\<close>) claims the head of its queue,
  or a whole batch when every member's row heads its own queue, translates it and settles the outcome. The running fleet
  (\<^verbatim>\<open>sismatic-server/src/fleet.rs\<close>) changes document, registry and catalog together and wakes the reconcilers of
  poll loops, relay tasks and keepalive tasks. The settings (\<^verbatim>\<open>configuration.rs\<close>, \<^verbatim>\<open>dynamic.rs\<close>) are published to all of
  them while they run.

  \<^bold>\<open>Theories and sources.\<close>

  \<^item> \<open>Sis_Prelude\<close>, \<open>Sis_Types\<close>: ordered maps, text helpers; the wire types of \<^verbatim>\<open>sismatic-api-types\<close>.
  \<^item> \<open>Sis_Admission\<close>: \<^verbatim>\<open>sismatic-store/src/outbox.rs\<close> and \<^verbatim>\<open>group.rs\<close>. \<open>Sis_Outbox\<close>: every operation of \<^verbatim>\<open>MemoryOutbox\<close>.
    \<open>Sis_Lines\<close>: the abstract line machine it refines; \<open>Sis_Outbox_Inv\<close>, \<open>Sis_Barrier\<close>: the simulation and the invariant of the
    rendezvous; \<open>Sis_Outbox_Spec\<close>, \<open>Sis_Outbox_Calls\<close>: the properties.
  \<^item> \<open>Sis_Store\<close>: the read store and its byte ledger.
  \<^item> \<open>Sis_Text\<close>, \<open>Sis_Protocol\<close>, \<open>Sis_Catalog\<close>, \<open>Sis_Setting\<close>, \<open>Sis_Echo\<close>: UTF-8, reply parsing, the four name tables, the payload encoders and
    the echo parsers of \<^verbatim>\<open>sismatic-core/src/protocol\<close>.
  \<^item> \<open>Sis_Config\<close>, \<open>Sis_Document\<close>: resolution of a devices document, identity bytes, and what a written document reads back as.
  \<^item> \<open>Sis_Device\<close>, \<open>Sis_Device_Spec\<close>, \<open>Sis_Transport\<close>, \<open>Sis_Registry\<close>, \<open>Sis_Keepalive\<close>: one device, the SSH channel under it,
    the registry, the keepalive tasks.
  \<^item> \<open>Sis_Relay\<close>, \<open>Sis_Relay_Spec\<close>, \<open>Sis_Relay_Loop\<close>: translation, dispatch, drain, recovery, task set; the loop of one task among others.
  \<^item> \<open>Sis_Sync\<close>, \<open>Sis_Poll_Spec\<close>, \<open>Sis_Schedule\<close>, \<open>Sis_Supervise\<close>, \<open>Sis_Poll_System\<close>: a poll loop, its health
    machine, the reconciliation of loops with a schedule, the supervisor with its loops as one system of moves, and a loop with
    every other task of the program as steps between its ticks.
  \<^item> \<open>Sis_Fleet\<close>, \<open>Sis_Fleet_Spec\<close>, \<open>Sis_Reconcile\<close>: the inventory verbs, persistence and export, the reconciler.
  \<^item> \<open>Sis_Units\<close>, \<open>Sis_Settings\<close>, \<open>Sis_Settings_Spec\<close>, \<open>Sis_Live\<close>: durations and sizes, the settings document and its patches, live
    settings and the sweep.
  \<^item> \<open>Sis_Api\<close>, \<open>Sis_Api_Reads\<close>, \<open>Sis_Api_Pages\<close>, \<open>Sis_Api_Spec\<close>: failures and status codes, the write routes, the read routes with their
    filters and paged indexes. \<open>Sis_Inventory\<close>, \<open>Sis_Inventory_Spec\<close>: the inventory, config and catalog routes and the live device status.

  \<^bold>\<open>State and operations.\<close> A struct is a record with the source's fields, an enum a datatype, a \<^verbatim>\<open>BTreeMap\<close> a sorted association
  list (\<open>omap\<close>), a \<^verbatim>\<open>BTreeSet\<close> a sorted list (\<open>oset\<close>). An \<^verbatim>\<open>Arc<Device>\<close> is a handle into the list of devices ever built, and the
  learned vetoes, which a device shares with its replacement, are in a second list. A method is a function of the state that returns the
  state; a lock that makes a method atomic is that atomicity. An error is the left of a sum; a panic is \<open>None\<close>. Words keep their width
  (\<open>32 word\<close>, \<open>64 word\<close>, ports \<open>16 word\<close>); a duration is a number of nanoseconds with the source's limits written out.

  \<^bold>\<open>Parameters\<close> stand for code that is not here, each with its documented behaviour as a hypothesis where one is needed:
  chrono (the instants a deadline and a cutoff give), the parser combinators (\<open>winnow_ok\<close>), UUID version 5 hashing, the TOML, YAML and JSON readers
  and writers, the file system, the connector and the SSH library (scripts of timed results), sizes of memory layouts, the humantime and
  float lexicon, the minter of write ids, the clock and the locks held at the moment of a status request.

  \<^bold>\<open>Interfaces.\<close> \<open>name_catalog\<close> states what a name table must satisfy and is interpreted on the four tables; \<open>head_taker\<close> is the common contract of
  claiming and expiring the head of a queue; \<open>task_set\<close> is that of the relay's and the keepalive's tasks; \<open>pager\<close> is that of the two paged indexes.

  \<^bold>\<open>What is shown.\<close> The outbox refines a machine of one line per device, so a write is settled once, attempts are bounded, claims follow
  submission order as long as rows are handed out only for idle devices, a batch goes out whole or fails whole, and a row whose batch is
  forgotten bars its device for good. The relay settles whatever it claims, a drain ends,
  and a relay loop strands nothing between its turns. An
  exchange depends on the bytes of the reply alone, however the channel cuts them. The store's ledger is exact
  after every operation. What the program holds of a polled pair is what the loop's own exchanges say,
  whatever other task runs between them; the tasks that are not cancelled are those of the schedule, one per pair, ended only by
  themselves; and a shutdown drains. Resolving a document panics in exactly the cases stated. Document, registry, catalog,
  persisted file and reported inventory agree after every verb, and a repeated PUT changes nothing. The settings in force are the settings reported; a served
  document sent back is inert, unless its retention floor is of a year that RFC 3339 cannot write. A group write reaches every member or none, and following a cursor shows every row exactly once. The name tables published are
  those accepted. The catalog of a fleet in agreement is in id order (\<open>adopted_catalog\<close>), which is what the paging properties assume.
  Several properties state where the code does not do what its documents say; they are the findings of the manifest.

  \<^bold>\<open>Bounds and fuel.\<close> Loops of the source are structural or carry a measure. \<open>fetch_pages\<close>, the client that follows cursors, has one unit of fuel
  per request; the number of devices (groups) plus one is shown to be enough, for every page but the last holds a row. A drain tick carries
  fuel; more than what the retry budgets and the waiting batches leave (\<open>potential\<close>) is shown to be enough. A poll loop and a keepalive loop do not end; their properties are about any number of turns.
  Counters that the source keeps in \<^verbatim>\<open>u64\<close> or \<^verbatim>\<open>u32\<close> and only increments (epochs, attempts) are natural numbers: their wrap-around is out of
  reach of a run and is not modelled.

  \<^bold>\<open>Not modelled.\<close> The command line, the Python binding, telemetry and the assembly of processes have no logic of their own beyond
  calls to what is here. The actix routing and extraction, the OpenAPI document, the bundled UI and the JSON schema are declarations for
  third-party code. Timers and tickers are represented by the ticks they deliver, and which branch a \<open>select!\<close> takes is part of a move; log lines
  other than a poll loop's are left out. Of the overflow panics, those of resolving a document are modelled; those of adding a delay to an
  instant (\<^verbatim>\<open>delay_from\<close>, \<^verbatim>\<open>elapsed_past\<close>, the end of a veto, the cold window of a dial) are not. A call that takes several locks in turn is one step:
  \<^verbatim>\<open>upsert_latest\<close>, which locks maps and ledger apart, and \<^verbatim>\<open>LiveFleet::remove\<close>, which cancels and forgets after it released the fleet; the steps between
  which others run are the calls themselves.
\<close>

end
